(* ===== verification/Prelude.thy ===== *)
theory Prelude
  imports Main "HOL-Library.List_Lexorder" "HOL-Library.Product_Lexorder" "HOL-Library.Char_ord"
begin

text \<open>
  What every component shares: results that may be an error (a raised exception rolls its
  transaction back, so an error carries no state), tables as lists of rows in insertion order with
  the SQL operations the DAOs use, UUIDs, and decimal text.

  A \<open>uuid\<close> is a 128-bit literal that came from outside, the n-th random identifier \<open>uuid4()\<close> drew,
  or the name-based \<open>uuid5\<close> of a namespace and a name. Random draws are numbered by a counter in
  the state, so two draws never collide; the name-based ones are kept symbolic (a constructor
  instead of SHA-1), so two of them are equal exactly when namespace and name are. The order on
  \<open>uuid\<close> is what \<open>ORDER BY\<close> uses to break ties; on literals it is the numeric order, which is also
  the order of their fixed-width hexadecimal text.
\<close>

section \<open>Fact collections\<close>

named_theorems table_simps \<open>SELECT, INSERT, UPDATE and DELETE on tables\<close>
named_theorems result_simps \<open>results and loops that may raise\<close>
named_theorems frame_simps \<open>tables an operation leaves alone\<close>

section \<open>Results that may be an error\<close>

fun bindE :: "'e + 'a \<Rightarrow> ('a \<Rightarrow> 'e + 'b) \<Rightarrow> 'e + 'b" where
  "bindE (Inl e) f = Inl e"
| "bindE (Inr x) f = f x"

lemma bindE_eq_Inr [result_simps]:
  "bindE m f = Inr y \<longleftrightarrow> (\<exists>x. m = Inr x \<and> f x = Inr y)"
  by (cases m) auto

lemma bindE_eq_Inl [result_simps]:
  "bindE m f = Inl e \<longleftrightarrow> m = Inl e \<or> (\<exists>x. m = Inr x \<and> f x = Inl e)"
  by (cases m) auto

lemma bindE_InrE:
  assumes "bindE m f = Inr y"
  obtains x where "m = Inr x" "f x = Inr y"
  using assms by (cases m) auto

lemma bindE_cong [fundef_cong]:
  "m = m' \<Longrightarrow> (\<And>x. m' = Inr x \<Longrightarrow> f x = f' x) \<Longrightarrow> bindE m f = bindE m' f'"
  by (cases m') auto

lemma Inr_if_split [result_simps]:
  "(if b then Inl e else m) = Inr y \<longleftrightarrow> \<not> b \<and> m = Inr y"
  "(if b then m else Inl e) = Inr y \<longleftrightarrow> b \<and> m = Inr y"
  by auto

text \<open>A \<open>for\<close> loop over a list whose body updates the state and may raise.\<close>

fun foldE :: "('x \<Rightarrow> 's \<Rightarrow> 'e + 's) \<Rightarrow> 'x list \<Rightarrow> 's \<Rightarrow> 'e + 's" where
  "foldE f [] s = Inr s"
| "foldE f (x # xs) s = bindE (f x s) (foldE f xs)"

lemma foldE_invariant:
  assumes "foldE f xs s = Inr t" and "P s"
    and "\<And>x u v. x \<in> set xs \<Longrightarrow> f x u = Inr v \<Longrightarrow> P u \<Longrightarrow> P v"
  shows "P t"
  using assms
proof (induction xs arbitrary: s)
  case Nil
  then show ?case by simp
next
  case (Cons x xs)
  then obtain u where u: "f x s = Inr u" "foldE f xs u = Inr t"
    by (auto simp: result_simps)
  have "P u" using Cons.prems(2,3) u(1) by force
  then show ?case using Cons.IH [OF u(2)] Cons.prems(3) by force
qed

lemma foldE_frame:
  assumes "foldE f xs s = Inr t" and "\<And>x u v. f x u = Inr v \<Longrightarrow> g v = g u"
  shows "g t = g s"
  using foldE_invariant [OF assms(1), of "\<lambda>u. g u = g s"] assms(2) by auto

lemma foldE_append:
  "foldE f (xs @ ys) s = bindE (foldE f xs s) (foldE f ys)"
proof (induction xs arbitrary: s)
  case Nil
  then show ?case by simp
next
  case (Cons x xs)
  then show ?case by (cases "f x s") auto
qed

text \<open>A comprehension whose element may raise.\<close>

fun mapE :: "('x \<Rightarrow> 'e + 'y) \<Rightarrow> 'x list \<Rightarrow> 'e + 'y list" where
  "mapE f [] = Inr []"
| "mapE f (x # xs) = bindE (f x) (\<lambda>y. bindE (mapE f xs) (\<lambda>ys. Inr (y # ys)))"

lemma mapE_eq_Inr: "mapE f xs = Inr ys \<longleftrightarrow> list_all2 (\<lambda>x y. f x = Inr y) xs ys"
  by (induction xs arbitrary: ys) (auto simp: result_simps list_all2_Cons1)

section \<open>Tables\<close>

definition update_where :: "('r \<Rightarrow> bool) \<Rightarrow> ('r \<Rightarrow> 'r) \<Rightarrow> 'r list \<Rightarrow> 'r list" where
  "update_where P f rows = map (\<lambda>r. if P r then f r else r) rows"

definition delete_where :: "('r \<Rightarrow> bool) \<Rightarrow> 'r list \<Rightarrow> 'r list" where
  "delete_where P rows = filter (\<lambda>r. \<not> P r) rows"

definition count_where :: "('r \<Rightarrow> bool) \<Rightarrow> 'r list \<Rightarrow> nat" where
  "count_where P rows = length (filter P rows)"

lemma update_where_Nil [simp]: "update_where P f [] = []"
  by (simp add: update_where_def)

lemma update_where_Cons [simp]:
  "update_where P f (r # rs) = (if P r then f r else r) # update_where P f rs"
  by (simp add: update_where_def)

lemma set_update_where [table_simps]:
  "set (update_where P f rs) = (\<lambda>r. if P r then f r else r) ` set rs"
  by (simp add: update_where_def)

lemma length_update_where [simp]: "length (update_where P f rs) = length rs"
  by (simp add: update_where_def)

lemma map_update_where [table_simps]:
  "(\<And>r. r \<in> set rs \<Longrightarrow> P r \<Longrightarrow> k (f r) = k r) \<Longrightarrow> map k (update_where P f rs) = map k rs"
  by (induction rs) auto

lemma update_where_none [table_simps]:
  "(\<And>r. r \<in> set rs \<Longrightarrow> \<not> P r) \<Longrightarrow> update_where P f rs = rs"
  by (induction rs) auto

lemma update_where_cong:
  "(\<And>r. r \<in> set rs \<Longrightarrow> P r = Q r) \<Longrightarrow> update_where P f rs = update_where Q f rs"
  by (induction rs) auto

lemma update_where_merge:
  "(\<And>r. \<not> Q (f r)) \<Longrightarrow> update_where Q f (update_where P f rs) = update_where (\<lambda>r. P r \<or> Q r) f rs"
  by (induction rs) auto

lemma set_delete_where [table_simps]: "set (delete_where P rs) = {r \<in> set rs. \<not> P r}"
  by (auto simp: delete_where_def)

lemma find_Some_mem: "find P rs = Some r \<Longrightarrow> r \<in> set rs \<and> P r"
  by (auto simp: find_Some_iff in_set_conv_nth)

lemma find_append [table_simps]:
  "find P (rs @ ss) = (case find P rs of None \<Rightarrow> find P ss | Some r \<Rightarrow> Some r)"
  by (induction rs) auto

lemma find_update_where [table_simps]:
  assumes "\<And>r. r \<in> set rs \<Longrightarrow> P r \<Longrightarrow> Q (f r) = Q r"
  shows "find Q (update_where P f rs) = map_option (\<lambda>r. if P r then f r else r) (find Q rs)"
  using assms by (induction rs) auto

lemma find_key:
  assumes "distinct (map k rs)" and "r \<in> set rs"
  shows "find (\<lambda>x. k x = k r) rs = Some r"
  using assms by (induction rs) (auto simp: rev_image_eqI)

lemma find_eq_None: "find P rs = None \<longleftrightarrow> (\<forall>r \<in> set rs. \<not> P r)"
  by (auto simp: find_None_iff)

lemma distinct_key_eq:
  "distinct (map k rs) \<Longrightarrow> r \<in> set rs \<Longrightarrow> s \<in> set rs \<Longrightarrow> k r = k s \<Longrightarrow> r = s"
  by (auto simp: distinct_map inj_on_def)

lemma sorted_map_last_ge:
  "sorted (map f xs) \<Longrightarrow> x \<in> set xs \<Longrightarrow> f x \<le> f (last xs)" for f :: "'a \<Rightarrow> 'b::linorder"
  by (induction xs) auto

lemma count_where_le: "count_where P rs \<le> length rs"
  by (simp add: count_where_def)

lemma count_where_0: "count_where P rs = 0 \<longleftrightarrow> (\<forall>r \<in> set rs. \<not> P r)"
  by (auto simp: count_where_def filter_empty_conv)

section \<open>Decimal text\<close>

definition digit_char :: "nat \<Rightarrow> char" where
  "digit_char d = char_of (48 + d)"

fun nat_text :: "nat \<Rightarrow> string" where
  "nat_text n = (if n < 10 then [digit_char n] else nat_text (n div 10) @ [digit_char (n mod 10)])"

declare nat_text.simps [simp del]

definition int_text :: "int \<Rightarrow> string" where
  "int_text i = (if i < 0 then CHR ''-'' # nat_text (nat (- i)) else nat_text (nat i))"

text \<open>Decimal text names one number, and has no colon or (for naturals) sign in it.\<close>

lemma digit_char_inj: "a < 10 \<Longrightarrow> b < 10 \<Longrightarrow> digit_char a = digit_char b \<Longrightarrow> a = b"
proof -
  assume d: "a < 10" "b < 10" "digit_char a = digit_char b"
  then have "(of_char (digit_char a) :: nat) = of_char (digit_char b)" by simp
  with d(1,2) show "a = b" by (simp add: digit_char_def)
qed

lemma digit_char_other: "a < 10 \<Longrightarrow> digit_char a \<noteq> CHR '':'' \<and> digit_char a \<noteq> CHR ''-''"
proof -
  assume "a < 10"
  then have "(of_char (digit_char a) :: nat) = 48 + a" by (simp add: digit_char_def)
  then have "(of_char (digit_char a) :: nat) \<noteq> of_char (CHR '':'')" "(of_char (digit_char a) :: nat) \<noteq> of_char (CHR ''-'')"
    using \<open>a < 10\<close> by simp_all
  then show ?thesis by metis
qed

lemma nat_text_chars: "CHR '':'' \<notin> set (nat_text n) \<and> CHR ''-'' \<notin> set (nat_text n)"
proof (induction n rule: nat_text.induct)
  case (1 n)
  have "digit_char (n mod 10) \<noteq> CHR '':'' \<and> digit_char (n mod 10) \<noteq> CHR ''-''" by (rule digit_char_other) simp
  with 1 digit_char_other [of n] show ?case by (subst (1 2) nat_text.simps) auto
qed

lemma nat_text_inj: "nat_text a = nat_text b \<Longrightarrow> a = b"
proof (induction a arbitrary: b rule: nat_text.induct)
  case (1 a)
  have nonempty: "nat_text n \<noteq> []" for n by (subst nat_text.simps) simp
  show ?case
  proof (cases "a < 10")
    case True
    with 1(2) nonempty [of "b div 10"] show ?thesis
      by (auto simp: nat_text.simps [of a] nat_text.simps [of b] dest: digit_char_inj split: if_splits)
  next
    case False
    with 1(2) nonempty [of "a div 10"] have b: "\<not> b < 10" "nat_text (a div 10) = nat_text (b div 10)" "digit_char (a mod 10) = digit_char (b mod 10)"
      by (auto simp: nat_text.simps [of a] nat_text.simps [of b] split: if_splits)
    from 1(1) [OF False b(2)] digit_char_inj [OF _ _ b(3)] have "a div 10 = b div 10" "a mod 10 = b mod 10" by simp_all
    then show ?thesis by (metis div_mult_mod_eq)
  qed
qed

lemma int_text_colon: "CHR '':'' \<notin> set (int_text i)"
  by (simp add: int_text_def nat_text_chars)

lemma int_text_inj: "int_text i = int_text j \<Longrightarrow> i = j"
proof -
  assume e: "int_text i = int_text j"
  have "CHR ''-'' # s \<noteq> nat_text n" for s n using nat_text_chars [of n] by (metis list.set_intros(1))
  with e show ?thesis by (auto simp: int_text_def dest!: nat_text_inj split: if_splits) (metis)+
qed

lemma colon_split: "CHR '':'' \<notin> set a \<Longrightarrow> CHR '':'' \<notin> set b \<Longrightarrow> a @ '':'' @ s = b @ '':'' @ t \<Longrightarrow> a = b \<and> s = t"
  by (induction a arbitrary: b) (case_tac b; force)+

definition pad_left :: "nat \<Rightarrow> string \<Rightarrow> string" where
  "pad_left w s = replicate (w - length s) (CHR ''0'') @ s"

fun join_text :: "string \<Rightarrow> string list \<Rightarrow> string" where
  "join_text sep [] = []"
| "join_text sep [x] = x"
| "join_text sep (x # y # ys) = x @ sep @ join_text sep (y # ys)"

section \<open>UUIDs\<close>

datatype uuid = UUID nat | UUID4 nat | UUID5 uuid string

primrec uuid_key :: "uuid \<Rightarrow> nat list" where
  "uuid_key (UUID n) = [0, n]"
| "uuid_key (UUID4 n) = [2, n]"
| "uuid_key (UUID5 ns name) = 1 # length name # map of_char name @ uuid_key ns"

lemma uuid_key_inj: "uuid_key u = uuid_key v \<Longrightarrow> u = v"
proof (induction u arbitrary: v)
  case (UUID n)
  then show ?case by (cases v) auto
next
  case (UUID4 n)
  then show ?case by (cases v) auto
next
  case (UUID5 ns name)
  then show ?case
  proof (cases v)
    case (UUID m)
    with UUID5.prems show ?thesis by simp
  next
    case (UUID4 m)
    with UUID5.prems show ?thesis by simp
  next
    case v: (UUID5 ns' name')
    with UUID5.prems have "length name = length name'"
      and "map of_char name @ uuid_key ns = (map of_char name' @ uuid_key ns' :: nat list)" by auto
    then have "map of_char name = (map of_char name' :: nat list)" "uuid_key ns = uuid_key ns'"
      by auto
    then have "name = name'"
      using inj_map_eq_map [OF inj_of_char] by blast
    moreover from \<open>uuid_key ns = uuid_key ns'\<close> have "ns = ns'"
      by (rule UUID5.IH)
    ultimately have "name = name'" and "ns = ns'" by simp_all
    with v show ?thesis by simp
  qed
qed

instantiation uuid :: linorder
begin

definition less_eq_uuid :: "uuid \<Rightarrow> uuid \<Rightarrow> bool" where
  "less_eq_uuid u v = (uuid_key u \<le> uuid_key v)"

definition less_uuid :: "uuid \<Rightarrow> uuid \<Rightarrow> bool" where
  "less_uuid u v = (uuid_key u < uuid_key v)"

instance
  by intro_classes (auto simp: less_eq_uuid_def less_uuid_def dest: uuid_key_inj)

end

text \<open>The text of an identifier, as the f-strings of the source interpolate it.\<close>

definition hex_digit :: "nat \<Rightarrow> char" where
  "hex_digit d = (if d < 10 then char_of (48 + d) else char_of (87 + d))"

fun hex_text :: "nat \<Rightarrow> nat \<Rightarrow> string" where
  "hex_text 0 n = []"
| "hex_text (Suc w) n = hex_text w (n div 16) @ [hex_digit (n mod 16)]"

definition dashed_hex :: "nat \<Rightarrow> string" where
  "dashed_hex n =
     (let h = hex_text 32 n in
        take 8 h @ ''-'' @ take 4 (drop 8 h) @ ''-'' @ take 4 (drop 12 h) @ ''-''
          @ take 4 (drop 16 h) @ ''-'' @ drop 20 h)"

primrec uuid_text :: "uuid \<Rightarrow> string" where
  "uuid_text (UUID n) = dashed_hex n"
| "uuid_text (UUID4 n) = ''uuid4('' @ nat_text n @ '')''"
| "uuid_text (UUID5 ns name) = ''uuid5('' @ uuid_text ns @ '','' @ name @ '')''"

end
