(* ===== verification/Contracts.thy ===== *)
theory Contracts
  imports Prelude
begin

text \<open>
  \<open>murder/contracts/common.py\<close> and the value types every feature shares: principals, correlation,
  the request envelope, JSON documents, and instants. An instant is an \<open>int\<close>, microseconds since
  the Unix epoch in UTC: the code normalises every aware \<open>datetime\<close> to UTC, and its ISO text
  columns compare like the instants they encode. A \<open>timedelta\<close> is a difference of instants.

  A JSON column holds the value it encodes; numbers are integers, since no modelled document
  stores another kind.
\<close>

type_synonym time = int

definition microseconds :: "int \<Rightarrow> int" where
  "microseconds s = s * 1000000"

lemma microseconds_pos [simp]: "0 < microseconds s \<longleftrightarrow> 0 < s"
  by (simp add: microseconds_def)

text \<open>
  The ISO text of an instant, \<open>datetime.isoformat\<close> in UTC: the civil date of a day number (years of
  400, in the proleptic Gregorian calendar) and the time of day, with six digits of microseconds
  always (\<open>timespec="microseconds"\<close>) or only when they are not zero.
\<close>

definition civil_date :: "int \<Rightarrow> int \<times> int \<times> int" where
  "civil_date days =
     (let z = days + 719468;
          era = z div 146097;
          doe = z mod 146097;
          yoe = (doe - doe div 1460 + doe div 36524 - doe div 146096) div 365;
          doy = doe - (365 * yoe + yoe div 4 - yoe div 100);
          mp = (5 * doy + 2) div 153;
          d = doy - (153 * mp + 2) div 5 + 1;
          m = (if mp < 10 then mp + 3 else mp - 9);
          y = yoe + era * 400 + (if m \<le> 2 then 1 else 0)
      in (y, m, d))"

definition two_digits :: "int \<Rightarrow> string" where
  "two_digits n = pad_left 2 (nat_text (nat n))"

definition iso_seconds :: "time \<Rightarrow> string" where
  "iso_seconds t =
     (let secs = t div 1000000;
          (y, m, d) = civil_date (secs div 86400);
          s = secs mod 86400
      in pad_left 4 (nat_text (nat y)) @ ''-'' @ two_digits m @ ''-'' @ two_digits d @ ''T'' @
         two_digits (s div 3600) @ '':'' @ two_digits (s div 60 mod 60) @ '':'' @ two_digits (s mod 60))"

definition iso_micros :: "time \<Rightarrow> string" where
  "iso_micros t = iso_seconds t @ ''.'' @ pad_left 6 (nat_text (nat (t mod 1000000))) @ ''+00:00''"

definition isoformat :: "time \<Rightarrow> string" where
  "isoformat t = (if t mod 1000000 = 0 then iso_seconds t @ ''+00:00'' else iso_micros t)"

lemma iso_micros_T: "CHR ''T'' \<in> set (iso_micros t)"
  by (cases "civil_date (t div 1000000 div 86400)") (simp add: iso_micros_def iso_seconds_def Let_def)

definition namespace_url :: uuid where
  "namespace_url = UUID 0x6ba7b8119dad11d180b400c04fd430c8"

datatype json =
    JNull
  | JBool bool
  | JInt int
  | JStr string
  | JList "json list"
  | JObj "(string \<times> json) list"

type_synonym json_object = "(string \<times> json) list"

section \<open>Principals and correlation\<close>

datatype principal_kind = USER | CLIENT | WORKFLOW | SERVICE | REVIEWER | LLM

fun principal_kind_value :: "principal_kind \<Rightarrow> string" where
  "principal_kind_value USER = ''user''"
| "principal_kind_value CLIENT = ''client''"
| "principal_kind_value WORKFLOW = ''workflow''"
| "principal_kind_value SERVICE = ''service''"
| "principal_kind_value REVIEWER = ''reviewer''"
| "principal_kind_value LLM = ''llm''"

record principal =
  principal_kind :: principal_kind
  principal_id :: string

record correlation =
  correlation_id :: uuid
  causation_id :: "uuid option"
  trace_id :: "uuid option"

definition plain_correlation :: "uuid \<Rightarrow> correlation" where
  "plain_correlation u = \<lparr>correlation_id = u, causation_id = None, trace_id = None\<rparr>"

definition causation :: "correlation \<Rightarrow> uuid option" where
  "causation c = (if causation_id c = None then None else causation_id c)"

record request_context =
  request_id :: uuid
  request_correlation :: correlation
  expected_revision :: "int option"

section \<open>Domain request identifiers\<close>

text \<open>
  \<open>str.strip\<close> removes ASCII white space here, and \<open>parse_uuid\<close> stands for the constructor
  \<open>uuid.UUID\<close> on text, which is the caller's: it returns no value where the constructor raises.
\<close>

definition is_space :: "char \<Rightarrow> bool" where
  "is_space c \<longleftrightarrow> c \<in> {CHR '' '', CHR 0x09, CHR 0x0A, CHR 0x0B, CHR 0x0C, CHR 0x0D, CHR 0x1C, CHR 0x1D, CHR 0x1E, CHR 0x1F}"

definition strip :: "string \<Rightarrow> string" where
  "strip s = rev (dropWhile is_space (rev (dropWhile is_space s)))"

definition starts_with :: "string \<Rightarrow> string \<Rightarrow> bool" where
  "starts_with p s \<longleftrightarrow> take (length p) s = p"

fun strip_wire_prefix :: "string list \<Rightarrow> string \<Rightarrow> string" where
  "strip_wire_prefix [] text = text"
| "strip_wire_prefix (p # ps) text =
     (if starts_with p text then drop (length p) text else strip_wire_prefix ps text)"

definition try_parse_domain_request_id ::
    "(string \<Rightarrow> uuid option) \<Rightarrow> string \<Rightarrow> uuid option" where
  "try_parse_domain_request_id parse_uuid value =
     (let text = strip value in
        if text = [] then None
        else parse_uuid (strip_wire_prefix [''request-'', ''req-''] text))"

definition domain_request_id ::
    "(string \<Rightarrow> uuid option) \<Rightarrow> uuid option \<Rightarrow> string option \<Rightarrow> nat \<Rightarrow> uuid \<times> nat" where
  "domain_request_id parse_uuid explicit wire_request_id draws =
     (case explicit of
        Some u \<Rightarrow> (u, draws)
      | None \<Rightarrow>
          (case Option.bind wire_request_id (try_parse_domain_request_id parse_uuid) of
             Some u \<Rightarrow> (u, draws)
           | None \<Rightarrow> (UUID4 draws, Suc draws)))"

definition request_context_for ::
    "(string \<Rightarrow> uuid option) \<Rightarrow> uuid option \<Rightarrow> string option \<Rightarrow> int option \<Rightarrow> uuid option
       \<Rightarrow> uuid option \<Rightarrow> nat \<Rightarrow> request_context \<times> nat" where
  "request_context_for parse_uuid explicit wire revision cause trace draws =
     (let (rid, draws') = domain_request_id parse_uuid explicit wire draws in
        (\<lparr>request_id = rid,
          request_correlation = \<lparr>correlation_id = rid, causation_id = cause, trace_id = trace\<rparr>,
          expected_revision = revision\<rparr>, draws'))"

section \<open>Exceptions\<close>

text \<open>
  One constructor per exception class the modelled modules raise; what the message interpolates is
  an argument where another part of the code or a theorem looks at it.
\<close>

datatype exn =
    ValueError string
  | KeyError string
  | AssertionError
  | IntegrityError
  | FactIdentityConflictError uuid
  | ReplayGapError int
  | WorkflowNotFoundError uuid
  | StaleWorkflowRevisionError uuid int int
  | SignalDeduplicationConflictError string
  | SignalConsumptionError string
  | WorkflowStateMigrationRequiredError
  | TerminalWorkflowTransitionError uuid
  | WorkflowDefinitionUnavailableError
  | ValidationError
  | ActivityLifecycleError string
  | SessionNotFoundError uuid
  | SessionRevisionConflictError "int option" int
  | StaleWriterLeaseError string
  | WriterLeaseRequiredError string
  | SessionControllerError string
  | SessionControllerClosedError
  | SessionCapabilityError
  | SessionAuthorizationError
  | BackendError
  | InvalidTransition string
  | IndexError
  | TypeError
  | GrantConsumptionError string
  | PermissionDeniedError string
  | ApprovalRequiredError uuid
  | InvalidAuthorizationError string

end
