(* ===== verification/FactLog.thy ===== *)
theory FactLog
  imports Contracts
begin

text \<open>
  The append-only fact log and the projection-input log, \<open>murder/facts/log.py\<close>, with the typed
  payloads of \<open>murder/facts/contracts.py\<close>. The tables are shared by all repositories of a user; a
  \<open>RepoDb\<close> is the pair of a repository id (the argument \<open>repo\<close>) and the database. The record
  \<open>fact_db\<close> holds the two tables, their \<open>AUTOINCREMENT\<close> counters and the counter of \<open>uuid4()\<close>
  draws; the databases of the other features extend it, and every operation here leaves their
  tables alone. \<open>json_payload\<close> bodies are kept as the payload they encode.

  Lemmas: both logs only grow, their sequence numbers stay strictly increasing, a repeated append
  changes nothing, and the locale \<open>fact_sink\<close> states what the features that write facts rely on.
\<close>

section \<open>Typed payloads\<close>

record aggregate_ref =
  aggregate_kind :: string
  aggregate_id :: uuid
  aggregate_revision :: "int option"

record fact_actor =
  actor_kind :: string
  actor_id :: string

definition fact_actor :: "principal \<Rightarrow> fact_actor" where
  "fact_actor p = \<lparr>actor_kind = principal_kind_value (principal_kind p), actor_id = principal_id p\<rparr>"

datatype fact_payload =
    WorkflowTransitionAppliedPayload uuid string string int
  | WorkflowStartedPayload uuid string int string
  | WorkflowStateMigratedPayload uuid string string int string int int
  | WorkflowOutcomeRecordedPayload uuid string string "string option"
  | ActivityStateChangedPayload string uuid uuid string int int int
  | ActivityOutcomeRecordedPayload string uuid uuid int json_object
  | WriterLeaseAcquiredPayload uuid uuid string int time
  | WriterLeaseRenewedPayload uuid uuid string int time
  | WriterLeaseReleasedPayload uuid uuid string int string
  | WriterLeaseRevokedPayload uuid uuid string int string
  | WriterLeaseTakeoverPayload uuid uuid int uuid string int string time
  | SessionLifecyclePayload string uuid "string option" string int string string
  | PrivateFactPayload string json_object

fun fact_kind :: "fact_payload \<Rightarrow> string" where
  "fact_kind (WorkflowTransitionAppliedPayload _ _ _ _) = ''workflow.transition.applied''"
| "fact_kind (WorkflowStartedPayload _ _ _ _) = ''workflow.started''"
| "fact_kind (WorkflowStateMigratedPayload _ _ _ _ _ _ _) = ''workflow.state.migrated''"
| "fact_kind (WorkflowOutcomeRecordedPayload _ _ _ _) = ''workflow.outcome.recorded''"
| "fact_kind (ActivityStateChangedPayload t _ _ _ _ _ _) = t"
| "fact_kind (ActivityOutcomeRecordedPayload t _ _ _ _) = t"
| "fact_kind (WriterLeaseAcquiredPayload _ _ _ _ _) = ''session.writer.acquired''"
| "fact_kind (WriterLeaseRenewedPayload _ _ _ _ _) = ''session.writer.renewed''"
| "fact_kind (WriterLeaseReleasedPayload _ _ _ _ _) = ''session.writer.released''"
| "fact_kind (WriterLeaseRevokedPayload _ _ _ _ _) = ''session.writer.revoked''"
| "fact_kind (WriterLeaseTakeoverPayload _ _ _ _ _ _ _ _) = ''session.writer.takeover''"
| "fact_kind (SessionLifecyclePayload t _ _ _ _ _ _) = t"
| "fact_kind (PrivateFactPayload k _) = k"

definition public_fact_types :: "string list" where
  "public_fact_types =
     [''workflow.started'', ''workflow.transition.applied'', ''workflow.state.migrated'',
      ''workflow.outcome.recorded'',
      ''activity.created'', ''activity.routed'', ''activity.admitted'', ''activity.claimed'',
      ''activity.claim_renewed'', ''activity.started'', ''activity.claim_reaped'',
      ''activity.succeeded'', ''activity.failed'', ''activity.cancelled'',
      ''session.writer.acquired'', ''session.writer.renewed'', ''session.writer.released'',
      ''session.writer.revoked'', ''session.writer.takeover'',
      ''session.ready'', ''session.stopped'', ''session.failed'', ''session.lost'']"

definition is_public :: "string \<Rightarrow> bool" where
  "is_public kind = List.member public_fact_types kind"

text \<open>
  \<open>PrivateFactPayload\<close> refuses a registered public kind and an empty one. The reconstruction of a
  public payload, and of a body that is itself marked \<open>fact.private\<close>, is pydantic's: \<open>validate\<close>.
\<close>

definition private_payload :: "string \<Rightarrow> json_object \<Rightarrow> exn + fact_payload" where
  "private_payload kind data =
     (if kind = [] \<or> length kind > 200 \<or> is_public kind then Inl ValidationError
      else Inr (PrivateFactPayload kind data))"

definition fact_payload_from_storage ::
    "(json_object \<Rightarrow> exn + fact_payload) \<Rightarrow> string \<Rightarrow> json_object \<Rightarrow> exn + fact_payload" where
  "fact_payload_from_storage validate kind raw =
     (if map_of raw ''type'' = Some (JStr ''fact.private'') then validate raw
      else if is_public kind then
        validate (if map_of raw ''type'' \<noteq> None then raw else raw @ [(''type'', JStr kind)])
      else private_payload kind raw)"

section \<open>Drafts, rows and the database\<close>

record fact_draft =
  fact_id :: uuid
  schema_version :: int
  occurred_at :: time
  aggregate :: "aggregate_ref option"
  actor :: fact_actor
  fact_correlation :: correlation
  payload :: fact_payload

definition draft_kind :: "'a fact_draft_scheme \<Rightarrow> string" where
  "draft_kind d = fact_kind (payload d)"

record fact_row = fact_draft +
  fact_sequence :: nat
  fact_repository :: string
  fact_row_kind :: string
  recorded_at :: time

record projection_input_draft =
  input_id :: uuid
  projection :: string
  subject_key :: string
  generation :: int

record projection_input_row = projection_input_draft +
  input_sequence :: nat
  input_repository :: string
  source_fact_id :: "uuid option"
  input_created_at :: time

record fact_db =
  retained_facts :: "fact_row list"
  projection_inputs :: "projection_input_row list"
  next_fact_sequence :: nat
  next_input_sequence :: nat
  uuid_draws :: nat

definition empty_fact_db :: fact_db where
  "empty_fact_db = \<lparr>retained_facts = [], projection_inputs = [], next_fact_sequence = 1,
     next_input_sequence = 1, uuid_draws = 0\<rparr>"

definition uuid4 :: "'z fact_db_scheme \<Rightarrow> uuid \<times> 'z fact_db_scheme" where
  "uuid4 db = (UUID4 (uuid_draws db), db\<lparr>uuid_draws := Suc (uuid_draws db)\<rparr>)"

section \<open>Appending\<close>

definition fact_row_of :: "string \<Rightarrow> uuid \<Rightarrow> 'z fact_db_scheme \<Rightarrow> fact_row option" where
  "fact_row_of repo fid db =
     find (\<lambda>r. fact_repository r = repo \<and> fact_id r = fid) (retained_facts db)"

definition same_fact :: "fact_row \<Rightarrow> fact_draft \<Rightarrow> bool" where
  "same_fact row draft \<longleftrightarrow>
     fact_row_kind row = draft_kind draft \<and> schema_version row = schema_version draft \<and>
     occurred_at row = occurred_at draft \<and> aggregate row = aggregate draft \<and>
     actor row = actor draft \<and> fact_correlation row = fact_correlation draft \<and>
     payload row = payload draft"

definition fact_row_from_draft :: "nat \<Rightarrow> string \<Rightarrow> time \<Rightarrow> fact_draft \<Rightarrow> fact_row" where
  "fact_row_from_draft n repo ts d =
     \<lparr>fact_id = fact_id d, schema_version = schema_version d, occurred_at = occurred_at d,
      aggregate = aggregate d, actor = actor d, fact_correlation = fact_correlation d,
      payload = payload d, fact_sequence = n, fact_repository = repo,
      fact_row_kind = draft_kind d, recorded_at = ts\<rparr>"

definition insert_fact :: "string \<Rightarrow> fact_draft \<Rightarrow> time \<Rightarrow> 'z fact_db_scheme \<Rightarrow>
    exn + 'z fact_db_scheme" where
  "insert_fact repo draft ts db =
     (if list_ex (\<lambda>r. fact_id r = fact_id draft) (retained_facts db) then Inl IntegrityError
      else Inr (db\<lparr>retained_facts := retained_facts db @
                     [fact_row_from_draft (next_fact_sequence db) repo ts draft],
                   next_fact_sequence := Suc (next_fact_sequence db)\<rparr>))"

definition projection_conflict ::
    "string \<Rightarrow> uuid \<Rightarrow> projection_input_draft \<Rightarrow> projection_input_row \<Rightarrow> bool" where
  "projection_conflict repo fid item r \<longleftrightarrow>
     (input_repository r = repo \<and> input_id r = input_id item) \<or>
     (source_fact_id r = Some fid \<and> projection r = projection item \<and>
      subject_key r = subject_key item \<and> generation r = generation item)"

definition projection_row ::
    "nat \<Rightarrow> string \<Rightarrow> uuid option \<Rightarrow> time \<Rightarrow> projection_input_draft \<Rightarrow> projection_input_row" where
  "projection_row n repo src ts item =
     \<lparr>input_id = input_id item, projection = projection item, subject_key = subject_key item,
      generation = generation item, input_sequence = n, input_repository = repo,
      source_fact_id = src, input_created_at = ts\<rparr>"

definition insert_projection_input :: "string \<Rightarrow> uuid \<Rightarrow> time \<Rightarrow> projection_input_draft \<Rightarrow>
    'z fact_db_scheme \<Rightarrow> 'z fact_db_scheme" where
  "insert_projection_input repo fid ts item db =
     (if list_ex (projection_conflict repo fid item) (projection_inputs db) then db
      else db\<lparr>projection_inputs := projection_inputs db @
                [projection_row (next_input_sequence db) repo (Some fid) ts item],
              next_input_sequence := Suc (next_input_sequence db)\<rparr>)"

definition append_fact :: "string \<Rightarrow> fact_draft \<Rightarrow> projection_input_draft list \<Rightarrow> time \<Rightarrow>
    'z fact_db_scheme \<Rightarrow> exn + (fact_row \<times> projection_input_row list) \<times> 'z fact_db_scheme" where
  "append_fact repo draft inputs ts db =
     bindE
       (case fact_row_of repo (fact_id draft) db of
          None \<Rightarrow> insert_fact repo draft ts db
        | Some existing \<Rightarrow>
            if same_fact existing draft then Inr db
            else Inl (FactIdentityConflictError (fact_id draft)))
       (\<lambda>db1. let db2 = fold (insert_projection_input repo (fact_id draft) ts) inputs db1 in
          case fact_row_of repo (fact_id draft) db2 of
            None \<Rightarrow> Inl AssertionError
          | Some row \<Rightarrow>
              Inr ((row, filter (\<lambda>r. input_repository r = repo \<and>
                                     source_fact_id r = Some (fact_id draft))
                           (projection_inputs db2)), db2))"

text \<open>What the features use: the appended records are dropped, the database is kept.\<close>

definition append_fact_db :: "string \<Rightarrow> fact_draft \<Rightarrow> projection_input_draft list \<Rightarrow> time \<Rightarrow>
    'z fact_db_scheme \<Rightarrow> exn + 'z fact_db_scheme" where
  "append_fact_db repo draft inputs ts db =
     bindE (append_fact repo draft inputs ts db) (\<lambda>p. Inr (snd p))"

definition append_projection_input :: "string \<Rightarrow> projection_input_draft \<Rightarrow> time \<Rightarrow>
    'z fact_db_scheme \<Rightarrow> exn + projection_input_row \<times> 'z fact_db_scheme" where
  "append_projection_input repo draft ts db =
     (let db1 =
        (if list_ex (\<lambda>r. input_repository r = repo \<and> input_id r = input_id draft)
              (projection_inputs db) then db
         else db\<lparr>projection_inputs := projection_inputs db @
                   [projection_row (next_input_sequence db) repo None ts draft],
                 next_input_sequence := Suc (next_input_sequence db)\<rparr>)
      in case find (\<lambda>r. input_repository r = repo \<and> input_id r = input_id draft)
                (projection_inputs db1) of
           None \<Rightarrow> Inl AssertionError
         | Some r \<Rightarrow>
             if projection r \<noteq> projection draft \<or> subject_key r \<noteq> subject_key draft \<or>
                generation r \<noteq> generation draft
             then Inl (FactIdentityConflictError (input_id draft))
             else Inr (r, db1))"

definition get_fact :: "string \<Rightarrow> uuid \<Rightarrow> 'z fact_db_scheme \<Rightarrow> fact_row option" where
  "get_fact repo fid db = fact_row_of repo fid db"

section \<open>Replay, cursors and retention\<close>

definition replay_facts :: "string \<Rightarrow> int \<Rightarrow> string option \<Rightarrow> string list \<Rightarrow> int option \<Rightarrow> int \<Rightarrow>
    'z fact_db_scheme \<Rightarrow> exn + fact_row list" where
  "replay_facts repo after_sequence kind kinds until_sequence limit db =
     (if after_sequence < 0 then Inl (ValueError ''after_sequence must not be negative'')
      else if limit < 1 then Inl (ValueError ''limit must be positive'')
      else if kind \<noteq> None \<and> kinds \<noteq> [] then
        Inl (ValueError ''kind and kinds are mutually exclusive'')
      else if (case until_sequence of None \<Rightarrow> False | Some u \<Rightarrow> u < after_sequence) then Inr []
      else Inr (take (nat limit)
             (sort_key fact_sequence
               (filter (\<lambda>r. fact_repository r = repo \<and> after_sequence < int (fact_sequence r) \<and>
                  (case kind of Some k \<Rightarrow> fact_row_kind r = k
                   | None \<Rightarrow> kinds = [] \<or> List.member kinds (fact_row_kind r)) \<and>
                  (case until_sequence of None \<Rightarrow> True | Some u \<Rightarrow> int (fact_sequence r) \<le> u))
                 (retained_facts db)))))"

definition replay_projection_inputs :: "string \<Rightarrow> string option \<Rightarrow> string list \<Rightarrow> int \<Rightarrow>
    int option \<Rightarrow> int \<Rightarrow> 'z fact_db_scheme \<Rightarrow> exn + projection_input_row list" where
  "replay_projection_inputs repo proj projs after_sequence until_sequence limit db =
     (if proj = Some [] then Inl (ValueError ''projection must not be empty'')
      else if proj \<noteq> None \<and> projs \<noteq> [] then
        Inl (ValueError ''projection and projections are mutually exclusive'')
      else if after_sequence < 0 then Inl (ValueError ''after_sequence must not be negative'')
      else if limit < 1 then Inl (ValueError ''limit must be positive'')
      else if (case until_sequence of None \<Rightarrow> False | Some u \<Rightarrow> u < after_sequence) then Inr []
      else Inr (take (nat limit)
             (sort_key input_sequence
               (filter (\<lambda>r. input_repository r = repo \<and> after_sequence < int (input_sequence r) \<and>
                  (case proj of Some k \<Rightarrow> projection r = k
                   | None \<Rightarrow> projs = [] \<or> List.member projs (projection r)) \<and>
                  (case until_sequence of None \<Rightarrow> True | Some u \<Rightarrow> int (input_sequence r) \<le> u))
                 (projection_inputs db)))))"

text \<open>\<open>_watermark\<close>, \<open>_cursor_retained\<close> and \<open>_record_overage\<close> read a table's sequence numbers.\<close>

definition watermark :: "nat list \<Rightarrow> nat" where
  "watermark seqs = foldr max seqs 0"

definition cursor_retained :: "nat list \<Rightarrow> int \<Rightarrow> bool" where
  "cursor_retained seqs cursor =
     (if cursor < 0 \<or> int (watermark seqs) < cursor then False
      else case seqs of
             [] \<Rightarrow> cursor = 0
           | n # ns \<Rightarrow> int (foldr min ns n) - 1 \<le> cursor)"

definition fact_sequences :: "string \<Rightarrow> 'z fact_db_scheme \<Rightarrow> nat list" where
  "fact_sequences repo db =
     map fact_sequence (filter (\<lambda>r. fact_repository r = repo) (retained_facts db))"

definition input_sequences :: "string \<Rightarrow> 'z fact_db_scheme \<Rightarrow> nat list" where
  "input_sequences repo db =
     map input_sequence (filter (\<lambda>r. input_repository r = repo) (projection_inputs db))"

definition is_cursor_retained :: "string \<Rightarrow> int \<Rightarrow> 'z fact_db_scheme \<Rightarrow> bool" where
  "is_cursor_retained repo cursor db = cursor_retained (fact_sequences repo db) cursor"

definition is_input_cursor_retained :: "string \<Rightarrow> int \<Rightarrow> 'z fact_db_scheme \<Rightarrow> bool" where
  "is_input_cursor_retained repo cursor db = cursor_retained (input_sequences repo db) cursor"

definition record_overage :: "nat list \<Rightarrow> int \<Rightarrow> int" where
  "record_overage seqs minimum = int (length seqs) - minimum"

text \<open>One turn of the loop of \<open>FactLog.tail\<close>: what it yields and the cursor it goes on from.\<close>

definition fact_tail_poll :: "string \<Rightarrow> string list \<Rightarrow> int \<Rightarrow> 'z fact_db_scheme \<Rightarrow>
    exn + fact_row list \<times> int" where
  "fact_tail_poll repo kinds cursor db =
     (if \<not> is_cursor_retained repo cursor db then Inl (ReplayGapError cursor)
      else bindE (replay_facts repo cursor None kinds None 100000 db)
        (\<lambda>records. Inr (records,
           if records = [] then cursor else int (fact_sequence (last records)))))"

text \<open>\<open>ProjectionInputLog.tail\<close> yields only the newest record of each subject.\<close>

definition input_tail_poll :: "string \<Rightarrow> string list \<Rightarrow> int \<Rightarrow> 'z fact_db_scheme \<Rightarrow>
    exn + projection_input_row list \<times> int" where
  "input_tail_poll repo projs cursor db =
     (if \<not> is_input_cursor_retained repo cursor db then Inl (ReplayGapError cursor)
      else bindE (replay_projection_inputs repo None projs cursor None 1000 db)
        (\<lambda>records. if records = [] then Inr ([], cursor)
           else Inr (sort_key input_sequence
                  (filter (\<lambda>r. \<not> list_ex (\<lambda>s. projection s = projection r \<and>
                       subject_key s = subject_key r \<and> input_sequence r < input_sequence s) records)
                    records),
                  int (input_sequence (last records)))))"

definition floor_seconds :: "time \<Rightarrow> time" where
  "floor_seconds t = microseconds (t div 1000000)"

text \<open>Retention: \<open>minimum\<close> is \<open>retention_min_records\<close>, \<open>max_age\<close> is \<open>retention_max_age\<close>.\<close>

definition prunable_facts :: "string \<Rightarrow> int \<Rightarrow> int \<Rightarrow> time \<Rightarrow> 'z fact_db_scheme \<Rightarrow> uuid list" where
  "prunable_facts repo minimum max_age now db =
     (let overage = record_overage (fact_sequences repo db) minimum;
          cutoff = floor_seconds (now - max_age)
      in if overage \<le> 0 then []
         else map fact_id (take (nat overage) (sort_key fact_sequence
           (filter (\<lambda>f. fact_repository f = repo \<and> recorded_at f < cutoff \<and>
                \<not> list_ex (\<lambda>p. input_repository p = repo \<and> source_fact_id p = Some (fact_id f))
                     (projection_inputs db))
             (retained_facts db)))))"

definition prune_facts :: "string \<Rightarrow> int \<Rightarrow> int \<Rightarrow> time \<Rightarrow> 'z fact_db_scheme \<Rightarrow>
    nat \<times> 'z fact_db_scheme" where
  "prune_facts repo minimum max_age now db =
     (let ids = prunable_facts repo minimum max_age now db;
          gone = (\<lambda>f. fact_repository f = repo \<and> List.member ids (fact_id f))
      in (count_where gone (retained_facts db),
          db\<lparr>retained_facts := delete_where gone (retained_facts db)\<rparr>))"

definition prune_projection_inputs :: "string \<Rightarrow> int \<Rightarrow> int \<Rightarrow> time \<Rightarrow> 'z fact_db_scheme \<Rightarrow>
    nat \<times> 'z fact_db_scheme" where
  "prune_projection_inputs repo minimum max_age now db =
     (let overage = record_overage (input_sequences repo db) minimum;
          cutoff = floor_seconds (now - max_age);
          seqs = map input_sequence (take (nat overage) (sort_key input_sequence
            (filter (\<lambda>p. input_repository p = repo \<and> input_created_at p < cutoff)
              (projection_inputs db))));
          gone = (\<lambda>p. input_repository p = repo \<and> List.member seqs (input_sequence p))
      in if overage \<le> 0 then (0, db)
         else (count_where gone (projection_inputs db),
               db\<lparr>projection_inputs := delete_where gone (projection_inputs db)\<rparr>))"

section \<open>Lemmas\<close>

subsection \<open>Inserting projection inputs\<close>

lemma insert_projection_input_frame [frame_simps]:
  "retained_facts (insert_projection_input repo fid ts item db) = retained_facts db"
  "next_fact_sequence (insert_projection_input repo fid ts item db) = next_fact_sequence db"
  "uuid_draws (insert_projection_input repo fid ts item db) = uuid_draws db"
  "fact_db.more (insert_projection_input repo fid ts item db) = fact_db.more db"
  by (simp_all add: insert_projection_input_def)

lemma fold_insert_projection_frame [frame_simps]:
  "retained_facts (fold (insert_projection_input repo fid ts) items db) = retained_facts db"
  "next_fact_sequence (fold (insert_projection_input repo fid ts) items db) = next_fact_sequence db"
  "uuid_draws (fold (insert_projection_input repo fid ts) items db) = uuid_draws db"
  "fact_db.more (fold (insert_projection_input repo fid ts) items db) = fact_db.more db"
  by (induction items arbitrary: db) (simp_all add: frame_simps)

lemma fold_insert_projection_prefix:
  "\<exists>new. projection_inputs (fold (insert_projection_input repo fid ts) items db) =
          projection_inputs db @ new"
proof (induction items arbitrary: db)
  case Nil
  then show ?case by simp
next
  case (Cons item items)
  obtain new where new: "projection_inputs (insert_projection_input repo fid ts item db) =
      projection_inputs db @ new"
    by (cases "list_ex (projection_conflict repo fid item) (projection_inputs db)")
      (auto simp: insert_projection_input_def)
  with Cons.IH [of "insert_projection_input repo fid ts item db"] show ?case by auto
qed

lemma fold_insert_projection_conflicts:
  "item \<in> set items \<Longrightarrow>
     list_ex (projection_conflict repo fid item)
       (projection_inputs (fold (insert_projection_input repo fid ts) items db))"
proof (induction items arbitrary: db)
  case Nil
  then show ?case by simp
next
  case (Cons i items)
  have first: "list_ex (projection_conflict repo fid i)
      (projection_inputs (insert_projection_input repo fid ts i db))"
    by (auto simp: insert_projection_input_def projection_conflict_def projection_row_def)
  obtain new where new: "projection_inputs (fold (insert_projection_input repo fid ts) (i # items) db) =
      projection_inputs (insert_projection_input repo fid ts i db) @ new"
    using fold_insert_projection_prefix [of repo fid ts items "insert_projection_input repo fid ts i db"]
    by auto
  show ?case
  proof (cases "item = i")
    case True
    with first new show ?thesis by simp
  next
    case False
    with Cons.prems have "item \<in> set items" by simp
    from Cons.IH [OF this, of "insert_projection_input repo fid ts i db"] show ?thesis by simp
  qed
qed

lemma fold_insert_projection_again:
  "(\<And>item. item \<in> set items \<Longrightarrow> list_ex (projection_conflict repo fid item) (projection_inputs db))
     \<Longrightarrow> fold (insert_projection_input repo fid ts) items db = db"
  by (induction items) (auto simp: insert_projection_input_def)

subsection \<open>Appending facts\<close>

definition add_fact :: "string \<Rightarrow> fact_draft \<Rightarrow> time \<Rightarrow> 'z fact_db_scheme \<Rightarrow> 'z fact_db_scheme" where
  "add_fact repo draft ts db =
     db\<lparr>retained_facts := retained_facts db @
           [fact_row_from_draft (next_fact_sequence db) repo ts draft],
        next_fact_sequence := Suc (next_fact_sequence db)\<rparr>"

lemma fact_row_from_draft_simps [simp]:
  "fact_id (fact_row_from_draft n repo ts d) = fact_id d"
  "fact_repository (fact_row_from_draft n repo ts d) = repo"
  "fact_sequence (fact_row_from_draft n repo ts d) = n"
  "fact_row_kind (fact_row_from_draft n repo ts d) = draft_kind d"
  "payload (fact_row_from_draft n repo ts d) = payload d"
  "recorded_at (fact_row_from_draft n repo ts d) = ts"
  by (simp_all add: fact_row_from_draft_def)

lemma same_fact_from_draft [simp]: "same_fact (fact_row_from_draft n repo ts d) d"
  by (simp add: same_fact_def fact_row_from_draft_def)

lemma fact_row_of_frame:
  "retained_facts db' = retained_facts db \<Longrightarrow> fact_row_of repo fid db' = fact_row_of repo fid db"
  by (simp add: fact_row_of_def)

lemma append_fact_dbE:
  assumes "append_fact_db repo d items ts db = Inr db'"
  obtains (old) row where "fact_row_of repo (fact_id d) db = Some row" and "same_fact row d"
      and "db' = fold (insert_projection_input repo (fact_id d) ts) items db"
    | (new) "\<forall>r \<in> set (retained_facts db). fact_id r \<noteq> fact_id d"
      and "db' = fold (insert_projection_input repo (fact_id d) ts) items (add_fact repo d ts db)"
  using assms
  by (auto simp: append_fact_db_def append_fact_def insert_fact_def add_fact_def result_simps Let_def
      list_ex_iff split: option.splits if_splits)

lemma add_fact_frame [frame_simps]:
  "retained_facts (add_fact repo d ts db) =
     retained_facts db @ [fact_row_from_draft (next_fact_sequence db) repo ts d]"
  "projection_inputs (add_fact repo d ts db) = projection_inputs db"
  "next_fact_sequence (add_fact repo d ts db) = Suc (next_fact_sequence db)"
  "next_input_sequence (add_fact repo d ts db) = next_input_sequence db"
  "uuid_draws (add_fact repo d ts db) = uuid_draws db"
  "fact_db.more (add_fact repo d ts db) = fact_db.more db"
  by (simp_all add: add_fact_def)

lemma append_fact_db_rest:
  assumes "append_fact_db repo d items ts db = Inr db'"
  shows "fact_db.more db' = fact_db.more db" and "uuid_draws db' = uuid_draws db"
  using assms by (auto elim!: append_fact_dbE simp: frame_simps)

lemma append_fact_db_facts:
  assumes "append_fact_db repo d items ts db = Inr db'"
  shows "\<exists>new. retained_facts db' = retained_facts db @ new"
  using assms by (auto elim!: append_fact_dbE simp: frame_simps)

lemma append_fact_db_row:
  assumes "append_fact_db repo d items ts db = Inr db'"
  shows "\<exists>row. fact_row_of repo (fact_id d) db' = Some row \<and> same_fact row d"
  using assms
proof (cases rule: append_fact_dbE)
  case (old row)
  then show ?thesis by (auto simp: fact_row_of_def frame_simps)
next
  case new
  then have "find (\<lambda>r. fact_repository r = repo \<and> fact_id r = fact_id d) (retained_facts db) = None"
    by (simp add: find_eq_None)
  with new show ?thesis by (simp add: fact_row_of_def frame_simps table_simps)
qed

lemma append_fact_db_again:
  assumes "append_fact_db repo d items ts db = Inr db'"
  shows "append_fact_db repo d items ts' db' = Inr db'"
proof -
  obtain row where row: "fact_row_of repo (fact_id d) db' = Some row" "same_fact row d"
    using append_fact_db_row [OF assms] by blast
  have "list_ex (projection_conflict repo (fact_id d) i) (projection_inputs db')"
    if "i \<in> set items" for i
    using assms that by (auto elim!: append_fact_dbE intro: fold_insert_projection_conflicts)
  then have "fold (insert_projection_input repo (fact_id d) ts') items db' = db'"
    by (rule fold_insert_projection_again)
  with row show ?thesis by (simp add: append_fact_db_def append_fact_def)
qed

lemma append_fact_dbI_new:
  assumes "\<forall>r \<in> set (retained_facts db). fact_id r \<noteq> fact_id d"
  shows "append_fact_db repo d items ts db =
    Inr (fold (insert_projection_input repo (fact_id d) ts) items (add_fact repo d ts db))"
proof -
  have none: "find (\<lambda>r. fact_repository r = repo \<and> fact_id r = fact_id d) (retained_facts db) = None"
    using assms by (simp add: find_eq_None)
  let ?db2 = "fold (insert_projection_input repo (fact_id d) ts) items (add_fact repo d ts db)"
  have "fact_row_of repo (fact_id d) ?db2 =
      Some (fact_row_from_draft (next_fact_sequence db) repo ts d)"
    using none by (simp add: fact_row_of_def frame_simps table_simps)
  moreover have "insert_fact repo d ts db = Inr (add_fact repo d ts db)"
    using assms by (simp add: insert_fact_def add_fact_def list_ex_iff)
  ultimately show ?thesis
    using none by (simp add: append_fact_db_def append_fact_def fact_row_of_def Let_def)
qed

subsection \<open>The log invariant\<close>

definition fact_log_inv :: "'z fact_db_scheme \<Rightarrow> bool" where
  "fact_log_inv db \<longleftrightarrow>
     sorted_wrt (<) (map fact_sequence (retained_facts db)) \<and>
     (\<forall>r \<in> set (retained_facts db). fact_sequence r < next_fact_sequence db) \<and>
     distinct (map fact_id (retained_facts db)) \<and>
     sorted_wrt (<) (map input_sequence (projection_inputs db)) \<and>
     (\<forall>r \<in> set (projection_inputs db). input_sequence r < next_input_sequence db)"

lemma fact_log_inv_empty: "fact_log_inv empty_fact_db"
  by (simp add: fact_log_inv_def empty_fact_db_def)

lemma insert_projection_input_inv:
  "fact_log_inv db \<Longrightarrow> fact_log_inv (insert_projection_input repo fid ts item db)"
  by (auto simp: fact_log_inv_def insert_projection_input_def projection_row_def sorted_wrt_append
      less_Suc_eq)

lemma fold_insert_projection_inv:
  "fact_log_inv db \<Longrightarrow> fact_log_inv (fold (insert_projection_input repo fid ts) items db)"
  by (induction items arbitrary: db) (simp_all add: insert_projection_input_inv)

lemma add_fact_inv:
  "fact_log_inv db \<Longrightarrow> \<forall>r \<in> set (retained_facts db). fact_id r \<noteq> fact_id d \<Longrightarrow>
     fact_log_inv (add_fact repo d ts db)"
  by (auto simp: fact_log_inv_def frame_simps sorted_wrt_append less_Suc_eq)

lemma append_fact_db_inv:
  "append_fact_db repo d items ts db = Inr db' \<Longrightarrow> fact_log_inv db \<Longrightarrow> fact_log_inv db'"
  by (auto elim!: append_fact_dbE intro: fold_insert_projection_inv add_fact_inv)

lemma uuid4_frame [frame_simps]:
  "uuid4 db = (u, db') \<Longrightarrow> retained_facts db' = retained_facts db"
  "uuid4 db = (u, db') \<Longrightarrow> projection_inputs db' = projection_inputs db"
  "uuid4 db = (u, db') \<Longrightarrow> fact_db.more db' = fact_db.more db"
  "uuid4 db = (u, db') \<Longrightarrow> fact_log_inv db' = fact_log_inv db"
  by (auto simp: uuid4_def fact_log_inv_def)

text \<open>A step that only appends facts (and draws identifiers): every other table is left alone.\<close>

definition facts_only :: "'z fact_db_scheme \<Rightarrow> 'z fact_db_scheme \<Rightarrow> bool" where
  "facts_only db db' \<longleftrightarrow> fact_db.more db' = fact_db.more db \<and>
     (\<exists>new. retained_facts db' = retained_facts db @ new) \<and> (fact_log_inv db \<longrightarrow> fact_log_inv db')"

lemma facts_only_refl [simp]: "facts_only db db"
  by (simp add: facts_only_def)

lemma facts_only_trans [trans]: "facts_only a b \<Longrightarrow> facts_only b c \<Longrightarrow> facts_only a c"
  by (auto simp: facts_only_def)

lemma facts_only_append: "append_fact_db repo d items ts db = Inr db' \<Longrightarrow> facts_only db db'"
  using append_fact_db_rest(1) append_fact_db_facts append_fact_db_inv by (auto simp: facts_only_def)

lemma facts_only_uuid4: "uuid4 db = (u, db') \<Longrightarrow> facts_only db db'"
  by (simp add: facts_only_def frame_simps)

lemma facts_only_more: "facts_only db db' \<Longrightarrow> fact_db.more db' = fact_db.more db"
  by (simp add: facts_only_def)

section \<open>What the features rely on\<close>

text \<open>
  A feature writes facts inside its own transaction and relies on three things: its own tables are
  untouched, nothing already recorded is changed, and a retry of the same append is absorbed.
\<close>

locale fact_sink =
  fixes append :: "fact_draft \<Rightarrow> projection_input_draft list \<Rightarrow> time \<Rightarrow> 'db \<Rightarrow> exn + 'db"
    and facts :: "'db \<Rightarrow> fact_row list"
    and others :: "'db \<Rightarrow> 'rest"
  assumes append_others: "append d items ts db = Inr db' \<Longrightarrow> others db' = others db"
    and append_grows: "append d items ts db = Inr db' \<Longrightarrow> \<exists>new. facts db' = facts db @ new"
    and append_records: "append d items ts db = Inr db' \<Longrightarrow>
      \<exists>row \<in> set (facts db'). fact_id row = fact_id d \<and> same_fact row d"
    and append_again: "append d items ts db = Inr db' \<Longrightarrow> append d items ts' db' = Inr db'"
begin

definition append_all ::
    "(fact_draft \<times> projection_input_draft list) list \<Rightarrow> time \<Rightarrow> 'db \<Rightarrow> exn + 'db" where
  "append_all batch ts = foldE (\<lambda>(d, items). append d items ts) batch"

lemma batch_others:
  assumes "append_all batch ts db = Inr db'"
  shows "others db' = others db"
  using assms unfolding append_all_def
  by (rule foldE_frame) (auto dest: append_others)

lemma batch_grows:
  assumes "append_all batch ts db = Inr db'"
  shows "\<exists>new. facts db' = facts db @ new"
  using assms unfolding append_all_def
proof (rule foldE_invariant)
  show "\<exists>new. facts db = facts db @ new" by simp
next
  fix x u v
  assume "(case x of (d, items) \<Rightarrow> append d items ts) u = Inr v" "\<exists>new. facts u = facts db @ new"
  then show "\<exists>new. facts v = facts db @ new"
    using append_grows by (fastforce split: prod.splits)
qed

lemma batch_records:
  assumes "append_all batch ts db = Inr db'" and "(d, items) \<in> set batch"
  shows "\<exists>row \<in> set (facts db'). fact_id row = fact_id d \<and> same_fact row d"
  using assms
proof (induction batch arbitrary: db)
  case Nil
  then show ?case by simp
next
  case (Cons b batch)
  obtain d1 i1 where b: "b = (d1, i1)" by (cases b)
  with Cons.prems(1) obtain db1 where db1: "append d1 i1 ts db = Inr db1"
      "append_all batch ts db1 = Inr db'"
    by (auto simp: append_all_def result_simps)
  show ?case
  proof (cases "(d, items) = b")
    case True
    with b db1(1) obtain row where "row \<in> set (facts db1)" "fact_id row = fact_id d" "same_fact row d"
      using append_records by blast
    moreover obtain new where "facts db' = facts db1 @ new" using batch_grows [OF db1(2)] by blast
    ultimately show ?thesis by auto
  next
    case False
    with Cons.prems(2) have "(d, items) \<in> set batch" by simp
    with db1(2) Cons.IH show ?thesis by blast
  qed
qed

end

interpretation fact_log: fact_sink "append_fact_db repo" retained_facts fact_db.more for repo
proof (unfold_locales, goal_cases)
  case (1 d items ts db db')
  then show ?case by (rule append_fact_db_rest(1))
next
  case (2 d items ts db db')
  then show ?case by (rule append_fact_db_facts)
next
  case (3 d items ts db db')
  from append_fact_db_row [OF 3] show ?case
    by (auto simp: fact_row_of_def dest!: find_Some_mem)
next
  case (4 d items ts db db' ts')
  then show ?case by (rule append_fact_db_again)
qed

section \<open>Properties\<close>

definition sample_draft :: "nat \<Rightarrow> fact_draft" where
  "sample_draft n = \<lparr>fact_id = UUID n, schema_version = 1, occurred_at = 0, aggregate = None,
     actor = \<lparr>actor_kind = ''service'', actor_id = ''log''\<rparr>,
     fact_correlation = plain_correlation (UUID 0), payload = PrivateFactPayload ''note'' []\<rparr>"

definition sample_input :: "nat \<Rightarrow> projection_input_draft" where
  "sample_input n = \<lparr>input_id = UUID (100 + n), projection = ''sessions'', subject_key = ''s'',
     generation = int n\<rparr>"

lemmas sample_simps = sample_draft_def sample_input_def empty_fact_db_def

text \<open>appending a fact together with its projection inputs is idempotent and append-only. When an
  append succeeds, the log before it is a prefix of the log after it, the fact is recorded with the
  content of its draft, other tables are unchanged, the log stays well formed (strictly increasing
  sequence numbers, unique fact ids), and repeating the append at any later time changes nothing.
\<close>

theorem append_fact_idempotent:
  assumes "append_fact_db repo d items ts db = Inr db'" and "fact_log_inv db"
  shows "(\<exists>new. retained_facts db' = retained_facts db @ new) \<and>
    (\<exists>row \<in> set (retained_facts db'). fact_id row = fact_id d \<and> same_fact row d) \<and>
    fact_db.more db' = fact_db.more db \<and> fact_log_inv db' \<and>
    append_fact_db repo d items ts' db' = Inr db'"
  using fact_log.append_grows [OF assms(1)] fact_log.append_records [OF assms(1)]
    fact_log.append_others [OF assms(1)] append_fact_db_inv [OF assms]
    fact_log.append_again [OF assms(1)] by blast

theorem append_fact_idempotent_witness:
  "\<exists>db'. append_fact_db ''r'' (sample_draft 1) [sample_input 0] 5 empty_fact_db = Inr db' \<and>
     length (retained_facts db') = 1 \<and> length (projection_inputs db') = 1 \<and>
     append_fact_db ''r'' (sample_draft 1) [sample_input 0] 9 db' = Inr db'"
proof -
  let ?db' = "fold (insert_projection_input ''r'' (fact_id (sample_draft 1)) 5) [sample_input 0]
     (add_fact ''r'' (sample_draft 1) 5 empty_fact_db)"
  have app: "append_fact_db ''r'' (sample_draft 1) [sample_input 0] 5 empty_fact_db = Inr ?db'"
    by (rule append_fact_dbI_new) (simp add: empty_fact_db_def)
  have "append_fact_db ''r'' (sample_draft 1) [sample_input 0] 9 ?db' = Inr ?db'"
    using append_fact_idempotent [OF app fact_log_inv_empty, where ts' = 9] by blast
  moreover have "length (retained_facts ?db') = 1 \<and> length (projection_inputs ?db') = 1"
    by (simp add: frame_simps empty_fact_db_def insert_projection_input_def)
  ultimately show ?thesis using app by blast
qed

text \<open>a fact id identifies one content. Appending under an id that the repository already recorded
  with different content is refused, whatever the projection inputs, and the refusal leaves no
  trace (an error carries no database).
\<close>

theorem append_fact_conflict:
  assumes "fact_row_of repo (fact_id d) db = Some row" and "\<not> same_fact row d"
  shows "append_fact_db repo d items ts db = Inl (FactIdentityConflictError (fact_id d))"
  using assms by (simp add: append_fact_db_def append_fact_def)

theorem append_fact_conflict_witness:
  "append_fact_db ''r'' ((sample_draft 1)\<lparr>occurred_at := 3\<rparr>) [] 9
     (add_fact ''r'' (sample_draft 1) 5 empty_fact_db) =
   Inl (FactIdentityConflictError (UUID 1))"
  using append_fact_conflict [of "''r''" "(sample_draft 1)\<lparr>occurred_at := 3\<rparr>"
      "add_fact ''r'' (sample_draft 1) 5 empty_fact_db"
      "fact_row_from_draft 1 ''r'' 5 (sample_draft 1)" "[]" 9]
  by (simp add: sample_simps add_fact_def fact_row_of_def same_fact_def fact_row_from_draft_def)

lemma sorted_fact_rows:
  "fact_log_inv db \<Longrightarrow> sorted (map fact_sequence (filter P (retained_facts db)))"
proof -
  assume "fact_log_inv db"
  then have "sorted (map fact_sequence (retained_facts db))"
    by (auto simp: fact_log_inv_def intro: sorted_wrt_mono_rel [rotated])
  then show ?thesis by (rule sorted_filter)
qed

text \<open>one poll of \<open>FactLog.tail\<close> over a retained cursor delivers, in order, exactly the
  repository's facts of the wanted kinds recorded after the cursor, and the poll from the cursor it
  returns delivers nothing more. (The replay limit of 100000 rows is assumed not to be reached.)
\<close>

theorem fact_tail_delivers:
  assumes inv: "fact_log_inv db" and cur: "is_cursor_retained repo cursor db"
    and few: "length (retained_facts db) \<le> 100000"
  shows "\<exists>records cursor'. fact_tail_poll repo kinds cursor db = Inr (records, cursor') \<and>
    records = filter (\<lambda>r. fact_repository r = repo \<and> cursor < int (fact_sequence r) \<and>
                        (kinds = [] \<or> List.member kinds (fact_row_kind r))) (retained_facts db) \<and>
    replay_facts repo cursor' None kinds None 100000 db = Inr []"
proof -
  define wanted where "wanted c r \<longleftrightarrow> fact_repository r = repo \<and> c < int (fact_sequence r) \<and>
    (kinds = [] \<or> List.member kinds (fact_row_kind r))" for c and r :: fact_row
  have nonneg: "0 \<le> cursor" using cur by (simp add: is_cursor_retained_def cursor_retained_def split: if_splits)
  have replay: "replay_facts repo c None kinds None 100000 db = Inr (filter (wanted c) (retained_facts db))"
    if "0 \<le> c" for c
    using that few sorted_fact_rows [OF inv, of "wanted c"]
    by (simp add: replay_facts_def wanted_def [abs_def] sort_key_id_if_sorted
        le_trans [OF length_filter_le])
  let ?recs = "filter (wanted cursor) (retained_facts db)"
  let ?cur = "if ?recs = [] then cursor else int (fact_sequence (last ?recs))"
  have poll: "fact_tail_poll repo kinds cursor db = Inr (?recs, ?cur)"
    using cur replay [OF nonneg] by (simp add: fact_tail_poll_def)
  have "filter (wanted ?cur) (retained_facts db) = []"
  proof (cases "?recs = []")
    case True
    then show ?thesis by simp
  next
    case False
    then have cur_last: "?cur = int (fact_sequence (last ?recs))" by simp
    have "\<not> wanted ?cur r" if r: "r \<in> set (retained_facts db)" for r
    proof
      assume w: "wanted ?cur r"
      have "wanted cursor (last ?recs)" using last_in_set [OF False] by simp
      with w cur_last have "wanted cursor r" by (simp add: wanted_def)
      with r have "r \<in> set ?recs" by simp
      with sorted_fact_rows [OF inv, of "wanted cursor"]
      have "fact_sequence r \<le> fact_sequence (last ?recs)" by (rule sorted_map_last_ge)
      with w cur_last show False by (simp add: wanted_def)
    qed
    then show ?thesis by (simp add: filter_empty_conv)
  qed
  then have "replay_facts repo ?cur None kinds None 100000 db = Inr []"
    using replay [of ?cur] nonneg by simp
  with poll show ?thesis unfolding wanted_def by blast
qed

theorem fact_tail_delivers_witness:
  "\<exists>records cursor'. fact_tail_poll ''r'' [''note''] 0
       (add_fact ''r'' (sample_draft 1) 5 empty_fact_db) = Inr (records, cursor') \<and> length records = 1"
proof -
  let ?db = "add_fact ''r'' (sample_draft 1) 5 empty_fact_db"
  have "fact_log_inv ?db"
    by (simp add: add_fact_def fact_row_from_draft_def sample_simps fact_log_inv_def)
  moreover have "is_cursor_retained ''r'' 0 ?db"
    by (simp add: is_cursor_retained_def cursor_retained_def fact_sequences_def watermark_def
        add_fact_def fact_row_from_draft_def sample_simps)
  moreover have "length (retained_facts ?db) \<le> 100000"
    by (simp add: add_fact_def sample_simps)
  ultimately obtain records cursor' where
    poll: "fact_tail_poll ''r'' [''note''] 0 ?db = Inr (records, cursor')" and
    recs: "records = filter (\<lambda>r. fact_repository r = ''r'' \<and> 0 < int (fact_sequence r) \<and>
      ([''note''] = [] \<or> List.member [''note''] (fact_row_kind r))) (retained_facts ?db)"
    using fact_tail_delivers [of ?db "''r''" 0 "[''note'']"] by blast
  from recs have "length records = 1"
    by (simp add: add_fact_def fact_row_from_draft_def sample_simps draft_kind_def)
  with poll show ?thesis by blast
qed

text \<open>What retention may delete: an old fact of the repository that no projection input of it comes from.\<close>

definition expendable :: "string \<Rightarrow> int \<Rightarrow> time \<Rightarrow> 'z fact_db_scheme \<Rightarrow> fact_row \<Rightarrow> bool" where
  "expendable repo max_age now db f \<longleftrightarrow> fact_repository f = repo \<and> recorded_at f < floor_seconds (now - max_age) \<and>
     (\<forall>p \<in> set (projection_inputs db). input_repository p = repo \<longrightarrow> source_fact_id p \<noteq> Some (fact_id f))"

lemma filter_take_filter: "distinct xs \<Longrightarrow> filter (\<lambda>x. x \<in> set (take k (filter P xs))) xs = take k (filter P xs)"
proof (induction xs arbitrary: k)
  case (Cons x xs)
  show ?case
  proof (cases "P x \<and> k \<noteq> 0")
    case True
    then obtain m where m: "k = Suc m" by (cases k) auto
    have "filter (\<lambda>y. y = x \<or> y \<in> set (take m (filter P xs))) xs = filter (\<lambda>y. y \<in> set (take m (filter P xs))) xs"
      using Cons.prems by (intro filter_cong) auto
    with Cons True m show ?thesis by simp
  next
    case False
    moreover have "x \<notin> set (take k (filter P xs))" using Cons.prems by (auto dest: in_set_takeD)
    ultimately show ?thesis using Cons by auto
  qed
qed simp

text \<open>The rows that go are a prefix of the expendable ones, in the order of the log.\<close>

lemma prune_facts_prefix:
  assumes inv: "fact_log_inv db" and run: "prune_facts repo minimum max_age now db = (n, db')"
    and g: "g = take (nat (record_overage (fact_sequences repo db) minimum)) (filter (expendable repo max_age now db) (retained_facts db))"
  shows "retained_facts db' = filter (\<lambda>f. f \<notin> set g) (retained_facts db)" and "n = length g"
    and "filter (\<lambda>f. f \<in> set g) (retained_facts db) = g" and "projection_inputs db' = projection_inputs db"
proof -
  let ?E = "filter (expendable repo max_age now db) (retained_facts db)"
  have seqs: "sorted_wrt (<) (map fact_sequence (retained_facts db))" and dist: "distinct (map fact_id (retained_facts db))"
    using inv by (simp_all add: fact_log_inv_def)
  have rows: "filter (\<lambda>f. fact_repository f = repo \<and> recorded_at f < floor_seconds (now - max_age) \<and>
      \<not> list_ex (\<lambda>p. input_repository p = repo \<and> source_fact_id p = Some (fact_id f)) (projection_inputs db)) (retained_facts db) = ?E"
    by (rule filter_cong) (auto simp: expendable_def list_ex_iff)
  have "sorted (map fact_sequence ?E)" using seqs by (intro sorted_filter) (simp add: strict_sorted_iff)
  then have "sort_key fact_sequence ?E = ?E" by (rule sort_key_id_if_sorted)
  then have ids: "prunable_facts repo minimum max_age now db = map fact_id g"
    unfolding prunable_facts_def Let_def rows g by simp
  have gone: "(fact_repository f = repo \<and> List.member (map fact_id g) (fact_id f)) = (f \<in> set g)" if "f \<in> set (retained_facts db)" for f
  proof
    assume "fact_repository f = repo \<and> List.member (map fact_id g) (fact_id f)"
    then obtain h where h: "h \<in> set g" "fact_id h = fact_id f" by auto
    then have "h \<in> set (retained_facts db)" using set_take_subset [of _ ?E] unfolding g by auto
    with h that distinct_key_eq [OF dist] show "f \<in> set g" by metis
  next
    assume f: "f \<in> set g"
    then have "f \<in> set ?E" using set_take_subset [of _ ?E] unfolding g by blast
    with f show "fact_repository f = repo \<and> List.member (map fact_id g) (fact_id f)" by (simp add: expendable_def)
  qed
  show pre: "filter (\<lambda>f. f \<in> set g) (retained_facts db) = g"
    unfolding g by (rule filter_take_filter) (use dist in \<open>simp add: distinct_map\<close>)
  have "n = length (filter (\<lambda>f. fact_repository f = repo \<and> List.member (map fact_id g) (fact_id f)) (retained_facts db))"
    and db': "retained_facts db' = filter (\<lambda>f. \<not> (fact_repository f = repo \<and> List.member (map fact_id g) (fact_id f))) (retained_facts db)"
    and "projection_inputs db' = projection_inputs db"
    using run by (auto simp: prune_facts_def Let_def count_where_def delete_where_def ids)
  then show "n = length g" "projection_inputs db' = projection_inputs db" using pre gone by (simp_all cong: filter_cong)
  show "retained_facts db' = filter (\<lambda>f. f \<notin> set g) (retained_facts db)" unfolding db' using gone by (intro filter_cong) auto
qed

lemma length_filter_split: "length (filter (\<lambda>x. P x \<and> Q x) xs) + length (filter (\<lambda>x. P x \<and> \<not> Q x) xs) = length (filter P xs)"
  by (induction xs) auto

text \<open>
  C39: retention is exact and conservative. Of the old facts of the repository that no projection input of it comes from,
  the oldest are deleted, as many as there are facts beyond \<open>retention_min_records\<close> (or all, when there are fewer),
  and their number is returned. So a repository that has at least the minimum keeps at least the minimum, one that has
  no more loses nothing, and every other fact, of this or another repository, stays in place and in order.
\<close>

theorem prune_facts_safe:
  assumes inv: "fact_log_inv db" and run: "prune_facts repo minimum max_age now db = (n, db')"
  shows "(\<exists>gone. retained_facts db' = filter (\<lambda>f. \<not> gone f) (retained_facts db) \<and> n = length (filter gone (retained_facts db)) \<and>
      (\<forall>f \<in> set (retained_facts db). gone f \<longrightarrow> expendable repo max_age now db f) \<and>
      (\<forall>f \<in> set (retained_facts db). \<forall>h \<in> set (retained_facts db). gone f \<and> \<not> gone h \<and> expendable repo max_age now db h \<longrightarrow>
         fact_sequence f < fact_sequence h)) \<and>
    int n = min (max 0 (int (length (fact_sequences repo db)) - minimum)) (int (length (filter (expendable repo max_age now db) (retained_facts db)))) \<and>
    length (fact_sequences repo db') + n = length (fact_sequences repo db) \<and>
    (minimum \<le> int (length (fact_sequences repo db)) \<longrightarrow> minimum \<le> int (length (fact_sequences repo db'))) \<and>
    (int (length (fact_sequences repo db)) \<le> minimum \<longrightarrow> retained_facts db' = retained_facts db) \<and>
    projection_inputs db' = projection_inputs db"
proof -
  let ?E = "filter (expendable repo max_age now db) (retained_facts db)" and ?k = "nat (record_overage (fact_sequences repo db) minimum)"
  define g where "g = take ?k ?E"
  note P = prune_facts_prefix [OF inv run g_def]
  have E: "set g \<subseteq> set ?E" unfolding g_def by (rule set_take_subset)
  have "sorted_wrt (<) (map fact_sequence ?E)"
    using inv unfolding fact_log_inv_def sorted_wrt_map by (blast intro: sorted_wrt_filter)
  then have "sorted_wrt (\<lambda>f h. fact_sequence f < fact_sequence h) (g @ drop ?k ?E)" by (simp add: g_def sorted_wrt_map)
  moreover have "set ?E = set g \<union> set (drop ?k ?E)" unfolding g_def by (metis append_take_drop_id set_append)
  ultimately have old: "fact_sequence f < fact_sequence h" if "f \<in> set g" "h \<in> set ?E" "h \<notin> set g" for f h
    using that by (auto simp: sorted_wrt_append)
  have "n = min ?k (length ?E)" unfolding P(2) g_def by simp
  then have n: "int n = min (max 0 (int (length (fact_sequences repo db)) - minimum)) (int (length ?E))"
    unfolding record_overage_def by arith
  have "filter (\<lambda>f. fact_repository f = repo \<and> f \<in> set g) (retained_facts db) = filter (\<lambda>f. f \<in> set g) (retained_facts db)"
    using E by (intro filter_cong) (auto simp: expendable_def)
  then have count: "length (fact_sequences repo db') + n = length (fact_sequences repo db)"
    using length_filter_split [of "\<lambda>f. fact_repository f = repo" "\<lambda>f. f \<in> set g" "retained_facts db"]
    by (simp add: fact_sequences_def P conj_commute)
  have "retained_facts db' = retained_facts db" if "int (length (fact_sequences repo db)) \<le> minimum"
    using that n P(1,2) by simp
  moreover have "minimum \<le> int (length (fact_sequences repo db'))" if "minimum \<le> int (length (fact_sequences repo db))"
    using that n count by linarith
  ultimately show ?thesis using P E old n count by (intro conjI exI [of _ "\<lambda>f. f \<in> set g"]) auto
qed

definition hole_db :: fact_db where
  "hole_db = add_fact ''r'' (sample_draft 3) 0 (add_fact ''r'' (sample_draft 2) 0
     (insert_projection_input ''r'' (UUID 1) 0 (sample_input 0)
       (add_fact ''r'' (sample_draft 1) 0 empty_fact_db)))"

lemmas hole_simps = hole_db_def add_fact_def insert_projection_input_def sample_simps
  fact_row_from_draft_def projection_row_def

theorem prune_facts_safe_witness:
  "fact_log_inv hole_db \<and> length (fact_sequences ''r'' hole_db) = 3 \<and> fst (prune_facts ''r'' 2 0 2000000 hole_db) = 1 \<and>
   length (fact_sequences ''r'' (snd (prune_facts ''r'' 2 0 2000000 hole_db))) = 2"
proof -
  have inv: "fact_log_inv hole_db"
    by (simp add: hole_simps fact_log_inv_def)
  have one: "prune_facts ''r'' 2 0 2000000 hole_db =
      (1, snd (prune_facts ''r'' 2 0 2000000 hole_db))"
    by (simp add: hole_simps prune_facts_def prunable_facts_def fact_sequences_def record_overage_def
        floor_seconds_def microseconds_def Let_def count_where_def)
  have three: "length (fact_sequences ''r'' hole_db) = 3"
    by (simp add: hole_simps fact_sequences_def)
  with prune_facts_safe [OF inv one] have "length (fact_sequences ''r'' (snd (prune_facts ''r'' 2 0 2000000 hole_db))) = 2" by simp
  with inv one three show ?thesis by (metis fst_conv)
qed

text \<open>retention can open a hole that a follower does not see. There is a well-formed log, a cursor
  and a fact recorded after the cursor such that after one pruning pass \<open>is_cursor_retained\<close> still
  accepts the cursor, but the replay from it no longer delivers the fact: \<open>prune\<close> skips facts that
  are still the source of a projection input, so the deleted facts need not be the oldest, while
  the cursor check only looks at the smallest remaining sequence number.
\<close>

theorem prune_opens_undetected_hole:
  "\<exists>db f db'. fact_log_inv db \<and> f \<in> set (retained_facts db) \<and> 1 < fact_sequence f \<and>
     db' = snd (prune_facts ''r'' 2 0 2000000 (db :: fact_db)) \<and>
     is_cursor_retained ''r'' 1 db' \<and>
     (\<exists>records cursor'. fact_tail_poll ''r'' [] 1 db' = Inr (records, cursor') \<and>
        f \<notin> set records \<and> int (fact_sequence f) < cursor')"
proof -
  let ?f = "fact_row_from_draft 2 ''r'' 0 (sample_draft 2)"
  let ?db' = "snd (prune_facts ''r'' 2 0 2000000 hole_db)"
  have pruned: "retained_facts ?db' =
      [fact_row_from_draft 1 ''r'' 0 (sample_draft 1), fact_row_from_draft 3 ''r'' 0 (sample_draft 3)]"
    by (simp add: hole_simps prune_facts_def prunable_facts_def fact_sequences_def record_overage_def
        floor_seconds_def microseconds_def Let_def count_where_def delete_where_def)
  have "fact_log_inv hole_db" "?f \<in> set (retained_facts hole_db)"
    by (simp_all add: hole_simps fact_log_inv_def)
  moreover have "is_cursor_retained ''r'' 1 ?db'"
    by (simp add: is_cursor_retained_def cursor_retained_def fact_sequences_def watermark_def pruned)
  moreover from this have "fact_tail_poll ''r'' [] 1 ?db' =
      Inr ([fact_row_from_draft 3 ''r'' 0 (sample_draft 3)], 3)"
    by (simp add: fact_tail_poll_def replay_facts_def pruned)
  moreover have "?f \<noteq> fact_row_from_draft 3 ''r'' 0 (sample_draft 3)"
    by (simp add: fact_row_from_draft_def)
  ultimately show ?thesis by (intro exI [of _ hole_db] exI [of _ ?f] exI [of _ ?db']) simp
qed

end
