(* ===== verification/WorkflowDefinition.thy ===== *)
theory WorkflowDefinition
  imports Contracts
begin

text \<open>
  Workflow templates and their validation, \<open>murder/work/workflows/definition.py\<close>: the template
  records, the name and stage-id grammars, \<open>workflow_issues\<close> with every finding it can report, and
  the three-colour depth-first search \<open>_find_cycle\<close> as the loop the code runs.

  An issue carries its code, path, stage, dependency and severity; the message is a fixed rendering
  of these and is left out, so \<open>validate_workflow\<close> returns the issues whose messages the code
  returns. Lemmas: the search terminates, finds a stage on a cycle when it reports one, and when it
  reports none the dependency graph has no cycle.
\<close>

section \<open>Templates\<close>

datatype workflow_input_kind = TextInput | MultilineInput

record workflow_input_decl =
  decl_label :: "string option"
  decl_kind :: workflow_input_kind
  decl_required :: bool
  decl_default :: "string option"

datatype stage_gate = GateAuto | GateHuman | GateConditional

record stage_def =
  stage_id :: string
  stage_title :: string
  stage_instructions :: string
  stage_harness :: "string option"
  stage_model :: "string option"
  stage_worktree :: "string option"
  depends_on :: "string list"
  stage_gate :: stage_gate

datatype workflow_mode = StaticMode | GenerativeMode

record workflow_def =
  wf_name :: string
  definition_version :: int
  wf_description :: string
  builtin :: bool
  wf_mode :: workflow_mode
  wf_inputs :: "(string \<times> workflow_input_decl) list"
  wf_stages :: "stage_def list"

section \<open>Grammars\<close>

definition ident_char :: "char \<Rightarrow> bool" where
  "ident_char c \<longleftrightarrow> (CHR ''A'' \<le> c \<and> c \<le> CHR ''Z'') \<or> (CHR ''a'' \<le> c \<and> c \<le> CHR ''z'') \<or>
     (CHR ''0'' \<le> c \<and> c \<le> CHR ''9'') \<or> c = CHR ''_'' \<or> c = CHR ''-''"

fun in_word :: "string \<Rightarrow> bool" and at_word :: "string \<Rightarrow> bool" where
  "in_word [] = True"
| "in_word (c # cs) = (if ident_char c then in_word cs else c = CHR '' '' \<and> at_word cs)"
| "at_word [] = False"
| "at_word (c # cs) = (ident_char c \<and> in_word cs)"

text \<open>\<open>$\<close> also matches just before one final line feed, which neither pattern can consume.\<close>

definition dollar :: "(string \<Rightarrow> bool) \<Rightarrow> string \<Rightarrow> bool" where
  "dollar body s \<longleftrightarrow> body s \<or> (s \<noteq> [] \<and> last s = CHR 0x0A \<and> body (butlast s))"

definition name_re :: "string \<Rightarrow> bool" where
  "name_re s = dollar at_word s"

definition stage_id_re :: "string \<Rightarrow> bool" where
  "stage_id_re s = dollar (\<lambda>b. b \<noteq> [] \<and> list_all ident_char b) s"

section \<open>Cycle search\<close>

datatype color = GREY | BLACK

definition setdefault :: "'k \<Rightarrow> 'v \<Rightarrow> ('k \<times> 'v) list \<Rightarrow> ('k \<times> 'v) list" where
  "setdefault k v al = (if map_of al k = None then al @ [(k, v)] else al)"

definition adjacency :: "stage_def list \<Rightarrow> (string \<times> string list) list" where
  "adjacency stages =
     fold (\<lambda>s. setdefault (stage_id s) (filter (\<lambda>d. d \<noteq> stage_id s) (depends_on s))) stages []"

definition deps_of :: "(string \<times> string list) list \<Rightarrow> string \<Rightarrow> string list" where
  "deps_of adj n = (case map_of adj n of None \<Rightarrow> [] | Some ds \<Rightarrow> ds)"

definition white_weight :: "(string \<times> string list) list \<Rightarrow> (string \<rightharpoonup> color) \<Rightarrow> nat" where
  "white_weight adj color =
     (\<Sum>k \<leftarrow> map fst adj. if color k = None then 2 + length (deps_of adj k) else 0)"

definition stack_weight :: "(string \<times> string list) list \<Rightarrow> (string \<times> nat) list \<Rightarrow> nat" where
  "stack_weight adj stack = (\<Sum>(n, i) \<leftarrow> stack. Suc (length (deps_of adj n) - i))"

lemma white_weight_mono:
  "(\<And>k. color' k = None \<Longrightarrow> color k = None) \<Longrightarrow> white_weight adj color' \<le> white_weight adj color"
  unfolding white_weight_def by (rule sum_list_mono) simp

lemma white_weight_upd_aux:
  "nxt \<in> set ks \<Longrightarrow> color nxt = None \<Longrightarrow>
     (\<Sum>k \<leftarrow> ks. if (color(nxt \<mapsto> c)) k = None then w k else 0) + w nxt
       \<le> (\<Sum>k \<leftarrow> ks. if color k = None then w k else (0::nat))"
proof (induction ks)
  case Nil
  then show ?case by simp
next
  case (Cons k ks)
  have le: "(\<Sum>k \<leftarrow> ks. if (color(nxt \<mapsto> c)) k = None then w k else 0)
      \<le> (\<Sum>k \<leftarrow> ks. if color k = None then w k else 0)"
    by (rule sum_list_mono) auto
  show ?case
  proof (cases "nxt \<in> set ks")
    case True
    with Cons show ?thesis by auto
  next
    case False
    with Cons.prems have "k = nxt" by simp
    with Cons.prems(2) le show ?thesis by simp
  qed
qed

lemma white_weight_upd:
  "map_of adj nxt \<noteq> None \<Longrightarrow> color nxt = None \<Longrightarrow>
     white_weight adj (color(nxt \<mapsto> c)) + (2 + length (deps_of adj nxt)) \<le> white_weight adj color"
  unfolding white_weight_def
  using white_weight_upd_aux [of nxt "map fst adj" color c "\<lambda>k. 2 + length (deps_of adj k)"]
  by (simp add: map_of_eq_None_iff)

text \<open>
  The inner \<open>while stack\<close> loop, the top of the stack first: \<open>Inl n\<close> when it returns the stage
  \<open>n\<close>, \<open>Inr color\<close> when the stack runs empty.
\<close>

function dfs_loop :: "(string \<times> string list) list \<Rightarrow> (string \<rightharpoonup> color) \<Rightarrow> (string \<times> nat) list \<Rightarrow>
    string + (string \<rightharpoonup> color)" where
  "dfs_loop adj color [] = Inr color"
| "dfs_loop adj color ((node, i) # stack) =
     (let deps = deps_of adj node in
      if i < length deps then
        (let nxt = deps ! i in
         if map_of adj nxt = None then dfs_loop adj color ((node, Suc i) # stack)
         else if color nxt = Some GREY then Inl nxt
         else if color nxt \<noteq> Some BLACK then
           dfs_loop adj (color(nxt \<mapsto> GREY)) ((nxt, 0) # (node, Suc i) # stack)
         else dfs_loop adj color ((node, Suc i) # stack))
      else dfs_loop adj (color(node \<mapsto> BLACK)) stack)"
  by pat_completeness auto
termination
proof (relation "measure (\<lambda>(adj, color, stack). white_weight adj color + stack_weight adj stack)",
    goal_cases)
  case 1
  then show ?case by simp
next
  case 2
  then show ?case by (simp add: stack_weight_def)
next
  case (3 adj color node i stack deps nxt)
  then have "color nxt = None"
    by (cases "color nxt") (auto intro: color.exhaust)
  with 3 white_weight_upd [of adj nxt color GREY] show ?case by (simp add: stack_weight_def)
next
  case 4
  then show ?case by (simp add: stack_weight_def)
next
  case (5 adj color node i stack deps)
  have "white_weight adj (color(node \<mapsto> BLACK)) \<le> white_weight adj color"
    by (rule white_weight_mono) (simp split: if_splits)
  with 5 show ?case by (simp add: stack_weight_def)
qed

declare dfs_loop.simps(2) [simp del]

fun dfs_roots :: "(string \<times> string list) list \<Rightarrow> (string \<rightharpoonup> color) \<Rightarrow> string list \<Rightarrow> string option" where
  "dfs_roots adj color [] = None"
| "dfs_roots adj color (root # roots) =
     (if color root \<noteq> None then dfs_roots adj color roots
      else case dfs_loop adj (color(root \<mapsto> GREY)) [(root, 0)] of
             Inl n \<Rightarrow> Some n
           | Inr color' \<Rightarrow> dfs_roots adj color' roots)"

definition find_cycle :: "workflow_def \<Rightarrow> string option" where
  "find_cycle defn = (let adj = adjacency (wf_stages defn) in dfs_roots adj Map.empty (map fst adj))"

section \<open>Findings\<close>

datatype workflow_issue_code =
    InvalidName | NoStages | InvalidStageId | DuplicateStageId | MissingHarness | MissingModel
  | SelfDependency | UnknownDependency | DuplicateDependency | Cycle | NoRoot | UnsupportedMode
  | UnsupportedGate

datatype path_item = PName string | PIndex nat

datatype severity = SevError | SevWarning

record workflow_issue =
  issue_code :: workflow_issue_code
  issue_path :: "path_item list"
  issue_stage :: "string option"
  issue_dependency :: "string option"
  issue_severity :: severity

definition error_issue ::
    "workflow_issue_code \<Rightarrow> path_item list \<Rightarrow> string option \<Rightarrow> string option \<Rightarrow> workflow_issue" where
  "error_issue c p s d = \<lparr>issue_code = c, issue_path = p, issue_stage = s, issue_dependency = d,
     issue_severity = SevError\<rparr>"

definition warning_issue ::
    "workflow_issue_code \<Rightarrow> path_item list \<Rightarrow> string option \<Rightarrow> workflow_issue" where
  "warning_issue c p s = \<lparr>issue_code = c, issue_path = p, issue_stage = s, issue_dependency = None,
     issue_severity = SevWarning\<rparr>"

definition stage_path :: "nat \<Rightarrow> string \<Rightarrow> path_item list" where
  "stage_path i field = [PName ''stages'', PIndex i, PName field]"

definition blank :: "string option \<Rightarrow> bool" where
  "blank v \<longleftrightarrow> v = None \<or> v = Some []"

definition stage_issues :: "workflow_def \<Rightarrow> string list \<Rightarrow> nat \<Rightarrow> stage_def \<Rightarrow> workflow_issue list" where
  "stage_issues defn seen i s =
     (if stage_id_re (stage_id s) then []
      else [error_issue InvalidStageId (stage_path i ''id'') (Some (stage_id s)) None]) @
     (if List.member seen (stage_id s)
      then [error_issue DuplicateStageId (stage_path i ''id'') (Some (stage_id s)) None] else []) @
     (if \<not> builtin defn \<and> blank (stage_harness s)
      then [error_issue MissingHarness (stage_path i ''harness'') (Some (stage_id s)) None] else []) @
     (if \<not> builtin defn \<and> blank (stage_model s)
      then [error_issue MissingModel (stage_path i ''model'') (Some (stage_id s)) None] else []) @
     (if stage_gate s \<noteq> GateAuto
      then [warning_issue UnsupportedGate (stage_path i ''gate'') (Some (stage_id s))] else [])"

fun stages_issues :: "workflow_def \<Rightarrow> string list \<Rightarrow> nat \<Rightarrow> stage_def list \<Rightarrow> workflow_issue list" where
  "stages_issues defn seen i [] = []"
| "stages_issues defn seen i (s # ss) =
     stage_issues defn seen i s @ stages_issues defn (stage_id s # seen) (Suc i) ss"

definition dep_path :: "nat \<Rightarrow> nat \<Rightarrow> path_item list" where
  "dep_path i j = [PName ''stages'', PIndex i, PName ''depends_on'', PIndex j]"

fun dep_issues :: "string list \<Rightarrow> nat \<Rightarrow> string \<Rightarrow> string list \<Rightarrow> nat \<Rightarrow> string list \<Rightarrow> workflow_issue list" where
  "dep_issues ids i sid dep_seen j [] = []"
| "dep_issues ids i sid dep_seen j (dep # deps) =
     (if dep = sid then [error_issue SelfDependency (dep_path i j) (Some sid) (Some dep)]
      else if \<not> List.member ids dep
        then [error_issue UnknownDependency (dep_path i j) (Some sid) (Some dep)]
      else []) @
     (if List.member dep_seen dep
      then [error_issue DuplicateDependency (dep_path i j) (Some sid) (Some dep)] else []) @
     dep_issues ids i sid (dep # dep_seen) (Suc j) deps"

fun deps_issues :: "string list \<Rightarrow> nat \<Rightarrow> stage_def list \<Rightarrow> workflow_issue list" where
  "deps_issues ids i [] = []"
| "deps_issues ids i (s # ss) =
     dep_issues ids i (stage_id s) [] 0 (depends_on s) @ deps_issues ids (Suc i) ss"

definition name_issues :: "workflow_def \<Rightarrow> workflow_issue list" where
  "name_issues defn =
     (if wf_name defn = [] then [error_issue InvalidName [PName ''name''] None None]
      else if \<not> name_re (wf_name defn) then [error_issue InvalidName [PName ''name''] None None]
      else [])"

definition workflow_issues :: "workflow_def \<Rightarrow> workflow_issue list" where
  "workflow_issues defn =
     (if wf_stages defn = []
      then name_issues defn @ [error_issue NoStages [PName ''stages''] None None]
      else name_issues defn @
        (if wf_mode defn \<noteq> StaticMode then [warning_issue UnsupportedMode [PName ''mode''] None] else []) @
        stages_issues defn [] 0 (wf_stages defn) @
        deps_issues (map stage_id (wf_stages defn)) 0 (wf_stages defn) @
        (case find_cycle defn of
           None \<Rightarrow> []
         | Some c \<Rightarrow> [error_issue Cycle [PName ''stages''] (Some c) None]) @
        (if wf_mode defn = StaticMode \<and> \<not> list_ex (\<lambda>s. depends_on s = []) (wf_stages defn)
         then [error_issue NoRoot [PName ''stages''] None None] else []))"

definition validate_workflow :: "workflow_def \<Rightarrow> workflow_issue list" where
  "validate_workflow defn = filter (\<lambda>i. issue_severity i = SevError) (workflow_issues defn)"

section \<open>Correctness of the cycle search\<close>

text \<open>The edges the search follows: from a known stage to a dependency that is a known stage.\<close>

definition edges :: "(string \<times> string list) list \<Rightarrow> (string \<times> string) set" where
  "edges adj = {(a, b). b \<in> set (deps_of adj a) \<and> map_of adj b \<noteq> None}"

lemma edges_source: "(a, b) \<in> edges adj \<Longrightarrow> map_of adj a \<noteq> None"
  by (cases "map_of adj a") (auto simp: edges_def deps_of_def)

lemma acyclic_add_source:
  assumes "acyclic R" and "\<And>a b. (a, b) \<in> S \<Longrightarrow> a = n" and "n \<notin> Range (R \<union> S)"
  shows "acyclic (R \<union> S)"
proof -
  have walk: "x = n \<or> (x, y) \<in> R\<^sup>+" if "(x, y) \<in> (R \<union> S)\<^sup>+" for x y
    using that
  proof (induction rule: trancl_induct)
    case (base y)
    then show ?case using assms(2) by auto
  next
    case (step y z)
    have "y \<in> Range (R \<union> S)" using step.hyps(1) by (metis Range.intros tranclE)
    then have "y \<noteq> n" using assms(3) by auto
    then have "(y, z) \<in> R" using step.hyps(2) assms(2) by auto
    with step.IH show ?case by (meson trancl.trancl_into_trancl)
  qed
  show ?thesis
  proof (rule acyclicI, clarify)
    fix x assume x: "(x, x) \<in> (R \<union> S)\<^sup>+"
    then have "x \<in> Range (R \<union> S)" by (metis Range.intros tranclE)
    then have "x \<noteq> n" using assms(3) by auto
    with walk [OF x] assms(1) show False by (simp add: acyclic_def)
  qed
qed

text \<open>
  The black stages are closed under dependencies and carry no cycle; every stage on the stack was
  reached through the one below it, and its dependencies before the index are black or the stage
  above it.
\<close>

definition blacks :: "(string \<rightharpoonup> color) \<Rightarrow> string set" where
  "blacks color = {n. color n = Some BLACK}"

definition black_ok :: "(string \<times> string list) list \<Rightarrow> (string \<rightharpoonup> color) \<Rightarrow> bool" where
  "black_ok adj color \<longleftrightarrow>
     (\<forall>a b. (a, b) \<in> edges adj \<longrightarrow> a \<in> blacks color \<longrightarrow> b \<in> blacks color) \<and>
     acyclic {(a, b) \<in> edges adj. a \<in> blacks color}"

fun stack_ok :: "(string \<times> string list) list \<Rightarrow> (string \<rightharpoonup> color) \<Rightarrow> string option \<Rightarrow>
    (string \<times> nat) list \<Rightarrow> bool" where
  "stack_ok adj color child [] = True"
| "stack_ok adj color child ((n, i) # stack) =
     (color n = Some GREY \<and> map_of adj n \<noteq> None \<and> i \<le> length (deps_of adj n) \<and>
      (\<forall>j < i. map_of adj (deps_of adj n ! j) \<noteq> None \<longrightarrow>
         deps_of adj n ! j \<in> blacks color \<or> child = Some (deps_of adj n ! j)) \<and>
      (\<forall>c. child = Some c \<longrightarrow> (n, c) \<in> edges adj) \<and>
      stack_ok adj color (Some n) stack)"

definition dfs_inv :: "(string \<times> string list) list \<Rightarrow> (string \<rightharpoonup> color) \<Rightarrow> (string \<times> nat) list \<Rightarrow> bool" where
  "dfs_inv adj color stack \<longleftrightarrow>
     black_ok adj color \<and> stack_ok adj color None stack \<and> distinct (map fst stack) \<and>
     {n. color n = Some GREY} = set (map fst stack)"

lemma stack_ok_colors:
  assumes "stack_ok adj color child stack" and "blacks color \<subseteq> blacks color'"
    and "\<And>n. n \<in> set (map fst stack) \<Longrightarrow> color' n = color n"
  shows "stack_ok adj color' child stack"
  using assms
proof (induction adj color child stack rule: stack_ok.induct)
  case 1
  then show ?case by simp
next
  case (2 adj color child n i stack)
  then show ?case by auto
qed

lemma stack_ok_upd:
  assumes "stack_ok adj color child stack" and "n \<notin> set (map fst stack)"
    and "color n \<noteq> Some BLACK \<or> c = BLACK"
  shows "stack_ok adj (color(n \<mapsto> c)) child stack"
  by (rule stack_ok_colors [OF assms(1)]) (use assms(2,3) in \<open>force simp: blacks_def\<close>)+

lemma dfs_invD:
  assumes "dfs_inv adj color stack"
  shows "black_ok adj color" and "stack_ok adj color None stack" and "distinct (map fst stack)"
    and "{n. color n = Some GREY} = set (map fst stack)"
  using assms by (simp_all add: dfs_inv_def)

lemma stack_ok_child:
  assumes "stack_ok adj color (Some c) stack" and "color c = Some BLACK \<or> map_of adj c = None"
  shows "stack_ok adj color None stack"
proof (cases stack)
  case Nil
  then show ?thesis by simp
next
  case (Cons e st)
  obtain n i where e: "e = (n, i)" by (cases e)
  have "deps_of adj n ! j \<in> blacks color"
    if "j < i" "map_of adj (deps_of adj n ! j) \<noteq> None" for j
  proof -
    have "deps_of adj n ! j \<in> blacks color \<or> c = deps_of adj n ! j"
      using assms(1) that Cons e by auto
    with that(2) assms(2) show ?thesis by (auto simp: blacks_def)
  qed
  with assms(1) Cons e show ?thesis by auto
qed

lemma stack_path:
  assumes "stack_ok adj color (Some c) stack" and "m \<in> set (map fst stack)"
  shows "(m, c) \<in> (edges adj)\<^sup>+"
  using assms
proof (induction stack arbitrary: c)
  case Nil
  then show ?case by simp
next
  case (Cons e stack)
  obtain n i where e: "e = (n, i)" by (cases e)
  with Cons.prems(1) have edge: "(n, c) \<in> edges adj" and rest: "stack_ok adj color (Some n) stack"
    by auto
  show ?case
  proof (cases "m = n")
    case True
    with edge show ?thesis by auto
  next
    case False
    with Cons.prems(2) e have "m \<in> set (map fst stack)" by auto
    from Cons.IH [OF rest this] edge show ?thesis by auto
  qed
qed

lemma black_ok_finish:
  assumes ok: "black_ok adj color" and grey: "color node \<noteq> Some BLACK"
    and deps: "\<And>b. (node, b) \<in> edges adj \<Longrightarrow> b \<in> blacks color"
  shows "black_ok adj (color(node \<mapsto> BLACK))"
proof -
  let ?R = "{(a, b) \<in> edges adj. a \<in> blacks color}" and ?S = "{(a, b) \<in> edges adj. a = node}"
  have blacks: "blacks (color(node \<mapsto> BLACK)) = insert node (blacks color)"
    by (auto simp: blacks_def)
  have "node \<notin> blacks color" using grey by (simp add: blacks_def)
  then have "node \<notin> Range (?R \<union> ?S)"
    using ok deps by (auto simp: black_ok_def)
  then have "acyclic (?R \<union> ?S)"
    using ok by (intro acyclic_add_source) (auto simp: black_ok_def)
  moreover have "{(a, b) \<in> edges adj. a \<in> insert node (blacks color)} = ?R \<union> ?S" by auto
  ultimately show ?thesis
    using ok deps by (auto simp: black_ok_def blacks)
qed

lemma dfs_skip_inv:
  assumes "dfs_inv adj color ((node, i) # stack)" and "i < length (deps_of adj node)"
    and "map_of adj (deps_of adj node ! i) = None \<or> color (deps_of adj node ! i) = Some BLACK"
  shows "dfs_inv adj color ((node, Suc i) # stack)"
  using assms by (auto simp: dfs_inv_def less_Suc_eq blacks_def)

lemma dfs_push_inv:
  assumes inv: "dfs_inv adj color ((node, i) # stack)" and i: "i < length (deps_of adj node)"
    and known: "map_of adj (deps_of adj node ! i) \<noteq> None" and white: "color (deps_of adj node ! i) = None"
  shows "dfs_inv adj (color(deps_of adj node ! i \<mapsto> GREY)) ((deps_of adj node ! i, 0) # (node, Suc i) # stack)"
proof -
  let ?c = "deps_of adj node ! i"
  let ?color = "color(?c \<mapsto> GREY)"
  have blacks: "blacks ?color = blacks color" using white by (auto simp: blacks_def)
  have greys: "{n. color n = Some GREY} = set (map fst ((node, i) # stack))"
    using inv by (simp add: dfs_inv_def)
  then have new: "?c \<notin> set (map fst ((node, i) # stack))" using white by (metis mem_Collect_eq option.distinct(1))
  have "(node, ?c) \<in> edges adj" using i known by (simp add: edges_def)
  moreover have "stack_ok adj ?color (Some node) stack"
    using dfs_invD(2) [OF inv] new white by (intro stack_ok_upd) simp_all
  ultimately have "stack_ok adj ?color None ((?c, 0) # (node, Suc i) # stack)"
    using dfs_invD(2) [OF inv] i known new blacks by (simp add: less_Suc_eq)
  moreover have "black_ok adj ?color" using inv blacks by (simp add: dfs_inv_def black_ok_def)
  moreover have "{n. ?color n = Some GREY} = insert ?c {n. color n = Some GREY}" by auto
  ultimately show ?thesis using inv new greys by (auto simp: dfs_inv_def)
qed

lemma dfs_pop_inv:
  assumes inv: "dfs_inv adj color ((node, i) # stack)" and i: "\<not> i < length (deps_of adj node)"
  shows "dfs_inv adj (color(node \<mapsto> BLACK)) stack"
proof -
  let ?color = "color(node \<mapsto> BLACK)"
  have grey: "color node = Some GREY" and dist: "node \<notin> set (map fst stack)"
    using inv by (auto simp: dfs_inv_def)
  have "b \<in> blacks color" if "(node, b) \<in> edges adj" for b
  proof -
    from that obtain j where "j < length (deps_of adj node)" "deps_of adj node ! j = b"
      by (auto simp: edges_def in_set_conv_nth)
    with inv i that show ?thesis by (auto simp: dfs_inv_def edges_def)
  qed
  with inv grey have "black_ok adj ?color" by (intro black_ok_finish) (auto simp: dfs_inv_def)
  moreover have "stack_ok adj ?color None stack"
  proof (rule stack_ok_child)
    show "stack_ok adj ?color (Some node) stack"
      using dfs_invD(2) [OF inv] dist by (intro stack_ok_upd) simp_all
  qed simp
  moreover have "{n. ?color n = Some GREY} = {n. color n = Some GREY} - {node}" by auto
  ultimately show ?thesis using inv dist by (auto simp: dfs_inv_def)
qed

lemma dfs_loop_ok:
  "dfs_inv adj color stack \<Longrightarrow>
     (case dfs_loop adj color stack of
        Inl n \<Rightarrow> (n, n) \<in> (edges adj)\<^sup>+
      | Inr color' \<Rightarrow> dfs_inv adj color' [] \<and> blacks color \<subseteq> blacks color' \<and>
          set (map fst stack) \<subseteq> blacks color')"
proof (induction adj color stack rule: dfs_loop.induct)
  case (1 adj color)
  then show ?case by simp
next
  case (2 adj color node i stack)
  let ?c = "deps_of adj node ! i"
  show ?case
  proof (cases "i < length (deps_of adj node)")
    case False
    define color1 where "color1 = color(node \<mapsto> BLACK)"
    have inv: "dfs_inv adj color1 stack"
      unfolding color1_def using dfs_pop_inv [OF "2.prems" False] .
    have mono: "blacks color \<subseteq> blacks color1" "node \<in> blacks color1"
      by (auto simp: blacks_def color1_def)
    have run: "dfs_loop adj color ((node, i) # stack) = dfs_loop adj color1 stack"
      using False by (subst dfs_loop.simps(2)) (simp add: color1_def)
    from "2.IH"(4) [OF refl False inv [unfolded color1_def], folded color1_def] mono
    show ?thesis unfolding run by (auto split: sum.splits)
  next
    case i: True
    show ?thesis
    proof (cases "map_of adj ?c = None \<or> color ?c = Some BLACK")
      case True
      from dfs_skip_inv [OF "2.prems" i this] have inv: "dfs_inv adj color ((node, Suc i) # stack)" .
      have "dfs_loop adj color ((node, i) # stack) = dfs_loop adj color ((node, Suc i) # stack)"
        by (subst dfs_loop.simps(2)) (use True i in \<open>auto simp: Let_def\<close>)
      moreover have "case dfs_loop adj color ((node, Suc i) # stack) of
          Inl n \<Rightarrow> (n, n) \<in> (edges adj)\<^sup>+
        | Inr color' \<Rightarrow> dfs_inv adj color' [] \<and> blacks color \<subseteq> blacks color' \<and>
            set (map fst ((node, Suc i) # stack)) \<subseteq> blacks color'"
      proof (cases "map_of adj ?c = None")
        case none: True
        show ?thesis by (rule "2.IH"(1) [OF refl i refl none inv])
      next
        case some: False
        with True have "color ?c = Some BLACK" by simp
        then show ?thesis by (intro "2.IH"(3) [OF refl i refl some _ _ inv]) simp_all
      qed
      ultimately show ?thesis by (simp split: sum.splits)
    next
      case False
      show ?thesis
      proof (cases "color ?c")
        case (Some col)
        with False have grey: "color ?c = Some GREY" by (cases col) auto
        then have "?c \<in> set (map fst ((node, i) # stack))" using "2.prems" by (auto simp: dfs_inv_def)
        moreover have edge: "(node, ?c) \<in> edges adj" using i False by (auto simp: edges_def)
        ultimately have "(?c, ?c) \<in> (edges adj)\<^sup>+"
          using "2.prems" stack_path [of adj color node stack ?c]
          by (auto simp: dfs_inv_def intro: trancl_into_trancl)
        with grey i False show ?thesis by (subst dfs_loop.simps(2)) (auto simp: Let_def)
      next
        case None
        define color1 where "color1 = color(?c \<mapsto> GREY)"
        from dfs_push_inv [OF "2.prems" i _ None] False
        have inv: "dfs_inv adj color1 ((?c, 0) # (node, Suc i) # stack)" by (simp add: color1_def)
        have mono: "blacks color \<subseteq> blacks color1" using None by (auto simp: blacks_def color1_def)
        have run: "dfs_loop adj color ((node, i) # stack) =
            dfs_loop adj color1 ((?c, 0) # (node, Suc i) # stack)"
          using None False i by (subst dfs_loop.simps(2)) (auto simp: color1_def Let_def)
        from "2.IH"(2) [OF refl i refl _ _ _ inv [unfolded color1_def], folded color1_def] None False mono
        show ?thesis unfolding run by (auto split: sum.splits)
      qed
    qed
  qed
qed

lemma dfs_roots_ok:
  assumes "dfs_inv adj color []" and "set roots \<subseteq> set (map fst adj)"
  shows "case dfs_roots adj color roots of
      Some n \<Rightarrow> (n, n) \<in> (edges adj)\<^sup>+
    | None \<Rightarrow> \<exists>color'. dfs_inv adj color' [] \<and> blacks color \<subseteq> blacks color' \<and> set roots \<subseteq> blacks color'"
  using assms
proof (induction adj color roots rule: dfs_roots.induct)
  case (1 adj color)
  then show ?case by auto
next
  case (2 adj color root roots)
  have no_grey: "color n \<noteq> Some GREY" for n using "2.prems"(1) by (auto simp: dfs_inv_def)
  show ?case
  proof (cases "color root")
    case (Some col)
    then have "root \<in> blacks color" using no_grey [of root] by (cases col) (auto simp: blacks_def)
    with Some "2.IH"(1) "2.prems" show ?thesis by (auto split: option.splits)
  next
    case None
    let ?color = "color(root \<mapsto> GREY)"
    have blacks: "blacks ?color = blacks color" using None by (auto simp: blacks_def)
    have "dfs_inv adj ?color [(root, 0)]"
      using "2.prems" no_grey blacks by (auto simp: dfs_inv_def black_ok_def map_of_eq_None_iff)
    from dfs_loop_ok [OF this]
    have run: "case dfs_loop adj ?color [(root, 0)] of Inl n \<Rightarrow> (n, n) \<in> (edges adj)\<^sup>+
        | Inr color' \<Rightarrow> dfs_inv adj color' [] \<and> blacks color \<subseteq> blacks color' \<and> root \<in> blacks color'"
      by (simp add: blacks split: sum.splits)
    show ?thesis
    proof (cases "dfs_loop adj ?color [(root, 0)]")
      case (Inl n)
      with run None show ?thesis by simp
    next
      case (Inr color')
      with run None "2.IH"(2) [OF _ Inr] "2.prems" show ?thesis
        by (auto split: option.splits)
    qed
  qed
qed

lemma dfs_inv_start: "dfs_inv adj Map.empty []"
  by (simp add: dfs_inv_def black_ok_def blacks_def acyclic_def)

lemma dfs_roots_acyclic:
  assumes "dfs_roots adj Map.empty (map fst adj) = None"
  shows "acyclic (edges adj)"
proof -
  from dfs_roots_ok [OF dfs_inv_start, of "map fst adj" adj] assms
  obtain color where "dfs_inv adj color []" "set (map fst adj) \<subseteq> blacks color" by auto
  moreover from this(2) have "{(a, b) \<in> edges adj. a \<in> blacks color} = edges adj"
    using edges_source by (fastforce simp: map_of_eq_None_iff)
  ultimately show ?thesis by (simp add: dfs_inv_def black_ok_def)
qed

lemma dfs_roots_cycle:
  "dfs_roots adj Map.empty (map fst adj) = Some n \<Longrightarrow> (n, n) \<in> (edges adj)\<^sup>+"
  using dfs_roots_ok [OF dfs_inv_start, of "map fst adj" adj] by auto

section \<open>From the adjacency to the stages\<close>

lemma map_of_setdefault:
  "map_of (setdefault k v al) x = (if map_of al x = None \<and> x = k then Some v else map_of al x)"
  by (auto simp: setdefault_def map_add_def split: option.splits)

lemma map_of_adjacency_aux:
  assumes "distinct (map stage_id stages)" and "\<And>s. s \<in> set stages \<Longrightarrow> map_of al (stage_id s) = None"
  shows "map_of (fold (\<lambda>s. setdefault (stage_id s) (f s)) stages al) x =
    (case find (\<lambda>s. stage_id s = x) stages of None \<Rightarrow> map_of al x | Some s \<Rightarrow> Some (f s))"
  using assms
proof (induction stages arbitrary: al)
  case Nil
  then show ?case by simp
next
  case (Cons s stages)
  have "map_of (setdefault (stage_id s) (f s) al) (stage_id t) = None" if "t \<in> set stages" for t
    using Cons.prems that by (auto simp: map_of_setdefault rev_image_eqI)
  with Cons.IH [of "setdefault (stage_id s) (f s) al"] Cons.prems show ?case
    by (auto simp: map_of_setdefault find_eq_None rev_image_eqI split: option.splits dest!: find_Some_mem)
qed

lemma fst_adjacency_aux:
  "set (map fst (fold (\<lambda>s. setdefault (stage_id s) (f s)) stages al)) =
     set (map fst al) \<union> stage_id ` set stages"
proof (induction stages arbitrary: al)
  case Nil
  then show ?case by simp
next
  case (Cons s stages)
  have "set (map fst (setdefault (stage_id s) (f s) al)) = insert (stage_id s) (set (map fst al))"
    by (auto simp: setdefault_def rev_image_eqI map_of_eq_None_iff
        dest!: map_of_SomeD)
  with Cons show ?case by auto
qed

text \<open>The dependency graph of a list of stages: an edge from each stage to its dependencies.\<close>

definition dependency_graph :: "stage_def list \<Rightarrow> (string \<times> string) set" where
  "dependency_graph stages = {(stage_id s, d) |s d. s \<in> set stages \<and> d \<in> set (depends_on s)}"

lemma dependency_graphI:
  "s \<in> set stages \<Longrightarrow> d \<in> set (depends_on s) \<Longrightarrow> (stage_id s, d) \<in> dependency_graph stages"
  by (auto simp: dependency_graph_def)

lemma edges_adjacency:
  assumes "distinct (map stage_id stages)"
  shows "edges (adjacency stages) =
    {(a, b) \<in> dependency_graph stages. a \<noteq> b \<and> b \<in> stage_id ` set stages}"
proof -
  have deps: "deps_of (adjacency stages) a =
      (case find (\<lambda>s. stage_id s = a) stages of None \<Rightarrow> []
       | Some s \<Rightarrow> filter (\<lambda>d. d \<noteq> stage_id s) (depends_on s))" for a
    unfolding adjacency_def deps_of_def
    using map_of_adjacency_aux [OF assms, of "[]" "\<lambda>s. filter (\<lambda>d. d \<noteq> stage_id s) (depends_on s)" a]
    by (simp split: option.splits)
  have known: "map_of (adjacency stages) b \<noteq> None \<longleftrightarrow> b \<in> stage_id ` set stages" for b
    unfolding adjacency_def
    using fst_adjacency_aux [of "\<lambda>s. filter (\<lambda>d. d \<noteq> stage_id s) (depends_on s)" stages "[]"]
    by (simp add: map_of_eq_None_iff)
  have "b \<in> set (deps_of (adjacency stages) a) \<longleftrightarrow> (a, b) \<in> dependency_graph stages \<and> a \<noteq> b" for a b
  proof (cases "find (\<lambda>s. stage_id s = a) stages")
    case None
    then have "a \<notin> stage_id ` set stages" by (auto simp: find_eq_None)
    then show ?thesis by (auto simp: deps None dependency_graph_def)
  next
    case (Some s)
    then have s: "s \<in> set stages" "stage_id s = a" by (auto dest: find_Some_mem)
    have uniq: "t = s" if "t \<in> set stages" "stage_id t = a" for t
      using distinct_key_eq [OF assms that(1) s(1)] that(2) s(2) by simp
    have "(a, b) \<in> dependency_graph stages \<longleftrightarrow> b \<in> set (depends_on s)"
      using uniq s by (fastforce simp: dependency_graph_def)
    moreover have "set (deps_of (adjacency stages) a) = {d \<in> set (depends_on s). d \<noteq> a}"
      using Some s(2) by (simp add: deps)
    ultimately show ?thesis by auto
  qed
  then show ?thesis unfolding edges_def known by auto
qed

section \<open>What an accepted template satisfies\<close>

lemma error_in_validate:
  "i \<in> set (workflow_issues defn) \<Longrightarrow> issue_severity i = SevError \<Longrightarrow> validate_workflow defn \<noteq> []"
  by (auto simp: validate_workflow_def filter_empty_conv)

lemma severity_simps [simp]:
  "issue_severity (error_issue c p s d) = SevError" "issue_severity (warning_issue c p s) = SevWarning"
  by (simp_all add: error_issue_def warning_issue_def)

lemma stages_issues_clean:
  assumes "\<forall>i \<in> set (stages_issues defn seen k ss). issue_severity i \<noteq> SevError"
  shows "distinct (map stage_id ss) \<and> set (map stage_id ss) \<inter> set seen = {} \<and>
    (\<forall>s \<in> set ss. stage_id_re (stage_id s) \<and>
       (\<not> builtin defn \<longrightarrow> \<not> blank (stage_harness s) \<and> \<not> blank (stage_model s)))"
  using assms
proof (induction ss arbitrary: seen k)
  case Nil
  then show ?case by simp
next
  case (Cons s ss)
  from Cons.IH [of "stage_id s # seen" "Suc k"] Cons.prems show ?case
    by (auto simp: stage_issues_def ball_Un split: if_splits)
qed

lemma dep_issues_clean:
  assumes "\<forall>i \<in> set (dep_issues ids k sid seen j deps). issue_severity i \<noteq> SevError"
  shows "set deps \<subseteq> set ids - {sid} \<and> distinct deps \<and> set deps \<inter> set seen = {}"
  using assms
proof (induction deps arbitrary: seen j)
  case Nil
  then show ?case by simp
next
  case (Cons d deps)
  from Cons.IH [of "d # seen" "Suc j"] Cons.prems show ?case
    by (auto simp: ball_Un split: if_splits)
qed

lemma deps_issues_clean:
  assumes "\<forall>i \<in> set (deps_issues ids k ss). issue_severity i \<noteq> SevError" and "s \<in> set ss"
  shows "set (depends_on s) \<subseteq> set ids - {stage_id s} \<and> distinct (depends_on s)"
  using assms
proof (induction ss arbitrary: k)
  case Nil
  then show ?case by simp
next
  case (Cons t ss)
  then show ?case using dep_issues_clean [of ids k "stage_id t" "[]" 0 "depends_on t"]
    by (auto simp: ball_Un)
qed

text \<open>The contract of the templates that materialisation and compilation start from.\<close>

definition well_formed_stages :: "stage_def list \<Rightarrow> bool" where
  "well_formed_stages stages \<longleftrightarrow> stages \<noteq> [] \<and> distinct (map stage_id stages) \<and>
     (\<forall>s \<in> set stages. set (depends_on s) \<subseteq> stage_id ` set stages - {stage_id s} \<and>
        distinct (depends_on s)) \<and>
     acyclic (dependency_graph stages)"

lemma validate_well_formed:
  assumes "validate_workflow defn = []"
  shows "well_formed_stages (wf_stages defn)"
proof -
  let ?ss = "wf_stages defn"
  have clean: "\<forall>i \<in> set (workflow_issues defn). issue_severity i \<noteq> SevError"
    using error_in_validate assms by blast
  then have ne: "?ss \<noteq> []" by (auto simp: workflow_issues_def)
  with clean have stages: "\<forall>i \<in> set (stages_issues defn [] 0 ?ss). issue_severity i \<noteq> SevError"
    and deps: "\<forall>i \<in> set (deps_issues (map stage_id ?ss) 0 ?ss). issue_severity i \<noteq> SevError"
    by (simp_all add: workflow_issues_def ball_Un)
  from clean ne have cycle: "find_cycle defn = None"
    by (cases "find_cycle defn") (auto simp: workflow_issues_def)
  from stages_issues_clean [OF stages] have dist: "distinct (map stage_id ?ss)" by simp
  have known: "set (depends_on s) \<subseteq> stage_id ` set ?ss - {stage_id s} \<and> distinct (depends_on s)"
    if "s \<in> set ?ss" for s
    using deps_issues_clean [OF deps that] by simp
  have "edges (adjacency ?ss) = dependency_graph ?ss"
    unfolding edges_adjacency [OF dist] using known by (fastforce simp: dependency_graph_def)
  with cycle have "acyclic (dependency_graph ?ss)"
    using dfs_roots_acyclic [of "adjacency ?ss"] by (simp add: find_cycle_def Let_def)
  with ne dist known show ?thesis by (simp add: well_formed_stages_def)
qed

section \<open>Properties\<close>

definition sample_stage :: "string \<Rightarrow> string list \<Rightarrow> stage_def" where
  "sample_stage sid deps = \<lparr>stage_id = sid, stage_title = sid, stage_instructions = [],
     stage_harness = Some ''codex'', stage_model = Some ''m'', stage_worktree = None,
     depends_on = deps, stage_gate = GateAuto\<rparr>"

definition sample_workflow :: "stage_def list \<Rightarrow> workflow_def" where
  "sample_workflow stages = \<lparr>wf_name = ''flow'', definition_version = 1, wf_description = [],
     builtin = False, wf_mode = StaticMode, wf_inputs = [], wf_stages = stages\<rparr>"

lemmas sample_workflow_simps = sample_workflow_def sample_stage_def

text \<open>
  C32: a template that \<open>validate_workflow\<close> accepts is well formed: it has a stage, stage ids are
  unique, every dependency of a stage is another declared stage named once, and the dependency
  graph has no cycle. A static template also has a root, and a user template's stages name their
  harness and model.
\<close>

theorem validated_workflow_is_sound:
  assumes "validate_workflow defn = []"
  shows "well_formed_stages (wf_stages defn) \<and> name_re (wf_name defn) \<and>
    (wf_mode defn = StaticMode \<longrightarrow> (\<exists>s \<in> set (wf_stages defn). depends_on s = [])) \<and>
    (\<forall>s \<in> set (wf_stages defn). stage_id_re (stage_id s) \<and>
       (\<not> builtin defn \<longrightarrow> \<not> blank (stage_harness s) \<and> \<not> blank (stage_model s)))"
proof -
  have clean: "\<forall>i \<in> set (workflow_issues defn). issue_severity i \<noteq> SevError"
    using error_in_validate assms by blast
  have wf: "well_formed_stages (wf_stages defn)" by (rule validate_well_formed [OF assms])
  with clean have stages: "\<forall>i \<in> set (stages_issues defn [] 0 (wf_stages defn)). issue_severity i \<noteq> SevError"
    and name: "\<forall>i \<in> set (name_issues defn). issue_severity i \<noteq> SevError"
    and root: "wf_mode defn = StaticMode \<longrightarrow> (\<exists>s \<in> set (wf_stages defn). depends_on s = [])"
    by (simp_all add: workflow_issues_def ball_Un well_formed_stages_def list_ex_iff split: if_splits)
  from name have "name_re (wf_name defn)" by (simp add: name_issues_def split: if_splits)
  with wf root stages_issues_clean [OF stages] show ?thesis by blast
qed

theorem validated_workflow_is_sound_witness:
  "well_formed_stages [sample_stage ''b'' [''a''], sample_stage ''a'' []]"
proof -
  have "validate_workflow (sample_workflow [sample_stage ''b'' [''a''], sample_stage ''a'' []]) = []"
    by (simp add: validate_workflow_def workflow_issues_def name_issues_def stage_issues_def
        sample_workflow_simps find_cycle_def adjacency_def setdefault_def deps_of_def name_re_def
        dollar_def stage_id_re_def ident_char_def blank_def Let_def less_eq_char_def dfs_loop.simps)
  from validated_workflow_is_sound [OF this] show ?thesis by (simp add: sample_workflow_def)
qed

text \<open>
  C33: the cycle search is exact on templates with unique stage ids. It terminates, it reports a
  stage if and only if the graph of dependencies between different declared stages has a cycle,
  and a stage it reports lies on one.
\<close>

theorem find_cycle_exact:
  assumes "distinct (map stage_id (wf_stages defn))"
    and "G = {(a, b) \<in> dependency_graph (wf_stages defn).
      a \<noteq> b \<and> b \<in> stage_id ` set (wf_stages defn)}"
  shows "(find_cycle defn = None \<longleftrightarrow> acyclic G) \<and> (\<forall>n. find_cycle defn = Some n \<longrightarrow> (n, n) \<in> G\<^sup>+)"
proof -
  have G: "edges (adjacency (wf_stages defn)) = G" using edges_adjacency assms by simp
  have "acyclic G" if "find_cycle defn = None"
    using dfs_roots_acyclic [of "adjacency (wf_stages defn)"] that by (simp add: find_cycle_def G Let_def)
  moreover have "(n, n) \<in> G\<^sup>+" if "find_cycle defn = Some n" for n
    using dfs_roots_cycle [of "adjacency (wf_stages defn)" n] that by (simp add: find_cycle_def G Let_def)
  ultimately show ?thesis by (cases "find_cycle defn") (auto simp: acyclic_def)
qed

theorem find_cycle_exact_witness:
  "\<exists>n. find_cycle (sample_workflow [sample_stage ''b'' [''a''], sample_stage ''a'' [''b'']]) = Some n \<and>
     n \<in> {''a'', ''b''}"
proof -
  let ?d = "sample_workflow [sample_stage ''b'' [''a''], sample_stage ''a'' [''b'']]"
  let ?G = "{(a, b) \<in> dependency_graph (wf_stages ?d). a \<noteq> b \<and> b \<in> stage_id ` set (wf_stages ?d)}"
  have "(''b'', ''a'') \<in> ?G" "(''a'', ''b'') \<in> ?G"
    using dependency_graphI [of "sample_stage ''b'' [''a'']" "wf_stages ?d" "''a''"]
      dependency_graphI [of "sample_stage ''a'' [''b'']" "wf_stages ?d" "''b''"]
    by (simp_all add: sample_workflow_simps)
  then have "(''a'', ''a'') \<in> ?G\<^sup>+" by (rule trancl_into_trancl [OF r_into_trancl, rotated])
  then have cyc: "\<not> acyclic ?G" by (auto simp only: acyclic_def)
  have dist: "distinct (map stage_id (wf_stages ?d))" by (simp add: sample_workflow_simps)
  from find_cycle_exact [OF dist refl] cyc obtain n
    where n: "find_cycle ?d = Some n" "(n, n) \<in> ?G\<^sup>+" by auto
  from n(2) obtain m where "(m, n) \<in> ?G" by (auto elim: tranclE)
  then have "n \<in> {''a'', ''b''}" by (auto simp: sample_workflow_simps)
  with n(1) show ?thesis by blast
qed

end
