(* ===== verification/PermissionContracts.thy ===== *)
theory PermissionContracts
  imports FactLog
begin

text \<open>
  Permission, approval, grant and authorization records, \<open>murder/permissions/contracts.py\<close>, as data. A literal field
  is its text; the validators that canonicalise the fields of an operation are in \<open>Operations\<close>.

  The payload of an approval request is the workflow draft it came from, or the operation it was raised for.
\<close>

section \<open>Operations\<close>

datatype proposed_operation =
    TerminalWrite (operation_id: uuid) (operation_principal: principal) (write_session: uuid) (encoding: string)
      (data_digest: string) (byte_count: int) (write_lease: uuid) (write_fence: int)
  | SessionControl (operation_id: uuid) (operation_principal: principal) (control_session: uuid) (control_command: string)
      (control_digest: string)
  | ToolInvocation (operation_id: uuid) (operation_principal: principal) (tool: string) (tool_arguments: json_object)
      (tool_digest: string) (tool_repository: "uuid option") (tool_workflow: "uuid option") (tool_activity: "uuid option")
  | FileMutation (operation_id: uuid) (operation_principal: principal) (file_repository: uuid) (file_path: string)
      (file_action: string) (content_digest: "string option")
  | NetworkOperation (operation_id: uuid) (operation_principal: principal) (net_destination: string) (net_method: string)
      (net_digest: "string option") (net_workflow: "uuid option") (net_activity: "uuid option")
  | GitOperation (operation_id: uuid) (operation_principal: principal) (git_repository: uuid) (git_action: string)
      (git_arguments: "string list") (worktree_path: "string option") (git_remote: "string option")
      (git_ref: "string option") (git_digest: string)
  | SecretAccess (operation_id: uuid) (operation_principal: principal) (secret_ref: string) (secret_access: string)
      (secret_workflow: "uuid option") (secret_activity: "uuid option")
  | WriterTakeover (operation_id: uuid) (operation_principal: principal) (takeover_session: uuid) (requested_mode: string)
      (current_lease: uuid) (current_lease_fence: int) (current_holder: principal) (takeover_digest: string)

definition operation_type :: "proposed_operation \<Rightarrow> string" where
  "operation_type op = (case op of
     TerminalWrite _ _ _ _ _ _ _ _ \<Rightarrow> ''terminal.write''
   | SessionControl _ _ _ _ _ \<Rightarrow> ''session.control''
   | ToolInvocation _ _ _ _ _ _ _ _ \<Rightarrow> ''tool.invoke''
   | FileMutation _ _ _ _ _ _ \<Rightarrow> ''file.mutate''
   | NetworkOperation _ _ _ _ _ _ _ \<Rightarrow> ''network.request''
   | GitOperation _ _ _ _ _ _ _ _ _ \<Rightarrow> ''git.mutate''
   | SecretAccess _ _ _ _ _ _ \<Rightarrow> ''secret.access''
   | WriterTakeover _ _ _ _ _ _ _ _ \<Rightarrow> ''session.writer.takeover'')"

text \<open>\<open>getattr(operation, "lease_fence", getattr(operation, "current_lease_fence", None))\<close>\<close>

definition operation_fence :: "proposed_operation \<Rightarrow> int option" where
  "operation_fence op = (case op of
     TerminalWrite _ _ _ _ _ _ _ f \<Rightarrow> Some f
   | WriterTakeover _ _ _ _ _ f _ _ \<Rightarrow> Some f
   | _ \<Rightarrow> None)"

section \<open>Scopes and reviewers\<close>

datatype reviewer_kind = HumanReviewer | LlmReviewer

datatype approval_policy = PolicyAny | PolicyAll | PolicyHumanRequired

record grant_scope =
  scope_repositories :: "uuid list"
  scope_workflows :: "uuid list"
  scope_activities :: "uuid list"
  scope_sessions :: "uuid list"
  scope_operation_types :: "string list"
  scope_paths :: "string list"
  scope_destinations :: "string list"
  max_uses :: int
  scope_expires_at :: time

definition valid_reviewer_policy :: "reviewer_kind list \<Rightarrow> approval_policy \<Rightarrow> bool" where
  "valid_reviewer_policy required policy \<longleftrightarrow> required \<noteq> [] \<and> distinct required \<and>
     (policy = PolicyHumanRequired \<longrightarrow> HumanReviewer \<in> set required)"

definition valid_digest :: "string \<Rightarrow> bool" where
  "valid_digest d \<longleftrightarrow> length d = 64 \<and>
     list_all (\<lambda>c. (CHR ''0'' \<le> c \<and> c \<le> CHR ''9'') \<or> (CHR ''a'' \<le> c \<and> c \<le> CHR ''f'')) d"

section \<open>Drafts, requests and decisions\<close>

record approval_draft =
  approval_id :: uuid
  operation_digest :: string
  approval_summary :: string
  approval_details :: json_object
  required_reviewers :: "reviewer_kind list"
  approval_policy :: approval_policy
  requested_by :: principal
  draft_scope :: grant_scope

datatype approval_payload = DraftPayload approval_draft | OperationPayload proposed_operation

datatype approval_status = ApPending | ApApproved | ApDenied | ApExpired | ApCancelled

fun approval_status_value :: "approval_status \<Rightarrow> string" where
  "approval_status_value ApPending = ''pending''"
| "approval_status_value ApApproved = ''approved''"
| "approval_status_value ApDenied = ''denied''"
| "approval_status_value ApExpired = ''expired''"
| "approval_status_value ApCancelled = ''cancelled''"

record approval_request =
  req_id :: uuid
  req_policy_decision :: uuid
  req_digest :: string
  req_status :: approval_status
  req_reviewers :: "reviewer_kind list"
  req_policy :: approval_policy
  req_scope :: grant_scope
  requested_at :: time
  req_by :: principal
  req_workflow :: "uuid option"
  req_workflow_revision :: "int option"
  req_description :: string
  req_payload :: approval_payload

datatype policy_outcome =
    AllowDecision string
  | DenyDecision string
  | RequireApprovalDecision string "reviewer_kind list" approval_policy
  | TransformDecision string proposed_operation

record policy_decision =
  decision_id :: uuid
  decided_operation :: uuid
  decided_digest :: string
  decision_outcome :: policy_outcome
  policy_id :: string
  decided_at :: time

datatype approval_choice = Approve | Deny | Abstain

record approval_evidence =
  evidence_id :: uuid
  evidence_approval :: uuid
  evidence_digest :: string
  choice :: approval_choice
  reviewer :: principal
  review_rationale :: string
  evidence_at :: time

datatype safety_verdict = Safe | Unsafe | Uncertain

record safety_review =
  safety_id :: uuid
  safety_digest :: string
  safety_reviewer :: principal
  safety_verdict :: safety_verdict
  safety_rationale :: string
  safety_findings :: "string list"
  safety_at :: time

section \<open>Grants\<close>

record permission_grant =
  grant_id :: uuid
  grant_digest :: string
  issued_to :: principal
  issued_by :: principal
  grant_scope :: grant_scope
  issued_at :: time
  grant_approval :: "uuid option"
  grant_decision :: uuid
  revoked_at :: "time option"
  revocation_reason :: "string option"
  grant_uses :: nat

record authorization =
  authorization_id :: uuid
  auth_grant :: uuid
  auth_operation :: uuid
  auth_type :: string
  auth_digest :: string
  auth_subject :: principal
  auth_issued_at :: time
  auth_expires_at :: time
  auth_fence :: "int option"

end
