(* ===== verification/WorkflowContracts.thy ===== *)
theory WorkflowContracts
  imports WorkflowDefinition PermissionContracts
begin

text \<open>
  The typed contracts of the workflow runtime, \<open>murder/work/workflows/runtime.py\<close>: runs, stage
  states, the six waits, the four signals, decision inputs and transition plans. A persisted
  document holds the value it encodes: a versioned state's \<open>value\<close> is a static-DAG state or some
  other JSON object, and a definition snapshot is a template or some other JSON object.
\<close>

section \<open>Runs\<close>

datatype workflow_status =
  WfRunning | WfWaiting | WfCompleted | WfFailed | WfCancelled | WfPaused

fun workflow_status_value :: "workflow_status \<Rightarrow> string" where
  "workflow_status_value WfRunning = ''running''"
| "workflow_status_value WfWaiting = ''waiting''"
| "workflow_status_value WfCompleted = ''completed''"
| "workflow_status_value WfFailed = ''failed''"
| "workflow_status_value WfCancelled = ''cancelled''"
| "workflow_status_value WfPaused = ''paused''"

datatype stage_status =
  StBlocked | StReady | StRequested | StRunning | StWaitingApproval | StSucceeded | StFailed | StCancelled

record stage_run_state =
  run_stage_id :: string
  stage_status :: stage_status
  stage_activity :: "uuid option"
  stage_session :: "uuid option"
  attempts :: int
  result_ref :: "uuid option"
  stage_error :: "string option"

record static_dag_state =
  dag_inputs :: json_object
  dag_stages :: "stage_run_state list"
  dag_output :: "json_object option"

datatype state_doc = StaticDagDoc static_dag_state | OtherDoc json_object

record versioned_state =
  schema_name :: string
  state_version :: int
  state_value :: state_doc

datatype definition_doc = DefinitionDoc workflow_def | OtherDefinition json_object

record workflow_run =
  workflow_id :: uuid
  definition_name :: string
  run_definition_version :: int
  run_status :: workflow_status
  revision :: int
  run_state :: versioned_state
  run_created_at :: time
  run_updated_at :: time
  started_by :: principal
  run_correlation :: correlation
  terminal_reason :: "string option"
  parent_ticket_id :: "string option"
  definition_snapshot :: "definition_doc option"
  stage_map :: "(string \<times> string) list"

record workflow_state_migration =
  migration_id :: uuid
  migrated_workflow :: uuid
  migration_name :: string
  from_schema_name :: string
  from_schema_version :: int
  to_schema_name :: string
  to_schema_version :: int
  from_revision :: int
  to_revision :: int
  migrated_at :: time

section \<open>Waits and signals\<close>

datatype join_mode = JoinAll | JoinAny | JoinThreshold

datatype wait_spec =
    ActivityWait uuid
  | ApprovalWait uuid
  | TimerWait uuid time
  | ExternalSignalWait string "string option"
  | ResourceWait string json_object
  | JoinWait "uuid list" join_mode "int option"

text \<open>\<open>JoinWait.model_post_init\<close>.\<close>

definition join_wait :: "uuid list \<Rightarrow> join_mode \<Rightarrow> int option \<Rightarrow> exn + wait_spec" where
  "join_wait ids mode threshold =
     (if ids = [] then Inl (ValueError ''join wait requires at least one activity'')
      else if \<not> distinct ids then Inl (ValueError ''join wait activity_ids must be unique'')
      else if mode = JoinThreshold then
        (case threshold of
           None \<Rightarrow> Inl (ValueError ''threshold must be between 1 and the activity count'')
         | Some t \<Rightarrow> if 1 \<le> t \<and> t \<le> int (length ids) then Inr (JoinWait ids mode threshold)
             else Inl (ValueError ''threshold must be between 1 and the activity count''))
      else if threshold \<noteq> None then Inl (ValueError ''threshold is only valid for threshold joins'')
      else Inr (JoinWait ids mode threshold))"

record workflow_wait =
  wait_id :: uuid
  wait_workflow :: uuid
  wait_created_at :: time
  wait_spec :: wait_spec
  satisfied_at :: "time option"
  satisfied_by :: "uuid option"

datatype signal_payload =
    ActivityFinishedSignal uuid uuid
  | ApprovalResolvedSignal uuid uuid
  | TimerFiredSignal uuid
  | ExternalWorkflowSignal string "string option" json_object

record workflow_signal =
  signal_id :: uuid
  signal_workflow :: uuid
  deduplication_key :: string
  signal_created_at :: time
  signal_payload :: signal_payload
  consumed_at :: "time option"
  consumed_at_revision :: "int option"

record decision_input =
  input_run :: workflow_run
  input_waits :: "workflow_wait list"
  input_signals :: "workflow_signal list"
  input_now :: time

section \<open>Transition plans\<close>

record state_replacement =
  replaced_revision :: int
  replaced_status :: workflow_status
  replaced_state :: versioned_state
  replaced_reason :: "string option"

record workflow_fact =
  wf_fact_kind :: string
  wf_fact_aggregate :: "aggregate_ref option"
  wf_fact_payload :: json_object

datatype session_strategy = StrategyNew | StrategyReuse | StrategyRequire

record execution_requirements =
  capability_tags :: "string list"
  preferred_harnesses :: "string list"
  excluded_harnesses :: "string list"
  preferred_models :: "string list"
  require_structured_protocol :: bool
  require_terminal :: bool
  reusable_session :: bool
  session_strategy :: "session_strategy option"
  req_worktree :: "string option"
  max_parallelism_group :: "string option"
  policy_profile :: "string option"

datatype activity_payload =
    RunAgentTurn string "string list" execution_requirements
  | RunReview string string execution_requirements

record activity_request =
  activity_id :: uuid
  activity_payload :: activity_payload
  idempotency_key :: string
  priority :: int
  retry_policy :: string
  max_attempts :: int

record transition_plan =
  plan_state :: state_replacement
  consume_signal_ids :: "uuid list"
  replace_waits :: "wait_spec list"
  plan_activities :: "activity_request list"
  plan_approvals :: "approval_draft list"
  plan_facts :: "workflow_fact list"

definition make_versioned_state :: "state_doc \<Rightarrow> string \<Rightarrow> int \<Rightarrow> versioned_state" where
  "make_versioned_state value name version =
     \<lparr>schema_name = name, state_version = version, state_value = value\<rparr>"

section \<open>Text of JSON values\<close>

text \<open>\<open>str(value)\<close> for a JSON value, as Python prints strings, lists and dicts.\<close>

definition repr_char :: "char \<Rightarrow> char \<Rightarrow> string" where
  "repr_char quote c =
     (if c = CHR 0x5C \<or> c = quote then [CHR 0x5C, c]
      else if c = CHR 0x0A then [CHR 0x5C, CHR ''n'']
      else if c = CHR 0x0D then [CHR 0x5C, CHR ''r'']
      else if c = CHR 0x09 then [CHR 0x5C, CHR ''t'']
      else if c < CHR '' '' \<or> (CHR 0x7F \<le> c \<and> c \<le> CHR 0xA0) \<or> c = CHR 0xAD
        then [CHR 0x5C, CHR ''x''] @ hex_text 2 (of_char c)
      else [c])"

definition repr_string :: "string \<Rightarrow> string" where
  "repr_string s =
     (let quote = (if List.member s (CHR 0x27) \<and> \<not> List.member s (CHR 0x22) then CHR 0x22 else CHR 0x27)
      in [quote] @ concat (map (repr_char quote) s) @ [quote])"

fun json_repr :: "json \<Rightarrow> string" where
  "json_repr JNull = ''None''"
| "json_repr (JBool b) = (if b then ''True'' else ''False'')"
| "json_repr (JInt i) = int_text i"
| "json_repr (JStr s) = repr_string s"
| "json_repr (JList js) = ''['' @ join_text '', '' (map json_repr js) @ '']''"
| "json_repr (JObj kvs) =
     ''{'' @ join_text '', '' (map (\<lambda>(k, v). repr_string k @ '': '' @ json_repr v) kvs) @ ''}''"

definition json_str :: "json \<Rightarrow> string" where
  "json_str v = (case v of JStr s \<Rightarrow> s | _ \<Rightarrow> json_repr v)"

section \<open>The machine protocol\<close>

text \<open>
  What the runtime relies on of a \<open>WorkflowMachine\<close>: a plan names the revision it was computed from,
  consumes signals of its input only and each one once, keeps the state schema it was given, and a
  plan that ends the run leaves no waits.
\<close>

definition terminal_workflow :: "workflow_status \<Rightarrow> bool" where
  "terminal_workflow s \<longleftrightarrow> s = WfCompleted \<or> s = WfFailed \<or> s = WfCancelled"

locale workflow_machine =
  fixes decide_plan :: "'state \<Rightarrow> workflow_wait list \<Rightarrow> workflow_signal list \<Rightarrow> time \<Rightarrow> int \<Rightarrow> exn + transition_plan"
    and schema :: "string \<times> int"
  assumes plan_revision: "decide_plan st ws gs now n = Inr plan \<Longrightarrow> replaced_revision (plan_state plan) = n"
    and plan_consumes: "decide_plan st ws gs now n = Inr plan \<Longrightarrow>
      set (consume_signal_ids plan) \<subseteq> set (map signal_id gs)"
    and plan_distinct: "decide_plan st ws gs now n = Inr plan \<Longrightarrow> distinct (map signal_id gs) \<Longrightarrow>
      distinct (consume_signal_ids plan)"
    and plan_schema: "decide_plan st ws gs now n = Inr plan \<Longrightarrow>
      (schema_name (replaced_state (plan_state plan)), state_version (replaced_state (plan_state plan))) = schema"
    and plan_terminal: "decide_plan st ws gs now n = Inr plan \<Longrightarrow>
      terminal_workflow (replaced_status (plan_state plan)) \<Longrightarrow> replace_waits plan = []"
begin

text \<open>A machine that saw the pending signals only consumes pending ones.\<close>

lemma consumes_pending:
  assumes "decide_plan st ws (filter P gs) now n = Inr plan" and "sid \<in> set (consume_signal_ids plan)"
  shows "\<exists>g \<in> set gs. signal_id g = sid \<and> P g"
  using plan_consumes [OF assms(1)] assms(2) by auto

end

end
