(* ===== verification/StaticDag.thy ===== *)
theory StaticDag
  imports WorkflowContracts
begin

text \<open>
  The static ticket DAG machine, \<open>murder/work/workflows/static_dag.py\<close>: \<open>initialize\<close> and \<open>decide\<close>,
  with the signal loop, the propagation loop \<open>while changed\<close> (which ends because a pass that
  changes anything unblocks a stage), and the status, waits and facts of the plan. A look-up of a
  stage the state or the stage map does not have raises \<open>KeyError\<close>.
\<close>

section \<open>The machine\<close>

record static_dag_machine =
  machine_definition :: workflow_def
  ticket_map :: "(string \<times> string) list"

type_synonym by_stage = "string \<rightharpoonup> stage_run_state"

definition terminal_stage :: "stage_status \<Rightarrow> bool" where
  "terminal_stage s \<longleftrightarrow> s = StSucceeded \<or> s = StFailed \<or> s = StCancelled"

definition initial_stage :: "stage_def \<Rightarrow> stage_run_state" where
  "initial_stage s = \<lparr>run_stage_id = stage_id s,
     stage_status = (if depends_on s = [] then StReady else StBlocked), stage_activity = None,
     stage_session = None, attempts = 0, result_ref = None, stage_error = None\<rparr>"

definition initialize :: "static_dag_machine \<Rightarrow> json_object \<Rightarrow> static_dag_state" where
  "initialize m inputs = \<lparr>dag_inputs = inputs,
     dag_stages = map initial_stage (wf_stages (machine_definition m)), dag_output = None\<rparr>"

definition dict_of :: "('k \<times> 'v) list \<Rightarrow> 'k \<rightharpoonup> 'v" where
  "dict_of kvs = map_of (rev kvs)"

definition stage_dict :: "stage_run_state list \<Rightarrow> by_stage" where
  "stage_dict stages = dict_of (map (\<lambda>s. (run_stage_id s, s)) stages)"

definition ticket_to_stage :: "static_dag_machine \<Rightarrow> string \<rightharpoonup> string" where
  "ticket_to_stage m = dict_of (map (\<lambda>(sid, ticket). (ticket, sid)) (ticket_map m))"

definition get_item :: "('k \<rightharpoonup> 'v) \<Rightarrow> 'k \<Rightarrow> string \<Rightarrow> exn + 'v" where
  "get_item d k name = (case d k of None \<Rightarrow> Inl (KeyError name) | Some v \<Rightarrow> Inr v)"

subsection \<open>Signals\<close>

definition optional_text :: "json option \<Rightarrow> string option" where
  "optional_text v = (case v of None \<Rightarrow> None | Some JNull \<Rightarrow> None | Some j \<Rightarrow> Some (json_str j))"

definition ticket_status_text :: "json_object \<Rightarrow> string" where
  "ticket_status_text p = (case map_of p ''status'' of None \<Rightarrow> ''done'' | Some j \<Rightarrow> json_str j)"

definition finished_stage :: "json_object \<Rightarrow> stage_run_state \<Rightarrow> stage_run_state" where
  "finished_stage p existing =
     (let status = ticket_status_text p in
      if List.member [''done'', ''archived'', ''succeeded''] status
      then existing\<lparr>stage_status := StSucceeded, stage_error := None\<rparr>
      else if List.member [''cancelled'', ''canceled''] status
      then existing\<lparr>stage_status := StCancelled, stage_error := optional_text (map_of p ''reason'')\<rparr>
      else existing\<lparr>stage_status := StFailed,
             stage_error := optional_text (case map_of p ''error'' of
               None \<Rightarrow> Some (JStr (''ticket finished as '' @ status)) | Some j \<Rightarrow> Some j)\<rparr>)"

text \<open>The ticket a signal reports as finished, when it is such a signal for a mapped ticket.\<close>

fun finished_ticket :: "(string \<rightharpoonup> string) \<Rightarrow> signal_payload \<Rightarrow> (string \<times> json_object) option" where
  "finished_ticket tickets (ExternalWorkflowSignal name (Some key) p) =
     (if name \<noteq> ''ticket.finished'' then None
      else case tickets key of None \<Rightarrow> None | Some sid \<Rightarrow> Some (sid, p))"
| "finished_ticket tickets _ = None"

definition apply_signal :: "(string \<rightharpoonup> string) \<Rightarrow> workflow_signal \<Rightarrow> by_stage \<times> uuid list \<Rightarrow> by_stage \<times> uuid list" where
  "apply_signal tickets signal = (\<lambda>(by_stage, consumed).
     (case finished_ticket tickets (signal_payload signal) of
        None \<Rightarrow> (by_stage, consumed @ [signal_id signal])
      | Some (sid, p) \<Rightarrow>
          (case by_stage sid of
             None \<Rightarrow> (by_stage, consumed @ [signal_id signal])
           | Some existing \<Rightarrow>
               if terminal_stage (stage_status existing) then (by_stage, consumed @ [signal_id signal])
               else (by_stage(sid \<mapsto> finished_stage p existing), consumed @ [signal_id signal]))))"

subsection \<open>Propagation\<close>

fun dependency_statuses :: "by_stage \<Rightarrow> string list \<Rightarrow> exn + stage_status list" where
  "dependency_statuses by_stage [] = Inr []"
| "dependency_statuses by_stage (d # ds) =
     bindE (get_item by_stage d d) (\<lambda>s.
     bindE (dependency_statuses by_stage ds) (\<lambda>rest. Inr (stage_status s # rest)))"

definition sweep_stage :: "stage_def \<Rightarrow> by_stage \<times> bool \<Rightarrow> exn + by_stage \<times> bool" where
  "sweep_stage stage_def = (\<lambda>(by_stage, changed).
     bindE (get_item by_stage (stage_id stage_def) (stage_id stage_def)) (\<lambda>stage.
     if stage_status stage \<noteq> StBlocked then Inr (by_stage, changed)
     else bindE (dependency_statuses by_stage (depends_on stage_def)) (\<lambda>statuses.
       if statuses \<noteq> [] \<and> list_all (\<lambda>s. s = StSucceeded) statuses
       then Inr (by_stage(stage_id stage_def \<mapsto> stage\<lparr>stage_status := StReady\<rparr>), True)
       else if list_ex (\<lambda>s. s = StFailed \<or> s = StCancelled) statuses
       then Inr (by_stage(stage_id stage_def \<mapsto> stage\<lparr>stage_status := StCancelled,
              stage_error := Some ''an upstream stage did not succeed''\<rparr>), True)
       else Inr (by_stage, changed))))"

definition is_blocked :: "by_stage \<Rightarrow> string \<Rightarrow> bool" where
  "is_blocked by_stage k =
     (case by_stage k of None \<Rightarrow> False | Some r \<Rightarrow> stage_status r = StBlocked)"

definition blocked_count :: "stage_def list \<Rightarrow> by_stage \<Rightarrow> nat" where
  "blocked_count stages by_stage = length (filter (\<lambda>s. is_blocked by_stage (stage_id s)) stages)"

lemma blocked_count_mono:
  assumes "\<And>k. is_blocked by_stage' k \<Longrightarrow> is_blocked by_stage k"
  shows "blocked_count stages by_stage' \<le> blocked_count stages by_stage"
  unfolding blocked_count_def by (induction stages) (auto dest: assms)

lemma sweep_stage_cases:
  assumes "sweep_stage sd (by_stage, changed) = Inr (by_stage', changed')"
  shows "(by_stage', changed') = (by_stage, changed) \<or>
    (\<exists>r r'. by_stage (stage_id sd) = Some r \<and> stage_status r = StBlocked \<and> changed' \<and>
       by_stage' = by_stage(stage_id sd \<mapsto> r') \<and> stage_status r' \<in> {StReady, StCancelled})"
  using assms
  by (auto simp: sweep_stage_def get_item_def result_simps split: option.splits if_splits)

lemma sweep_measure:
  assumes "foldE sweep_stage sds (by_stage, changed) = Inr (by_stage', changed')" and "set sds \<subseteq> set all"
  shows "blocked_count all by_stage' \<le> blocked_count all by_stage \<and>
    (changed' \<longrightarrow> changed \<or> blocked_count all by_stage' < blocked_count all by_stage)"
  using assms
proof (induction sds arbitrary: by_stage changed)
  case Nil
  then show ?case by simp
next
  case (Cons sd sds)
  then obtain by1 ch1 where step: "sweep_stage sd (by_stage, changed) = Inr (by1, ch1)"
    and rest: "foldE sweep_stage sds (by1, ch1) = Inr (by_stage', changed')"
    by (auto simp: result_simps)
  from Cons.IH [OF rest] Cons.prems(2)
  have IH: "blocked_count all by_stage' \<le> blocked_count all by1 \<and>
      (changed' \<longrightarrow> ch1 \<or> blocked_count all by_stage' < blocked_count all by1)" by simp
  from sweep_stage_cases [OF step] show ?case
  proof (elim disjE exE conjE)
    assume "(by1, ch1) = (by_stage, changed)"
    with IH show ?thesis by simp
  next
    fix r r'
    assume r: "by_stage (stage_id sd) = Some r" "stage_status r = StBlocked" and
      by1: "by1 = by_stage(stage_id sd \<mapsto> r')" and r': "stage_status r' \<in> {StReady, StCancelled}"
    have "sd \<in> set all" using Cons.prems(2) by simp
    then obtain l1 l2 where all: "all = l1 @ sd # l2" by (auto simp: in_set_conv_decomp)
    have mono: "blocked_count l by1 \<le> blocked_count l by_stage" for l
      by (rule blocked_count_mono) (use by1 r' in \<open>auto simp: is_blocked_def split: if_splits\<close>)
    have "blocked_count all by1 < blocked_count all by_stage"
      using mono [of l1] mono [of l2] r r' by1 by (auto simp: all blocked_count_def is_blocked_def)
    with IH show ?thesis by linarith
  qed
qed

function settle :: "stage_def list \<Rightarrow> by_stage \<Rightarrow> exn + by_stage" where
  "settle stages by_stage =
     bindE (foldE sweep_stage stages (by_stage, False)) (\<lambda>(by_stage', changed).
       if changed then settle stages by_stage' else Inr by_stage')"
  by pat_completeness auto
termination
  by (relation "measure (\<lambda>(stages, by_stage). blocked_count stages by_stage)")
    (auto dest: sweep_measure)

declare settle.simps [simp del]

lemma settle_pass:
  "foldE sweep_stage stages (by_stage, False) = Inr (by_stage', False) \<Longrightarrow> settle stages by_stage = Inr by_stage'"
  "foldE sweep_stage stages (by_stage, False) = Inr (by_stage', True) \<Longrightarrow>
     settle stages by_stage = settle stages by_stage'"
  by (simp_all add: settle.simps)

subsection \<open>The plan\<close>

fun get_items :: "('k \<rightharpoonup> 'v) \<Rightarrow> ('k \<Rightarrow> string) \<Rightarrow> 'k list \<Rightarrow> exn + 'v list" where
  "get_items d name [] = Inr []"
| "get_items d name (k # ks) =
     bindE (get_item d k (name k)) (\<lambda>v. bindE (get_items d name ks) (\<lambda>vs. Inr (v # vs)))"

definition run_outcome :: "stage_status list \<Rightarrow> workflow_status \<times> string option" where
  "run_outcome statuses =
     (if statuses \<noteq> [] \<and> list_all (\<lambda>s. s = StSucceeded) statuses then (WfCompleted, None)
      else if list_ex (\<lambda>s. s = StFailed) statuses
        then (WfFailed, Some ''one or more static DAG stages failed'')
      else if statuses \<noteq> [] \<and> list_all terminal_stage statuses
        then (WfCancelled, Some ''static DAG could not complete'')
      else (WfWaiting, None))"

definition ticket_wait :: "string \<Rightarrow> wait_spec" where
  "ticket_wait ticket = ExternalSignalWait ''ticket.finished'' (Some ticket)"

definition decide :: "static_dag_machine \<Rightarrow> static_dag_state \<Rightarrow> workflow_wait list \<Rightarrow> workflow_signal list
    \<Rightarrow> time \<Rightarrow> int \<Rightarrow> exn + transition_plan" where
  "decide m state waits signals now current_revision =
     (let (by_stage, consumed) =
            fold (apply_signal (ticket_to_stage m)) signals (stage_dict (dag_stages state), []);
          stages = wf_stages (machine_definition m)
      in
      bindE (settle stages by_stage) (\<lambda>by_stage.
      bindE (get_items by_stage id (map stage_id stages)) (\<lambda>ordered.
      let (status, reason) = run_outcome (map stage_status ordered);
          open_stages = filter (\<lambda>s. \<not> terminal_stage (stage_status s)) ordered
      in
      bindE (if terminal_workflow status then Inr []
             else get_items (map_of (ticket_map m)) id (map run_stage_id open_stages)) (\<lambda>tickets.
      Inr \<lparr>plan_state = \<lparr>replaced_revision = current_revision, replaced_status = status,
              replaced_state = make_versioned_state (StaticDagDoc (state\<lparr>dag_stages := ordered\<rparr>))
                 ''static_dag'' 1,
              replaced_reason = reason\<rparr>,
           consume_signal_ids = consumed,
           replace_waits = map ticket_wait tickets,
           plan_activities = [], plan_approvals = [],
           plan_facts = (if terminal_workflow status
             then [\<lparr>wf_fact_kind = ''workflow.'' @ workflow_status_value status, wf_fact_aggregate = None,
                    wf_fact_payload = [(''definition_name'', JStr (wf_name (machine_definition m)))]\<rparr>]
             else [])\<rparr>))))"

section \<open>Well-formed stage tables\<close>

definition started_stage :: "stage_status \<Rightarrow> bool" where
  "started_stage s \<longleftrightarrow> \<not> terminal_stage s \<and> s \<noteq> StBlocked"

lemmas stage_status_simps = terminal_stage_def started_stage_def

definition status_at :: "by_stage \<Rightarrow> string \<Rightarrow> stage_status option" where
  "status_at by_stage k = map_option stage_status (by_stage k)"

lemma status_at_upd [simp]:
  "status_at (by_stage(k \<mapsto> r)) j = (if j = k then Some (stage_status r) else status_at by_stage j)"
  by (simp add: status_at_def)

lemma status_at_Some: "by_stage k = Some r \<Longrightarrow> status_at by_stage k = Some (stage_status r)"
  by (simp add: status_at_def)

text \<open>
  What the machine keeps true of the stages: each one is present under its own id, a stage that is
  ready or further has only succeeded dependencies, and a blocked one has a dependency.
\<close>

definition table_ok :: "stage_def list \<Rightarrow> by_stage \<Rightarrow> bool" where
  "table_ok stages by_stage \<longleftrightarrow>
     (\<forall>s \<in> set stages. \<exists>r. by_stage (stage_id s) = Some r \<and> run_stage_id r = stage_id s \<and>
        (started_stage (stage_status r) \<longrightarrow>
           (\<forall>d \<in> set (depends_on s). status_at by_stage d = Some StSucceeded)) \<and>
        (stage_status r = StBlocked \<longrightarrow> depends_on s \<noteq> []))"

text \<open>A step of the table: terminal stages stay as they are, and no stage becomes blocked.\<close>

definition table_step :: "by_stage \<Rightarrow> by_stage \<Rightarrow> bool" where
  "table_step old new \<longleftrightarrow> dom new = dom old \<and>
     (\<forall>k r. old k = Some r \<longrightarrow> terminal_stage (stage_status r) \<longrightarrow> new k = Some r) \<and>
     (\<forall>k. status_at new k = Some StBlocked \<longrightarrow> status_at old k = Some StBlocked)"

lemma table_step_refl [simp]: "table_step m m"
  by (simp add: table_step_def)

lemma table_step_trans: "table_step a b \<Longrightarrow> table_step b c \<Longrightarrow> table_step a c"
  by (simp add: table_step_def)

lemma table_step_upd:
  assumes "by_stage k = Some r" and "\<not> terminal_stage (stage_status r)" and "stage_status r' \<noteq> StBlocked"
  shows "table_step by_stage (by_stage(k \<mapsto> r'))"
  using assms by (auto simp: table_step_def)

lemma table_ok_upd:
  assumes ok: "table_ok stages by_stage" and r: "by_stage k = Some r" "\<not> terminal_stage (stage_status r)"
    and r': "run_stage_id r' = run_stage_id r" "stage_status r' \<noteq> StBlocked"
    and deps: "\<And>s. s \<in> set stages \<Longrightarrow> stage_id s = k \<Longrightarrow> started_stage (stage_status r') \<Longrightarrow>
      \<forall>d \<in> set (depends_on s). status_at by_stage d = Some StSucceeded"
  shows "table_ok stages (by_stage(k \<mapsto> r'))"
  unfolding table_ok_def
proof (intro ballI)
  let ?new = "by_stage(k \<mapsto> r')"
  fix s assume s: "s \<in> set stages"
  have keep: "status_at ?new d = Some StSucceeded" if "status_at by_stage d = Some StSucceeded" for d
    using that r by (auto simp: status_at_def terminal_stage_def)
  from ok s obtain q where q: "by_stage (stage_id s) = Some q" "run_stage_id q = stage_id s"
    "started_stage (stage_status q) \<Longrightarrow> \<forall>d \<in> set (depends_on s). status_at by_stage d = Some StSucceeded"
    "stage_status q = StBlocked \<Longrightarrow> depends_on s \<noteq> []"
    by (auto simp: table_ok_def)
  show "\<exists>r. ?new (stage_id s) = Some r \<and> run_stage_id r = stage_id s \<and>
      (started_stage (stage_status r) \<longrightarrow> (\<forall>d \<in> set (depends_on s). status_at ?new d = Some StSucceeded)) \<and>
      (stage_status r = StBlocked \<longrightarrow> depends_on s \<noteq> [])"
  proof (cases "stage_id s = k")
    case True
    with q r r' deps [OF s True] keep show ?thesis by auto
  next
    case False
    with q keep show ?thesis by auto
  qed
qed

subsection \<open>Signals\<close>

lemma finished_stage_status:
  "run_stage_id (finished_stage p r) = run_stage_id r"
  "terminal_stage (stage_status (finished_stage p r))"
  by (auto simp: finished_stage_def terminal_stage_def Let_def)

lemma apply_signal_ok:
  assumes "apply_signal tickets g (by_stage, consumed) = (by_stage', consumed')"
  shows "consumed' = consumed @ [signal_id g]" and "table_step by_stage by_stage'"
    and "table_ok stages by_stage \<Longrightarrow> table_ok stages by_stage'"
proof -
  show "consumed' = consumed @ [signal_id g]"
    using assms by (auto simp: apply_signal_def split: option.splits if_splits)
  have "by_stage' = by_stage \<or> (\<exists>k r p. by_stage k = Some r \<and> \<not> terminal_stage (stage_status r) \<and>
      by_stage' = by_stage(k \<mapsto> finished_stage p r))"
    using assms by (auto simp: apply_signal_def split: option.splits if_splits) blast
  then show "table_step by_stage by_stage'" and "table_ok stages by_stage \<Longrightarrow> table_ok stages by_stage'"
  proof (atomize (full), elim disjE exE conjE, goal_cases)
    case 1
    then show ?case by simp
  next
    case (2 k r p)
    with finished_stage_status [of p r]
    have "stage_status (finished_stage p r) \<noteq> StBlocked" "\<not> started_stage (stage_status (finished_stage p r))"
      by (auto simp: stage_status_simps)
    with 2 finished_stage_status [of p r] show ?case
      by (auto intro: table_step_upd table_ok_upd)
  qed
qed

lemma apply_signals_ok:
  assumes "fold (apply_signal tickets) signals (by_stage, consumed) = (by_stage', consumed')"
  shows "consumed' = consumed @ map signal_id signals \<and> table_step by_stage by_stage' \<and>
    (table_ok stages by_stage \<longrightarrow> table_ok stages by_stage')"
  using assms
proof (induction signals arbitrary: by_stage consumed)
  case Nil
  then show ?case by simp
next
  case (Cons g signals)
  obtain b c where step: "apply_signal tickets g (by_stage, consumed) = (b, c)" by fastforce
  with Cons.prems have "fold (apply_signal tickets) signals (b, c) = (by_stage', consumed')" by simp
  from Cons.IH [OF this] apply_signal_ok [OF step] show ?case by (auto intro: table_step_trans)
qed

subsection \<open>Propagation\<close>

definition known_deps :: "stage_def list \<Rightarrow> by_stage \<Rightarrow> bool" where
  "known_deps stages by_stage \<longleftrightarrow> (\<forall>s \<in> set stages. \<forall>d \<in> set (depends_on s). by_stage d \<noteq> None)"

lemma dependency_statuses_eq:
  "\<forall>d \<in> set ds. by_stage d \<noteq> None \<Longrightarrow>
     dependency_statuses by_stage ds = Inr (map (\<lambda>d. the (status_at by_stage d)) ds)"
  by (induction ds) (auto simp: get_item_def status_at_def)

lemma sweep_stage_ok:
  assumes "table_ok stages by_stage" and "known_deps stages by_stage" and "s \<in> set stages"
    and dist: "distinct (map stage_id stages)"
  shows "\<exists>by_stage' changed'. sweep_stage s (by_stage, changed) = Inr (by_stage', changed') \<and>
    table_ok stages by_stage' \<and> table_step by_stage by_stage'"
proof -
  from assms obtain r where r: "by_stage (stage_id s) = Some r" "run_stage_id r = stage_id s"
    "stage_status r = StBlocked \<Longrightarrow> depends_on s \<noteq> []" by (auto simp: table_ok_def)
  let ?deps = "map (\<lambda>d. the (status_at by_stage d)) (depends_on s)"
  have deps: "dependency_statuses by_stage (depends_on s) = Inr ?deps"
    using assms(2,3) by (intro dependency_statuses_eq) (auto simp: known_deps_def)
  have same: "t = s" if "t \<in> set stages" "stage_id t = stage_id s" for t
    using distinct_key_eq [OF dist that(1) assms(3) that(2)] .
  show ?thesis
  proof (cases "stage_status r = StBlocked")
    case False
    with r assms(1) show ?thesis by (simp add: sweep_stage_def get_item_def)
  next
    case True
    then have open_r: "\<not> terminal_stage (stage_status r)" by (simp add: terminal_stage_def)
    let ?ready = "by_stage(stage_id s \<mapsto> r\<lparr>stage_status := StReady\<rparr>)"
    let ?cancel = "by_stage(stage_id s \<mapsto> r\<lparr>stage_status := StCancelled,
      stage_error := Some ''an upstream stage did not succeed''\<rparr>)"
    consider (ready) "?deps \<noteq> []" "list_all (\<lambda>x. x = StSucceeded) ?deps"
      | (cancel) "\<not> (?deps \<noteq> [] \<and> list_all (\<lambda>x. x = StSucceeded) ?deps)"
          "list_ex (\<lambda>x. x = StFailed \<or> x = StCancelled) ?deps"
      | (stay) "\<not> (?deps \<noteq> [] \<and> list_all (\<lambda>x. x = StSucceeded) ?deps)"
          "\<not> list_ex (\<lambda>x. x = StFailed \<or> x = StCancelled) ?deps" by blast
    then show ?thesis
    proof cases
      case ready
      have "\<forall>d \<in> set (depends_on s). status_at by_stage d = Some StSucceeded"
        using ready(2) assms(2,3)
        by (fastforce simp: list_all_iff known_deps_def status_at_def)
      then have "table_ok stages ?ready"
        using r(1) open_r assms(1) same by (intro table_ok_upd) auto
      moreover have "table_step by_stage ?ready" using r(1) open_r by (intro table_step_upd) auto
      moreover have "sweep_stage s (by_stage, changed) = Inr (?ready, True)"
        using r(1) True ready deps by (simp add: sweep_stage_def get_item_def)
      ultimately show ?thesis by blast
    next
      case cancel
      then have "sweep_stage s (by_stage, changed) = Inr (?cancel, True)"
        using r(1) True deps by (auto simp: sweep_stage_def get_item_def)
      moreover have "table_ok stages ?cancel"
        using r(1) open_r assms(1) by (intro table_ok_upd) (auto simp: stage_status_simps)
      moreover have "table_step by_stage ?cancel" using r(1) open_r by (intro table_step_upd) auto
      ultimately show ?thesis by blast
    next
      case stay
      then have "sweep_stage s (by_stage, changed) = Inr (by_stage, changed)"
        using r(1) True deps by (auto simp: sweep_stage_def get_item_def)
      with assms(1) show ?thesis by simp
    qed
  qed
qed

lemma known_deps_step: "known_deps stages by_stage \<Longrightarrow> table_step by_stage by_stage' \<Longrightarrow> known_deps stages by_stage'"
  by (auto simp: known_deps_def table_step_def domIff)

lemma sweep_ok:
  assumes "table_ok stages by_stage" and "known_deps stages by_stage" and "set ss \<subseteq> set stages"
    and dist: "distinct (map stage_id stages)"
  shows "\<exists>by_stage' changed'. foldE sweep_stage ss (by_stage, changed) = Inr (by_stage', changed') \<and>
    table_ok stages by_stage' \<and> table_step by_stage by_stage'"
  using assms(1-3)
proof (induction ss arbitrary: by_stage changed)
  case Nil
  then show ?case by simp
next
  case (Cons s ss)
  from sweep_stage_ok [OF Cons.prems(1,2) _ dist, of s changed] Cons.prems(3)
  obtain b c where step: "sweep_stage s (by_stage, changed) = Inr (b, c)" "table_ok stages b"
    "table_step by_stage b" by auto
  from Cons.IH [OF step(2) known_deps_step [OF Cons.prems(2) step(3)], of c] Cons.prems(3)
  obtain b' c' where rest: "foldE sweep_stage ss (b, c) = Inr (b', c')" "table_ok stages b'"
    "table_step b b'" by auto
  then have "foldE sweep_stage (s # ss) (by_stage, changed) = Inr (b', c')" by (simp add: step(1))
  moreover have "table_step by_stage b'" using step(3) rest(3) by (rule table_step_trans)
  ultimately show ?case using rest(2) by blast
qed

text \<open>A table on which a pass changes nothing.\<close>

definition settled :: "stage_def list \<Rightarrow> by_stage \<Rightarrow> bool" where
  "settled stages by_stage \<longleftrightarrow> (\<forall>s \<in> set stages. sweep_stage s (by_stage, False) = Inr (by_stage, False))"

lemma sweep_unchanged:
  assumes "foldE sweep_stage ss (by_stage, False) = Inr (by_stage', False)"
  shows "by_stage' = by_stage \<and> (\<forall>s \<in> set ss. sweep_stage s (by_stage, False) = Inr (by_stage, False))"
proof -
  have mono: "c'" if "foldE sweep_stage ss (b, True) = Inr (b', c')" for ss b b' c'
    using foldE_invariant [OF that, of snd] sweep_stage_cases by fastforce
  show ?thesis
    using assms
  proof (induction ss)
    case Nil
    then show ?case by simp
  next
    case (Cons s ss)
    then obtain b c where step: "sweep_stage s (by_stage, False) = Inr (b, c)"
      and rest: "foldE sweep_stage ss (b, c) = Inr (by_stage', False)"
      by (auto simp: result_simps)
    have "\<not> c" using rest mono by (cases c) auto
    with sweep_stage_cases [OF step] have "b = by_stage" "c = False" by auto
    with Cons.IH rest step show ?case by simp
  qed
qed

lemma settle_ok:
  assumes "table_ok stages by_stage" and "known_deps stages by_stage" and "distinct (map stage_id stages)"
  shows "\<exists>by_stage'. settle stages by_stage = Inr by_stage' \<and> table_ok stages by_stage' \<and>
    table_step by_stage by_stage' \<and> settled stages by_stage'"
  using assms
proof (induction stages by_stage rule: settle.induct)
  case (1 stages by_stage)
  from sweep_ok [OF "1.prems"(1,2) subset_refl "1.prems"(3), of False] obtain b c where
    sweep: "foldE sweep_stage stages (by_stage, False) = Inr (b, c)" "table_ok stages b"
    "table_step by_stage b" by blast
  show ?case
  proof (cases c)
    case True
    from "1.IH" [OF sweep(1) refl True sweep(2) known_deps_step [OF "1.prems"(2) sweep(3)] "1.prems"(3)]
    obtain b' where "settle stages b = Inr b'" "table_ok stages b'" "table_step b b'" "settled stages b'"
      by blast
    with sweep True show ?thesis
      by (subst settle.simps) (auto intro: table_step_trans)
  next
    case False
    with sweep(1) sweep_unchanged [of stages by_stage b] have "b = by_stage" "settled stages b"
      by (auto simp: settled_def)
    with sweep False show ?thesis by (subst settle.simps) auto
  qed
qed

lemma settled_blocked:
  assumes "settled stages by_stage" and "table_ok stages by_stage" and "known_deps stages by_stage"
    and "s \<in> set stages" and "status_at by_stage (stage_id s) = Some StBlocked"
  shows "\<exists>d \<in> set (depends_on s). \<exists>st. status_at by_stage d = Some st \<and> \<not> terminal_stage st"
proof -
  obtain r where r: "by_stage (stage_id s) = Some r" "stage_status r = StBlocked"
    using assms(5) by (auto simp: status_at_def)
  have ne: "depends_on s \<noteq> []" using assms(2,4) r by (fastforce simp: table_ok_def)
  let ?deps = "map (\<lambda>d. the (status_at by_stage d)) (depends_on s)"
  have "dependency_statuses by_stage (depends_on s) = Inr ?deps"
    using assms(3,4) by (intro dependency_statuses_eq) (auto simp: known_deps_def)
  moreover have "sweep_stage s (by_stage, False) = Inr (by_stage, False)"
    using assms(1,4) by (simp add: settled_def)
  ultimately have "\<not> list_all (\<lambda>x. x = StSucceeded) ?deps" "\<not> list_ex (\<lambda>x. x = StFailed \<or> x = StCancelled) ?deps"
    using r ne by (auto simp: sweep_stage_def get_item_def split: if_splits)
  then obtain d where d: "d \<in> set (depends_on s)" "the (status_at by_stage d) \<noteq> StSucceeded"
    "the (status_at by_stage d) \<noteq> StFailed" "the (status_at by_stage d) \<noteq> StCancelled"
    by (auto simp: list_all_iff list_ex_iff)
  obtain q where "by_stage d = Some q"
    using assms(3,4) d(1) by (auto simp: known_deps_def)
  with d have "status_at by_stage d = Some (stage_status q)" "\<not> terminal_stage (stage_status q)"
    by (simp_all add: status_at_def terminal_stage_def)
  with d(1) show ?thesis by blast
qed

lemma settled_progress:
  assumes wf: "well_formed_stages stages" and ok: "table_ok stages by_stage" and set: "settled stages by_stage"
    and s: "s \<in> set stages" "status_at by_stage (stage_id s) = Some st" "\<not> terminal_stage st"
  shows "\<exists>t \<in> set stages. \<exists>st. status_at by_stage (stage_id t) = Some st \<and> started_stage st"
proof -
  let ?R = "(dependency_graph stages)\<inverse>"
  let ?open = "{sid. \<exists>s \<in> set stages. stage_id s = sid \<and>
    (\<exists>st. status_at by_stage sid = Some st \<and> \<not> terminal_stage st)}"
  have "dependency_graph stages \<subseteq> stage_id ` set stages \<times> (\<Union>s \<in> set stages. set (depends_on s))"
    by (auto simp: dependency_graph_def)
  then have "finite (dependency_graph stages)" by (rule finite_subset) simp
  then have "wf ?R"
    using wf by (intro finite_acyclic_wf_converse) (auto simp: well_formed_stages_def)
  moreover have "stage_id s \<in> ?open" using s by blast
  ultimately obtain z where z: "z \<in> ?open" "\<And>y. (y, z) \<in> ?R \<Longrightarrow> y \<notin> ?open"
    by (rule wfE_min) blast
  from z(1) obtain t st' where t: "t \<in> set stages" "stage_id t = z" "status_at by_stage z = Some st'"
    "\<not> terminal_stage st'" by blast
  have deps: "\<forall>u \<in> set stages. set (depends_on u) \<subseteq> stage_id ` set stages"
    using wf by (auto simp: well_formed_stages_def)
  have known: "known_deps stages by_stage"
    using deps ok by (fastforce simp: known_deps_def table_ok_def)
  have "st' \<noteq> StBlocked"
  proof
    assume "st' = StBlocked"
    with settled_blocked [OF set ok known t(1)] t(2,3) obtain d st2 where
      d: "d \<in> set (depends_on t)" "status_at by_stage d = Some st2" "\<not> terminal_stage st2" by auto
    with deps t(1) have "d \<in> ?open" by blast
    moreover have "(d, z) \<in> ?R" using dependency_graphI [OF t(1) d(1)] t(2) by simp
    ultimately show False using z(2) by blast
  qed
  with t show ?thesis by (auto simp: started_stage_def)
qed

section \<open>Decisions\<close>

definition machine_ok :: "static_dag_machine \<Rightarrow> bool" where
  "machine_ok m \<longleftrightarrow> well_formed_stages (wf_stages (machine_definition m)) \<and>
     stage_id ` set (wf_stages (machine_definition m)) \<subseteq> dom (map_of (ticket_map m))"

definition state_ok :: "static_dag_machine \<Rightarrow> static_dag_state \<Rightarrow> bool" where
  "state_ok m st \<longleftrightarrow>
     map run_stage_id (dag_stages st) = map stage_id (wf_stages (machine_definition m)) \<and>
     table_ok (wf_stages (machine_definition m)) (stage_dict (dag_stages st))"

lemma get_items_eq:
  "\<forall>k \<in> set ks. d k \<noteq> None \<Longrightarrow> get_items d name ks = Inr (map (\<lambda>k. the (d k)) ks)"
  by (induction ks) (auto simp: get_item_def)

lemma stage_dict_mem:
  assumes "distinct (map run_stage_id rs)" and "r \<in> set rs"
  shows "stage_dict rs (run_stage_id r) = Some r"
  unfolding stage_dict_def dict_of_def
  by (rule map_of_is_SomeI) (use assms in \<open>auto simp: rev_map [symmetric] comp_def\<close>)

lemma table_ok_cong:
  assumes wf: "well_formed_stages stages"
    and eq: "\<And>s. s \<in> set stages \<Longrightarrow> b' (stage_id s) = b (stage_id s)" and "table_ok stages b"
  shows "table_ok stages b'"
proof -
  have "status_at b' d = status_at b d" if "s \<in> set stages" "d \<in> set (depends_on s)" for s d
    using wf that eq by (fastforce simp: well_formed_stages_def status_at_def)
  with assms(3) eq show ?thesis by (simp add: table_ok_def)
qed

text \<open>What every decision computes, in terms of the settled stage table \<open>b\<close>.\<close>

lemma decide_result:
  assumes m: "machine_ok m" and st: "state_ok m st"
  defines "stages \<equiv> wf_stages (machine_definition m)"
  obtains plan b where "decide m st waits signals now current = Inr plan"
    and "table_ok stages b" "settled stages b" "table_step (stage_dict (dag_stages st)) b"
    and "consume_signal_ids plan = map signal_id signals"
    and "replaced_revision (plan_state plan) = current"
    and "replaced_state (plan_state plan) = make_versioned_state
      (StaticDagDoc (st\<lparr>dag_stages := map (\<lambda>s. the (b (stage_id s))) stages\<rparr>)) ''static_dag'' 1"
    and "state_ok m (st\<lparr>dag_stages := map (\<lambda>s. the (b (stage_id s))) stages\<rparr>)"
    and "(replaced_status (plan_state plan), replaced_reason (plan_state plan)) =
      run_outcome (map (\<lambda>s. stage_status (the (b (stage_id s)))) stages)"
    and "replace_waits plan = (if terminal_workflow (replaced_status (plan_state plan)) then [] else
      map (\<lambda>s. ticket_wait (the (map_of (ticket_map m) (stage_id s))))
        (filter (\<lambda>s. \<not> terminal_stage (stage_status (the (b (stage_id s))))) stages))"
    and "plan_facts plan = (if terminal_workflow (replaced_status (plan_state plan))
      then [\<lparr>wf_fact_kind = ''workflow.'' @ workflow_status_value (replaced_status (plan_state plan)),
        wf_fact_aggregate = None,
        wf_fact_payload = [(''definition_name'', JStr (wf_name (machine_definition m)))]\<rparr>] else [])"
    and "plan_activities plan = []" "plan_approvals plan = []"
proof -
  obtain b0 consumed where sig: "fold (apply_signal (ticket_to_stage m)) signals
      (stage_dict (dag_stages st), []) = (b0, consumed)" by fastforce
  have wf: "well_formed_stages stages" using m by (simp add: machine_ok_def stages_def)
  have ok0: "table_ok stages (stage_dict (dag_stages st))" using st by (simp add: state_ok_def stages_def)
  from apply_signals_ok [OF sig] ok0 have consumed: "consumed = map signal_id signals"
    and step0: "table_step (stage_dict (dag_stages st)) b0" and ok1: "table_ok stages b0" by auto
  have "known_deps stages b0"
    using wf ok1 by (fastforce simp: known_deps_def table_ok_def well_formed_stages_def)
  from settle_ok [OF ok1 this] wf obtain b where b: "settle stages b0 = Inr b" "table_ok stages b"
    "table_step b0 b" "settled stages b" by (auto simp: well_formed_stages_def)
  have known: "\<exists>r. b (stage_id s) = Some r \<and> run_stage_id r = stage_id s" if "s \<in> set stages" for s
    using b(2) that by (auto simp: table_ok_def)
  let ?ordered = "map (\<lambda>s. the (b (stage_id s))) stages"
  have ordered: "get_items b id (map stage_id stages) = Inr ?ordered"
    using known by (subst get_items_eq) (fastforce simp: comp_def)+
  let ?open = "filter (\<lambda>r. \<not> terminal_stage (stage_status r)) ?ordered"
  have ids: "map run_stage_id ?ordered = map stage_id stages" using known by force
  have open_ids: "map run_stage_id ?open =
      map stage_id (filter (\<lambda>s. \<not> terminal_stage (stage_status (the (b (stage_id s))))) stages)"
    using known by (auto simp: filter_map comp_def intro!: map_cong) force
  have tickets: "get_items (map_of (ticket_map m)) id (map run_stage_id ?open) =
      Inr (map (\<lambda>s. the (map_of (ticket_map m) (stage_id s)))
        (filter (\<lambda>s. \<not> terminal_stage (stage_status (the (b (stage_id s))))) stages))"
    unfolding open_ids using m
    by (subst get_items_eq) (auto simp: machine_ok_def stages_def comp_def)
  have state_ok: "state_ok m (st\<lparr>dag_stages := ?ordered\<rparr>)"
  proof -
    have dist: "distinct (map run_stage_id ?ordered)"
      unfolding ids using wf by (simp add: well_formed_stages_def)
    have "stage_dict ?ordered (stage_id s) = b (stage_id s)" if "s \<in> set stages" for s
      using stage_dict_mem [OF dist, of "the (b (stage_id s))"] known [OF that] that by auto
    from table_ok_cong [OF wf this b(2)] ids show ?thesis by (simp add: state_ok_def stages_def)
  qed
  obtain status reason where outcome: "run_outcome (map stage_status ?ordered) = (status, reason)" by fastforce
  let ?waits = "if terminal_workflow status then [] else
      map (\<lambda>s. ticket_wait (the (map_of (ticket_map m) (stage_id s))))
        (filter (\<lambda>s. \<not> terminal_stage (stage_status (the (b (stage_id s))))) stages)"
  let ?plan = "\<lparr>plan_state = \<lparr>replaced_revision = current, replaced_status = status,
      replaced_state = make_versioned_state (StaticDagDoc (st\<lparr>dag_stages := ?ordered\<rparr>)) ''static_dag'' 1,
      replaced_reason = reason\<rparr>, consume_signal_ids = consumed, replace_waits = ?waits,
      plan_activities = [], plan_approvals = [],
      plan_facts = (if terminal_workflow status
        then [\<lparr>wf_fact_kind = ''workflow.'' @ workflow_status_value status, wf_fact_aggregate = None,
               wf_fact_payload = [(''definition_name'', JStr (wf_name (machine_definition m)))]\<rparr>]
        else [])\<rparr>"
  have plan: "decide m st waits signals now current = Inr ?plan"
    using sig b(1) ordered outcome tickets
    by (simp add: decide_def stages_def comp_def id_def Let_def)
  from table_step_trans [OF step0 b(3)] outcome consumed state_ok show thesis
    by (intro that [OF plan b(2,4)]) (simp_all add: comp_def)
qed

text \<open>Without any assumption on the state, a plan that was computed keeps the protocol.\<close>

lemma decide_plan_shape:
  assumes "decide m st waits signals now current = Inr plan"
  shows "replaced_revision (plan_state plan) = current \<and> consume_signal_ids plan = map signal_id signals \<and>
    schema_name (replaced_state (plan_state plan)) = ''static_dag'' \<and>
    state_version (replaced_state (plan_state plan)) = 1 \<and>
    (terminal_workflow (replaced_status (plan_state plan)) \<longrightarrow> replace_waits plan = []) \<and>
    plan_activities plan = [] \<and> plan_approvals plan = [] \<and>
    (\<forall>w \<in> set (replace_waits plan). \<exists>t. w = ticket_wait t) \<and>
    (plan_facts plan = [] \<or> (\<exists>f. plan_facts plan = [f] \<and> wf_fact_kind f \<in> {''workflow.completed'', ''workflow.failed'', ''workflow.cancelled''} \<and>
       map_of (wf_fact_payload f) ''type'' = None))"
proof -
  obtain b0 consumed where sig: "fold (apply_signal (ticket_to_stage m)) signals
      (stage_dict (dag_stages st), []) = (b0, consumed)" by fastforce
  with apply_signals_ok [OF sig] have "consumed = map signal_id signals" by simp
  with assms sig obtain ordered where
    plan: "(case run_outcome (map stage_status ordered) of (status, reason) \<Rightarrow>
      bindE (if terminal_workflow status then Inr []
             else get_items (map_of (ticket_map m)) id
               (map run_stage_id (filter (\<lambda>s. \<not> terminal_stage (stage_status s)) ordered))) (\<lambda>tickets.
      Inr \<lparr>plan_state = \<lparr>replaced_revision = current, replaced_status = status,
              replaced_state = make_versioned_state (StaticDagDoc (st\<lparr>dag_stages := ordered\<rparr>))
                 ''static_dag'' 1,
              replaced_reason = reason\<rparr>,
           consume_signal_ids = map signal_id signals,
           replace_waits = map ticket_wait tickets,
           plan_activities = [], plan_approvals = [],
           plan_facts = (if terminal_workflow status
             then [\<lparr>wf_fact_kind = ''workflow.'' @ workflow_status_value status, wf_fact_aggregate = None,
                    wf_fact_payload = [(''definition_name'', JStr (wf_name (machine_definition m)))]\<rparr>]
             else [])\<rparr>)) = Inr plan"
    by (auto simp: decide_def bindE_eq_Inr Let_def)
  obtain status reason where "run_outcome (map stage_status ordered) = (status, reason)" by fastforce
  moreover have "terminal_workflow status \<Longrightarrow> ''workflow.'' @ workflow_status_value status
      \<in> {''workflow.completed'', ''workflow.failed'', ''workflow.cancelled''}"
    by (auto simp: terminal_workflow_def)
  ultimately show ?thesis using plan by (auto simp: bindE_eq_Inr make_versioned_state_def split: if_splits)
qed

interpretation static_dag: workflow_machine "decide m" "(''static_dag'', 1)" for m
  by unfold_locales (use decide_plan_shape in fastforce)+

section \<open>Properties\<close>

definition sample_machine :: static_dag_machine where
  "sample_machine = \<lparr>machine_definition = sample_workflow [sample_stage ''b'' [''a''], sample_stage ''a'' []],
     ticket_map = [(''a'', ''t001''), (''b'', ''t002'')]\<rparr>"

definition finished_signal :: "string \<Rightarrow> string \<Rightarrow> workflow_signal" where
  "finished_signal ticket status = \<lparr>signal_id = UUID 7, signal_workflow = UUID 1,
     deduplication_key = ''k'', signal_created_at = 0,
     signal_payload = ExternalWorkflowSignal ''ticket.finished'' (Some ticket) [(''status'', JStr status)],
     consumed_at = None, consumed_at_revision = None\<rparr>"

lemma sample_machine_ok: "machine_ok sample_machine"
proof -
  have "validate_workflow (sample_workflow [sample_stage ''b'' [''a''], sample_stage ''a'' []]) = []"
    by (simp add: validate_workflow_def workflow_issues_def name_issues_def stage_issues_def
        sample_workflow_simps find_cycle_def adjacency_def setdefault_def deps_of_def name_re_def
        dollar_def stage_id_re_def ident_char_def blank_def Let_def less_eq_char_def dfs_loop.simps)
  from validate_well_formed [OF this] show ?thesis
    by (simp add: machine_ok_def sample_machine_def sample_workflow_simps)
qed

lemma initialize_ok:
  assumes "machine_ok m"
  shows "state_ok m (initialize m inputs)"
proof -
  let ?stages = "wf_stages (machine_definition m)"
  have ids: "map run_stage_id (map initial_stage ?stages) = map stage_id ?stages"
    by (simp add: initial_stage_def)
  have dist: "distinct (map run_stage_id (map initial_stage ?stages))"
    unfolding ids using assms by (simp add: machine_ok_def well_formed_stages_def)
  have "stage_dict (map initial_stage ?stages) (stage_id s) = Some (initial_stage s)"
    if "s \<in> set ?stages" for s
    using stage_dict_mem [OF dist, of "initial_stage s"] that by (simp add: initial_stage_def)
  then show ?thesis
    by (simp add: state_ok_def initialize_def table_ok_def)
      (simp add: initial_stage_def stage_status_simps)
qed

lemma decide_safe:
  assumes "machine_ok m" and "state_ok m st"
  shows "\<exists>plan st'. decide m st waits signals now current = Inr plan \<and>
    state_value (replaced_state (plan_state plan)) = StaticDagDoc st' \<and> state_ok m st' \<and>
    dag_inputs st' = dag_inputs st \<and>
    consume_signal_ids plan = map signal_id signals \<and> replaced_revision (plan_state plan) = current \<and>
    (\<forall>r \<in> set (dag_stages st). terminal_stage (stage_status r) \<longrightarrow> r \<in> set (dag_stages st')) \<and>
    (\<forall>r \<in> set (dag_stages st'). stage_status r = StBlocked \<longrightarrow>
       (\<exists>q \<in> set (dag_stages st). run_stage_id q = run_stage_id r \<and> stage_status q = StBlocked))"
proof -
  let ?stages = "wf_stages (machine_definition m)"
  obtain plan b where plan: "decide m st waits signals now current = Inr plan"
    and b: "table_ok ?stages b" "table_step (stage_dict (dag_stages st)) b"
    and rest: "consume_signal_ids plan = map signal_id signals" "replaced_revision (plan_state plan) = current"
    and state: "replaced_state (plan_state plan) = make_versioned_state
      (StaticDagDoc (st\<lparr>dag_stages := map (\<lambda>s. the (b (stage_id s))) ?stages\<rparr>)) ''static_dag'' 1"
    and ok: "state_ok m (st\<lparr>dag_stages := map (\<lambda>s. the (b (stage_id s))) ?stages\<rparr>)"
    using decide_result [OF assms] by metis
  let ?st' = "st\<lparr>dag_stages := map (\<lambda>s. the (b (stage_id s))) ?stages\<rparr>"
  have ids: "map run_stage_id (dag_stages st) = map stage_id ?stages" using assms(2) by (simp add: state_ok_def)
  then have dist: "distinct (map run_stage_id (dag_stages st))"
    using assms(1) by (simp add: machine_ok_def well_formed_stages_def)
  have "r \<in> set (dag_stages ?st')" if r: "r \<in> set (dag_stages st)" "terminal_stage (stage_status r)" for r
  proof -
    have "b (run_stage_id r) = Some r"
      using b(2) r stage_dict_mem [OF dist r(1)] by (auto simp: table_step_def)
    moreover have "run_stage_id r \<in> set (map stage_id ?stages)" using r(1) ids by (metis image_eqI set_map)
    ultimately show ?thesis by force
  qed
  moreover have "\<exists>q \<in> set (dag_stages st). run_stage_id q = run_stage_id r \<and> stage_status q = StBlocked"
    if "r \<in> set (dag_stages ?st')" "stage_status r = StBlocked" for r
  proof -
    from that(1) obtain s where s: "s \<in> set ?stages" "r = the (b (stage_id s))" by auto
    with b(1) have r: "b (stage_id s) = Some r" "run_stage_id r = stage_id s" by (auto simp: table_ok_def)
    have "stage_id s \<in> set (map run_stage_id (dag_stages st))" using s(1) ids by simp
    then obtain q where q: "q \<in> set (dag_stages st)" "run_stage_id q = stage_id s" by auto
    have "status_at b (stage_id s) = Some StBlocked" using r that(2) by (simp add: status_at_def)
    then have "status_at (stage_dict (dag_stages st)) (stage_id s) = Some StBlocked"
      using b(2) by (simp add: table_step_def)
    with stage_dict_mem [OF dist q(1)] q r(2) show ?thesis by (auto simp: status_at_def)
  qed
  ultimately show ?thesis
    using plan rest state ok by (intro exI [of _ plan] exI [of _ ?st']) (simp add: make_versioned_state_def)
qed

text \<open>
  C6: decisions of the static DAG machine are total and safe. For a machine over a well-formed
  template with a ticket for every stage, and a state that fits it, \<open>decide\<close> returns a plan for any
  batch of signals; the plan consumes exactly those signals, in order, against the given revision;
  the new state fits the machine again, which includes that a stage past \<open>blocked\<close> and not terminal
  has only succeeded dependencies; terminal stages keep their record and no stage becomes blocked.
\<close>

theorem static_dag_decide_safe:
  assumes "machine_ok m" and "state_ok m st"
  shows "\<exists>plan st'. decide m st waits signals now current = Inr plan \<and>
    state_value (replaced_state (plan_state plan)) = StaticDagDoc st' \<and> state_ok m st' \<and>
    dag_inputs st' = dag_inputs st \<and>
    consume_signal_ids plan = map signal_id signals \<and> replaced_revision (plan_state plan) = current \<and>
    (\<forall>r \<in> set (dag_stages st). terminal_stage (stage_status r) \<longrightarrow> r \<in> set (dag_stages st')) \<and>
    (\<forall>r \<in> set (dag_stages st'). stage_status r = StBlocked \<longrightarrow>
       (\<exists>q \<in> set (dag_stages st). run_stage_id q = run_stage_id r \<and> stage_status q = StBlocked))"
  using assms by (rule decide_safe)

theorem static_dag_decide_safe_witness:
  "\<exists>plan st'. decide sample_machine (initialize sample_machine []) [] [finished_signal ''t001'' ''done''] 0 4
       = Inr plan \<and> state_value (replaced_state (plan_state plan)) = StaticDagDoc st' \<and>
     state_ok sample_machine st' \<and> consume_signal_ids plan = [UUID 7]"
  using static_dag_decide_safe [OF sample_machine_ok initialize_ok [OF sample_machine_ok, of "[]"],
      of "[]" "[finished_signal ''t001'' ''done'']" 0 4]
  by (auto simp: finished_signal_def)

lemma decide_waits:
  assumes "machine_ok m" and "state_ok m st"
    and "decide m st waits signals now current = Inr plan"
    and "replaced_status (plan_state plan) = WfWaiting"
    and "state_value (replaced_state (plan_state plan)) = StaticDagDoc st'"
  shows "(\<exists>r \<in> set (dag_stages st'). started_stage (stage_status r)) \<and>
    set (replace_waits plan) = {ticket_wait t |r t. r \<in> set (dag_stages st') \<and>
      \<not> terminal_stage (stage_status r) \<and> map_of (ticket_map m) (run_stage_id r) = Some t}"
proof -
  let ?stages = "wf_stages (machine_definition m)"
  obtain plan' b where plan': "decide m st waits signals now current = Inr plan'"
    and b: "table_ok ?stages b" "settled ?stages b"
    and state: "replaced_state (plan_state plan') = make_versioned_state
      (StaticDagDoc (st\<lparr>dag_stages := map (\<lambda>s. the (b (stage_id s))) ?stages\<rparr>)) ''static_dag'' 1"
    and outcome: "(replaced_status (plan_state plan'), replaced_reason (plan_state plan')) =
      run_outcome (map (\<lambda>s. stage_status (the (b (stage_id s)))) ?stages)"
    and waits: "replace_waits plan' = (if terminal_workflow (replaced_status (plan_state plan')) then [] else
      map (\<lambda>s. ticket_wait (the (map_of (ticket_map m) (stage_id s))))
        (filter (\<lambda>s. \<not> terminal_stage (stage_status (the (b (stage_id s))))) ?stages))"
    using decide_result [OF assms(1,2)] by metis
  have [simp]: "plan' = plan" using plan' assms(3) by simp
  have st': "dag_stages st' = map (\<lambda>s. the (b (stage_id s))) ?stages"
    using state assms(5) by (auto simp: make_versioned_state_def)
  have wf: "well_formed_stages ?stages" using assms(1) by (simp add: machine_ok_def)
  have known: "\<exists>r. b (stage_id s) = Some r \<and> run_stage_id r = stage_id s" if "s \<in> set ?stages" for s
    using b(1) that by (auto simp: table_ok_def)
  have ticket: "\<exists>t. map_of (ticket_map m) (stage_id s) = Some t" if "s \<in> set ?stages" for s
    using assms(1) that by (force simp: machine_ok_def)
  have ne: "?stages \<noteq> []" using wf by (simp add: well_formed_stages_def)
  have "\<not> list_all terminal_stage (map (\<lambda>s. stage_status (the (b (stage_id s)))) ?stages)"
    using outcome assms(4) ne by (auto simp: run_outcome_def split: if_splits)
  then obtain s where s: "s \<in> set ?stages" "\<not> terminal_stage (stage_status (the (b (stage_id s))))"
    by (auto simp: list_all_iff)
  from known [OF s(1)] s(2) have "status_at b (stage_id s) = Some (stage_status (the (b (stage_id s))))"
    by (auto simp: status_at_def)
  from settled_progress [OF wf b s(1) this s(2)] obtain t st2 where
    t: "t \<in> set ?stages" "status_at b (stage_id t) = Some st2" "started_stage st2" by blast
  then have "the (b (stage_id t)) \<in> set (dag_stages st')" "stage_status (the (b (stage_id t))) = st2"
    by (auto simp: st' status_at_def)
  with t(3) have started: "\<exists>r \<in> set (dag_stages st'). started_stage (stage_status r)" by blast
  have "set (replace_waits plan) = (\<lambda>s. ticket_wait (the (map_of (ticket_map m) (stage_id s)))) `
      {s \<in> set ?stages. \<not> terminal_stage (stage_status (the (b (stage_id s))))}"
    using waits assms(4) by (simp add: terminal_workflow_def)
  also have "\<dots> = {ticket_wait t |r t. r \<in> set (dag_stages st') \<and>
      \<not> terminal_stage (stage_status r) \<and> map_of (ticket_map m) (run_stage_id r) = Some t}"
    using known ticket by (fastforce simp: st' image_iff)
  finally show ?thesis using started by simp
qed

text \<open>
  C7: a waiting run never deadlocks. When a decision leaves the run waiting, some stage is past
  \<open>blocked\<close> and not terminal, and the plan waits for the ticket of every stage that is not terminal,
  and for nothing else; in particular there is at least one wait that can move the run on.
\<close>

theorem static_dag_no_deadlock:
  assumes "machine_ok m" and "state_ok m st"
    and "decide m st waits signals now current = Inr plan"
    and "replaced_status (plan_state plan) = WfWaiting"
    and "state_value (replaced_state (plan_state plan)) = StaticDagDoc st'"
  shows "(\<exists>r \<in> set (dag_stages st'). started_stage (stage_status r)) \<and>
    set (replace_waits plan) = {ticket_wait t |r t. r \<in> set (dag_stages st') \<and>
      \<not> terminal_stage (stage_status r) \<and> map_of (ticket_map m) (run_stage_id r) = Some t}"
  using assms by (rule decide_waits)

theorem static_dag_no_deadlock_witness:
  "\<exists>plan st'. decide sample_machine (initialize sample_machine []) [] [finished_signal ''t001'' ''done''] 0 4
       = Inr plan \<and> state_value (replaced_state (plan_state plan)) = StaticDagDoc st' \<and>
     (\<exists>r \<in> set (dag_stages st'). started_stage (stage_status r)) \<and>
     ticket_wait ''t002'' \<in> set (replace_waits plan)"
proof -
  let ?st = "initialize sample_machine []" and ?g = "[finished_signal ''t001'' ''done'']"
  let ?sb = "sample_stage ''b'' [''a'']" and ?sa = "sample_stage ''a'' []"
  define ra rb ra' rb' where "ra = initial_stage ?sa" and "rb = initial_stage ?sb"
    and "ra' = ra\<lparr>stage_status := StSucceeded, stage_error := None\<rparr>" and "rb' = rb\<lparr>stage_status := StReady\<rparr>"
  have r: "run_stage_id ra = ''a''" "run_stage_id rb = ''b''" "stage_status ra = StReady"
    "stage_status rb = StBlocked" "stage_status ra' = StSucceeded" "stage_status rb' = StReady"
    "run_stage_id ra' = ''a''" "run_stage_id rb' = ''b''"
    by (simp_all add: ra_def rb_def ra'_def rb'_def initial_stage_def sample_stage_def)
  define st' where "st' = ?st\<lparr>dag_stages := [rb', ra']\<rparr>"
  have stages: "wf_stages (machine_definition sample_machine) = [?sb, ?sa]"
    by (simp add: sample_machine_def sample_workflow_def)
  have tickets: "map_of (ticket_map sample_machine) = [''a'' \<mapsto> ''t001'', ''b'' \<mapsto> ''t002'']"
    by (simp add: sample_machine_def fun_upd_twist)
  have s: "stage_id ?sb = ''b''" "stage_id ?sa = ''a''" "depends_on ?sb = [''a'']" "depends_on ?sa = []"
    by (simp_all add: sample_stage_def)
  have dict: "stage_dict (dag_stages ?st) = [''a'' \<mapsto> ra, ''b'' \<mapsto> rb]"
    by (simp add: initialize_def stages stage_dict_def dict_of_def ra_def [symmetric] rb_def [symmetric] r fun_upd_twist)
  have "finished_ticket (ticket_to_stage sample_machine) (signal_payload (finished_signal ''t001'' ''done'')) =
      Some (''a'', [(''status'', JStr ''done'')])"
    by (simp add: finished_signal_def ticket_to_stage_def sample_machine_def dict_of_def)
  then have sig: "fold (apply_signal (ticket_to_stage sample_machine)) ?g (stage_dict (dag_stages ?st), []) =
      ([''a'' \<mapsto> ra', ''b'' \<mapsto> rb], [UUID 7])"
    by (simp add: dict apply_signal_def r terminal_stage_def finished_stage_def ticket_status_text_def
        json_str_def ra'_def fun_upd_twist) (simp add: finished_signal_def)
  have "sweep_stage ?sb ([''a'' \<mapsto> ra', ''b'' \<mapsto> rb], False) = Inr ([''a'' \<mapsto> ra', ''b'' \<mapsto> rb'], True)"
    "sweep_stage ?sa ([''a'' \<mapsto> ra', ''b'' \<mapsto> rb'], True) = Inr ([''a'' \<mapsto> ra', ''b'' \<mapsto> rb'], True)"
    "sweep_stage ?sb ([''a'' \<mapsto> ra', ''b'' \<mapsto> rb'], False) = Inr ([''a'' \<mapsto> ra', ''b'' \<mapsto> rb'], False)"
    "sweep_stage ?sa ([''a'' \<mapsto> ra', ''b'' \<mapsto> rb'], False) = Inr ([''a'' \<mapsto> ra', ''b'' \<mapsto> rb'], False)"
    by (simp_all add: sweep_stage_def get_item_def s r rb'_def)
  then have "settle [?sb, ?sa] [''a'' \<mapsto> ra', ''b'' \<mapsto> rb] = Inr [''a'' \<mapsto> ra', ''b'' \<mapsto> rb']"
    by (simp add: settle_pass)
  then obtain plan where run: "decide sample_machine ?st [] ?g 0 4 = Inr plan" and
    status: "replaced_status (plan_state plan) = WfWaiting" and
    state: "state_value (replaced_state (plan_state plan)) = StaticDagDoc st'"
    using sig by (simp add: decide_def Let_def stages s r get_item_def run_outcome_def terminal_stage_def
        terminal_workflow_def make_versioned_state_def st'_def tickets)
  from static_dag_no_deadlock [OF sample_machine_ok initialize_ok [OF sample_machine_ok] run status state]
  have "\<exists>r \<in> set (dag_stages st'). started_stage (stage_status r)"
    and "set (replace_waits plan) = {ticket_wait t |r t. r \<in> set (dag_stages st') \<and>
      \<not> terminal_stage (stage_status r) \<and> map_of (ticket_map sample_machine) (run_stage_id r) = Some t}"
    by blast+
  moreover from this(2) have "ticket_wait ''t002'' \<in> set (replace_waits plan)"
    by (auto simp: st'_def tickets r terminal_stage_def intro!: exI [of _ rb'])
  ultimately show ?thesis using run state by blast
qed

text \<open>The statuses of a run that is going well.\<close>

definition unharmed :: "by_stage \<Rightarrow> bool" where
  "unharmed by_stage \<longleftrightarrow> (\<forall>k. status_at by_stage k \<noteq> Some StFailed \<and> status_at by_stage k \<noteq> Some StCancelled)"

definition reports_success :: "signal_payload \<Rightarrow> bool" where
  "reports_success p = (case p of
     ExternalWorkflowSignal _ _ body \<Rightarrow> List.member [''done'', ''archived'', ''succeeded''] (ticket_status_text body)
   | _ \<Rightarrow> True)"

lemma apply_signal_success:
  assumes step: "apply_signal tickets g (b, c) = (b', c')" and ok: "unharmed b"
    and good: "reports_success (signal_payload g)"
  shows "unharmed b'" and "finished_ticket tickets (signal_payload g) = Some (sid, p) \<Longrightarrow> b sid \<noteq> None \<Longrightarrow>
    status_at b' sid = Some StSucceeded"
proof -
  have fin: "stage_status (finished_stage q r) = StSucceeded"
    if "finished_ticket tickets (signal_payload g) = Some (k, q)" for k q r
    using that good
    by (cases "(tickets, signal_payload g)" rule: finished_ticket.cases)
      (auto simp: reports_success_def finished_stage_def Let_def split: if_splits option.splits)
  show "unharmed b'" using step ok fin
    by (auto simp: apply_signal_def unharmed_def split: option.splits if_splits)
  show "status_at b' sid = Some StSucceeded"
    if "finished_ticket tickets (signal_payload g) = Some (sid, p)" "b sid \<noteq> None"
  proof -
    from that(2) obtain r where r: "b sid = Some r" by auto
    then have "status_at b sid = Some (stage_status r)" by (simp add: status_at_def)
    with ok have "stage_status r \<noteq> StFailed \<and> stage_status r \<noteq> StCancelled" by (auto simp: unharmed_def)
    with step that(1) r fin show ?thesis
      by (auto simp: apply_signal_def terminal_stage_def status_at_def split: if_splits)
  qed
qed

lemma apply_signals_success:
  assumes "fold (apply_signal tickets) signals (b, c) = (b', c')" and "unharmed b"
    and "\<forall>g \<in> set signals. reports_success (signal_payload g)"
  shows "unharmed b' \<and> (\<forall>g \<in> set signals. \<forall>sid p. finished_ticket tickets (signal_payload g) = Some (sid, p) \<longrightarrow>
    b sid \<noteq> None \<longrightarrow> status_at b' sid = Some StSucceeded)"
  using assms
proof (induction signals arbitrary: b c)
  case Nil
  then show ?case by simp
next
  case (Cons g signals)
  obtain b1 c1 where step: "apply_signal tickets g (b, c) = (b1, c1)" by fastforce
  with Cons.prems have run: "fold (apply_signal tickets) signals (b1, c1) = (b', c')" by simp
  have ok: "unharmed b1" using apply_signal_success(1) [OF step Cons.prems(2)] Cons.prems(3) by simp
  from Cons.IH [OF run ok] Cons.prems(3) have IH: "unharmed b'"
    "\<And>h sid p. h \<in> set signals \<Longrightarrow> finished_ticket tickets (signal_payload h) = Some (sid, p) \<Longrightarrow>
      b1 sid \<noteq> None \<Longrightarrow> status_at b' sid = Some StSucceeded" by auto
  have dom: "b1 sid \<noteq> None" if "b sid \<noteq> None" for sid
    using apply_signal_ok(2) [OF step] that by (auto simp: table_step_def)
  have "status_at b' sid = Some StSucceeded"
    if "finished_ticket tickets (signal_payload g) = Some (sid, p)" "b sid \<noteq> None" for sid p
  proof -
    have "status_at b1 sid = Some StSucceeded"
      using apply_signal_success(2) [OF step Cons.prems(2) _ that] Cons.prems(3) by simp
    moreover have "table_step b1 b'" using apply_signals_ok [OF run] by simp
    ultimately show ?thesis by (auto simp: table_step_def status_at_def terminal_stage_def)
  qed
  with IH dom show ?case by auto
qed

lemma decide_all_done:
  assumes sig: "fold (apply_signal (ticket_to_stage m)) signals (stage_dict (dag_stages st), []) = (b0, consumed)"
    and ok1: "table_ok (wf_stages (machine_definition m)) b0" and ne: "wf_stages (machine_definition m) \<noteq> []"
    and done_all: "\<And>s. s \<in> set (wf_stages (machine_definition m)) \<Longrightarrow> status_at b0 (stage_id s) = Some StSucceeded"
  shows "\<exists>plan. decide m st waits signals now current = Inr plan \<and>
    replaced_status (plan_state plan) = WfCompleted \<and> replace_waits plan = [] \<and>
    map wf_fact_kind (plan_facts plan) = [''workflow.completed'']"
proof -
  let ?stages = "wf_stages (machine_definition m)"
  have "\<exists>r. b0 (stage_id s) = Some r \<and> stage_status r = StSucceeded" if "s \<in> set ?stages" for s
    using done_all [OF that] by (auto simp: status_at_def)
  then have "sweep_stage s (b0, False) = Inr (b0, False)" if "s \<in> set ?stages" for s
    using that by (fastforce simp: sweep_stage_def get_item_def)
  then have "foldE sweep_stage ss (b0, False) = Inr (b0, False)" if "set ss \<subseteq> set ?stages" for ss
    using that by (induction ss) auto
  then have settled: "settle ?stages b0 = Inr b0" by (subst settle.simps) simp
  have ordered: "get_items b0 id (map stage_id ?stages) = Inr (map (\<lambda>k. the (b0 k)) (map stage_id ?stages))"
    using ok1 by (intro get_items_eq) (fastforce simp: table_ok_def)
  have "list_all (\<lambda>s. s = StSucceeded) (map stage_status (map (\<lambda>k. the (b0 k)) (map stage_id ?stages)))"
    using done_all by (fastforce simp: list_all_iff status_at_def)
  then have "run_outcome (map stage_status (map (\<lambda>k. the (b0 k)) (map stage_id ?stages))) = (WfCompleted, None)"
    using ne by (simp add: run_outcome_def)
  with sig settled ordered show ?thesis
    by (simp add: decide_def Let_def terminal_workflow_def)
qed

text \<open>
  C8: a run whose tickets are all reported finished completes. From a state with no failed or
  cancelled stage, a batch of successful \<open>ticket.finished\<close> signals that covers the ticket of every
  stage that is not terminal takes the run to \<open>completed\<close> in one decision, whatever their order and
  whatever other signals are among them: no waits are left and one fact is drafted.
\<close>

theorem static_dag_completes:
  assumes m: "machine_ok m" and st: "state_ok m st" and tickets: "distinct (map snd (ticket_map m))"
    and unharmed: "\<forall>r \<in> set (dag_stages st). stage_status r \<noteq> StFailed \<and> stage_status r \<noteq> StCancelled"
    and good: "\<forall>g \<in> set signals. reports_success (signal_payload g)"
    and all: "\<forall>r \<in> set (dag_stages st). \<not> terminal_stage (stage_status r) \<longrightarrow>
      (\<exists>g \<in> set signals. \<exists>t body. (run_stage_id r, t) \<in> set (ticket_map m) \<and>
         signal_payload g = ExternalWorkflowSignal ''ticket.finished'' (Some t) body)"
  shows "\<exists>plan. decide m st waits signals now current = Inr plan \<and>
    replaced_status (plan_state plan) = WfCompleted \<and> replace_waits plan = [] \<and>
    map wf_fact_kind (plan_facts plan) = [''workflow.completed'']"
proof -
  let ?stages = "wf_stages (machine_definition m)"
  obtain b0 consumed where sig: "fold (apply_signal (ticket_to_stage m)) signals
      (stage_dict (dag_stages st), []) = (b0, consumed)" by fastforce
  have ids: "map run_stage_id (dag_stages st) = map stage_id ?stages" using st by (simp add: state_ok_def)
  then have dist: "distinct (map run_stage_id (dag_stages st))"
    using m by (simp add: machine_ok_def well_formed_stages_def)
  have mem: "r \<in> set (dag_stages st)" if "stage_dict (dag_stages st) k = Some r" for k r
    using that by (auto simp: stage_dict_def dict_of_def dest!: map_of_SomeD)
  have "unharmed (stage_dict (dag_stages st))"
    using unharmed mem by (auto simp: unharmed_def status_at_def)
  from apply_signals_success [OF sig this good] have
    success: "\<And>g sid p. g \<in> set signals \<Longrightarrow> finished_ticket (ticket_to_stage m) (signal_payload g) = Some (sid, p) \<Longrightarrow>
      stage_dict (dag_stages st) sid \<noteq> None \<Longrightarrow> status_at b0 sid = Some StSucceeded" by blast
  have step0: "table_step (stage_dict (dag_stages st)) b0" using apply_signals_ok [OF sig] by simp
  have inverse: "ticket_to_stage m t = Some k" if "(k, t) \<in> set (ticket_map m)" for k t
    unfolding ticket_to_stage_def dict_of_def
    by (rule map_of_is_SomeI) (use tickets that in \<open>auto simp: rev_map [symmetric] comp_def split_beta intro: rev_image_eqI\<close>)
  have done0: "status_at b0 (run_stage_id r) = Some StSucceeded" if r: "r \<in> set (dag_stages st)" for r
  proof (cases "terminal_stage (stage_status r)")
    case True
    with step0 stage_dict_mem [OF dist r] have "b0 (run_stage_id r) = Some r" by (auto simp: table_step_def)
    with True unharmed r show ?thesis by (auto simp: status_at_def terminal_stage_def)
  next
    case False
    with all r obtain g t body where g: "g \<in> set signals" "(run_stage_id r, t) \<in> set (ticket_map m)"
      "signal_payload g = ExternalWorkflowSignal ''ticket.finished'' (Some t) body" by blast
    then have "finished_ticket (ticket_to_stage m) (signal_payload g) = Some (run_stage_id r, body)"
      by (simp add: inverse)
    from success [OF g(1) this] stage_dict_mem [OF dist r] show ?thesis by simp
  qed
  have ok1: "table_ok ?stages b0" using apply_signals_ok [OF sig] st by (simp add: state_ok_def)
  have done_all: "status_at b0 (stage_id s) = Some StSucceeded" if "s \<in> set ?stages" for s
  proof -
    from that have "stage_id s \<in> set (map run_stage_id (dag_stages st))" using ids by simp
    then show ?thesis using done0 by auto
  qed
  show ?thesis using m by (intro decide_all_done [OF sig ok1 _ done_all]) (auto simp: machine_ok_def well_formed_stages_def)
qed

theorem static_dag_completes_witness:
  "\<exists>plan. decide sample_machine (initialize sample_machine []) []
     [finished_signal ''t002'' ''archived'', finished_signal ''t001'' ''done''] 0 4 = Inr plan \<and>
     replaced_status (plan_state plan) = WfCompleted"
  using static_dag_completes [OF sample_machine_ok initialize_ok [OF sample_machine_ok, of "[]"],
      of "[finished_signal ''t002'' ''archived'', finished_signal ''t001'' ''done'']" "[]" 0 4]
  by (auto simp: sample_machine_def sample_workflow_simps initialize_def initial_stage_def finished_signal_def
      reports_success_def ticket_status_text_def json_str_def)

end
