(* ===== verification/Permissions.thy ===== *)
theory Permissions
  imports PermissionContracts WorkflowContracts
begin

text \<open>
  The permission store, \<open>murder/permissions/persistence.py\<close>: policy decisions, approval requests and
  evidence, grants with their uses and revocations, safety reviews, and the facts each write appends;
  and \<open>insert_approval_requests\<close> of \<open>murder/state/persistence/approvals.py\<close>, which a workflow transition
  calls. A row is the repository and the record its payload encodes. Lemmas: a grant is never used more
  often than its scope allows, and never after it was revoked.
\<close>

section \<open>Tables\<close>

record permission_db = fact_db +
  policy_decisions :: "(string \<times> policy_decision) list"
  approval_requests :: "(string \<times> approval_request) list"
  approval_evidences :: "(string \<times> approval_evidence) list"
  permission_grants :: "(string \<times> permission_grant) list"
  authorization_uses :: "(string \<times> authorization \<times> time) list"
  grant_revocations :: "(string \<times> uuid \<times> time \<times> string) list"
  safety_reviews :: "(string \<times> safety_review) list"

definition simple_fact :: "uuid \<Rightarrow> time \<Rightarrow> aggregate_ref \<Rightarrow> fact_actor \<Rightarrow> uuid \<Rightarrow> fact_payload \<Rightarrow> fact_draft" where
  "simple_fact fid ts agg who corr body = \<lparr>fact_id = fid, schema_version = 1, occurred_at = ts,
     aggregate = Some agg, actor = who, fact_correlation = plain_correlation corr, payload = body\<rparr>"

definition json_uuid :: "uuid option \<Rightarrow> json" where
  "json_uuid u = (case u of None \<Rightarrow> JNull | Some i \<Rightarrow> JStr (uuid_text i))"

definition append_permission_fact :: "string \<Rightarrow> fact_draft \<Rightarrow> string \<Rightarrow> string \<Rightarrow> int \<Rightarrow> time \<Rightarrow> 'z fact_db_scheme \<Rightarrow>
    exn + 'z fact_db_scheme" where
  "append_permission_fact repo draft proj key gen ts db =
     (let (iid, db) = uuid4 db in
      append_fact_db repo draft [\<lparr>input_id = iid, projection = proj, subject_key = key, generation = gen\<rparr>] ts db)"

section \<open>Decisions and requests\<close>

definition save_decision :: "string \<Rightarrow> policy_decision \<Rightarrow> 'z permission_db_scheme \<Rightarrow> exn + 'z permission_db_scheme" where
  "save_decision repo d db =
     (if list_ex (\<lambda>(_, q). decision_id q = decision_id d) (policy_decisions db) then Inl IntegrityError
      else Inr (db\<lparr>policy_decisions := policy_decisions db @ [(repo, d)]\<rparr>))"

definition save_approval :: "string \<Rightarrow> approval_evidence \<Rightarrow> 'z permission_db_scheme \<Rightarrow> exn + 'z permission_db_scheme" where
  "save_approval repo e db =
     (if list_ex (\<lambda>(_, q). evidence_id q = evidence_id e) (approval_evidences db) then Inl IntegrityError
      else Inr (db\<lparr>approval_evidences := approval_evidences db @ [(repo, e)]\<rparr>))"

definition approval_requested_fact :: "approval_request \<Rightarrow> fact_draft" where
  "approval_requested_fact r = simple_fact
     (UUID5 namespace_url (''murder:approval-requested:'' @ uuid_text (req_id r))) (requested_at r)
     \<lparr>aggregate_kind = (if req_workflow r \<noteq> None then ''workflow'' else ''permission''),
      aggregate_id = (case req_workflow r of Some w \<Rightarrow> w | None \<Rightarrow> req_policy_decision r),
      aggregate_revision = req_workflow_revision r\<rparr>
     (fact_actor (req_by r)) (req_policy_decision r)
     (PrivateFactPayload ''permission.approval.requested''
        [(''approval_id'', JStr (uuid_text (req_id r))), (''operation_digest'', JStr (req_digest r)),
         (''status'', JStr (approval_status_value (req_status r))), (''workflow_id'', json_uuid (req_workflow r))])"

definition save_approval_request :: "string \<Rightarrow> approval_request \<Rightarrow> 'z permission_db_scheme \<Rightarrow>
    exn + 'z permission_db_scheme" where
  "save_approval_request repo r db =
     (if list_ex (\<lambda>(_, q). req_id q = req_id r) (approval_requests db) then Inl IntegrityError
      else append_permission_fact repo (approval_requested_fact r) ''approvals'' (uuid_text (req_id r))
        (case req_workflow_revision r of None \<Rightarrow> 0 | Some n \<Rightarrow> n) (requested_at r)
        (db\<lparr>approval_requests := approval_requests db @ [(repo, r)]\<rparr>))"

definition get_approval_request :: "string \<Rightarrow> uuid \<Rightarrow> 'z permission_db_scheme \<Rightarrow> approval_request option" where
  "get_approval_request repo aid db =
     map_option snd (find (\<lambda>(q, r). q = repo \<and> req_id r = aid) (approval_requests db))"

definition last_by :: "('a \<Rightarrow> 'k::linorder) \<Rightarrow> 'a list \<Rightarrow> 'a option" where
  "last_by k xs = (case xs of [] \<Rightarrow> None | _ \<Rightarrow> Some (last (sort_key k xs)))"

definition get_decision_by_operation_id :: "string \<Rightarrow> uuid \<Rightarrow> 'z permission_db_scheme \<Rightarrow> policy_decision option" where
  "get_decision_by_operation_id repo op db = last_by (\<lambda>d. (decided_at d, decision_id d))
     (map snd (filter (\<lambda>(q, d). q = repo \<and> decided_operation d = op) (policy_decisions db)))"

definition get_pending_approval_for_operation :: "string \<Rightarrow> uuid \<Rightarrow> 'z permission_db_scheme \<Rightarrow>
    (policy_decision \<times> approval_request) option" where
  "get_pending_approval_for_operation repo op db =
     Option.bind (get_decision_by_operation_id repo op db) (\<lambda>d.
       map_option (\<lambda>r. (d, r)) (last_by (\<lambda>r. (requested_at r, req_id r))
         (map snd (filter (\<lambda>(q, r). q = repo \<and> req_policy_decision r = decision_id d \<and>
            req_status r = ApPending) (approval_requests db)))))"

definition list_approval_requests :: "string \<Rightarrow> approval_status option \<Rightarrow> uuid option \<Rightarrow> 'z permission_db_scheme \<Rightarrow>
    approval_request list" where
  "list_approval_requests repo status wid db =
     sort_key (\<lambda>r. (requested_at r, req_id r)) (map snd (filter (\<lambda>(q, r). q = repo \<and>
       (status = None \<or> status = Some (req_status r)) \<and> (wid = None \<or> req_workflow r = wid))
       (approval_requests db)))"

text \<open>
  \<open>insert_approval_requests\<close>: the records it builds are validated by pydantic, which refuses a bad
  reviewer policy and a digest that is not lower-case hexadecimal.
\<close>

definition insert_approval_request :: "string \<Rightarrow> uuid \<Rightarrow> int \<Rightarrow> time \<Rightarrow> approval_draft \<Rightarrow> 'z permission_db_scheme \<Rightarrow>
    exn + 'z permission_db_scheme" where
  "insert_approval_request repo wid wrev created d db =
     (if length (operation_digest d) \<noteq> 64
      then Inl (ValueError ''workflow approval operation_digest must be a SHA-256 digest'')
      else if \<not> valid_reviewer_policy (required_reviewers d) (approval_policy d) \<or>
        \<not> valid_digest (operation_digest d) then Inl ValidationError
      else
        let did = UUID5 namespace_url (''murder:approval-policy:'' @ uuid_text wid @ '':'' @ int_text wrev @
              '':'' @ uuid_text (approval_id d))
        in
        bindE (save_decision repo \<lparr>decision_id = did, decided_operation = approval_id d,
            decided_digest = operation_digest d,
            decision_outcome = RequireApprovalDecision (approval_summary d) (required_reviewers d) (approval_policy d),
            policy_id = ''workflow.transition.v1'', decided_at = created\<rparr> db)
          (save_approval_request repo \<lparr>req_id = approval_id d, req_policy_decision = did,
            req_digest = operation_digest d, req_status = ApPending, req_reviewers = required_reviewers d,
            req_policy = approval_policy d, req_scope = draft_scope d, requested_at = created,
            req_by = requested_by d, req_workflow = Some wid, req_workflow_revision = Some wrev,
            req_description = approval_summary d, req_payload = DraftPayload d\<rparr>))"

definition insert_approval_requests :: "string \<Rightarrow> uuid \<Rightarrow> int \<Rightarrow> approval_draft list \<Rightarrow> time \<Rightarrow>
    'z permission_db_scheme \<Rightarrow> exn + 'z permission_db_scheme" where
  "insert_approval_requests repo wid wrev drafts created db =
     foldE (insert_approval_request repo wid wrev created) drafts db"

section \<open>Grants\<close>

definition principal_json :: "principal \<Rightarrow> json" where
  "principal_json p = JObj [(''kind'', JStr (principal_kind_value (principal_kind p))),
     (''id'', JStr (principal_id p))]"

text \<open>Pydantic's JSON text of an instant.\<close>

definition json_time :: "time \<Rightarrow> json" where
  "json_time t = JStr (iso_seconds t @
     (if t mod 1000000 = 0 then [] else ''.'' @ pad_left 6 (nat_text (nat (t mod 1000000)))) @ ''Z'')"

definition scope_json :: "grant_scope \<Rightarrow> json" where
  "scope_json s =
     (let ids = \<lambda>us. JList (map (\<lambda>u. JStr (uuid_text u)) us); strs = \<lambda>xs. JList (map JStr xs) in
      JObj [(''repository_ids'', ids (scope_repositories s)), (''workflow_ids'', ids (scope_workflows s)),
        (''activity_ids'', ids (scope_activities s)), (''session_ids'', ids (scope_sessions s)),
        (''operation_types'', strs (scope_operation_types s)), (''path_prefixes'', strs (scope_paths s)),
        (''destinations'', strs (scope_destinations s)), (''max_uses'', JInt (max_uses s)),
        (''expires_at'', json_time (scope_expires_at s))])"

definition grant_ref :: "uuid \<Rightarrow> int option \<Rightarrow> aggregate_ref" where
  "grant_ref gid rn = \<lparr>aggregate_kind = ''permission_grant'', aggregate_id = gid, aggregate_revision = rn\<rparr>"

definition grant_issued_fact :: "permission_grant \<Rightarrow> fact_draft" where
  "grant_issued_fact g = simple_fact (grant_id g) (issued_at g) (grant_ref (grant_id g) None)
     (fact_actor (issued_by g)) (grant_decision g)
     (PrivateFactPayload ''permission.grant.issued''
        [(''grant_id'', JStr (uuid_text (grant_id g))), (''approval_id'', json_uuid (grant_approval g)),
         (''operation_digest'', JStr (grant_digest g)), (''issued_to'', principal_json (issued_to g)),
         (''scope'', scope_json (grant_scope g))])"

definition grant_revoked_fact :: "permission_grant \<Rightarrow> uuid \<Rightarrow> time \<Rightarrow> string \<Rightarrow> fact_draft" where
  "grant_revoked_fact g gid at why = simple_fact
     (UUID5 namespace_url (''murder:permission-grant-revoked:'' @ uuid_text gid)) at (grant_ref gid None)
     \<lparr>actor_kind = ''service'', actor_id = ''murder.permission-policy''\<rparr> (grant_decision g)
     (PrivateFactPayload ''permission.grant.revoked'' [(''grant_id'', JStr (uuid_text gid)),
        (''reason'', JStr why), (''uses'', JInt (int (grant_uses g)))])"

definition grant_used_fact :: "permission_grant \<Rightarrow> authorization \<Rightarrow> time \<Rightarrow> fact_draft" where
  "grant_used_fact g a enforced = simple_fact (authorization_id a) enforced
     (grant_ref (auth_grant a) (Some (int (grant_uses g) + 1))) (fact_actor (auth_subject a)) (authorization_id a)
     (PrivateFactPayload ''permission.grant.used''
        [(''grant_id'', JStr (uuid_text (auth_grant a))),
         (''authorization_id'', JStr (uuid_text (authorization_id a))),
         (''operation_id'', JStr (uuid_text (auth_operation a))),
         (''operation_digest'', JStr (auth_digest a)), (''use_number'', JInt (int (grant_uses g) + 1))])"

definition save_grant :: "string \<Rightarrow> permission_grant \<Rightarrow> 'z permission_db_scheme \<Rightarrow> exn + 'z permission_db_scheme" where
  "save_grant repo g db =
     (if list_ex (\<lambda>(_, q). grant_id q = grant_id g) (permission_grants db) then Inl IntegrityError
      else append_permission_fact repo (grant_issued_fact g)
        ''permissions'' (uuid_text (grant_id g)) 0 (issued_at g)
        (db\<lparr>permission_grants := permission_grants db @ [(repo, g)]\<rparr>))"

definition grant_use_count :: "string \<Rightarrow> uuid \<Rightarrow> 'z permission_db_scheme \<Rightarrow> nat" where
  "grant_use_count repo gid db =
     count_where (\<lambda>(q, a, _). q = repo \<and> auth_grant a = gid) (authorization_uses db)"

definition revocation_of :: "string \<Rightarrow> uuid \<Rightarrow> 'z permission_db_scheme \<Rightarrow> (time \<times> string) option" where
  "revocation_of repo gid db = map_option (\<lambda>(_, _, at, why). (at, why))
     (find (\<lambda>(q, g, _). q = repo \<and> g = gid) (grant_revocations db))"

definition get_grant :: "string \<Rightarrow> uuid \<Rightarrow> 'z permission_db_scheme \<Rightarrow> permission_grant option" where
  "get_grant repo gid db = map_option (\<lambda>(_, g).
       let g = g\<lparr>grant_uses := grant_use_count repo gid db\<rparr> in
       case revocation_of repo gid db of None \<Rightarrow> g
       | Some (at, why) \<Rightarrow> g\<lparr>revoked_at := Some at, revocation_reason := Some why\<rparr>)
     (find (\<lambda>(q, g). q = repo \<and> grant_id g = gid) (permission_grants db))"

definition list_grants :: "string \<Rightarrow> 'z permission_db_scheme \<Rightarrow> permission_grant list" where
  "list_grants repo db = List.map_filter (\<lambda>gid. get_grant repo gid db)
     (map grant_id (sort_key (\<lambda>g. (issued_at g, grant_id g))
       (map snd (filter (\<lambda>(q, _). q = repo) (permission_grants db)))))"

definition grant_is_revoked :: "string \<Rightarrow> uuid \<Rightarrow> 'z permission_db_scheme \<Rightarrow> bool" where
  "grant_is_revoked repo gid db = list_ex (\<lambda>(q, g, _). q = repo \<and> g = gid) (grant_revocations db)"

definition revoke_grant :: "string \<Rightarrow> uuid \<Rightarrow> time \<Rightarrow> string \<Rightarrow> 'z permission_db_scheme \<Rightarrow>
    exn + 'z permission_db_scheme" where
  "revoke_grant repo gid at why db =
     (case get_grant repo gid db of
        None \<Rightarrow> Inl (ValueError ''permission grant does not exist'')
      | Some g \<Rightarrow>
        if list_ex (\<lambda>(_, q, _). q = gid) (grant_revocations db) then Inr db
        else append_permission_fact repo (grant_revoked_fact g gid at why)
          ''permissions'' (uuid_text gid) (int (grant_uses g) + 1) at
          (db\<lparr>grant_revocations := grant_revocations db @ [(repo, gid, at, why)]\<rparr>))"

definition record_use :: "string \<Rightarrow> authorization \<Rightarrow> time \<Rightarrow> 'z permission_db_scheme \<Rightarrow>
    exn + bool \<times> 'z permission_db_scheme" where
  "record_use repo a enforced db =
     (case get_grant repo (auth_grant a) db of
        None \<Rightarrow> Inl (GrantConsumptionError ''authorization grant does not exist'')
      | Some g \<Rightarrow>
        if revoked_at g \<noteq> None then Inl (GrantConsumptionError ''authorization grant was revoked'')
        else if max_uses (grant_scope g) \<le> int (grant_uses g)
        then Inl (GrantConsumptionError ''authorization grant use limit was reached'')
        else if list_ex (\<lambda>(_, b, _). authorization_id b = authorization_id a) (authorization_uses db)
        then Inr (False, db)
        else
          bindE (append_permission_fact repo (grant_used_fact g a enforced)
            ''permissions'' (uuid_text (auth_grant a)) (int (grant_uses g) + 1) enforced
            (db\<lparr>authorization_uses := authorization_uses db @ [(repo, a, enforced)]\<rparr>))
          (\<lambda>db. Inr (True, db)))"

definition save_safety_review :: "string \<Rightarrow> safety_review \<Rightarrow> 'z permission_db_scheme \<Rightarrow> exn + 'z permission_db_scheme" where
  "save_safety_review repo v db =
     (if list_ex (\<lambda>(_, w). safety_id w = safety_id v) (safety_reviews db) then Inl IntegrityError
      else Inr (db\<lparr>safety_reviews := safety_reviews db @ [(repo, v)]\<rparr>))"

section \<open>What each operation leaves alone\<close>

lemma permission_tables_cong:
  assumes "fact_db.more db' = fact_db.more (db :: 'z permission_db_scheme)"
  shows "policy_decisions db' = policy_decisions db" "approval_requests db' = approval_requests db"
    "approval_evidences db' = approval_evidences db" "permission_grants db' = permission_grants db"
    "authorization_uses db' = authorization_uses db" "grant_revocations db' = grant_revocations db"
    "permission_db.more db' = permission_db.more db" "safety_reviews db' = safety_reviews db"
  using assms by (cases db; cases db'; simp)+

lemma facts_only_permission:
  assumes "append_permission_fact repo draft proj key gen ts db = Inr db'"
  shows "facts_only db db'"
  using assms by (auto simp: append_permission_fact_def intro: facts_only_trans facts_only_append facts_only_uuid4
      split: prod.splits)

lemmas permission_fact_tables = permission_tables_cong [OF facts_only_more [OF facts_only_permission]]

section \<open>Grants are used within their limits\<close>

definition grant_inv :: "'z permission_db_scheme \<Rightarrow> bool" where
  "grant_inv db \<longleftrightarrow> distinct (map (\<lambda>(_, g). grant_id g) (permission_grants db)) \<and>
     (\<forall>(q, a, _) \<in> set (authorization_uses db). \<exists>g. (q, g) \<in> set (permission_grants db) \<and> grant_id g = auth_grant a) \<and>
     (\<forall>(q, g) \<in> set (permission_grants db). int (grant_use_count q (grant_id g) db) \<le> max_uses (grant_scope g))"

lemma grant_inv_frame:
  "grant_inv db \<Longrightarrow> permission_grants db' = permission_grants db \<Longrightarrow> authorization_uses db' = authorization_uses db \<Longrightarrow>
     grant_inv db'"
  by (simp add: grant_inv_def grant_use_count_def)

text \<open>
  A step of the store: one operation of \<open>PermissionStore\<close> that succeeds, or any other statement, which leaves grants,
  uses and revocations alone (\<open>elsewhere\<close>: drawing an identifier, closing the request an approval resolves).
  Resolving an approval or issuing a grant for a decision is a sequence of such steps.
\<close>

inductive permission_step :: "'z permission_db_scheme \<Rightarrow> 'z permission_db_scheme \<Rightarrow> bool" where
  decision: "save_decision repo d db = Inr db' \<Longrightarrow> permission_step db db'"
| approval: "save_approval repo e db = Inr db' \<Longrightarrow> permission_step db db'"
| request: "save_approval_request repo r db = Inr db' \<Longrightarrow> permission_step db db'"
| grant: "save_grant repo g db = Inr db' \<Longrightarrow> 1 \<le> max_uses (grant_scope g) \<Longrightarrow> permission_step db db'"
| revoke: "revoke_grant repo gid at why db = Inr db' \<Longrightarrow> permission_step db db'"
| use: "record_use repo a enforced db = Inr (b, db') \<Longrightarrow> permission_step db db'"
| safety: "save_safety_review repo v db = Inr db' \<Longrightarrow> permission_step db db'"
| elsewhere: "permission_grants db' = permission_grants db \<Longrightarrow> authorization_uses db' = authorization_uses db \<Longrightarrow>
    grant_revocations db' = grant_revocations db \<Longrightarrow> permission_step db db'"

lemma record_useE:
  assumes "record_use repo a enforced db = Inr (b, db')"
  obtains (repeated) "\<not> b" "db' = db" "\<exists>(_, c, _) \<in> set (authorization_uses db). authorization_id c = authorization_id a"
  | (used) g where "b" "(repo, g) \<in> set (permission_grants db)" "grant_id g = auth_grant a"
      "\<not> grant_is_revoked repo (auth_grant a) db"
      "int (grant_use_count repo (auth_grant a) db) < max_uses (grant_scope g)"
      "authorization_uses db' = authorization_uses db @ [(repo, a, enforced)]"
      "permission_grants db' = permission_grants db" "grant_revocations db' = grant_revocations db"
      "permission_db.more db' = permission_db.more db"
proof -
  obtain g where g: "get_grant repo (auth_grant a) db = Some g" "revoked_at g = None"
    "int (grant_uses g) < max_uses (grant_scope g)"
    using assms by (auto simp: record_use_def split: option.splits if_splits)
  from g(1) obtain q h where h0: "find (\<lambda>(q, g). q = repo \<and> grant_id g = auth_grant a) (permission_grants db) = Some (q, h)"
    and gh: "g = (let g = h\<lparr>grant_uses := grant_use_count repo (auth_grant a) db\<rparr> in
      case revocation_of repo (auth_grant a) db of None \<Rightarrow> g
      | Some (at, why) \<Rightarrow> g\<lparr>revoked_at := Some at, revocation_reason := Some why\<rparr>)"
    by (auto simp: get_grant_def)
  have "revocation_of repo (auth_grant a) db = None"
    using gh g(2) by (cases "revocation_of repo (auth_grant a) db") (auto simp: Let_def)
  moreover from this gh have "grant_uses g = grant_use_count repo (auth_grant a) db" "grant_scope g = grant_scope h"
    by (simp_all add: Let_def)
  moreover have "q = repo" using h0 by (auto dest: find_Some_mem)
  ultimately have h: "find (\<lambda>(q, g). q = repo \<and> grant_id g = auth_grant a) (permission_grants db) = Some (repo, h)"
    "revocation_of repo (auth_grant a) db = None"
    "grant_uses g = grant_use_count repo (auth_grant a) db" "grant_scope g = grant_scope h"
    using h0 by simp_all
  then have mem: "(repo, h) \<in> set (permission_grants db)" "grant_id h = auth_grant a"
    by (auto dest: find_Some_mem)
  have live: "\<not> grant_is_revoked repo (auth_grant a) db"
    using h(2) by (auto simp: revocation_of_def grant_is_revoked_def list_ex_iff find_eq_None)
  show thesis
  proof (cases "list_ex (\<lambda>(_, b, _). authorization_id b = authorization_id a) (authorization_uses db)")
    case True
    with assms g show thesis
      by (intro repeated) (auto simp: record_use_def list_ex_iff split: if_splits)
  next
    case False
    with assms g have b: "b" and
      app: "append_permission_fact repo (grant_used_fact g a enforced) ''permissions'' (uuid_text (auth_grant a))
        (int (grant_uses g) + 1) enforced
        (db\<lparr>authorization_uses := authorization_uses db @ [(repo, a, enforced)]\<rparr>) = Inr db'"
      by (auto simp: record_use_def result_simps split: if_splits)
    from permission_fact_tables [OF app] b mem live g(3) h(3,4) show thesis
      by (intro used [of h]) simp_all
  qed
qed

lemma grant_use_count_snoc:
  "authorization_uses db' = authorization_uses db @ [(repo, a, t)] \<Longrightarrow>
     grant_use_count q gid db' = grant_use_count q gid db + (if q = repo \<and> auth_grant a = gid then 1 else 0)"
  by (simp add: grant_use_count_def count_where_def)

lemma save_grantE:
  assumes "save_grant repo g db = Inr db'"
  shows "permission_grants db' = permission_grants db @ [(repo, g)]" "authorization_uses db' = authorization_uses db"
    "grant_revocations db' = grant_revocations db" "\<forall>(_, h) \<in> set (permission_grants db). grant_id h \<noteq> grant_id g"
proof -
  have ids: "\<forall>(_, h) \<in> set (permission_grants db). grant_id h \<noteq> grant_id g"
    using assms by (auto simp: save_grant_def list_ex_iff split: if_splits)
  have app: "append_permission_fact repo (grant_issued_fact g) ''permissions'' (uuid_text (grant_id g)) 0
      (issued_at g) (db\<lparr>permission_grants := permission_grants db @ [(repo, g)]\<rparr>) = Inr db'"
    using assms by (simp add: save_grant_def split: if_splits)
  from ids permission_fact_tables [OF app] show "permission_grants db' = permission_grants db @ [(repo, g)]"
    "authorization_uses db' = authorization_uses db" "grant_revocations db' = grant_revocations db"
    "\<forall>(_, h) \<in> set (permission_grants db). grant_id h \<noteq> grant_id g" by simp_all
qed

lemma revoke_grantE:
  assumes "revoke_grant repo gid at why db = Inr db'"
  shows "permission_grants db' = permission_grants db" "authorization_uses db' = authorization_uses db"
    "set (grant_revocations db) \<subseteq> set (grant_revocations db')"
proof -
  obtain g where g: "get_grant repo gid db = Some g" using assms by (auto simp: revoke_grant_def split: option.splits)
  have "permission_grants db' = permission_grants db \<and> authorization_uses db' = authorization_uses db \<and>
      set (grant_revocations db) \<subseteq> set (grant_revocations db')"
  proof (cases "list_ex (\<lambda>(_, q, _). q = gid) (grant_revocations db)")
    case True
    with assms g show ?thesis by (simp add: revoke_grant_def)
  next
    case False
    with assms g have "append_permission_fact repo (grant_revoked_fact g gid at why) ''permissions'' (uuid_text gid)
        (int (grant_uses g) + 1) at (db\<lparr>grant_revocations := grant_revocations db @ [(repo, gid, at, why)]\<rparr>) = Inr db'"
      by (simp add: revoke_grant_def)
    from permission_fact_tables [OF this] show ?thesis by auto
  qed
  then show "permission_grants db' = permission_grants db" "authorization_uses db' = authorization_uses db"
    "set (grant_revocations db) \<subseteq> set (grant_revocations db')" by simp_all
qed

lemma save_approval_requestE:
  assumes "save_approval_request repo r db = Inr db'"
  shows "approval_requests db' = approval_requests db @ [(repo, r)]" "policy_decisions db' = policy_decisions db"
    "approval_evidences db' = approval_evidences db" "permission_grants db' = permission_grants db"
    "authorization_uses db' = authorization_uses db" "grant_revocations db' = grant_revocations db"
    "permission_db.more db' = permission_db.more db"
proof -
  have app: "append_permission_fact repo (approval_requested_fact r) ''approvals'' (uuid_text (req_id r))
      (case req_workflow_revision r of None \<Rightarrow> 0 | Some n \<Rightarrow> n) (requested_at r)
      (db\<lparr>approval_requests := approval_requests db @ [(repo, r)]\<rparr>) = Inr db'"
    using assms by (simp add: save_approval_request_def split: if_splits)
  from permission_fact_tables [OF app] show "approval_requests db' = approval_requests db @ [(repo, r)]"
    "policy_decisions db' = policy_decisions db" "approval_evidences db' = approval_evidences db"
    "permission_grants db' = permission_grants db" "authorization_uses db' = authorization_uses db"
    "grant_revocations db' = grant_revocations db" "permission_db.more db' = permission_db.more db"
    by simp_all
qed

text \<open>What a permission operation must not touch: the tables of the features above.\<close>

lemma insert_approval_request_more:
  assumes "insert_approval_request repo wid wrev created d db = Inr db'"
  shows "permission_db.more db' = permission_db.more db"
  using assms
  by (auto simp: insert_approval_request_def save_decision_def result_simps Let_def split: if_splits
      dest!: save_approval_requestE(7))

lemma insert_approval_requests_more:
  assumes "insert_approval_requests repo wid wrev ds created db = Inr db'"
  shows "permission_db.more db' = permission_db.more db"
  using assms unfolding insert_approval_requests_def
  by (rule foldE_frame) (rule insert_approval_request_more)

lemma permission_step_inv:
  "permission_step db db' \<Longrightarrow> grant_inv db \<Longrightarrow> grant_inv db'"
proof (induction rule: permission_step.induct)
  case (decision repo d db db')
  then show ?case by (auto simp: save_decision_def split: if_splits elim!: grant_inv_frame)
next
  case (approval repo e db db')
  then show ?case by (auto simp: save_approval_def split: if_splits elim!: grant_inv_frame)
next
  case (request repo r db db')
  from request.prems save_approval_requestE(4,5) [OF request.hyps] show ?case by (rule grant_inv_frame)
next
  case (grant repo g db db')
  note tables = save_grantE [OF grant.hyps(1)]
  have "grant_use_count repo (grant_id g) db = 0"
    using grant.prems tables(4) by (fastforce simp: grant_use_count_def count_where_0 grant_inv_def)
  moreover have "grant_use_count q gid db' = grant_use_count q gid db" for q gid
    by (simp add: grant_use_count_def tables(2))
  ultimately show ?case
    using grant.prems grant.hyps(2) tables by (fastforce simp: grant_inv_def)
next
  case (revoke repo gid at why db db')
  from revoke.prems revoke_grantE(1,2) [OF revoke.hyps] show ?case by (rule grant_inv_frame)
next
  case (use repo a enforced db b db')
  from use.hyps show ?case
  proof (cases rule: record_useE)
    case repeated
    with use.prems show ?thesis by simp
  next
    case (used g)
    have dist: "distinct (map (\<lambda>(_, g). grant_id g) (permission_grants db))" using use.prems by (simp add: grant_inv_def)
    have "int (grant_use_count q (grant_id h) db') \<le> max_uses (grant_scope h)"
      if "(q, h) \<in> set (permission_grants db)" for q h
    proof (cases "q = repo \<and> auth_grant a = grant_id h")
      case True
      then have "(q, h) = (repo, g)"
        using distinct_key_eq [OF dist that used(2)] used(3) by simp
      with used(5) True show ?thesis by (simp add: grant_use_count_snoc [OF used(6)])
    next
      case False
      with that use.prems show ?thesis by (auto simp: grant_use_count_snoc [OF used(6)] grant_inv_def)
    qed
    with used use.prems show ?thesis by (fastforce simp: grant_inv_def)
  qed
next
  case (safety repo v db db')
  then show ?case by (auto simp: save_safety_review_def split: if_splits elim!: grant_inv_frame)
next
  case (elsewhere db' db)
  then show ?case by (auto elim!: grant_inv_frame)
qed

lemma revoked_stays:
  "permission_step db db' \<Longrightarrow> grant_is_revoked repo gid db \<Longrightarrow>
     grant_is_revoked repo gid db' \<and> grant_use_count repo gid db' = grant_use_count repo gid db"
proof (induction rule: permission_step.induct)
  case (decision repo d db db')
  then show ?case by (auto simp: save_decision_def grant_is_revoked_def grant_use_count_def split: if_splits)
next
  case (approval repo e db db')
  then show ?case by (auto simp: save_approval_def grant_is_revoked_def grant_use_count_def split: if_splits)
next
  case (request repo r db db')
  then show ?case using save_approval_requestE(5,6) [OF request.hyps]
    by (simp add: grant_is_revoked_def grant_use_count_def)
next
  case (grant repo g db db')
  then show ?case using save_grantE [OF grant.hyps(1)] by (simp add: grant_is_revoked_def grant_use_count_def)
next
  case (revoke r g at why db db')
  then show ?case using revoke_grantE [OF revoke.hyps]
    by (auto simp: grant_is_revoked_def grant_use_count_def list_ex_iff)
next
  case (use r a enforced db b db')
  from use.hyps show ?case
  proof (cases rule: record_useE)
    case repeated
    with use.prems show ?thesis by simp
  next
    case (used g)
    with use.prems show ?thesis
      by (auto simp: grant_use_count_snoc [OF used(6)] grant_is_revoked_def list_ex_iff)
  qed
next
  case (safety r v db db')
  then show ?case by (auto simp: save_safety_review_def grant_is_revoked_def grant_use_count_def split: if_splits)
next
  case (elsewhere db' db)
  then show ?case by (simp add: grant_is_revoked_def grant_use_count_def)
qed

lemma uses_grow: "permission_step db db' \<Longrightarrow> set (authorization_uses db) \<subseteq> set (authorization_uses db')"
proof (induction rule: permission_step.induct)
  case (request repo r db db')
  then show ?case using save_approval_requestE(5) [OF request.hyps] by simp
next
  case (grant repo g db db')
  then show ?case using save_grantE(2) [OF grant.hyps(1)] by simp
next
  case (revoke repo gid at why db db')
  then show ?case using revoke_grantE(2) [OF revoke.hyps] by simp
next
  case (use repo a enforced db b db')
  then show ?case by (auto elim: record_useE)
qed (auto simp: save_decision_def save_approval_def save_safety_review_def split: if_splits)

lemma append_permission_factI:
  assumes "\<forall>r \<in> set (retained_facts db). fact_id r \<noteq> fact_id draft"
  shows "\<exists>db'. append_permission_fact repo draft proj key gen ts db = Inr db'"
proof -
  obtain iid db1 where d: "uuid4 db = (iid, db1)" by fastforce
  with assms have "\<forall>r \<in> set (retained_facts db1). fact_id r \<noteq> fact_id draft" by (simp add: frame_simps)
  from append_fact_dbI_new [OF this] d show ?thesis by (simp add: append_permission_fact_def)
qed

section \<open>Properties\<close>

definition sample_scope :: grant_scope where
  "sample_scope = \<lparr>scope_repositories = [], scope_workflows = [], scope_activities = [], scope_sessions = [],
     scope_operation_types = [''tool.invoke''], scope_paths = [], scope_destinations = [], max_uses = 1,
     scope_expires_at = 100\<rparr>"

definition sample_grant :: permission_grant where
  "sample_grant = \<lparr>grant_id = UUID 5, grant_digest = replicate 64 (CHR ''0''),
     issued_to = \<lparr>principal_kind = WORKFLOW, principal_id = ''w''\<rparr>,
     issued_by = \<lparr>principal_kind = USER, principal_id = ''u''\<rparr>, grant_scope = sample_scope, issued_at = 0,
     grant_approval = None, grant_decision = UUID 6, revoked_at = None, revocation_reason = None, grant_uses = 0\<rparr>"

definition sample_use :: "nat \<Rightarrow> authorization" where
  "sample_use n = \<lparr>authorization_id = UUID n, auth_grant = UUID 5, auth_operation = UUID 8,
     auth_type = ''tool.invoke'', auth_digest = replicate 64 (CHR ''0''),
     auth_subject = \<lparr>principal_kind = WORKFLOW, principal_id = ''w''\<rparr>, auth_issued_at = 0,
     auth_expires_at = 100, auth_fence = None\<rparr>"

definition sample_permission_db :: permission_db where
  "sample_permission_db = fact_db.extend empty_fact_db (permission_db.fields [] [] [] [(''r'', sample_grant)] [] [] [])"

lemmas sample_permission_simps = sample_permission_db_def sample_grant_def sample_scope_def sample_use_def
  fact_db.defs permission_db.defs empty_fact_db_def

text \<open>
  C21: over any sequence of operations of the permission store, whatever else is written in between, no grant is ever
  used more often than its scope allows, and a grant that was revoked is never used again.
\<close>

theorem grant_limits_hold:
  assumes "permission_step\<^sup>*\<^sup>* db db'" and "grant_inv db"
  shows "(\<forall>(q, g) \<in> set (permission_grants db'). int (grant_use_count q (grant_id g) db') \<le> max_uses (grant_scope g)) \<and>
    (\<forall>repo gid. grant_is_revoked repo gid db \<longrightarrow>
       grant_is_revoked repo gid db' \<and> grant_use_count repo gid db' = grant_use_count repo gid db)"
proof -
  from assms have "grant_inv db' \<and> (\<forall>repo gid. grant_is_revoked repo gid db \<longrightarrow>
      grant_is_revoked repo gid db' \<and> grant_use_count repo gid db' = grant_use_count repo gid db)"
  proof (induction rule: rtranclp_induct)
    case base
    then show ?case by simp
  next
    case (step b c)
    then show ?case using permission_step_inv [OF step.hyps(2)] revoked_stays [OF step.hyps(2)] by auto
  qed
  then show ?thesis by (auto simp: grant_inv_def)
qed

text \<open>what recording a use decides. It succeeds as a new use only for an existing grant that is not
  revoked and has a use left, and then adds exactly one use of that grant; a repeated authorization id
  is reported as such and changes nothing; every other call is refused.
\<close>

theorem record_use_exact:
  assumes "record_use repo a enforced db = Inr (b, db')"
  shows "(b \<longrightarrow> (\<exists>g. (repo, g) \<in> set (permission_grants db) \<and> grant_id g = auth_grant a \<and>
        \<not> grant_is_revoked repo (auth_grant a) db \<and>
        int (grant_use_count repo (auth_grant a) db) < max_uses (grant_scope g)) \<and>
      grant_use_count repo (auth_grant a) db' = Suc (grant_use_count repo (auth_grant a) db) \<and>
      (\<forall>gid. gid \<noteq> auth_grant a \<longrightarrow> grant_use_count repo gid db' = grant_use_count repo gid db)) \<and>
    (\<not> b \<longrightarrow> db' = db \<and> (\<exists>(_, c, _) \<in> set (authorization_uses db). authorization_id c = authorization_id a))"
  using assms
proof (cases rule: record_useE)
  case repeated
  then show ?thesis by simp
next
  case (used g)
  then show ?thesis by (auto simp: grant_use_count_snoc [OF used(6)])
qed

lemma sample_use_recorded: "\<exists>db'. record_use ''r'' (sample_use 21) 3 sample_permission_db = Inr (True, db')"
proof -
  let ?db = "sample_permission_db\<lparr>authorization_uses := [(''r'', sample_use 21, 3)]\<rparr>"
  let ?g = "sample_grant\<lparr>grant_uses := 0\<rparr>"
  have g: "get_grant ''r'' (UUID 5) sample_permission_db = Some ?g"
    by (simp add: get_grant_def revocation_of_def grant_use_count_def count_where_def sample_permission_simps)
  have "\<forall>r \<in> set (retained_facts ?db). fact_id r \<noteq> fact_id (grant_used_fact ?g (sample_use 21) 3)"
    by (simp add: sample_permission_simps)
  from append_permission_factI [OF this] obtain db' where
    "append_permission_fact ''r'' (grant_used_fact ?g (sample_use 21) 3) ''permissions'' (uuid_text (UUID 5)) 1 3 ?db = Inr db'"
    by blast
  moreover have "auth_grant (sample_use 21) = UUID 5" "authorization_uses sample_permission_db = []"
    "revoked_at ?g = None" "grant_uses ?g = 0" "max_uses (grant_scope ?g) = 1"
    by (simp_all add: sample_permission_simps)
  ultimately show ?thesis using g by (simp add: record_use_def)
qed

lemma sample_grant_inv: "grant_inv sample_permission_db"
  by (simp add: grant_inv_def sample_permission_simps grant_use_count_def count_where_def)

theorem grant_limits_hold_witness:
  "\<exists>db'. permission_step sample_permission_db db' \<and> grant_use_count ''r'' (UUID 5) db' = 1 \<and>
     (\<forall>(q, g) \<in> set (permission_grants db'). int (grant_use_count q (grant_id g) db') \<le> max_uses (grant_scope g))"
proof -
  obtain db' where run: "record_use ''r'' (sample_use 21) 3 sample_permission_db = Inr (True, db')"
    using sample_use_recorded by blast
  then have step: "permission_step sample_permission_db db'" by (rule permission_step.use)
  from run have "grant_use_count ''r'' (UUID 5) db' = 1"
  proof (cases rule: record_useE)
    case (used g)
    then show ?thesis by (simp add: grant_use_count_def count_where_def sample_permission_simps)
  qed simp
  with step grant_limits_hold [OF r_into_rtranclp [of permission_step, OF step] sample_grant_inv] show ?thesis by blast
qed

theorem record_use_exact_witness:
  "\<exists>db'. record_use ''r'' (sample_use 21) 3 sample_permission_db = Inr (True, db') \<and>
     grant_use_count ''r'' (UUID 5) db' = 1"
proof -
  obtain db' where run: "record_use ''r'' (sample_use 21) 3 sample_permission_db = Inr (True, db')"
    using sample_use_recorded by blast
  with record_use_exact [OF run] show ?thesis
    by (simp add: grant_use_count_def count_where_def sample_permission_simps)
qed

end
