(* ===== verification/WorkflowStore.thy ===== *)
theory WorkflowStore
  imports Permissions
begin

text \<open>
  Runs, waits and signals at rest, \<open>murder/state/persistence/workflow_runs.py\<close>: creating and looking up
  runs, the addressed inbox with its deduplication, which waits a signal satisfies, decision inputs,
  state migrations, and the facts they record. (Applying a transition plan also inserts activities
  and is in \<open>WorkflowRuns\<close>.)

  A row is the record it stores with the repository it belongs to. The primary keys and the UNIQUE and
  foreign-key constraints an insert can violate are checked; rows inserted under a freshly drawn \<open>uuid4()\<close> cannot
  violate one. The reference of a run to its parent ticket is not checked, tickets are not a table of
  this model.

  The payload of an external signal is stored as JSON with sorted keys and compared as a Python dict, which has no order;
  here it is an association list, and a producer is taken to give the fields of a payload in one order.
  The three reads of \<open>load_workflow_decision_input\<close> (run, waits, signals) see one state here; in the
  code each is a statement of its own, and the revision check of the plan that follows is what guards the run.
\<close>

section \<open>Tables\<close>

record run_row = workflow_run + run_repository :: string
record wait_row = workflow_wait + wait_repository :: string
record signal_row = workflow_signal + signal_repository :: string
record migration_row = workflow_state_migration + migration_repository :: string

record workflow_db = permission_db +
  workflow_runs :: "run_row list"
  workflow_waits :: "wait_row list"
  workflow_signals :: "signal_row list"
  state_migrations :: "migration_row list"

definition run_record :: "run_row \<Rightarrow> workflow_run" where
  "run_record r = workflow_run.truncate r"

definition wait_record :: "wait_row \<Rightarrow> workflow_wait" where
  "wait_record r = workflow_wait.truncate r"

definition signal_record :: "signal_row \<Rightarrow> workflow_signal" where
  "signal_record r = workflow_signal.truncate r"

definition run_row_of :: "string \<Rightarrow> workflow_run \<Rightarrow> run_row" where
  "run_row_of repo r = workflow_run.extend r (run_row.fields repo)"

lemma run_row_of_sel [simp]:
  "workflow_id (run_row_of repo r) = workflow_id r" "run_status (run_row_of repo r) = run_status r"
  "revision (run_row_of repo r) = revision r" "run_repository (run_row_of repo r) = repo"
  "parent_ticket_id (run_row_of repo r) = parent_ticket_id r" "run_state (run_row_of repo r) = run_state r"
  by (simp_all add: run_row_of_def workflow_run.defs run_row.defs)

lemma run_record_sel [simp]:
  "workflow_id (run_record r) = workflow_id r" "run_status (run_record r) = run_status r"
  "revision (run_record r) = revision r" "run_state (run_record r) = run_state r"
  "started_by (run_record r) = started_by r" "run_correlation (run_record r) = run_correlation r"
  by (simp_all add: run_record_def workflow_run.defs)

lemma wait_record_sel [simp]:
  "wait_id (wait_record w) = wait_id w" "wait_spec (wait_record w) = wait_spec w"
  "satisfied_at (wait_record w) = satisfied_at w"
  by (simp_all add: wait_record_def workflow_wait.defs)

lemma signal_record_sel [simp]:
  "signal_id (signal_record g) = signal_id g" "signal_payload (signal_record g) = signal_payload g"
  "consumed_at (signal_record g) = consumed_at g" "deduplication_key (signal_record g) = deduplication_key g"
  by (simp_all add: signal_record_def workflow_signal.defs)

section \<open>Look-ups\<close>

text \<open>The key is a run's UUID or the id of its parent ticket; the query compares texts.\<close>

definition run_row_named :: "string \<Rightarrow> uuid \<Rightarrow> run_row \<Rightarrow> bool" where
  "run_row_named repo key r \<longleftrightarrow> run_repository r = repo \<and>
     (workflow_id r = key \<or> parent_ticket_id r = Some (uuid_text key))"

definition get_workflow_run :: "string \<Rightarrow> uuid \<Rightarrow> 'z workflow_db_scheme \<Rightarrow> workflow_run option" where
  "get_workflow_run repo key db = map_option run_record (find (run_row_named repo key) (workflow_runs db))"

definition get_workflow_run_of_ticket :: "string \<Rightarrow> string \<Rightarrow> 'z workflow_db_scheme \<Rightarrow> workflow_run option" where
  "get_workflow_run_of_ticket repo key db =
     map_option run_record (find (\<lambda>r. run_repository r = repo \<and>
       (uuid_text (workflow_id r) = key \<or> parent_ticket_id r = Some key)) (workflow_runs db))"

definition require_workflow_run :: "string \<Rightarrow> uuid \<Rightarrow> 'z workflow_db_scheme \<Rightarrow> exn + workflow_run" where
  "require_workflow_run repo wid db = (case get_workflow_run repo wid db of
     None \<Rightarrow> Inl (WorkflowNotFoundError wid) | Some run \<Rightarrow> Inr run)"

definition list_workflow_runs :: "string \<Rightarrow> 'z workflow_db_scheme \<Rightarrow> workflow_run list" where
  "list_workflow_runs repo db = map run_record (sort_key (\<lambda>r. (run_created_at r, workflow_id r))
     (filter (\<lambda>r. run_repository r = repo) (workflow_runs db)))"

definition waits_of :: "string \<Rightarrow> uuid \<Rightarrow> wait_row \<Rightarrow> bool" where
  "waits_of repo wid w \<longleftrightarrow> wait_repository w = repo \<and> wait_workflow w = wid"

definition signals_of :: "string \<Rightarrow> uuid \<Rightarrow> signal_row \<Rightarrow> bool" where
  "signals_of repo wid g \<longleftrightarrow> signal_repository g = repo \<and> signal_workflow g = wid"

definition list_workflow_waits :: "string \<Rightarrow> uuid \<Rightarrow> bool \<Rightarrow> 'z workflow_db_scheme \<Rightarrow> workflow_wait list" where
  "list_workflow_waits repo wid include_satisfied db =
     map wait_record (sort_key (\<lambda>w. (wait_created_at w, wait_id w))
       (filter (\<lambda>w. waits_of repo wid w \<and> (include_satisfied \<or> satisfied_at w = None))
         (workflow_waits db)))"

definition get_workflow_signal :: "string \<Rightarrow> uuid \<Rightarrow> 'z workflow_db_scheme \<Rightarrow> workflow_signal option" where
  "get_workflow_signal repo sid db = map_option signal_record
     (find (\<lambda>g. signal_id g = sid \<and> signal_repository g = repo) (workflow_signals db))"

definition list_workflow_signals :: "string \<Rightarrow> uuid \<Rightarrow> bool \<Rightarrow> int \<Rightarrow> 'z workflow_db_scheme \<Rightarrow>
    exn + workflow_signal list" where
  "list_workflow_signals repo wid include_consumed limit db =
     (if limit < 1 then Inl (ValueError ''limit must be positive'')
      else Inr (map signal_record (take (nat limit)
        (sort_key (\<lambda>g. (signal_created_at g, signal_id g))
          (filter (\<lambda>g. signals_of repo wid g \<and> (include_consumed \<or> consumed_at g = None))
            (workflow_signals db))))))"

definition load_workflow_decision_input :: "string \<Rightarrow> uuid \<Rightarrow> time \<Rightarrow> int \<Rightarrow> 'z workflow_db_scheme \<Rightarrow>
    exn + decision_input" where
  "load_workflow_decision_input repo wid now signal_limit db =
     bindE (require_workflow_run repo wid db) (\<lambda>run.
     bindE (list_workflow_signals repo wid False signal_limit db) (\<lambda>signals.
     Inr \<lparr>input_run = run, input_waits = list_workflow_waits repo wid True db,
          input_signals = signals, input_now = now\<rparr>))"

definition list_workflow_state_migrations :: "string \<Rightarrow> uuid \<Rightarrow> 'z workflow_db_scheme \<Rightarrow>
    workflow_state_migration list" where
  "list_workflow_state_migrations repo wid db =
     map workflow_state_migration.truncate (sort_key to_revision
       (filter (\<lambda>r. migrated_workflow r = wid \<and> migration_repository r = repo) (state_migrations db)))"

section \<open>Facts and waits\<close>

definition workflow_fact_namespace :: uuid where
  "workflow_fact_namespace = UUID 0x6a3761aaa34f5d838ac41d4d59290c4f"

definition workflow_fact_id :: "uuid \<Rightarrow> int \<Rightarrow> string \<Rightarrow> uuid" where
  "workflow_fact_id wid rn suffix = UUID5 workflow_fact_namespace
     (uuid_text wid @ '':'' @ int_text rn @ '':'' @ suffix)"

definition append_workflow_fact :: "string \<Rightarrow> workflow_run \<Rightarrow> int \<Rightarrow> uuid \<Rightarrow> fact_payload \<Rightarrow> time \<Rightarrow>
    aggregate_ref option \<Rightarrow> bool \<Rightarrow> 'z fact_db_scheme \<Rightarrow> exn + 'z fact_db_scheme" where
  "append_workflow_fact repo workflow rn fid body occurred agg invalidate db =
     (let draft = \<lparr>fact_id = fid, schema_version = 1, occurred_at = occurred,
            aggregate = Some (case agg of Some a \<Rightarrow> a
              | None \<Rightarrow> \<lparr>aggregate_kind = ''workflow'', aggregate_id = workflow_id workflow,
                  aggregate_revision = Some rn\<rparr>),
            actor = fact_actor (started_by workflow), fact_correlation = run_correlation workflow,
            payload = body\<rparr>
      in if invalidate then
           (let (iid, db1) = uuid4 db in
            append_fact_db repo draft [\<lparr>input_id = iid, projection = ''workflow_runs'',
              subject_key = uuid_text (workflow_id workflow), generation = rn\<rparr>] occurred db1)
         else append_fact_db repo draft [] occurred db)"

definition insert_wait :: "string \<Rightarrow> uuid \<Rightarrow> time \<Rightarrow> wait_spec \<Rightarrow> 'z workflow_db_scheme \<Rightarrow> 'z workflow_db_scheme" where
  "insert_wait repo wid created spec db =
     (let (fresh, db1) = uuid4 db in
      db1\<lparr>workflow_waits := workflow_waits db1 @ [\<lparr>wait_id = fresh, wait_workflow = wid,
        wait_created_at = created, wait_spec = spec, satisfied_at = None, satisfied_by = None,
        wait_repository = repo\<rparr>]\<rparr>)"

definition insert_waits :: "string \<Rightarrow> uuid \<Rightarrow> wait_spec list \<Rightarrow> time \<Rightarrow> 'z workflow_db_scheme \<Rightarrow> 'z workflow_db_scheme" where
  "insert_waits repo wid specs created db = fold (insert_wait repo wid created) specs db"

section \<open>Creating a run\<close>

definition insert_run :: "string \<Rightarrow> workflow_run \<Rightarrow> 'z workflow_db_scheme \<Rightarrow> exn + 'z workflow_db_scheme" where
  "insert_run repo run db =
     (if list_ex (\<lambda>r. workflow_id r = workflow_id run \<or>
           (parent_ticket_id run \<noteq> None \<and> run_repository r = repo \<and>
            parent_ticket_id r = parent_ticket_id run)) (workflow_runs db)
      then Inl IntegrityError
      else Inr (db\<lparr>workflow_runs := workflow_runs db @ [run_row_of repo run]\<rparr>))"

definition create_workflow_run :: "string \<Rightarrow> workflow_run \<Rightarrow> wait_spec list \<Rightarrow> 'z workflow_db_scheme \<Rightarrow>
    exn + 'z workflow_db_scheme" where
  "create_workflow_run repo run waits db =
     (if run_status run = WfWaiting \<and> waits = [] then
        Inl (ValueError ''a waiting workflow requires at least one explicit wait'')
      else if terminal_workflow (run_status run) \<and> waits \<noteq> [] then
        Inl (ValueError ''a terminal workflow cannot have outstanding waits'')
      else
        bindE (insert_run repo run db) (\<lambda>db.
        append_workflow_fact repo run (revision run)
          (workflow_fact_id (workflow_id run) (revision run) ''started'')
          (WorkflowStartedPayload (workflow_id run) (definition_name run)
             (run_definition_version run) (workflow_status_value (run_status run)))
          (run_created_at run) None True
          (insert_waits repo (workflow_id run) waits (run_created_at run) db)))"

section \<open>The inbox\<close>

definition finished_activities :: "string \<Rightarrow> uuid \<Rightarrow> 'z workflow_db_scheme \<Rightarrow> uuid list" where
  "finished_activities repo wid db = List.map_filter
     (\<lambda>g. case signal_payload g of ActivityFinishedSignal a _ \<Rightarrow> Some a | _ \<Rightarrow> None)
     (filter (signals_of repo wid) (workflow_signals db))"

definition join_matched :: "uuid list \<Rightarrow> uuid list \<Rightarrow> nat" where
  "join_matched finished ids = length (filter (List.member ids) (remdups finished))"

fun signal_satisfies_wait :: "uuid list \<Rightarrow> signal_payload \<Rightarrow> wait_spec \<Rightarrow> bool" where
  "signal_satisfies_wait finished (ActivityFinishedSignal a _) (ActivityWait b) = (b = a)"
| "signal_satisfies_wait finished (ApprovalResolvedSignal a _) (ApprovalWait b) = (b = a)"
| "signal_satisfies_wait finished (TimerFiredSignal t) (TimerWait u _) = (u = t)"
| "signal_satisfies_wait finished (ExternalWorkflowSignal name key _) (ExternalSignalWait wanted wanted_key) =
     (wanted = name \<and> (wanted_key = None \<or> wanted_key = key))"
| "signal_satisfies_wait finished (ActivityFinishedSignal a _) (JoinWait ids mode threshold) =
     (List.member ids a \<and>
      (case mode of
         JoinAny \<Rightarrow> 1 \<le> join_matched finished ids
       | JoinAll \<Rightarrow> join_matched finished ids = length ids
       | JoinThreshold \<Rightarrow> (case threshold of None \<Rightarrow> False | Some t \<Rightarrow> t \<le> int (join_matched finished ids))))"
| "signal_satisfies_wait finished _ _ = False"

definition satisfy_wait :: "string \<Rightarrow> time \<Rightarrow> uuid \<Rightarrow> uuid \<Rightarrow> 'z workflow_db_scheme \<Rightarrow> 'z workflow_db_scheme" where
  "satisfy_wait repo ts sid wid db = db\<lparr>workflow_waits := update_where
     (\<lambda>w. wait_id w = wid \<and> wait_repository w = repo \<and> satisfied_at w = None)
     (\<lambda>w. w\<lparr>satisfied_at := Some ts, satisfied_by := Some sid\<rparr>) (workflow_waits db)\<rparr>"

definition satisfy_waits :: "string \<Rightarrow> uuid \<Rightarrow> time \<Rightarrow> uuid \<Rightarrow> signal_payload \<Rightarrow> 'z workflow_db_scheme \<Rightarrow>
    'z workflow_db_scheme" where
  "satisfy_waits repo wid ts sid body db =
     fold (\<lambda>w db. if signal_satisfies_wait (finished_activities repo wid db) body (wait_spec w)
                 then satisfy_wait repo ts sid (wait_id w) db else db)
       (list_workflow_waits repo wid False db) db"

definition enqueue_workflow_signal :: "string \<Rightarrow> uuid \<Rightarrow> string \<Rightarrow> signal_payload \<Rightarrow> time \<Rightarrow> uuid option \<Rightarrow>
    'z workflow_db_scheme \<Rightarrow> exn + workflow_signal \<times> 'z workflow_db_scheme" where
  "enqueue_workflow_signal repo wid key body ts sid db =
     (if key = [] then Inl (ValueError ''deduplication_key must not be empty'')
      else
        let (candidate, db) = (case sid of Some u \<Rightarrow> (u, db) | None \<Rightarrow> uuid4 db) in
        bindE (require_workflow_run repo wid db) (\<lambda>_.
        case find (\<lambda>g. signals_of repo wid g \<and> deduplication_key g = key) (workflow_signals db) of
          Some existing \<Rightarrow>
            if signal_payload existing \<noteq> body then Inl (SignalDeduplicationConflictError key)
            else Inr (signal_record existing, db)
        | None \<Rightarrow>
            if list_ex (\<lambda>g. signal_id g = candidate \<or>
                 (signal_workflow g = wid \<and> deduplication_key g = key)) (workflow_signals db) \<or>
               \<not> list_ex (\<lambda>r. workflow_id r = wid) (workflow_runs db)
            then Inl IntegrityError
            else
              let row = \<lparr>signal_id = candidate, signal_workflow = wid, deduplication_key = key,
                    signal_created_at = ts, signal_payload = body, consumed_at = None,
                    consumed_at_revision = None, signal_repository = repo\<rparr>;
                  db = satisfy_waits repo wid ts candidate body
                    (db\<lparr>workflow_signals := workflow_signals db @ [row]\<rparr>)
              in case get_workflow_signal repo candidate db of
                   None \<Rightarrow> Inl AssertionError
                 | Some stored \<Rightarrow> Inr (stored, db)))"

section \<open>State migrations\<close>

definition apply_workflow_state_migration :: "string \<Rightarrow> uuid \<Rightarrow> int \<Rightarrow> versioned_state \<Rightarrow> string \<Rightarrow> time \<Rightarrow>
    'z workflow_db_scheme \<Rightarrow> exn + workflow_state_migration \<times> 'z workflow_db_scheme" where
  "apply_workflow_state_migration repo wid expected target name ts db =
     (if name = [] then Inl (ValueError ''migration_name must not be empty'')
      else
        let (mid, db) = uuid4 db in
        bindE (require_workflow_run repo wid db) (\<lambda>current.
        if revision current \<noteq> expected then
          Inl (StaleWorkflowRevisionError wid expected (revision current))
        else if schema_name (run_state current) = schema_name target \<and>
          state_version (run_state current) = state_version target then
          Inl (ValueError ''state migration must change the state schema identity'')
        else
          let mine = (\<lambda>r. workflow_id r = wid \<and> run_repository r = repo \<and> revision r = expected);
              updated = count_where mine (workflow_runs db);
              db = db\<lparr>workflow_runs := update_where mine
                (\<lambda>r. r\<lparr>revision := expected + 1, run_state := target, run_updated_at := ts\<rparr>)
                (workflow_runs db)\<rparr>
          in
          if updated \<noteq> 1 then
            bindE (require_workflow_run repo wid db) (\<lambda>run.
              Inl (StaleWorkflowRevisionError wid expected (revision run)))
          else if list_ex (\<lambda>r. migrated_workflow r = wid \<and> to_revision r = expected + 1) (state_migrations db)
          then Inl IntegrityError
          else
            let stored = \<lparr>migration_id = mid, migrated_workflow = wid, migration_name = name,
                  from_schema_name = schema_name (run_state current),
                  from_schema_version = state_version (run_state current),
                  to_schema_name = schema_name target, to_schema_version = state_version target,
                  from_revision = expected, to_revision = expected + 1, migrated_at = ts\<rparr>;
                db = db\<lparr>state_migrations := state_migrations db @
                  [workflow_state_migration.extend stored (migration_row.fields repo)]\<rparr>
            in
            bindE (append_workflow_fact repo current (expected + 1)
                (workflow_fact_id wid (expected + 1) ''state-migrated'')
                (WorkflowStateMigratedPayload wid name (schema_name (run_state current))
                  (state_version (run_state current)) (schema_name target) (state_version target)
                  (expected + 1))
                ts None True db)
              (\<lambda>db. Inr (stored, db))))"

section \<open>What each operation leaves alone\<close>

lemma workflow_tables_cong:
  assumes "permission_db.more db' = permission_db.more (db :: 'z workflow_db_scheme)"
  shows "workflow_runs db' = workflow_runs db" "workflow_waits db' = workflow_waits db"
    "workflow_signals db' = workflow_signals db" "state_migrations db' = state_migrations db"
    "workflow_db.more db' = workflow_db.more db"
  using assms by (cases db; cases db'; simp)+

lemmas facts_only_workflow = workflow_tables_cong [OF permission_tables_cong(7) [OF facts_only_more]]

lemma facts_only_workflow_fact:
  assumes "append_workflow_fact repo run rn fid body occurred agg flag db = Inr db'"
  shows "facts_only db db'"
  using assms by (auto simp: append_workflow_fact_def Let_def
      intro: facts_only_trans facts_only_append facts_only_uuid4 split: prod.splits if_splits)

lemma uuid4_tables [simp]:
  "workflow_runs (snd (uuid4 db)) = workflow_runs db" "workflow_waits (snd (uuid4 db)) = workflow_waits db"
  "workflow_signals (snd (uuid4 db)) = workflow_signals db" "state_migrations (snd (uuid4 db)) = state_migrations db"
  "workflow_db.more (snd (uuid4 db)) = workflow_db.more db"
  by (simp_all add: uuid4_def)

text \<open>The rows \<open>insert_waits\<close> adds, and all it changes besides the counter of identifiers.\<close>

definition fresh_wait :: "string \<Rightarrow> uuid \<Rightarrow> wait_row \<Rightarrow> bool" where
  "fresh_wait repo wid w \<longleftrightarrow> waits_of repo wid w \<and> satisfied_at w = None \<and> satisfied_by w = None"

lemma insert_waits_tables:
  "workflow_runs (insert_waits repo wid specs created db) = workflow_runs db"
  "workflow_signals (insert_waits repo wid specs created db) = workflow_signals db"
  "state_migrations (insert_waits repo wid specs created db) = state_migrations db"
  "workflow_db.more (insert_waits repo wid specs created db) = workflow_db.more db"
  "retained_facts (insert_waits repo wid specs created db) = retained_facts db"
  by (induction specs arbitrary: db) (simp_all add: insert_waits_def insert_wait_def uuid4_def)

lemma insert_waits_rows:
  "\<exists>rows. workflow_waits (insert_waits repo wid specs created db) = workflow_waits db @ rows \<and>
     map wait_spec rows = specs \<and> list_all (fresh_wait repo wid) rows"
proof (induction specs arbitrary: db)
  case Nil
  then show ?case by (simp add: insert_waits_def)
next
  case (Cons spec specs)
  let ?db1 = "insert_wait repo wid created spec db"
  from Cons.IH [of ?db1] obtain rows where
    rows: "workflow_waits (insert_waits repo wid specs created ?db1) = workflow_waits ?db1 @ rows"
    "map wait_spec rows = specs" "list_all (fresh_wait repo wid) rows" by blast
  have "\<exists>w. workflow_waits ?db1 = workflow_waits db @ [w] \<and> wait_spec w = spec \<and> fresh_wait repo wid w"
    by (simp add: insert_wait_def uuid4_def fresh_wait_def waits_of_def)
  with rows show ?case by (auto simp: insert_waits_def)
qed

section \<open>The store invariant\<close>

text \<open>
  What every operation keeps of runs, waits and signals: ids are unique and references resolve, a
  waiting run has a wait and a finished one has none, deduplication keys are unique per run, a signal
  is consumed at a revision its run has reached, and a wait is satisfied by a signal or not at all.
\<close>

definition run_ok :: "wait_row list \<Rightarrow> run_row \<Rightarrow> bool" where
  "run_ok waits r \<longleftrightarrow>
     (run_status r = WfWaiting \<longrightarrow> (\<exists>w \<in> set waits. waits_of (run_repository r) (workflow_id r) w)) \<and>
     (terminal_workflow (run_status r) \<longrightarrow> (\<forall>w \<in> set waits. \<not> waits_of (run_repository r) (workflow_id r) w))"

definition signal_ok :: "run_row list \<Rightarrow> signal_row \<Rightarrow> bool" where
  "signal_ok runs g \<longleftrightarrow> (\<exists>r \<in> set runs. workflow_id r = signal_workflow g) \<and>
     (consumed_at g = None \<longleftrightarrow> consumed_at_revision g = None) \<and>
     (\<forall>n. consumed_at_revision g = Some n \<longrightarrow>
        (\<forall>r \<in> set runs. workflow_id r = signal_workflow g \<longrightarrow> n \<le> revision r))"

definition wait_ok :: "run_row list \<Rightarrow> wait_row \<Rightarrow> bool" where
  "wait_ok runs w \<longleftrightarrow> (\<exists>r \<in> set runs. workflow_id r = wait_workflow w) \<and>
     (satisfied_at w = None \<longleftrightarrow> satisfied_by w = None)"

definition signal_key :: "signal_row \<Rightarrow> uuid \<times> string" where
  "signal_key g = (signal_workflow g, deduplication_key g)"

definition workflow_inv :: "'z workflow_db_scheme \<Rightarrow> bool" where
  "workflow_inv db \<longleftrightarrow>
     distinct (map workflow_id (workflow_runs db)) \<and> distinct (map signal_id (workflow_signals db)) \<and>
     distinct (map signal_key (workflow_signals db)) \<and>
     (\<forall>r \<in> set (workflow_runs db). run_ok (workflow_waits db) r) \<and>
     (\<forall>g \<in> set (workflow_signals db). signal_ok (workflow_runs db) g) \<and>
     (\<forall>w \<in> set (workflow_waits db). wait_ok (workflow_runs db) w)"

text \<open>
  What no operation undoes: runs stay, a run changes only together with its revision, which only grows,
  and consumed signals stay as they are.
\<close>

definition workflow_progress :: "'z workflow_db_scheme \<Rightarrow> 'z workflow_db_scheme \<Rightarrow> bool" where
  "workflow_progress db db' \<longleftrightarrow>
     (\<forall>r \<in> set (workflow_runs db). \<exists>r' \<in> set (workflow_runs db'). workflow_id r' = workflow_id r \<and>
        run_repository r' = run_repository r \<and> revision r \<le> revision r' \<and> (revision r' = revision r \<longrightarrow> r' = r) \<and>
        (terminal_workflow (run_status r) \<longrightarrow> run_status r' = run_status r)) \<and>
     (\<forall>g \<in> set (workflow_signals db). consumed_at g \<noteq> None \<longrightarrow> g \<in> set (workflow_signals db'))"

lemma same_run:
  "workflow_inv db \<Longrightarrow> r \<in> set (workflow_runs db) \<Longrightarrow> s \<in> set (workflow_runs db) \<Longrightarrow> workflow_id r = workflow_id s \<Longrightarrow> r = s"
  using distinct_key_eq [of workflow_id "workflow_runs db" r s] by (simp add: workflow_inv_def)

lemma same_signal:
  "workflow_inv db \<Longrightarrow> g \<in> set (workflow_signals db) \<Longrightarrow> h \<in> set (workflow_signals db) \<Longrightarrow> signal_id g = signal_id h \<Longrightarrow> g = h"
  using distinct_key_eq [of signal_id "workflow_signals db" g h] by (simp add: workflow_inv_def)

lemma workflow_progress_refl [simp]: "workflow_progress db db"
  by (auto simp: workflow_progress_def)

lemma workflow_progress_trans:
  assumes "workflow_progress a b" and "workflow_progress b c"
  shows "workflow_progress a c"
proof -
  have "\<exists>z \<in> set (workflow_runs c). workflow_id z = workflow_id x \<and> run_repository z = run_repository x \<and>
      revision x \<le> revision z \<and> (revision z = revision x \<longrightarrow> z = x) \<and>
      (terminal_workflow (run_status x) \<longrightarrow> run_status z = run_status x)" if "x \<in> set (workflow_runs a)" for x
  proof -
    from assms(1) that obtain y where y: "y \<in> set (workflow_runs b)" "workflow_id y = workflow_id x"
      "run_repository y = run_repository x" "revision x \<le> revision y" "revision y = revision x \<longrightarrow> y = x"
      "terminal_workflow (run_status x) \<longrightarrow> run_status y = run_status x" unfolding workflow_progress_def by blast
    from assms(2) y(1) obtain z where z: "z \<in> set (workflow_runs c)" "workflow_id z = workflow_id y"
      "run_repository z = run_repository y" "revision y \<le> revision z" "revision z = revision y \<longrightarrow> z = y"
      "terminal_workflow (run_status y) \<longrightarrow> run_status z = run_status y" unfolding workflow_progress_def by blast
    have "z = x" if "revision z = revision x"
      using that y(4,5) z(4,5) by simp
    with y z show ?thesis by (intro bexI [of _ z]) auto
  qed
  with assms show ?thesis by (simp add: workflow_progress_def)
qed

lemma same_tables_inv:
  assumes "workflow_runs db' = workflow_runs db" "workflow_waits db' = workflow_waits db"
    "workflow_signals db' = workflow_signals db"
  shows "workflow_inv db \<Longrightarrow> workflow_inv db'" and "workflow_progress db db'"
  using assms by (auto simp: workflow_inv_def workflow_progress_def)

lemma facts_only_inv: "facts_only db db' \<Longrightarrow> workflow_inv db \<Longrightarrow> workflow_inv db'"
  by (rule same_tables_inv(1)) (auto dest: facts_only_workflow)

subsection \<open>Creating a run\<close>

lemma create_workflow_runE:
  assumes "create_workflow_run repo run waits db = Inr db'"
  obtains rows where "workflow_runs db' = workflow_runs db @ [run_row_of repo run]"
    "workflow_waits db' = workflow_waits db @ rows" "map wait_spec rows = waits"
    "list_all (fresh_wait repo (workflow_id run)) rows" "workflow_signals db' = workflow_signals db"
    "state_migrations db' = state_migrations db" "workflow_db.more db' = workflow_db.more db"
    "\<forall>r \<in> set (workflow_runs db). workflow_id r \<noteq> workflow_id run"
    "run_status run = WfWaiting \<longrightarrow> waits \<noteq> []" "terminal_workflow (run_status run) \<longrightarrow> waits = []"
proof -
  let ?db1 = "db\<lparr>workflow_runs := workflow_runs db @ [run_row_of repo run]\<rparr>"
  let ?db2 = "insert_waits repo (workflow_id run) waits (run_created_at run) ?db1"
  have guards: "run_status run = WfWaiting \<longrightarrow> waits \<noteq> []" "terminal_workflow (run_status run) \<longrightarrow> waits = []"
    using assms by (auto simp: create_workflow_run_def split: if_splits)
  have fresh: "\<forall>r \<in> set (workflow_runs db). workflow_id r \<noteq> workflow_id run"
    using assms by (auto simp: create_workflow_run_def insert_run_def list_ex_iff result_simps split: if_splits)
  have "facts_only ?db2 db'"
    using assms by (auto simp: create_workflow_run_def insert_run_def result_simps split: if_splits
        intro: facts_only_workflow_fact)
  note tables = facts_only_workflow [OF this]
  obtain rows where "workflow_waits ?db2 = workflow_waits ?db1 @ rows" "map wait_spec rows = waits"
    "list_all (fresh_wait repo (workflow_id run)) rows" using insert_waits_rows by blast
  with tables insert_waits_tables [of repo "workflow_id run" waits "run_created_at run" ?db1] guards fresh
  show thesis by (intro that [of rows]) simp_all
qed

lemma create_workflow_run_inv:
  assumes "create_workflow_run repo run waits db = Inr db'" and inv: "workflow_inv db"
  shows "workflow_inv db'" and "workflow_progress db db'"
proof -
  from assms(1) obtain rows where new: "workflow_runs db' = workflow_runs db @ [run_row_of repo run]"
    "workflow_waits db' = workflow_waits db @ rows" "map wait_spec rows = waits"
    "list_all (fresh_wait repo (workflow_id run)) rows" "workflow_signals db' = workflow_signals db"
    "\<forall>r \<in> set (workflow_runs db). workflow_id r \<noteq> workflow_id run"
    "run_status run = WfWaiting \<longrightarrow> waits \<noteq> []" "terminal_workflow (run_status run) \<longrightarrow> waits = []"
    by (rule create_workflow_runE)
  have rows: "waits_of repo (workflow_id run) w" "satisfied_at w = None" "satisfied_by w = None"
    if "w \<in> set rows" for w
    using new(4) that by (auto simp: list_all_iff fresh_wait_def)
  have no_old: "wait_workflow w \<noteq> workflow_id run" if "w \<in> set (workflow_waits db)" for w
    using inv that new(6) by (fastforce simp: workflow_inv_def wait_ok_def)
  have old: "run_ok (workflow_waits db') r" if "r \<in> set (workflow_runs db)" for r
    using inv that new(2,6) rows by (fastforce simp: workflow_inv_def run_ok_def waits_of_def)
  have "run_ok (workflow_waits db') (run_row_of repo run)"
    using new(2,3,7,8) rows no_old by (cases rows) (auto simp: run_ok_def waits_of_def)
  moreover have "signal_ok (workflow_runs db') g" if "g \<in> set (workflow_signals db)" for g
    using inv that new(1,6) by (fastforce simp: workflow_inv_def signal_ok_def)
  moreover have "wait_ok (workflow_runs db') w" if "w \<in> set (workflow_waits db')" for w
    using that inv new(1,2) rows [of w] by (auto simp: workflow_inv_def wait_ok_def waits_of_def)
  ultimately show "workflow_inv db'"
    using inv new old by (auto simp: workflow_inv_def)
  show "workflow_progress db db'" using new(1,5) by (auto simp: workflow_progress_def)
qed

subsection \<open>Signals\<close>

definition satisfied_wait :: "time \<Rightarrow> uuid \<Rightarrow> wait_row \<Rightarrow> wait_row" where
  "satisfied_wait ts sid w = w\<lparr>satisfied_at := Some ts, satisfied_by := Some sid\<rparr>"

lemma satisfied_wait_sel [simp]:
  "wait_id (satisfied_wait ts sid w) = wait_id w" "wait_repository (satisfied_wait ts sid w) = wait_repository w"
  "wait_workflow (satisfied_wait ts sid w) = wait_workflow w" "wait_spec (satisfied_wait ts sid w) = wait_spec w"
  "satisfied_at (satisfied_wait ts sid w) = Some ts" "satisfied_by (satisfied_wait ts sid w) = Some sid"
  by (simp_all add: satisfied_wait_def)

definition satisfy_listed :: "string \<Rightarrow> uuid \<Rightarrow> time \<Rightarrow> uuid \<Rightarrow> signal_payload \<Rightarrow> workflow_wait \<Rightarrow>
    'z workflow_db_scheme \<Rightarrow> 'z workflow_db_scheme" where
  "satisfy_listed repo wid ts sid body w db =
     (if signal_satisfies_wait (finished_activities repo wid db) body (wait_spec w)
      then satisfy_wait repo ts sid (wait_id w) db else db)"

lemma satisfy_listed_frame:
  "workflow_runs (satisfy_listed repo wid ts sid body w db) = workflow_runs db"
  "workflow_signals (satisfy_listed repo wid ts sid body w db) = workflow_signals db"
  "state_migrations (satisfy_listed repo wid ts sid body w db) = state_migrations db"
  "workflow_db.more (satisfy_listed repo wid ts sid body w db) = workflow_db.more db"
  "finished_activities repo wid (satisfy_listed repo wid ts sid body w db) = finished_activities repo wid db"
  by (simp_all add: satisfy_listed_def satisfy_wait_def finished_activities_def)

lemma satisfy_fold:
  "workflow_runs (fold (satisfy_listed repo wid ts sid body) ws db) = workflow_runs db \<and>
   workflow_signals (fold (satisfy_listed repo wid ts sid body) ws db) = workflow_signals db \<and>
   state_migrations (fold (satisfy_listed repo wid ts sid body) ws db) = state_migrations db \<and>
   workflow_db.more (fold (satisfy_listed repo wid ts sid body) ws db) = workflow_db.more db \<and>
   workflow_waits (fold (satisfy_listed repo wid ts sid body) ws db) = update_where
     (\<lambda>w. wait_repository w = repo \<and> satisfied_at w = None \<and> (\<exists>x \<in> set ws. wait_id x = wait_id w \<and>
        signal_satisfies_wait (finished_activities repo wid db) body (wait_spec x)))
     (satisfied_wait ts sid) (workflow_waits db)"
proof (induction ws arbitrary: db)
  case Nil
  then show ?case by (simp add: update_where_none)
next
  case (Cons x ws)
  let ?F = "finished_activities repo wid db" and ?db1 = "satisfy_listed repo wid ts sid body x db"
  let ?P = "\<lambda>w. wait_repository w = repo \<and> satisfied_at w = None \<and> wait_id x = wait_id w \<and>
      signal_satisfies_wait ?F body (wait_spec x)"
  have first: "workflow_waits ?db1 = update_where ?P (satisfied_wait ts sid) (workflow_waits db)"
  proof (cases "signal_satisfies_wait ?F body (wait_spec x)")
    case True
    then have "workflow_waits ?db1 = update_where (\<lambda>w. wait_id w = wait_id x \<and> wait_repository w = repo \<and>
        satisfied_at w = None) (satisfied_wait ts sid) (workflow_waits db)"
      by (simp add: satisfy_listed_def satisfy_wait_def satisfied_wait_def [abs_def])
    also have "\<dots> = update_where ?P (satisfied_wait ts sid) (workflow_waits db)"
      using True by (intro update_where_cong) auto
    finally show ?thesis .
  next
    case False
    then show ?thesis by (simp add: satisfy_listed_def update_where_none)
  qed
  have "workflow_waits (fold (satisfy_listed repo wid ts sid body) ws ?db1) = update_where
      (\<lambda>w. wait_repository w = repo \<and> satisfied_at w = None \<and> (\<exists>x \<in> set ws. wait_id x = wait_id w \<and>
        signal_satisfies_wait ?F body (wait_spec x)))
      (satisfied_wait ts sid) (update_where ?P (satisfied_wait ts sid) (workflow_waits db))"
    using Cons.IH [of ?db1] by (simp add: first satisfy_listed_frame)
  also have "\<dots> = update_where (\<lambda>w. wait_repository w = repo \<and> satisfied_at w = None \<and>
      (\<exists>y \<in> set (x # ws). wait_id y = wait_id w \<and> signal_satisfies_wait ?F body (wait_spec y)))
      (satisfied_wait ts sid) (workflow_waits db)"
    by (subst update_where_merge) (auto intro!: update_where_cong)
  finally show ?case using Cons.IH [of ?db1] by (simp add: satisfy_listed_frame)
qed

lemma satisfy_waits_eq:
  "satisfy_waits repo wid ts sid body db =
     fold (satisfy_listed repo wid ts sid body) (list_workflow_waits repo wid False db) db"
  by (simp add: satisfy_waits_def satisfy_listed_def [abs_def])

lemma set_list_workflow_waits:
  "set (list_workflow_waits repo wid flag db) =
     wait_record ` {w \<in> set (workflow_waits db). waits_of repo wid w \<and> (flag \<or> satisfied_at w = None)}"
  by (simp add: list_workflow_waits_def)

text \<open>A new signal satisfies exactly the open waits of its run that it matches.\<close>

lemma satisfy_waits_tables:
  assumes "distinct (map wait_id (workflow_waits db))"
  shows "workflow_waits (satisfy_waits repo wid ts sid body db) = update_where
    (\<lambda>w. waits_of repo wid w \<and> satisfied_at w = None \<and>
       signal_satisfies_wait (finished_activities repo wid db) body (wait_spec w))
    (satisfied_wait ts sid) (workflow_waits db)"
proof -
  have "(wait_repository w = repo \<and> satisfied_at w = None \<and>
      (\<exists>x \<in> set (list_workflow_waits repo wid False db). wait_id x = wait_id w \<and>
         signal_satisfies_wait (finished_activities repo wid db) body (wait_spec x))) \<longleftrightarrow>
      waits_of repo wid w \<and> satisfied_at w = None \<and>
         signal_satisfies_wait (finished_activities repo wid db) body (wait_spec w)"
    if w: "w \<in> set (workflow_waits db)" for w
  proof -
    have same: "x = w" if "x \<in> set (workflow_waits db)" "wait_id x = wait_id w" for x
      using distinct_key_eq [OF assms that(1) w that(2)] .
    show ?thesis
      using w by (auto simp: set_list_workflow_waits waits_of_def dest: same)
  qed
  then show ?thesis
    unfolding satisfy_waits_eq satisfy_fold [THEN conjunct2, THEN conjunct2, THEN conjunct2, THEN conjunct2]
    by (rule update_where_cong)
qed

lemma satisfy_waits_frame [simp]:
  "workflow_runs (satisfy_waits repo wid ts sid body db) = workflow_runs db"
  "workflow_signals (satisfy_waits repo wid ts sid body db) = workflow_signals db"
  "state_migrations (satisfy_waits repo wid ts sid body db) = state_migrations db"
  "workflow_db.more (satisfy_waits repo wid ts sid body db) = workflow_db.more db"
  unfolding satisfy_waits_eq by (simp_all add: satisfy_fold)

lemma enqueueE:
  assumes "enqueue_workflow_signal repo wid key body ts sid db = Inr (g, db')"
  obtains (existing) row where "row \<in> set (workflow_signals db)" "signals_of repo wid row" "deduplication_key row = key"
      "signal_payload row = body" "g = signal_record row" "db' = (if sid = None then snd (uuid4 db) else db)"
  | (new) db1 candidate row where "db1 = (if sid = None then snd (uuid4 db) else db)"
      "candidate = (case sid of Some u \<Rightarrow> u | None \<Rightarrow> fst (uuid4 db))"
      "row = \<lparr>signal_id = candidate, signal_workflow = wid, deduplication_key = key, signal_created_at = ts,
         signal_payload = body, consumed_at = None, consumed_at_revision = None, signal_repository = repo\<rparr>"
      "\<forall>h \<in> set (workflow_signals db). signal_id h \<noteq> candidate \<and> signal_key h \<noteq> (wid, key)"
      "\<exists>r \<in> set (workflow_runs db). workflow_id r = wid"
      "db' = satisfy_waits repo wid ts candidate body (db1\<lparr>workflow_signals := workflow_signals db @ [row]\<rparr>)"
      "g = signal_record row"
proof -
  define db1 where "db1 = (if sid = None then snd (uuid4 db) else db)"
  define candidate where "candidate = (case sid of Some u \<Rightarrow> u | None \<Rightarrow> fst (uuid4 db))"
  define row where "row = \<lparr>signal_id = candidate, signal_workflow = wid, deduplication_key = key,
    signal_created_at = ts, signal_payload = body, consumed_at = None, consumed_at_revision = None,
    signal_repository = repo\<rparr>"
  have pair: "(case sid of Some u \<Rightarrow> (u, db) | None \<Rightarrow> uuid4 db) = (candidate, db1)"
    by (cases sid) (simp_all add: candidate_def db1_def)
  have sigs: "workflow_signals db1 = workflow_signals db" "workflow_runs db1 = workflow_runs db"
    by (simp_all add: db1_def)
  show thesis
  proof (cases "find (\<lambda>g. signals_of repo wid g \<and> deduplication_key g = key) (workflow_signals db1)")
    case (Some old)
    from find_Some_mem [OF this] have old: "old \<in> set (workflow_signals db)" "signals_of repo wid old"
      "deduplication_key old = key" by (simp_all add: sigs)
    from assms pair Some have "signal_payload old = body" "g = signal_record old" "db' = db1"
      by (auto simp: enqueue_workflow_signal_def result_simps split: if_splits)
    with old show thesis by (intro existing [of old]) (simp_all add: db1_def)
  next
    case None
    let ?db2 = "satisfy_waits repo wid ts candidate body (db1\<lparr>workflow_signals := workflow_signals db1 @ [row]\<rparr>)"
    from assms pair None have ok: "\<forall>h \<in> set (workflow_signals db). signal_id h \<noteq> candidate \<and> signal_key h \<noteq> (wid, key)"
      "\<exists>r \<in> set (workflow_runs db). workflow_id r = wid"
      by (auto simp: enqueue_workflow_signal_def result_simps list_ex_iff sigs signal_key_def Let_def
          split: if_splits)
    have run: "(case get_workflow_signal repo candidate ?db2 of None \<Rightarrow> Inl AssertionError
         | Some stored \<Rightarrow> Inr (stored, ?db2)) = Inr (g, db')"
      using assms pair None ok
      by (simp add: enqueue_workflow_signal_def result_simps sigs row_def Let_def split: if_splits option.splits)
    have "find (\<lambda>g. signal_id g = candidate \<and> signal_repository g = repo) (workflow_signals db) = None"
      using ok(1) by (auto simp: find_eq_None)
    then have "get_workflow_signal repo candidate ?db2 = Some (signal_record row)"
      by (simp add: get_workflow_signal_def find_append sigs row_def)
    with run ok show thesis
      by (intro new [of db1 candidate row]) (auto simp: db1_def candidate_def row_def sigs)
  qed
qed

lemma satisfy_waits_ids:
  "\<exists>P. workflow_waits (satisfy_waits repo wid ts sid body db) =
     update_where P (satisfied_wait ts sid) (workflow_waits db)"
  unfolding satisfy_waits_eq using satisfy_fold by blast

lemma enqueue_frame:
  assumes "enqueue_workflow_signal repo wid key body ts sid db = Inr (g, db')"
  shows "workflow_runs db' = workflow_runs db" "state_migrations db' = state_migrations db"
    "workflow_db.more db' = workflow_db.more db"
  using assms by (cases rule: enqueueE; simp)+

lemma waits_of_updated:
  "(\<exists>w \<in> set (update_where P (satisfied_wait ts sid) ws). waits_of repo wid w) \<longleftrightarrow> (\<exists>w \<in> set ws. waits_of repo wid w)"
  by (induction ws) (auto simp: waits_of_def)

lemma run_ok_updated: "run_ok (update_where P (satisfied_wait ts sid) ws) r = run_ok ws r"
  using waits_of_updated [of P ts sid ws "run_repository r" "workflow_id r"] unfolding run_ok_def by blast

lemma enqueue_inv:
  assumes "enqueue_workflow_signal repo wid key body ts sid db = Inr (g, db')"
  shows "workflow_inv db \<Longrightarrow> workflow_inv db'" and "workflow_progress db db'"
  using assms
proof (atomize (full), cases rule: enqueueE)
  case existing
  then show "(workflow_inv db \<longrightarrow> workflow_inv db') \<and> workflow_progress db db'"
    using same_tables_inv [of db' db] by simp
next
  case (new db1 candidate row)
  have tables: "workflow_runs db' = workflow_runs db" "workflow_signals db' = workflow_signals db @ [row]"
    by (simp_all add: new(1,6))
  obtain P where "workflow_waits db' = update_where P (satisfied_wait ts candidate)
      (workflow_waits (db1\<lparr>workflow_signals := workflow_signals db @ [row]\<rparr>))"
    unfolding new(6) using satisfy_waits_ids by blast
  then have waits: "workflow_waits db' = update_where P (satisfied_wait ts candidate) (workflow_waits db)"
    by (simp add: new(1))
  have row: "signal_ok (workflow_runs db) row" "signal_key row = (wid, key)" "signal_id row = candidate"
    using new(5) by (simp_all add: new(3) signal_ok_def signal_key_def)
  have "workflow_inv db'" if "workflow_inv db"
    using that row new(4) by (auto simp: workflow_inv_def tables waits run_ok_updated set_update_where wait_ok_def)
  moreover have "workflow_progress db db'" by (auto simp: workflow_progress_def tables)
  ultimately show "(workflow_inv db \<longrightarrow> workflow_inv db') \<and> workflow_progress db db'" by simp
qed

subsection \<open>State migrations\<close>

lemma update_run_inv:
  assumes inv: "workflow_inv db"
    and upd: "workflow_runs db' = update_where P f (workflow_runs db)" "workflow_waits db' = workflow_waits db"
      "workflow_signals db' = workflow_signals db"
    and f: "\<And>r. P r \<Longrightarrow> workflow_id (f r) = workflow_id r \<and> run_repository (f r) = run_repository r \<and>
      run_status (f r) = run_status r \<and> revision r < revision (f r)"
  shows "workflow_inv db'" and "workflow_progress db db'"
proof -
  have ids: "map workflow_id (workflow_runs db') = map workflow_id (workflow_runs db)"
    unfolding upd(1) by (rule map_update_where) (simp add: f)
  have mem: "\<exists>r \<in> set (workflow_runs db). workflow_id r' = workflow_id r \<and> run_repository r' = run_repository r \<and>
      run_status r' = run_status r \<and> revision r \<le> revision r'" if "r' \<in> set (workflow_runs db')" for r'
    using that f by (fastforce simp: upd(1) set_update_where)
  have runs: "run_ok (workflow_waits db') r'" if "r' \<in> set (workflow_runs db')" for r'
    using mem [OF that] inv by (auto simp: upd(2) run_ok_def workflow_inv_def)
  have exists: "\<exists>r' \<in> set (workflow_runs db'). workflow_id r' = k" if "\<exists>r \<in> set (workflow_runs db). workflow_id r = k" for k
    using that ids by (metis (no_types, lifting) image_iff list.set_map)
  have "signal_ok (workflow_runs db') g" if "g \<in> set (workflow_signals db)" for g
  proof -
    from inv that have g: "signal_ok (workflow_runs db) g" by (simp add: workflow_inv_def)
    have "n \<le> revision r'" if n: "consumed_at_revision g = Some n" and r': "r' \<in> set (workflow_runs db')"
      "workflow_id r' = signal_workflow g" for n r'
    proof -
      from mem [OF r'(1)] r'(2) obtain r where "r \<in> set (workflow_runs db)" "workflow_id r = signal_workflow g"
        "revision r \<le> revision r'" by auto
      with g n show ?thesis unfolding signal_ok_def by fastforce
    qed
    with g exists show ?thesis unfolding signal_ok_def by blast
  qed
  moreover have "wait_ok (workflow_runs db') w" if "w \<in> set (workflow_waits db)" for w
    using inv that exists by (auto simp: workflow_inv_def wait_ok_def)
  ultimately show "workflow_inv db'" using inv ids runs by (simp add: workflow_inv_def upd)
  have "\<exists>r' \<in> set (workflow_runs db'). workflow_id r' = workflow_id r \<and> run_repository r' = run_repository r \<and>
      revision r \<le> revision r' \<and> (revision r' = revision r \<longrightarrow> r' = r) \<and>
      (terminal_workflow (run_status r) \<longrightarrow> run_status r' = run_status r)"
    if "r \<in> set (workflow_runs db)" for r
    using that f [of r] by (intro bexI [of _ "if P r then f r else r"]) (auto simp: upd(1) set_update_where)
  then show "workflow_progress db db'" by (simp add: workflow_progress_def upd(3))
qed

lemma migration_inv:
  assumes "apply_workflow_state_migration repo wid expected target name ts db = Inr (m, db')"
  shows "workflow_inv db \<Longrightarrow> workflow_inv db'" and "workflow_inv db \<Longrightarrow> workflow_progress db db'"
    and "workflow_db.more db' = workflow_db.more db"
proof -
  let ?mine = "\<lambda>r. workflow_id r = wid \<and> run_repository r = repo \<and> revision r = expected"
  let ?f = "\<lambda>r. r\<lparr>revision := expected + 1, run_state := target, run_updated_at := ts\<rparr>"
  obtain mid db1 where draw: "uuid4 db = (mid, db1)" by fastforce
  then have same: "workflow_runs db1 = workflow_runs db" "workflow_waits db1 = workflow_waits db"
    "workflow_signals db1 = workflow_signals db" "workflow_db.more db1 = workflow_db.more db"
    using uuid4_tables [of db] by simp_all
  from assms draw obtain current where current: "require_workflow_run repo wid db1 = Inr current"
    by (cases "require_workflow_run repo wid db1") (simp_all add: apply_workflow_state_migration_def split: if_splits)
  let ?stored = "\<lparr>migration_id = mid, migrated_workflow = wid, migration_name = name,
    from_schema_name = schema_name (run_state current), from_schema_version = state_version (run_state current),
    to_schema_name = schema_name target, to_schema_version = state_version target,
    from_revision = expected, to_revision = expected + 1, migrated_at = ts\<rparr>"
  have "append_workflow_fact repo current (expected + 1) (workflow_fact_id wid (expected + 1) ''state-migrated'')
      (WorkflowStateMigratedPayload wid name (schema_name (run_state current)) (state_version (run_state current))
        (schema_name target) (state_version target) (expected + 1)) ts None True
      (db1\<lparr>workflow_runs := update_where ?mine ?f (workflow_runs db1), state_migrations := state_migrations db1 @
        [workflow_state_migration.extend ?stored (migration_row.fields repo)]\<rparr>) = Inr db' \<and> m = ?stored"
    using assms draw current
    by (simp add: apply_workflow_state_migration_def Let_def bindE_eq_Inr split: if_splits) auto
  note tables = facts_only_workflow [OF facts_only_workflow_fact [OF this [THEN conjunct1]]]
  have "workflow_runs db' = update_where ?mine ?f (workflow_runs db)" "workflow_waits db' = workflow_waits db"
    "workflow_signals db' = workflow_signals db" using tables same by simp_all
  note upd = update_run_inv [OF _ this]
  show "workflow_inv db \<Longrightarrow> workflow_inv db'" "workflow_inv db \<Longrightarrow> workflow_progress db db'"
    by (erule upd; simp)+
  show "workflow_db.more db' = workflow_db.more db" using tables same by simp
qed

section \<open>What the inbox promises\<close>

lemma enqueue_stored:
  assumes "enqueue_workflow_signal repo wid key body ts sid db = Inr (g, db')" and "workflow_inv db"
  shows "find (\<lambda>h. signals_of repo wid h \<and> deduplication_key h = key) (workflow_signals db') \<noteq> None"
    "\<And>h. find (\<lambda>h. signals_of repo wid h \<and> deduplication_key h = key) (workflow_signals db') = Some h \<Longrightarrow>
      signal_record h = g \<and> signal_payload h = body"
proof -
  have keys: "distinct (map signal_key (workflow_signals db'))"
    using enqueue_inv(1) [OF assms] by (simp add: workflow_inv_def)
  have "\<exists>row \<in> set (workflow_signals db'). signals_of repo wid row \<and> deduplication_key row = key \<and>
      signal_payload row = body \<and> g = signal_record row"
    using assms(1)
  proof (cases rule: enqueueE)
    case (existing row)
    then show ?thesis by (intro bexI [of _ row]) simp_all
  next
    case (new db1 candidate row)
    then show ?thesis by (intro bexI [of _ row]) (simp_all add: signals_of_def)
  qed
  then obtain row where row: "row \<in> set (workflow_signals db')" "signals_of repo wid row"
    "deduplication_key row = key" "signal_payload row = body" "g = signal_record row" by blast
  then show "find (\<lambda>h. signals_of repo wid h \<and> deduplication_key h = key) (workflow_signals db') \<noteq> None"
    by (auto simp: find_eq_None)
  show "signal_record h = g \<and> signal_payload h = body"
    if "find (\<lambda>h. signals_of repo wid h \<and> deduplication_key h = key) (workflow_signals db') = Some h" for h
  proof -
    from find_Some_mem [OF that] row have "signal_key h = signal_key row" "h \<in> set (workflow_signals db')"
      by (auto simp: signal_key_def signals_of_def)
    with row(1) have "h = row" using distinct_key_eq [OF keys] by blast
    with row show ?thesis by simp
  qed
qed

lemma require_run_mem:
  "require_workflow_run repo wid db = Inr run \<Longrightarrow>
     \<exists>r \<in> set (workflow_runs db). run_repository r = repo \<and> run = run_record r \<and>
       (workflow_id r = wid \<or> parent_ticket_id r = Some (uuid_text wid))"
  by (auto simp: require_workflow_run_def get_workflow_run_def run_row_named_def dest!: find_Some_mem
      split: option.splits)

lemma require_run_cong:
  "workflow_runs db' = workflow_runs db \<Longrightarrow> require_workflow_run repo wid db' = require_workflow_run repo wid db"
  by (simp add: require_workflow_run_def get_workflow_run_def)

lemma enqueue_addressed:
  assumes "enqueue_workflow_signal repo wid key body ts sid db = Inr (g, db')"
  shows "key \<noteq> []" and "\<exists>run. require_workflow_run repo wid db = Inr run"
proof -
  show "key \<noteq> []" using assms by (auto simp: enqueue_workflow_signal_def)
  have "\<exists>run. require_workflow_run repo wid db1 = Inr run"
    if "(case sid of Some u \<Rightarrow> (u, db) | None \<Rightarrow> uuid4 db) = (candidate, db1)" for candidate db1
    using assms that by (auto simp: enqueue_workflow_signal_def result_simps split: if_splits)
  then show "\<exists>run. require_workflow_run repo wid db = Inr run"
    by (cases sid) (auto simp: uuid4_def require_workflow_run_def get_workflow_run_def)
qed

text \<open>
  C23: The inbox is exactly-once per deduplication key. After a signal was accepted under a key, a second delivery
  under the same key, at whatever time and with whatever proposed id, returns the signal stored first and
  changes nothing but the counter of drawn identifiers, and a second delivery that carries another
  payload is refused.
\<close>

theorem enqueue_exactly_once:
  assumes "enqueue_workflow_signal repo wid key body ts sid db = Inr (g, db')" and "workflow_inv db"
  shows "enqueue_workflow_signal repo wid key body' ts' sid' db' =
    (if body' = body then Inr (g, if sid' = None then snd (uuid4 db') else db')
     else Inl (SignalDeduplicationConflictError key))"
proof -
  obtain run where "require_workflow_run repo wid db = Inr run" using enqueue_addressed(2) [OF assms(1)] ..
  then have run: "require_workflow_run repo wid db' = Inr run" "require_workflow_run repo wid (snd (uuid4 db')) = Inr run"
    by (simp_all add: require_run_cong [OF enqueue_frame(1) [OF assms(1)]] require_run_cong [of "snd (uuid4 db')" db'])
  obtain h where h: "find (\<lambda>h. signals_of repo wid h \<and> deduplication_key h = key) (workflow_signals db') = Some h"
    using enqueue_stored(1) [OF assms] by auto
  note stored = enqueue_stored(2) [OF assms h]
  show ?thesis
  proof (cases sid')
    case None
    moreover obtain u db2 where "uuid4 db' = (u, db2)" by fastforce
    moreover from this have "workflow_signals db2 = workflow_signals db'" using uuid4_tables(3) [of db'] by simp
    ultimately show ?thesis
      using h run stored enqueue_addressed(1) [OF assms(1)] by (simp add: enqueue_workflow_signal_def)
  next
    case Some
    then show ?thesis
      using h run stored enqueue_addressed(1) [OF assms(1)] by (simp add: enqueue_workflow_signal_def)
  qed
qed

lemma enqueue_new:
  assumes "enqueue_workflow_signal repo wid key body ts sid db = Inr (g, db')"
    and "find (\<lambda>h. signals_of repo wid h \<and> deduplication_key h = key) (workflow_signals db) = None"
    and "distinct (map wait_id (workflow_waits db))"
  shows "workflow_waits db' = update_where
      (\<lambda>w. waits_of repo wid w \<and> satisfied_at w = None \<and>
        signal_satisfies_wait (finished_activities repo wid db') body (wait_spec w))
      (satisfied_wait ts (signal_id g)) (workflow_waits db) \<and>
    (\<exists>row. workflow_signals db' = workflow_signals db @ [row] \<and> signal_record row = g \<and>
       signals_of repo wid row \<and> deduplication_key row = key \<and> signal_payload row = body \<and> consumed_at row = None) \<and>
    workflow_runs db' = workflow_runs db"
  using assms(1)
proof (cases rule: enqueueE)
  case (existing row)
  with assms(2) show ?thesis by (auto simp: find_eq_None)
next
  case (new db1 candidate row)
  let ?db2 = "db1\<lparr>workflow_signals := workflow_signals db @ [row]\<rparr>"
  have "workflow_waits ?db2 = workflow_waits db" by (simp add: new(1))
  moreover from this assms(3) have "workflow_waits db' = update_where
      (\<lambda>w. waits_of repo wid w \<and> satisfied_at w = None \<and>
        signal_satisfies_wait (finished_activities repo wid ?db2) body (wait_spec w))
      (satisfied_wait ts candidate) (workflow_waits ?db2)"
    unfolding new(6) by (intro satisfy_waits_tables) simp
  moreover have "finished_activities repo wid db' = finished_activities repo wid ?db2"
    by (simp add: finished_activities_def new(6))
  moreover have "signal_id g = candidate" by (simp add: new(7) new(3))
  moreover have "workflow_signals db' = workflow_signals db @ [row]" "signals_of repo wid row"
    "deduplication_key row = key" "signal_payload row = body" "consumed_at row = None" "workflow_runs db' = workflow_runs db"
    by (simp_all add: new(6)) (simp_all add: new(1,3) signals_of_def)
  ultimately show ?thesis using new(7) by simp
qed

text \<open>
  C24: A new signal is recorded once, unconsumed, and satisfies exactly the open waits of its run that it
  matches (a join counts the activities finished so far, this one included); satisfied waits, the waits of
  other runs and repositories, and the runs themselves stay as they were.
\<close>

theorem enqueue_satisfies_exactly:
  assumes "enqueue_workflow_signal repo wid key body ts sid db = Inr (g, db')"
    and "find (\<lambda>h. signals_of repo wid h \<and> deduplication_key h = key) (workflow_signals db) = None"
    and "distinct (map wait_id (workflow_waits db))"
  shows "workflow_waits db' = update_where
      (\<lambda>w. waits_of repo wid w \<and> satisfied_at w = None \<and>
        signal_satisfies_wait (finished_activities repo wid db') body (wait_spec w))
      (satisfied_wait ts (signal_id g)) (workflow_waits db) \<and>
    (\<exists>row. workflow_signals db' = workflow_signals db @ [row] \<and> signal_record row = g \<and>
       signals_of repo wid row \<and> deduplication_key row = key \<and> signal_payload row = body \<and> consumed_at row = None) \<and>
    workflow_runs db' = workflow_runs db"
  using assms by (rule enqueue_new)

subsection \<open>A store to run them on\<close>

definition sample_run :: "uuid \<Rightarrow> workflow_status \<Rightarrow> workflow_run" where
  "sample_run wid status = \<lparr>workflow_id = wid, definition_name = ''flow'', run_definition_version = 1,
     run_status = status, revision = 3, run_state = make_versioned_state (OtherDoc []) ''own'' 1,
     run_created_at = 1, run_updated_at = 2, started_by = \<lparr>principal_kind = USER, principal_id = ''u''\<rparr>,
     run_correlation = plain_correlation wid, terminal_reason = None, parent_ticket_id = None,
     definition_snapshot = None, stage_map = []\<rparr>"

definition sample_wait :: "uuid \<Rightarrow> uuid \<Rightarrow> wait_spec \<Rightarrow> wait_row" where
  "sample_wait w wid spec = \<lparr>wait_id = w, wait_workflow = wid, wait_created_at = 2, wait_spec = spec,
     satisfied_at = None, satisfied_by = None, wait_repository = ''r''\<rparr>"

definition sample_store :: workflow_db where
  "sample_store = permission_db.extend sample_permission_db (workflow_db.fields
     [run_row_of ''r'' (sample_run (UUID 1) WfWaiting)]
     [sample_wait (UUID 11) (UUID 1) (TimerWait (UUID 7) 9), sample_wait (UUID 12) (UUID 1) (ApprovalWait (UUID 8))]
     [] [])"

lemma sample_store_sel [simp]:
  "workflow_runs sample_store = [run_row_of ''r'' (sample_run (UUID 1) WfWaiting)]"
  "workflow_waits sample_store = [sample_wait (UUID 11) (UUID 1) (TimerWait (UUID 7) 9),
     sample_wait (UUID 12) (UUID 1) (ApprovalWait (UUID 8))]"
  "workflow_signals sample_store = []" "state_migrations sample_store = []"
  by (simp_all add: sample_store_def permission_db.defs workflow_db.defs)

lemma sample_wait_sel [simp]:
  "wait_id (sample_wait w wid spec) = w" "wait_workflow (sample_wait w wid spec) = wid"
  "wait_spec (sample_wait w wid spec) = spec" "satisfied_at (sample_wait w wid spec) = None"
  "satisfied_by (sample_wait w wid spec) = None" "wait_repository (sample_wait w wid spec) = ''r''"
  by (simp_all add: sample_wait_def)

lemma sample_run_sel [simp]:
  "workflow_id (sample_run wid status) = wid" "run_status (sample_run wid status) = status"
  "revision (sample_run wid status) = 3"
  by (simp_all add: sample_run_def)

lemma sample_store_inv: "workflow_inv sample_store"
  by (simp add: workflow_inv_def run_ok_def wait_ok_def waits_of_def terminal_workflow_def)

lemma sample_enqueue:
  "\<exists>g db'. enqueue_workflow_signal ''r'' (UUID 1) ''k'' (TimerFiredSignal (UUID 7)) 5 (Some (UUID 21)) sample_store
     = Inr (g, db')"
  by (simp add: enqueue_workflow_signal_def require_workflow_run_def get_workflow_run_def run_row_named_def
      get_workflow_signal_def find_append Let_def split: option.splits)

theorem enqueue_exactly_once_witness:
  "\<exists>g db'. enqueue_workflow_signal ''r'' (UUID 1) ''k'' (TimerFiredSignal (UUID 7)) 5 (Some (UUID 21)) sample_store
       = Inr (g, db') \<and>
     enqueue_workflow_signal ''r'' (UUID 1) ''k'' (TimerFiredSignal (UUID 7)) 6 (Some (UUID 22)) db' = Inr (g, db') \<and>
     enqueue_workflow_signal ''r'' (UUID 1) ''k'' (TimerFiredSignal (UUID 8)) 6 None db' =
       Inl (SignalDeduplicationConflictError ''k'')"
proof -
  obtain g db' where run: "enqueue_workflow_signal ''r'' (UUID 1) ''k'' (TimerFiredSignal (UUID 7)) 5 (Some (UUID 21))
      sample_store = Inr (g, db')" using sample_enqueue by blast
  with enqueue_exactly_once [OF run sample_store_inv] show ?thesis by simp
qed

theorem enqueue_satisfies_exactly_witness:
  "\<exists>g db'. enqueue_workflow_signal ''r'' (UUID 1) ''k'' (TimerFiredSignal (UUID 7)) 5 (Some (UUID 21)) sample_store
       = Inr (g, db') \<and>
     workflow_waits db' = [satisfied_wait 5 (signal_id g) (sample_wait (UUID 11) (UUID 1) (TimerWait (UUID 7) 9)),
       sample_wait (UUID 12) (UUID 1) (ApprovalWait (UUID 8))]"
proof -
  obtain g db' where run: "enqueue_workflow_signal ''r'' (UUID 1) ''k'' (TimerFiredSignal (UUID 7)) 5 (Some (UUID 21))
      sample_store = Inr (g, db')" using sample_enqueue by blast
  with enqueue_satisfies_exactly [OF run] show ?thesis by (simp add: waits_of_def)
qed

end
