(* ===== verification/Operations.thy ===== *)
theory Operations
  imports PermissionContracts
begin

text \<open>
  The validators of the proposed operations and of grant scopes in \<open>murder/permissions/contracts.py\<close>:
  canonical repository paths and network destinations, tool names and methods, and the digests that are
  bound to structured arguments. \<open>canonical_operation\<close> is \<open>PROPOSED_OPERATION_ADAPTER.validate_python\<close> on
  the fields of an operation; it runs when an operation is built and again whenever a persisted one is read.
  SHA-256 of the canonical JSON text of a document is the argument \<open>sha\<close>, a function of the document.
  Text is ASCII; \<open>urlsplit\<close> and \<open>PurePosixPath\<close> are modelled as far as the validators use them (of a bracketed
  host, Python 3.11 and later check the address too, which only rejects more).

  Lemmas: what an accepted path looks like and that it is accepted unchanged as long as it
  has no white space at its ends. Neither holds of destinations: an IPv6 host loses its brackets.
\<close>

section \<open>Text\<close>

definition before :: "char \<Rightarrow> string \<Rightarrow> string" where
  "before c s = takeWhile (\<lambda>x. x \<noteq> c) s"

definition after :: "char \<Rightarrow> string \<Rightarrow> string" where
  "after c s = tl (dropWhile (\<lambda>x. x \<noteq> c) s)"

definition after_last :: "char \<Rightarrow> string \<Rightarrow> string" where
  "after_last c s = rev (before c (rev s))"

definition before_last :: "char \<Rightarrow> string \<Rightarrow> string" where
  "before_last c s = rev (after c (rev s))"

fun split_on :: "char \<Rightarrow> string \<Rightarrow> string list" where
  "split_on c [] = [[]]"
| "split_on c (x # xs) = (if x = c then [] # split_on c xs
     else (case split_on c xs of [] \<Rightarrow> [[x]] | p # ps \<Rightarrow> (x # p) # ps))"

fun occurs_in :: "string \<Rightarrow> string \<Rightarrow> bool" where
  "occurs_in p [] = (p = [])"
| "occurs_in p (x # xs) = (starts_with p (x # xs) \<or> occurs_in p xs)"

definition lower :: "char \<Rightarrow> char" where
  "lower c = (if CHR ''A'' \<le> c \<and> c \<le> CHR ''Z'' then char_of (of_char c + 32 :: nat) else c)"

definition upper :: "char \<Rightarrow> char" where
  "upper c = (if CHR ''a'' \<le> c \<and> c \<le> CHR ''z'' then char_of (of_char c - 32 :: nat) else c)"

definition is_digit :: "char \<Rightarrow> bool" where
  "is_digit c \<longleftrightarrow> CHR ''0'' \<le> c \<and> c \<le> CHR ''9''"

definition is_alpha :: "char \<Rightarrow> bool" where
  "is_alpha c \<longleftrightarrow> (CHR ''a'' \<le> c \<and> c \<le> CHR ''z'') \<or> (CHR ''A'' \<le> c \<and> c \<le> CHR ''Z'')"

definition number :: "string \<Rightarrow> nat" where
  "number s = foldl (\<lambda>n c. 10 * n + (of_char c - 48)) 0 s"

section \<open>Repository paths\<close>

text \<open>\<open>PurePosixPath(p).parts\<close> of a relative path, and \<open>as_posix\<close>.\<close>

definition path_parts :: "string \<Rightarrow> string list" where
  "path_parts p = filter (\<lambda>part. part \<noteq> [] \<and> part \<noteq> ''.'') (split_on CHR ''/'' p)"

definition as_posix :: "string list \<Rightarrow> string" where
  "as_posix parts = (if parts = [] then ''.'' else join_text ''/'' parts)"

definition canonical_repo_path :: "string \<Rightarrow> exn + string" where
  "canonical_repo_path v =
     (let candidate = map (\<lambda>c. if c = CHR 0x5C then CHR ''/'' else c) (strip v) in
      if candidate = [] \<or> CHR 0x00 \<in> set candidate \<or> hd candidate = CHR ''/'' \<or>
        List.member (path_parts candidate) ''..''
      then Inl (ValueError ''repository path must be normalized, relative, and traversal-free'')
      else Inr (as_posix (path_parts candidate)))"

section \<open>Network destinations\<close>

record split_result =
  url_scheme :: string
  netloc :: string
  url_path :: string
  url_query :: string
  url_fragment :: string

definition scheme_char :: "char \<Rightarrow> bool" where
  "scheme_char c \<longleftrightarrow> is_alpha c \<or> is_digit c \<or> c \<in> {CHR ''+'', CHR ''-'', CHR ''.''}"

definition urlsplit :: "string \<Rightarrow> exn + split_result" where
  "urlsplit text =
     (let url0 = dropWhile (\<lambda>c. c \<le> CHR '' '') text;
          (scheme, url1) =
            (if CHR '':'' \<in> set url0 \<and> url0 \<noteq> [] \<and> is_alpha (hd url0) \<and> list_all scheme_char (before CHR '':'' url0)
             then (map lower (before CHR '':'' url0), after CHR '':'' url0) else ([], url0));
          in_netloc = (\<lambda>c. c \<noteq> CHR ''/'' \<and> c \<noteq> CHR ''?'' \<and> c \<noteq> CHR ''#'');
          (loc, url2) = (if starts_with ''//'' url1 then (takeWhile in_netloc (drop 2 url1), dropWhile in_netloc (drop 2 url1))
             else ([], url1));
          (url3, fragment) = (before CHR ''#'' url2, after CHR ''#'' url2);
          (path, query) = (before CHR ''?'' url3, after CHR ''?'' url3)
      in if (CHR ''['' \<in> set loc) \<noteq> (CHR '']'' \<in> set loc) then Inl (ValueError ''Invalid IPv6 URL'')
         else Inr \<lparr>url_scheme = scheme, netloc = loc, url_path = path, url_query = query, url_fragment = fragment\<rparr>)"

definition host_info :: "string \<Rightarrow> string \<times> string" where
  "host_info loc =
     (let info = after_last CHR ''@'' loc in
      if CHR ''['' \<in> set info
      then (let bracketed = after CHR ''['' info in
            (before CHR '']'' bracketed, after CHR '':'' (after CHR '']'' bracketed)))
      else (before CHR '':'' info, after CHR '':'' info))"

definition url_hostname :: "string \<Rightarrow> string option" where
  "url_hostname loc =
     (let h = fst (host_info loc) in
      if h = [] then None
      else Some (map lower (before CHR ''%'' h) @ dropWhile (\<lambda>x. x \<noteq> CHR ''%'') h))"

definition url_port :: "string \<Rightarrow> exn + nat option" where
  "url_port loc =
     (let p = snd (host_info loc) in
      if p = [] then Inr None
      else if \<not> list_all is_digit p then Inl (ValueError ''Port could not be cast to integer value'')
      else if number p > 65535 then Inl (ValueError ''Port out of range 0-65535'')
      else Inr (Some (number p)))"

definition user_info :: "string \<Rightarrow> string \<times> string" where
  "user_info loc = (let info = before_last CHR ''@'' loc in (before CHR '':'' info, after CHR '':'' info))"

definition url_text :: "string \<Rightarrow> string \<Rightarrow> string \<Rightarrow> string \<Rightarrow> string" where
  "url_text scheme loc path query =
     scheme @ ''://'' @ loc @ (if path \<noteq> [] \<and> hd path \<noteq> CHR ''/'' then CHR ''/'' # path else path) @
     (if query = [] then [] else CHR ''?'' # query)"

definition canonical_destination :: "string \<Rightarrow> exn + string" where
  "canonical_destination v =
     (let candidate = strip v in
      if candidate = [] \<or> list_ex is_space candidate
      then Inl (ValueError ''network destination must be normalized and non-empty'')
      else if \<not> occurs_in ''://'' candidate then Inr (map lower candidate)
      else
        bindE (urlsplit candidate) (\<lambda>u.
        case url_hostname (netloc u) of
          None \<Rightarrow> Inl (ValueError ''network destination must have a scheme and host without credentials'')
        | Some hostname \<Rightarrow>
          if url_scheme u = [] \<or> fst (user_info (netloc u)) \<noteq> [] \<or> snd (user_info (netloc u)) \<noteq> []
          then Inl (ValueError ''network destination must have a scheme and host without credentials'')
          else
            bindE (url_port (netloc u)) (\<lambda>port.
            Inr (url_text (map lower (url_scheme u))
              (map lower hostname @ (case port of None \<Rightarrow> [] | Some n \<Rightarrow> CHR '':'' # nat_text n))
              (if url_path u = [] then ''/'' else url_path u) (url_query u)))))"

section \<open>Operations\<close>

definition sized :: "bool \<Rightarrow> exn + unit" where
  "sized ok = (if ok then Inr () else Inl ValidationError)"

definition validated :: "exn + 'a \<Rightarrow> exn + 'a" where
  "validated m = (case m of Inl (ValueError _) \<Rightarrow> Inl ValidationError | r \<Rightarrow> r)"

definition valid_optional_digest :: "string option \<Rightarrow> bool" where
  "valid_optional_digest d \<longleftrightarrow> (case d of None \<Rightarrow> True | Some t \<Rightarrow> valid_digest t)"

definition json_text :: "string option \<Rightarrow> json" where
  "json_text t = (case t of None \<Rightarrow> JNull | Some s \<Rightarrow> JStr s)"

definition git_target :: "string \<Rightarrow> string list \<Rightarrow> string option \<Rightarrow> string option \<Rightarrow> string option \<Rightarrow> json" where
  "git_target action arguments worktree remote ref = JObj
     [(''action'', JStr action), (''arguments'', JList (map JStr arguments)), (''worktree_path'', json_text worktree),
      (''remote'', json_text remote), (''ref'', json_text ref)]"

definition git_actions :: "string list" where
  "git_actions = [''commit'', ''push'', ''reset'', ''clean'', ''checkout'', ''merge'', ''rebase'', ''worktree_add'', ''worktree_remove'']"

definition session_commands :: "string list" where
  "session_commands = [''send_structured_message'', ''resize_terminal'', ''interrupt'', ''terminate'']"

definition canonical_operation :: "(json \<Rightarrow> string) \<Rightarrow> proposed_operation \<Rightarrow> exn + proposed_operation" where
  "canonical_operation sha op = (case op of
     TerminalWrite i p s enc d n l f \<Rightarrow>
       bindE (sized (List.member [''utf-8'', ''base64''] enc \<and> valid_digest d \<and> 0 \<le> n \<and> 1 \<le> f)) (\<lambda>_. Inr op)
   | SessionControl i p s command d \<Rightarrow>
       bindE (sized (List.member session_commands command \<and> valid_digest d)) (\<lambda>_. Inr op)
   | ToolInvocation i p name arguments d r w a \<Rightarrow>
       bindE (sized (d = sha (JObj arguments) \<and> valid_digest d \<and> name \<noteq> [])) (\<lambda>_.
       Inr (ToolInvocation i p (strip name) arguments d r w a))
   | FileMutation i p r path action d \<Rightarrow>
       bindE (sized (path \<noteq> [] \<and> List.member [''create'', ''write'', ''append'', ''delete'', ''chmod''] action \<and>
         valid_optional_digest d)) (\<lambda>_.
       bindE (validated (canonical_repo_path path)) (\<lambda>path. Inr (FileMutation i p r path action d)))
   | NetworkOperation i p dest m d w a \<Rightarrow>
       bindE (sized (dest \<noteq> [] \<and> m \<noteq> [] \<and> valid_optional_digest d)) (\<lambda>_.
       bindE (validated (canonical_destination dest)) (\<lambda>dest.
       Inr (NetworkOperation i p dest (map upper (strip m)) d w a)))
   | GitOperation i p r action arguments worktree remote ref d \<Rightarrow>
       (let arguments = map strip arguments in
        bindE (sized (list_all (\<lambda>t. t \<noteq> [] \<and> CHR 0x00 \<notin> set t) arguments \<and>
          d = sha (git_target action arguments worktree remote ref) \<and> valid_digest d \<and> List.member git_actions action \<and>
          (action = ''worktree_remove'' \<longrightarrow> worktree \<noteq> None))) (\<lambda>_.
        bindE (case worktree of None \<Rightarrow> Inr None
               | Some w \<Rightarrow> bindE (validated (canonical_repo_path w)) (\<lambda>w. Inr (Some w))) (\<lambda>worktree.
        Inr (GitOperation i p r action arguments worktree remote ref d))))
   | SecretAccess i p r access w a \<Rightarrow>
       bindE (sized (r \<noteq> [] \<and> List.member [''read'', ''inject''] access)) (\<lambda>_. Inr op)
   | WriterTakeover i p s mode l f h d \<Rightarrow>
       bindE (sized (List.member [''structured'', ''raw_terminal''] mode \<and> 1 \<le> f \<and> valid_digest d)) (\<lambda>_. Inr op))"

definition canonical_scope :: "grant_scope \<Rightarrow> exn + grant_scope" where
  "canonical_scope s =
     bindE (mapE (\<lambda>p. validated (canonical_repo_path p)) (scope_paths s)) (\<lambda>paths.
     bindE (mapE (\<lambda>d. validated (canonical_destination d)) (scope_destinations s)) (\<lambda>dests.
     bindE (sized (1 \<le> max_uses s)) (\<lambda>_.
     Inr (s\<lparr>scope_paths := paths, scope_destinations := dests\<rparr>))))"

section \<open>Canonical paths\<close>

lemma split_on_ne [simp]: "split_on c s \<noteq> []"
  by (induction s) (auto split: list.splits)

lemma split_on_clean: "p \<in> set (split_on c s) \<Longrightarrow> c \<notin> set p \<and> set p \<subseteq> set s"
  by (induction s arbitrary: p) (fastforce split: if_splits list.splits)+

lemma split_on_self: "c \<notin> set s \<Longrightarrow> split_on c s = [s]"
  by (induction s) (auto split: list.splits)

lemma split_on_append: "c \<notin> set p \<Longrightarrow> split_on c (p @ c # s) = p # split_on c s"
  by (induction p) (auto split: list.splits)

lemma split_on_join:
  "ps \<noteq> [] \<Longrightarrow> \<forall>p \<in> set ps. c \<notin> set p \<Longrightarrow> split_on c (join_text [c] ps) = ps"
proof (induction "[c]" ps rule: join_text.induct)
  case (3 x y ys)
  then show ?case by (simp add: split_on_append)
qed (auto simp: split_on_self)

lemma set_join_text: "set (join_text sep ps) \<subseteq> set sep \<union> (\<Union>p \<in> set ps. set p)"
  by (induction sep ps rule: join_text.induct) auto

lemma hd_join_text: "ps \<noteq> [] \<Longrightarrow> hd ps \<noteq> [] \<Longrightarrow> join_text sep ps \<noteq> [] \<and> hd (join_text sep ps) = hd (hd ps)"
  by (induction sep ps rule: join_text.induct) auto

lemma path_parts_clean: "p \<in> set (path_parts s) \<Longrightarrow> p \<noteq> [] \<and> p \<noteq> ''.'' \<and> CHR ''/'' \<notin> set p \<and> set p \<subseteq> set s"
  using split_on_clean [of p "CHR ''/''" s] by (auto simp: path_parts_def)

lemma path_parts_as_posix: "path_parts (as_posix (path_parts s)) = path_parts s"
proof (cases "path_parts s = []")
  case True
  then show ?thesis by (simp add: as_posix_def path_parts_def)
next
  case False
  then have "split_on CHR ''/'' (as_posix (path_parts s)) = path_parts s"
    using path_parts_clean [of _ s] by (auto simp: as_posix_def intro: split_on_join)
  then show ?thesis by (simp add: path_parts_def)
qed

text \<open>an accepted repository path stays inside the repository. It is relative, has no empty, current-directory or
  parent-directory component (except that the root is spelt \<open>.\<close>), no back-slash and no NUL; and it is
  accepted unchanged whenever it has no white space at its ends.
\<close>

theorem canonical_path_inside:
  assumes "canonical_repo_path v = Inr q"
  shows "q \<noteq> [] \<and> hd q \<noteq> CHR ''/'' \<and> (q = ''.'' \<or> (\<forall>p \<in> set (split_on CHR ''/'' q). p \<notin> {[], ''.'', ''..''})) \<and>
    CHR 0x5C \<notin> set q \<and> CHR 0x00 \<notin> set q \<and> (strip q = q \<longrightarrow> canonical_repo_path q = Inr q)"
proof -
  define candidate where "candidate = map (\<lambda>c. if c = CHR 0x5C then CHR ''/'' else c) (strip v)"
  have c: "CHR 0x00 \<notin> set candidate" "''..'' \<notin> set (path_parts candidate)" and q: "q = as_posix (path_parts candidate)"
    using assms by (auto simp: canonical_repo_path_def candidate_def Let_def split: if_splits)
  have no_back: "CHR 0x5C \<notin> set candidate" by (auto simp: candidate_def)
  have sub: "set q \<subseteq> set candidate \<union> {CHR ''/'', CHR ''.''}"
    using set_join_text [of "''/''" "path_parts candidate"] path_parts_clean [of _ candidate]
    by (auto simp: q as_posix_def)
  have "q \<noteq> [] \<and> hd q \<noteq> CHR ''/''"
  proof (cases "path_parts candidate")
    case Nil
    then show ?thesis by (simp add: q as_posix_def)
  next
    case (Cons p ps)
    then have "p \<noteq> []" "CHR ''/'' \<notin> set p" using path_parts_clean [of p candidate] by simp_all
    then have "hd p \<noteq> CHR ''/''" using hd_in_set by fastforce
    with \<open>p \<noteq> []\<close> hd_join_text [of "p # ps" "''/''"] Cons show ?thesis by (simp add: q as_posix_def)
  qed
  moreover have "q = ''.'' \<or> (\<forall>p \<in> set (split_on CHR ''/'' q). p \<notin> {[], ''.'', ''..''})"
  proof (cases "path_parts candidate = []")
    case False
    then have "split_on CHR ''/'' q = path_parts candidate"
      using path_parts_clean [of _ candidate] by (auto simp: q as_posix_def intro: split_on_join)
    with c(2) path_parts_clean [of _ candidate] show ?thesis by auto
  qed (simp add: q as_posix_def)
  moreover have clean: "CHR 0x5C \<notin> set q" "CHR 0x00 \<notin> set q" using sub c(1) no_back by auto
  moreover have "canonical_repo_path q = Inr q" if "strip q = q"
  proof -
    have "map (\<lambda>c. if c = CHR 0x5C then CHR ''/'' else c) q = q" using clean(1) by (induction q) auto
    with that calculation(1) clean(2) c(2) show ?thesis
      by (simp add: canonical_repo_path_def path_parts_as_posix q)
  qed
  ultimately show ?thesis by blast
qed

theorem canonical_path_inside_witness:
  "canonical_repo_path '' src//./a.py '' = Inr ''src/a.py'' \<and> canonical_repo_path ''src/a.py'' = Inr ''src/a.py''"
proof -
  have "canonical_repo_path '' src//./a.py '' = Inr ''src/a.py''" by code_simp
  moreover have "strip ''src/a.py'' = ''src/a.py''" by code_simp
  ultimately show ?thesis using canonical_path_inside [of "'' src//./a.py ''" "''src/a.py''"] by blast
qed

text \<open>
  Canonical forms are not fixed points. A path whose last component ends in a space, and a network
  destination with an IPv6 host, are accepted and rewritten to a form that is not accepted unchanged: the
  destination is then refused, the path names another file.
\<close>

lemmas url_simps = canonical_destination_def strip_def is_space_def starts_with_def urlsplit_def before_def after_def
  is_alpha_def scheme_char_def is_digit_def lower_def host_info_def url_hostname_def url_port_def user_info_def
  after_last_def before_last_def number_def url_text_def less_eq_char_def

lemma port_text: "nat_text 8080 = ''8080''"
proof -
  have "char_of (48 :: nat) = CHR ''0''" "char_of (56 :: nat) = CHR ''8''" by code_simp+
  then show ?thesis by (simp add: nat_text.simps digit_char_def)
qed

theorem canonical_forms_change_again:
  "canonical_repo_path ''notes /'' = Inr ''notes '' \<and> canonical_repo_path ''notes '' = Inr ''notes'' \<and>
   canonical_destination ''http://[::1]:8080/x'' = Inr ''http://::1:8080/x'' \<and>
   canonical_destination ''http://::1:8080/x'' =
     Inl (ValueError ''network destination must have a scheme and host without credentials'')"
proof (intro conjI)
  show "canonical_repo_path ''notes /'' = Inr ''notes ''" "canonical_repo_path ''notes '' = Inr ''notes''" by code_simp+
  show "canonical_destination ''http://[::1]:8080/x'' = Inr ''http://::1:8080/x''"
    by (simp add: url_simps Let_def port_text)
  show "canonical_destination ''http://::1:8080/x'' =
     Inl (ValueError ''network destination must have a scheme and host without credentials'')"
    by (simp add: url_simps Let_def)
qed

end
