(* ===== verification/Approvals.thy ===== *)
theory Approvals
  imports WorkflowStore Operations
begin

text \<open>
  Resolving approval requests, \<open>murder/state/persistence/approvals.py\<close>: a review is recorded, the reviewer policy is
  evaluated over all the reviews, and in the same transaction the grant is issued, the request closed, the
  workflow signalled and the fact appended. The operation a standalone request was raised for is
  validated again when it is read. Lemmas: no grant without reviews that satisfy the policy, at most one per request.
\<close>

section \<open>The digest of an operation\<close>

definition optional_uuid :: "uuid option \<Rightarrow> json" where
  "optional_uuid u = (case u of None \<Rightarrow> JNull | Some i \<Rightarrow> JStr (uuid_text i))"

definition operation_json :: "proposed_operation \<Rightarrow> json" where
  "operation_json op = JObj
     ([(''type'', JStr (operation_type op)), (''operation_id'', JStr (uuid_text (operation_id op))),
       (''principal'', principal_json (operation_principal op))] @
      (case op of
         TerminalWrite i p s enc d n l f \<Rightarrow>
           [(''session_id'', JStr (uuid_text s)), (''encoding'', JStr enc), (''data_digest'', JStr d),
            (''byte_count'', JInt n), (''lease_id'', JStr (uuid_text l)), (''lease_fence'', JInt f)]
       | SessionControl i p s command d \<Rightarrow>
           [(''session_id'', JStr (uuid_text s)), (''command'', JStr command), (''arguments_digest'', JStr d)]
       | ToolInvocation i p name arguments d r w a \<Rightarrow>
           [(''tool'', JStr name), (''arguments'', JObj arguments), (''arguments_digest'', JStr d),
            (''repository_id'', optional_uuid r), (''workflow_id'', optional_uuid w), (''activity_id'', optional_uuid a)]
       | FileMutation i p r path action d \<Rightarrow>
           [(''repository_id'', JStr (uuid_text r)), (''path'', JStr path), (''action'', JStr action),
            (''content_digest'', json_text d)]
       | NetworkOperation i p dest m d w a \<Rightarrow>
           [(''destination'', JStr dest), (''method'', JStr m), (''payload_digest'', json_text d),
            (''workflow_id'', optional_uuid w), (''activity_id'', optional_uuid a)]
       | GitOperation i p r action arguments worktree remote ref d \<Rightarrow>
           [(''repository_id'', JStr (uuid_text r)), (''action'', JStr action), (''arguments'', JList (map JStr arguments)),
            (''worktree_path'', json_text worktree), (''remote'', json_text remote), (''ref'', json_text ref),
            (''arguments_digest'', JStr d)]
       | SecretAccess i p r access w a \<Rightarrow>
           [(''secret_ref'', JStr r), (''access'', JStr access), (''workflow_id'', optional_uuid w),
            (''activity_id'', optional_uuid a)]
       | WriterTakeover i p s mode l f h d \<Rightarrow>
           [(''session_id'', JStr (uuid_text s)), (''requested_mode'', JStr mode), (''current_lease_id'', JStr (uuid_text l)),
            (''current_lease_fence'', JInt f), (''current_holder'', principal_json h), (''request_digest'', JStr d)]))"

definition digest_of :: "(json \<Rightarrow> string) \<Rightarrow> proposed_operation \<Rightarrow> string" where
  "digest_of sha op = sha (operation_json op)"

section \<open>Reviewer policies\<close>

definition reviewer_kind_of :: "principal \<Rightarrow> exn + reviewer_kind" where
  "reviewer_kind_of p =
     (if principal_kind p = LLM then Inr LlmReviewer
      else if principal_kind p = USER \<or> principal_kind p = CLIENT \<or> principal_kind p = REVIEWER then Inr HumanReviewer
      else Inl (ValueError ''principal kind cannot review approvals''))"

definition approval_decisions :: "string \<Rightarrow> uuid \<Rightarrow> 'z permission_db_scheme \<Rightarrow> approval_evidence list" where
  "approval_decisions repo aid db = sort_key (\<lambda>e. (evidence_at e, evidence_id e))
     (map snd (filter (\<lambda>(q, e). q = repo \<and> evidence_approval e = aid) (approval_evidences db)))"

definition resolve_status :: "approval_request \<Rightarrow> approval_evidence list \<Rightarrow> exn + approval_status" where
  "resolve_status r decisions =
     (if list_ex (\<lambda>e. choice e = Deny) decisions then Inr ApDenied
      else
        let approved = filter (\<lambda>e. choice e = Approve) decisions in
        bindE (mapE (\<lambda>e. reviewer_kind_of (reviewer e)) approved) (\<lambda>kinds.
        Inr (case req_policy r of
          PolicyAny \<Rightarrow> if approved \<noteq> [] then ApApproved else ApPending
        | PolicyHumanRequired \<Rightarrow> if List.member kinds HumanReviewer then ApApproved else ApPending
        | PolicyAll \<Rightarrow> if list_all (List.member kinds) (req_reviewers r) then ApApproved else ApPending)))"

section \<open>Resolving\<close>

text \<open>The proposed operation in a payload, validated again and compared with the digest of the request.\<close>

definition proposed_in :: "(json \<Rightarrow> string) \<Rightarrow> string \<Rightarrow> approval_payload \<Rightarrow> exn + proposed_operation option" where
  "proposed_in sha expected body = (case body of
     DraftPayload _ \<Rightarrow> Inr None
   | OperationPayload raw \<Rightarrow>
       bindE (canonical_operation sha raw) (\<lambda>op.
       if digest_of sha op \<noteq> expected then Inl (ValueError ''persisted proposed operation digest does not match'')
       else Inr (Some op)))"

definition eligible_reviewer :: "approval_request \<Rightarrow> principal \<Rightarrow> exn + unit" where
  "eligible_reviewer r who =
     bindE (reviewer_kind_of who) (\<lambda>k.
     if \<not> List.member (req_reviewers r) k then Inl (ValueError ''reviewer kind is not eligible for approval'')
     else Inr ())"

text \<open>The review is stored; the policy sees it and the earlier ones.\<close>

definition review_approval :: "string \<Rightarrow> approval_request \<Rightarrow> principal \<Rightarrow> approval_choice \<Rightarrow> string \<Rightarrow> time \<Rightarrow>
    'z permission_db_scheme \<Rightarrow> exn + (approval_evidence \<times> approval_status) \<times> 'z permission_db_scheme" where
  "review_approval repo r who c why ts db =
     (let (did, db) = uuid4 db;
          e = \<lparr>evidence_id = did, evidence_approval = req_id r, evidence_digest = req_digest r, choice = c,
                reviewer = who, review_rationale = why, evidence_at = ts\<rparr>
      in
      bindE (save_approval repo e db) (\<lambda>db.
      bindE (resolve_status r (approval_decisions repo (req_id r) db)) (\<lambda>status. Inr ((e, status), db))))"

definition approved_grant :: "approval_request \<Rightarrow> uuid \<Rightarrow> principal \<Rightarrow> time \<Rightarrow> permission_grant" where
  "approved_grant r gid who ts = \<lparr>grant_id = gid, grant_digest = req_digest r, issued_to = req_by r, issued_by = who,
     grant_scope = req_scope r, issued_at = ts, grant_approval = Some (req_id r), grant_decision = req_policy_decision r,
     revoked_at = None, revocation_reason = None, grant_uses = 0\<rparr>"

text \<open>A workflow's draft names no operation: the proof is for the first operation type of its scope.\<close>

definition authorize_approved :: "approval_request \<Rightarrow> proposed_operation option \<Rightarrow> uuid \<Rightarrow> uuid \<Rightarrow> time \<Rightarrow>
    exn + authorization" where
  "authorize_approved r operation auid gid ts = (case operation of
     Some op \<Rightarrow> Inr \<lparr>authorization_id = auid, auth_grant = gid, auth_operation = operation_id op,
       auth_type = operation_type op, auth_digest = req_digest r, auth_subject = operation_principal op,
       auth_issued_at = ts, auth_expires_at = scope_expires_at (req_scope r), auth_fence = operation_fence op\<rparr>
   | None \<Rightarrow>
       (case scope_operation_types (req_scope r) of
          [] \<Rightarrow> Inl (ValueError ''approval request has no operation type for authorization'')
        | t # _ \<Rightarrow> Inr \<lparr>authorization_id = auid, auth_grant = gid, auth_operation = req_id r, auth_type = t,
            auth_digest = req_digest r, auth_subject = req_by r, auth_issued_at = ts,
            auth_expires_at = scope_expires_at (req_scope r), auth_fence = None\<rparr>))"

definition grant_if_approved :: "string \<Rightarrow> approval_request \<Rightarrow> proposed_operation option \<Rightarrow> approval_status \<Rightarrow> principal \<Rightarrow> time \<Rightarrow>
    'z permission_db_scheme \<Rightarrow> exn + (permission_grant \<times> authorization) option \<times> 'z permission_db_scheme" where
  "grant_if_approved repo r operation status who ts db =
     (if status \<noteq> ApApproved then Inr (None, db)
      else
        let (gid, db) = uuid4 db; g = approved_grant r gid who ts in
        bindE (save_grant repo g db) (\<lambda>db.
        let (auid, db) = uuid4 db in
        bindE (authorize_approved r operation auid gid ts) (\<lambda>a. Inr (Some (g, a), db))))"

definition close_request :: "string \<Rightarrow> uuid \<Rightarrow> approval_status \<Rightarrow> 'z permission_db_scheme \<Rightarrow>
    exn + 'z permission_db_scheme" where
  "close_request repo aid status db =
     (let mine = (\<lambda>(q, r). q = repo \<and> req_id r = aid \<and> req_status r = ApPending) in
      if count_where mine (approval_requests db) \<noteq> 1 then Inl (ValueError ''approval resolution lost a concurrent update'')
      else Inr (db\<lparr>approval_requests :=
        update_where mine (\<lambda>(q, r). (q, r\<lparr>req_status := status\<rparr>)) (approval_requests db)\<rparr>))"

definition resolved_fact :: "approval_request \<Rightarrow> approval_evidence \<Rightarrow> approval_status \<Rightarrow> uuid option \<Rightarrow> aggregate_ref \<Rightarrow>
    principal \<Rightarrow> time \<Rightarrow> fact_draft" where
  "resolved_fact r e status gid agg who ts = simple_fact
     (UUID5 namespace_url (''murder:approval-resolved:'' @ uuid_text (req_id r) @ '':'' @ uuid_text (evidence_id e)))
     ts agg (fact_actor who) (evidence_id e)
     (PrivateFactPayload ''permission.approval.resolved''
        [(''approval_id'', JStr (uuid_text (req_id r))), (''decision_id'', JStr (uuid_text (evidence_id e))),
         (''operation_digest'', JStr (req_digest r)), (''status'', JStr (approval_status_value status)),
         (''grant_id'', optional_uuid gid)])"

type_synonym resolution = "approval_evidence \<times> (permission_grant \<times> authorization) option"

definition resolve_standalone_approval_request :: "(json \<Rightarrow> string) \<Rightarrow> string \<Rightarrow> uuid \<Rightarrow> string \<Rightarrow> principal \<Rightarrow>
    approval_choice \<Rightarrow> string \<Rightarrow> time \<Rightarrow> 'z permission_db_scheme \<Rightarrow> exn + resolution \<times> 'z permission_db_scheme" where
  "resolve_standalone_approval_request sha repo aid expected who c why ts db =
     (case find (\<lambda>(q, r). q = repo \<and> req_id r = aid \<and> req_workflow r = None) (approval_requests db) of
        None \<Rightarrow> Inl (ValueError ''standalone approval does not exist'')
      | Some (_, r) \<Rightarrow>
        if req_status r \<noteq> ApPending then Inl (ValueError ''approval is already resolved'')
        else if req_digest r \<noteq> expected then Inl (ValueError ''approval operation digest does not match'')
        else if scope_expires_at (req_scope r) \<le> ts then Inl (ValueError ''approval request has expired'')
        else
          bindE (eligible_reviewer r who) (\<lambda>_.
          bindE (proposed_in sha expected (req_payload r)) (\<lambda>operation.
          if operation = None then Inl (ValueError ''approval request does not contain its proposed operation'')
          else
            bindE (review_approval repo r who c why ts db) (\<lambda>((e, status), db).
            bindE (grant_if_approved repo r operation status who ts db) (\<lambda>(granted, db).
            bindE (close_request repo aid status db) (\<lambda>db.
            if status = ApApproved \<or> status = ApDenied then
              bindE (append_permission_fact repo
                (resolved_fact r e status (map_option (\<lambda>(g, _). grant_id g) granted)
                  \<lparr>aggregate_kind = ''permission'', aggregate_id = req_policy_decision r, aggregate_revision = None\<rparr> who ts)
                ''approvals'' (uuid_text aid) 1 ts db) (\<lambda>db. Inr ((e, granted), db))
            else Inr ((e, granted), db)))))))"

definition has_active_approval_wait :: "string \<Rightarrow> uuid \<Rightarrow> uuid \<Rightarrow> 'z workflow_db_scheme \<Rightarrow> bool" where
  "has_active_approval_wait repo wid aid db =
     list_ex (\<lambda>w. waits_of repo wid w \<and> satisfied_at w = None \<and> wait_spec w = ApprovalWait aid) (workflow_waits db)"

definition approval_key :: "uuid \<Rightarrow> string" where
  "approval_key aid = ''approval:'' @ uuid_text aid"

definition resolve_approval_request :: "(json \<Rightarrow> string) \<Rightarrow> string \<Rightarrow> uuid \<Rightarrow> uuid \<Rightarrow> int \<Rightarrow> string \<Rightarrow> principal \<Rightarrow>
    approval_choice \<Rightarrow> string \<Rightarrow> time \<Rightarrow> 'z workflow_db_scheme \<Rightarrow> exn + resolution \<times> 'z workflow_db_scheme" where
  "resolve_approval_request sha repo wid aid at_revision expected who c why ts db =
     (case find (\<lambda>(q, r). q = repo \<and> req_id r = aid \<and> req_workflow r = Some wid) (approval_requests db) of
        None \<Rightarrow> Inl (ValueError ''approval does not exist for workflow'')
      | Some (_, r) \<Rightarrow>
        if req_status r \<noteq> ApPending then Inl (ValueError ''approval is already resolved'')
        else if req_workflow_revision r \<noteq> Some at_revision then Inl (ValueError ''approval workflow revision does not match'')
        else if req_digest r \<noteq> expected then Inl (ValueError ''approval operation digest does not match'')
        else case find (\<lambda>run. workflow_id run = wid \<and> run_repository run = repo) (workflow_runs db) of
          None \<Rightarrow> Inl (ValueError ''workflow does not exist'')
        | Some run \<Rightarrow>
          if revision run \<noteq> at_revision then Inl (ValueError ''current workflow revision does not match approval'')
          else if run_status run \<noteq> WfWaiting then Inl (ValueError ''workflow is not waiting for approval'')
          else if \<not> has_active_approval_wait repo wid aid db then Inl (ValueError ''workflow has no active wait for approval'')
          else if scope_expires_at (req_scope r) \<le> ts then Inl (ValueError ''approval request has expired'')
          else
            bindE (eligible_reviewer r who) (\<lambda>_.
            bindE (proposed_in sha expected (req_payload r)) (\<lambda>operation.
            bindE (review_approval repo r who c why ts db) (\<lambda>((e, status), db).
            bindE (grant_if_approved repo r operation status who ts db) (\<lambda>(granted, db).
            bindE (close_request repo aid status db) (\<lambda>db.
            if status = ApApproved \<or> status = ApDenied then
              bindE (enqueue_workflow_signal repo wid (approval_key aid)
                (ApprovalResolvedSignal aid (evidence_id e)) ts None db) (\<lambda>(_, db).
              bindE (append_permission_fact repo
                (resolved_fact r e status (map_option (\<lambda>(g, _). grant_id g) granted)
                  \<lparr>aggregate_kind = ''workflow'', aggregate_id = wid, aggregate_revision = Some at_revision\<rparr> who ts)
                ''approvals'' (uuid_text aid) at_revision ts db) (\<lambda>db. Inr ((e, granted), db)))
            else Inr ((e, granted), db)))))))"

section \<open>What a resolution writes\<close>

lemma save_approvalE:
  assumes "save_approval repo e db = Inr db'"
  shows "approval_evidences db' = approval_evidences db @ [(repo, e)]" "approval_requests db' = approval_requests db"
    "permission_grants db' = permission_grants db" "permission_db.more db' = permission_db.more db"
    "authorization_uses db' = authorization_uses db" "grant_revocations db' = grant_revocations db"
  using assms by (auto simp: save_approval_def split: if_splits)

lemma uuid4_permission:
  "uuid4 db = (u, db') \<Longrightarrow> approval_evidences db' = approval_evidences db \<and> approval_requests db' = approval_requests db \<and>
     permission_grants db' = permission_grants db \<and> policy_decisions db' = policy_decisions db \<and>
     authorization_uses db' = authorization_uses db \<and> grant_revocations db' = grant_revocations db \<and>
     permission_db.more db' = permission_db.more db"
  for db :: "'z permission_db_scheme"
  by (auto simp: uuid4_def)

lemma review_approvalE:
  assumes "review_approval repo r who c why ts db = Inr ((e, status), db')"
  shows "approval_evidences db' = approval_evidences db @ [(repo, e)]" "approval_requests db' = approval_requests db"
    "permission_grants db' = permission_grants db" "permission_db.more db' = permission_db.more db"
    "resolve_status r (approval_decisions repo (req_id r) db') = Inr status"
    "evidence_approval e = req_id r" "evidence_digest e = req_digest r" "reviewer e = who" "choice e = c"
proof -
  obtain did db1 where draw: "uuid4 db = (did, db1)" by fastforce
  with assms have e: "e = \<lparr>evidence_id = did, evidence_approval = req_id r, evidence_digest = req_digest r, choice = c,
      reviewer = who, review_rationale = why, evidence_at = ts\<rparr>"
    and save: "save_approval repo e db1 = Inr db'"
    and status: "resolve_status r (approval_decisions repo (req_id r) db') = Inr status"
    by (auto simp: review_approval_def Let_def result_simps)
  note save_approvalE [OF save] uuid4_permission [OF draw]
  with e status show "approval_evidences db' = approval_evidences db @ [(repo, e)]" "approval_requests db' = approval_requests db"
    "permission_grants db' = permission_grants db" "permission_db.more db' = permission_db.more db"
    "resolve_status r (approval_decisions repo (req_id r) db') = Inr status"
    "evidence_approval e = req_id r" "evidence_digest e = req_digest r" "reviewer e = who" "choice e = c" by simp_all
qed

lemma save_grant_rest:
  assumes "save_grant repo g db = Inr db'"
  shows "approval_requests db' = approval_requests db" "approval_evidences db' = approval_evidences db"
    "permission_db.more db' = permission_db.more db"
proof -
  have "append_permission_fact repo (grant_issued_fact g) ''permissions'' (uuid_text (grant_id g)) 0
      (issued_at g) (db\<lparr>permission_grants := permission_grants db @ [(repo, g)]\<rparr>) = Inr db'"
    using assms by (simp add: save_grant_def split: if_splits)
  from permission_fact_tables [OF this] show "approval_requests db' = approval_requests db"
    "approval_evidences db' = approval_evidences db" "permission_db.more db' = permission_db.more db" by simp_all
qed

lemma grant_if_approvedE:
  assumes "grant_if_approved repo r operation status who ts db = Inr (granted, db')"
  obtains (none) "status \<noteq> ApApproved" "granted = None" "db' = db"
  | (granted) gid a where "status = ApApproved" "granted = Some (approved_grant r gid who ts, a)"
      "permission_grants db' = permission_grants db @ [(repo, approved_grant r gid who ts)]"
      "approval_requests db' = approval_requests db" "approval_evidences db' = approval_evidences db"
      "permission_db.more db' = permission_db.more db" "auth_digest a = req_digest r" "auth_grant a = gid"
proof (cases "status = ApApproved")
  case True
  obtain gid db1 where d1: "uuid4 db = (gid, db1)" by fastforce
  with assms True obtain db2 where save: "save_grant repo (approved_grant r gid who ts) db1 = Inr db2"
    by (auto simp: grant_if_approved_def result_simps Let_def)
  obtain auid db3 where d3: "uuid4 db2 = (auid, db3)" by fastforce
  with assms True d1 save obtain a where a: "authorize_approved r operation auid gid ts = Inr a"
    "granted = Some (approved_grant r gid who ts, a)" "db' = db3"
    by (auto simp: grant_if_approved_def result_simps Let_def)
  have "auth_digest a = req_digest r" "auth_grant a = gid"
    using a(1) by (auto simp: authorize_approved_def split: option.splits list.splits)
  with True a(2,3) save_grantE(1) [OF save] save_grant_rest [OF save] uuid4_permission [OF d1] uuid4_permission [OF d3]
  show thesis by (intro granted [of gid a]) simp_all
next
  case False
  with assms show thesis by (intro none) (simp_all add: grant_if_approved_def)
qed

lemma close_requestE:
  assumes "close_request repo aid status db = Inr db'"
  shows "approval_requests db' = update_where (\<lambda>(q, r). q = repo \<and> req_id r = aid \<and> req_status r = ApPending)
      (\<lambda>(q, r). (q, r\<lparr>req_status := status\<rparr>)) (approval_requests db)"
    "approval_evidences db' = approval_evidences db" "permission_grants db' = permission_grants db"
    "permission_db.more db' = permission_db.more db"
  using assms by (auto simp: close_request_def Let_def split: if_splits)

section \<open>No grant without the reviews its policy asks for\<close>

definition approved_by :: "approval_evidence list \<Rightarrow> reviewer_kind \<Rightarrow> bool" where
  "approved_by ds k \<longleftrightarrow> (\<exists>e \<in> set ds. choice e = Approve \<and> reviewer_kind_of (reviewer e) = Inr k)"

definition policy_met :: "approval_request \<Rightarrow> approval_evidence list \<Rightarrow> bool" where
  "policy_met r ds \<longleftrightarrow> (\<forall>e \<in> set ds. choice e \<noteq> Deny) \<and>
     (case req_policy r of
        PolicyAny \<Rightarrow> \<exists>e \<in> set ds. choice e = Approve
      | PolicyHumanRequired \<Rightarrow> approved_by ds HumanReviewer
      | PolicyAll \<Rightarrow> \<forall>k \<in> set (req_reviewers r). approved_by ds k)"

lemma resolve_status_approved:
  assumes "resolve_status r ds = Inr ApApproved"
  shows "policy_met r ds"
proof -
  let ?ok = "filter (\<lambda>e. choice e = Approve) ds"
  have deny: "\<forall>e \<in> set ds. choice e \<noteq> Deny"
    using assms by (auto simp: resolve_status_def list_ex_iff split: if_splits)
  with assms obtain kinds where kinds: "mapE (\<lambda>e. reviewer_kind_of (reviewer e)) ?ok = Inr kinds"
    and pol: "(case req_policy r of PolicyAny \<Rightarrow> if ?ok \<noteq> [] then ApApproved else ApPending
        | PolicyHumanRequired \<Rightarrow> if List.member kinds HumanReviewer then ApApproved else ApPending
        | PolicyAll \<Rightarrow> if list_all (List.member kinds) (req_reviewers r) then ApApproved else ApPending) = ApApproved"
    by (auto simp: resolve_status_def Let_def result_simps split: if_splits)
  have "approved_by ds k" if "k \<in> set kinds" for k
  proof -
    from that obtain i where i: "i < length kinds" "kinds ! i = k" by (auto simp: in_set_conv_nth)
    have "list_all2 (\<lambda>e k. reviewer_kind_of (reviewer e) = Inr k) ?ok kinds" using kinds by (simp add: mapE_eq_Inr)
    with i have "i < length ?ok" "reviewer_kind_of (reviewer (?ok ! i)) = Inr k"
      by (auto simp: list_all2_conv_all_nth)
    moreover from this(1) have "?ok ! i \<in> set ?ok" by (rule nth_mem)
    ultimately show ?thesis by (auto simp: approved_by_def)
  qed
  with deny pol show ?thesis
    by (auto simp: policy_met_def filter_empty_conv list_all_iff split: approval_policy.splits if_splits)
qed

definition evidence_ok :: "(string \<times> approval_request) list \<Rightarrow> string \<times> approval_evidence \<Rightarrow> bool" where
  "evidence_ok requests = (\<lambda>(q, e). \<exists>r. (q, r) \<in> set requests \<and> req_id r = evidence_approval e \<and>
     evidence_digest e = req_digest r \<and> eligible_reviewer r (reviewer e) = Inr ())"

definition grant_backed :: "(string \<times> approval_request) list \<Rightarrow> string \<times> permission_grant \<Rightarrow> bool" where
  "grant_backed requests = (\<lambda>(q, g). \<forall>a. grant_approval g = Some a \<longrightarrow>
     (\<exists>r. (q, r) \<in> set requests \<and> req_id r = a \<and> req_status r = ApApproved \<and>
        grant_digest g = req_digest r \<and> issued_to g = req_by r \<and> grant_scope g = req_scope r))"

definition granted_approvals :: "(string \<times> permission_grant) list \<Rightarrow> uuid list" where
  "granted_approvals gs = concat (map (\<lambda>(_, g). case grant_approval g of None \<Rightarrow> [] | Some a \<Rightarrow> [a]) gs)"

lemma set_granted_approvals: "a \<in> set (granted_approvals gs) \<longleftrightarrow> (\<exists>(q, g) \<in> set gs. grant_approval g = Some a)"
  by (induction gs) (auto simp: granted_approvals_def split: option.splits)

definition approval_inv :: "'z permission_db_scheme \<Rightarrow> bool" where
  "approval_inv db \<longleftrightarrow> distinct (map (\<lambda>(_, r). req_id r) (approval_requests db)) \<and>
     (\<forall>x \<in> set (approval_evidences db). evidence_ok (approval_requests db) x) \<and>
     (\<forall>(q, r) \<in> set (approval_requests db). req_status r = ApApproved \<longrightarrow>
        resolve_status r (approval_decisions q (req_id r) db) = Inr ApApproved) \<and>
     (\<forall>x \<in> set (permission_grants db). grant_backed (approval_requests db) x) \<and>
     distinct (granted_approvals (permission_grants db))"

lemma approval_inv_frame:
  "approval_inv db \<Longrightarrow> approval_requests db' = approval_requests db \<Longrightarrow> approval_evidences db' = approval_evidences db \<Longrightarrow>
     permission_grants db' = permission_grants db \<Longrightarrow> approval_inv db'"
  by (simp add: approval_inv_def approval_decisions_def)

lemma same_request:
  "approval_inv db \<Longrightarrow> (q, r) \<in> set (approval_requests db) \<Longrightarrow> (q', r') \<in> set (approval_requests db) \<Longrightarrow>
     req_id r = req_id r' \<Longrightarrow> q = q' \<and> r = r'"
  using distinct_key_eq [of "\<lambda>(_, r). req_id r" "approval_requests db" "(q, r)" "(q', r')"] by (simp add: approval_inv_def)

lemma status_frame [simp]:
  "resolve_status (r\<lparr>req_status := s\<rparr>) ds = resolve_status r ds" "eligible_reviewer (r\<lparr>req_status := s\<rparr>) who = eligible_reviewer r who"
  by (cases "req_policy r"; simp add: resolve_status_def eligible_reviewer_def Let_def)+

text \<open>The part the two resolutions share, from the review to the closed request.\<close>

definition resolve_core :: "string \<Rightarrow> approval_request \<Rightarrow> proposed_operation option \<Rightarrow> principal \<Rightarrow> approval_choice \<Rightarrow> string \<Rightarrow> time \<Rightarrow>
    'z permission_db_scheme \<Rightarrow> approval_evidence \<Rightarrow> approval_status \<Rightarrow> (permission_grant \<times> authorization) option \<Rightarrow>
    'z permission_db_scheme \<Rightarrow> bool" where
  "resolve_core repo r operation who c why ts db e status granted db' \<longleftrightarrow> (\<exists>db1 db2.
     review_approval repo r who c why ts db = Inr ((e, status), db1) \<and>
     grant_if_approved repo r operation status who ts db1 = Inr (granted, db2) \<and>
     close_request repo (req_id r) status db2 = Inr db')"

lemma resolve_core_inv:
  assumes core: "resolve_core repo r operation who c why ts db e status granted db'" and inv: "approval_inv db"
    and r: "(repo, r) \<in> set (approval_requests db)" "req_status r = ApPending" "eligible_reviewer r who = Inr ()"
  shows "approval_inv db'"
proof -
  obtain db1 db2 where review: "review_approval repo r who c why ts db = Inr ((e, status), db1)"
    and grant: "grant_if_approved repo r operation status who ts db1 = Inr (granted, db2)"
    and close: "close_request repo (req_id r) status db2 = Inr db'"
    using core by (auto simp: resolve_core_def)
  note ev = review_approvalE [OF review] and cl = close_requestE [OF close]
  let ?mine = "\<lambda>(q, s). q = repo \<and> req_id s = req_id r \<and> req_status s = ApPending"
  let ?set = "\<lambda>(q, s). (q, s\<lparr>req_status := status\<rparr>)"
  have tables: "approval_requests db2 = approval_requests db" "approval_evidences db2 = approval_evidences db @ [(repo, e)]"
    using ev(1,2) by (cases rule: grant_if_approvedE [OF grant]; simp)+
  have requests: "approval_requests db' = update_where ?mine ?set (approval_requests db)" using cl(1) tables(1) by simp
  have evidences: "approval_evidences db' = approval_evidences db @ [(repo, e)]" using cl(2) tables(2) by simp
  have mine: "?mine (q, s) \<longleftrightarrow> (q, s) = (repo, r)" if "(q, s) \<in> set (approval_requests db)" for q s
    using same_request [OF inv that r(1)] r(2) by auto
  have mem: "(q, s) \<in> set (approval_requests db') \<longleftrightarrow>
      (q, s) = (repo, r\<lparr>req_status := status\<rparr>) \<or> (q, s) \<in> set (approval_requests db) \<and> (q, s) \<noteq> (repo, r)" for q s
  proof -
    have "set (approval_requests db') = (\<lambda>x. if x = (repo, r) then (repo, r\<lparr>req_status := status\<rparr>) else x) ` set (approval_requests db)"
      unfolding requests set_update_where using mine by (intro image_cong) (auto split: prod.splits)
    with r(1) show ?thesis by (auto simp: image_iff)
  qed
  have ids: "map (\<lambda>(_, s). req_id s) (approval_requests db') = map (\<lambda>(_, s). req_id s) (approval_requests db)"
    unfolding requests by (rule map_update_where) auto
  have decisions: "approval_decisions q (req_id s) db' = approval_decisions q (req_id s) db"
    if "(q, s) \<in> set (approval_requests db)" "(q, s) \<noteq> (repo, r)" for q s
  proof -
    have "req_id s \<noteq> req_id r" using same_request [OF inv that(1) r(1)] that(2) by blast
    then show ?thesis by (simp add: approval_decisions_def evidences ev(6))
  qed
  have own: "resolve_status r (approval_decisions repo (req_id r) db') = Inr status"
    using ev(5) by (simp add: approval_decisions_def evidences ev(1))
  have "evidence_ok (approval_requests db') x" if "x \<in> set (approval_evidences db')" for x
  proof (cases "x \<in> set (approval_evidences db)")
    case True
    then obtain q d s where x: "x = (q, d)" "(q, s) \<in> set (approval_requests db)" "req_id s = evidence_approval d"
      "evidence_digest d = req_digest s" "eligible_reviewer s (reviewer d) = Inr ()"
      using inv by (cases x) (auto simp: approval_inv_def evidence_ok_def)
    then show ?thesis
      by (cases "(q, s) = (repo, r)")
        (auto simp: evidence_ok_def mem intro: exI [of _ "r\<lparr>req_status := status\<rparr>"] exI [of _ s])
  next
    case False
    with that have "x = (repo, e)" by (simp add: evidences)
    with r(3) ev(6-8) show ?thesis by (auto simp: evidence_ok_def mem intro!: exI [of _ "r\<lparr>req_status := status\<rparr>"])
  qed
  moreover have "resolve_status s (approval_decisions q (req_id s) db') = Inr ApApproved"
    if "(q, s) \<in> set (approval_requests db')" "req_status s = ApApproved" for q s
    using that own inv decisions by (force simp: mem approval_inv_def)
  moreover have backed: "grant_backed (approval_requests db') x" if "grant_backed (approval_requests db) x" for x
    using that r(2) by (cases x) (fastforce simp: grant_backed_def mem)
  moreover have fresh: "grant_approval g \<noteq> Some (req_id r)" if "(q, g) \<in> set (permission_grants db)" for q g
  proof
    assume "grant_approval g = Some (req_id r)"
    with inv that obtain s where "(q, s) \<in> set (approval_requests db)" "req_id s = req_id r" "req_status s = ApApproved"
      by (fastforce simp: approval_inv_def grant_backed_def)
    with same_request [OF inv this(1) r(1)] r(2) show False by simp
  qed
  moreover have "(\<forall>x \<in> set (permission_grants db'). grant_backed (approval_requests db') x) \<and>
      distinct (granted_approvals (permission_grants db'))"
    using grant
  proof (cases rule: grant_if_approvedE)
    case none
    with cl(3) ev(3) backed inv show ?thesis by (auto simp: approval_inv_def)
  next
    case (granted gid a)
    have "grant_backed (approval_requests db') (repo, approved_grant r gid who ts)"
      using granted(1) by (auto simp: grant_backed_def approved_grant_def mem intro!: exI [of _ "r\<lparr>req_status := status\<rparr>"])
    moreover have "req_id r \<notin> set (granted_approvals (permission_grants db))"
      using fresh by (auto simp: set_granted_approvals)
    ultimately show ?thesis
      using granted(3) cl(3) ev(3) backed inv by (auto simp: approval_inv_def granted_approvals_def approved_grant_def)
  qed
  ultimately show ?thesis using inv ids by (auto simp: approval_inv_def)
qed

lemma resolve_standaloneE:
  assumes "resolve_standalone_approval_request sha repo aid expected who c why ts db = Inr ((e, granted), db')"
  obtains r op status db3 where "(repo, r) \<in> set (approval_requests db)" "req_id r = aid" "req_workflow r = None"
    "req_status r = ApPending" "req_digest r = expected" "ts < scope_expires_at (req_scope r)"
    "eligible_reviewer r who = Inr ()" "proposed_in sha expected (req_payload r) = Inr (Some op)"
    "resolve_core repo r (Some op) who c why ts db e status granted db3" "facts_only db3 db'"
proof -
  from assms obtain q r where find: "find (\<lambda>(q, r). q = repo \<and> req_id r = aid \<and> req_workflow r = None) (approval_requests db) = Some (q, r)"
    by (auto simp: resolve_standalone_approval_request_def split: option.splits)
  then have r: "(repo, r) \<in> set (approval_requests db)" "req_id r = aid" "req_workflow r = None"
    by (auto dest: find_Some_mem)
  from assms find obtain operation where guards: "req_status r = ApPending" "req_digest r = expected" "ts < scope_expires_at (req_scope r)"
    "eligible_reviewer r who = Inr ()" "proposed_in sha expected (req_payload r) = Inr operation" "operation \<noteq> None"
    by (auto simp: resolve_standalone_approval_request_def result_simps split: if_splits)
  then obtain op where op: "operation = Some op" by blast
  from assms find guards obtain status db1 db2 db3 where "review_approval repo r who c why ts db = Inr ((e, status), db1)"
    "grant_if_approved repo r operation status who ts db1 = Inr (granted, db2)" "close_request repo aid status db2 = Inr db3"
    and tail: "(if status = ApApproved \<or> status = ApDenied then
        append_permission_fact repo (resolved_fact r e status (map_option (\<lambda>(g, _). grant_id g) granted)
          \<lparr>aggregate_kind = ''permission'', aggregate_id = req_policy_decision r, aggregate_revision = None\<rparr> who ts)
          ''approvals'' (uuid_text aid) 1 ts db3 = Inr db' else db' = db3)"
    by (auto simp: resolve_standalone_approval_request_def result_simps split: if_splits)
  with r(2) op have "resolve_core repo r (Some op) who c why ts db e status granted db3" by (auto simp: resolve_core_def)
  moreover have "facts_only db3 db'" using tail facts_only_permission by (auto split: if_splits)
  ultimately show thesis using r guards op by (intro that) simp_all
qed

lemma resolve_workflowE:
  assumes "resolve_approval_request sha repo wid aid n expected who c why ts db = Inr ((e, granted), db')"
  obtains r run operation status db3 db4 where "(repo, r) \<in> set (approval_requests db)" "req_id r = aid" "req_workflow r = Some wid"
    "req_status r = ApPending" "req_workflow_revision r = Some n" "req_digest r = expected"
    "find (\<lambda>run. workflow_id run = wid \<and> run_repository run = repo) (workflow_runs db) = Some run"
    "revision run = n" "run_status run = WfWaiting" "has_active_approval_wait repo wid aid db"
    "ts < scope_expires_at (req_scope r)" "eligible_reviewer r who = Inr ()"
    "resolve_core repo r operation who c why ts db e status granted db3"
    "if status = ApApproved \<or> status = ApDenied
      then \<exists>g. enqueue_workflow_signal repo wid (approval_key aid) (ApprovalResolvedSignal aid (evidence_id e))
        ts None db3 = Inr (g, db4) else db4 = db3" "facts_only db4 db'"
proof -
  from assms obtain q r where find: "find (\<lambda>(q, r). q = repo \<and> req_id r = aid \<and> req_workflow r = Some wid) (approval_requests db) = Some (q, r)"
    by (auto simp: resolve_approval_request_def split: option.splits)
  then have r: "(repo, r) \<in> set (approval_requests db)" "req_id r = aid" "req_workflow r = Some wid"
    by (auto dest: find_Some_mem)
  from assms find obtain run where run: "find (\<lambda>run. workflow_id run = wid \<and> run_repository run = repo) (workflow_runs db) = Some run"
    by (auto simp: resolve_approval_request_def split: option.splits if_splits)
  from assms find run obtain operation where guards: "req_status r = ApPending" "req_workflow_revision r = Some n"
    "req_digest r = expected" "revision run = n" "run_status run = WfWaiting" "has_active_approval_wait repo wid aid db"
    "ts < scope_expires_at (req_scope r)" "eligible_reviewer r who = Inr ()"
    "proposed_in sha expected (req_payload r) = Inr operation"
    by (auto simp: resolve_approval_request_def result_simps split: if_splits)
  let ?fact = "\<lambda>status. resolved_fact r e status (map_option (\<lambda>(g, _). grant_id g) granted)
    \<lparr>aggregate_kind = ''workflow'', aggregate_id = wid, aggregate_revision = Some n\<rparr> who ts"
  from assms find run guards obtain status db1 db2 db3 where "review_approval repo r who c why ts db = Inr ((e, status), db1)"
    "grant_if_approved repo r operation status who ts db1 = Inr (granted, db2)" "close_request repo aid status db2 = Inr db3"
    and tail: "if status = ApApproved \<or> status = ApDenied then \<exists>g db4. enqueue_workflow_signal repo wid (approval_key aid)
        (ApprovalResolvedSignal aid (evidence_id e)) ts None db3 = Inr (g, db4) \<and>
        append_permission_fact repo (?fact status) ''approvals'' (uuid_text aid) n ts db4 = Inr db' else db' = db3"
    by (auto simp: resolve_approval_request_def result_simps split: if_splits)
  with r(2) have core: "resolve_core repo r operation who c why ts db e status granted db3" by (auto simp: resolve_core_def)
  show thesis
  proof (cases "status = ApApproved \<or> status = ApDenied")
    case True
    with tail obtain g db4 where "enqueue_workflow_signal repo wid (approval_key aid)
        (ApprovalResolvedSignal aid (evidence_id e)) ts None db3 = Inr (g, db4)"
      "append_permission_fact repo (?fact status) ''approvals'' (uuid_text aid) n ts db4 = Inr db'" by auto
    with True r run guards core facts_only_permission show thesis by (intro that [of r run operation status db3 db4]) auto
  next
    case False
    with tail r run guards core show thesis by (intro that [of r run operation status db3 db3]) auto
  qed
qed

section \<open>Properties\<close>

text \<open>A step of the approval store: every other operation leaves requests, reviews and grants alone.\<close>

inductive approval_step :: "'z workflow_db_scheme \<Rightarrow> 'z workflow_db_scheme \<Rightarrow> bool" where
  requested: "save_approval_request repo r db = Inr db' \<Longrightarrow> req_status r = ApPending \<Longrightarrow> approval_step db db'"
| drafted: "insert_approval_requests repo wid n ds created db = Inr db' \<Longrightarrow> approval_step db db'"
| granted: "save_grant repo g db = Inr db' \<Longrightarrow> grant_approval g = None \<Longrightarrow> approval_step db db'"
| standalone: "resolve_standalone_approval_request sha repo aid expected who c why ts db = Inr (res, db') \<Longrightarrow> approval_step db db'"
| workflow: "resolve_approval_request sha repo wid aid n expected who c why ts db = Inr (res, db') \<Longrightarrow> approval_step db db'"
| elsewhere: "approval_requests db' = approval_requests db \<Longrightarrow> approval_evidences db' = approval_evidences db \<Longrightarrow>
    permission_grants db' = permission_grants db \<Longrightarrow> approval_step db db'"

lemma save_approval_request_inv:
  assumes "save_approval_request repo r db = Inr db'" and "req_status r = ApPending" and inv: "approval_inv db"
  shows "approval_inv db'"
proof -
  note new = save_approval_requestE [OF assms(1)]
  have fresh: "\<forall>(q, s) \<in> set (approval_requests db). req_id s \<noteq> req_id r"
    using assms(1) by (auto simp: save_approval_request_def list_ex_iff split: if_splits)
  have more: "evidence_ok (approval_requests db) x \<Longrightarrow> evidence_ok (approval_requests db @ [(repo, r)]) x"
    "grant_backed (approval_requests db) y \<Longrightarrow> grant_backed (approval_requests db @ [(repo, r)]) y" for x y
    by (fastforce simp: evidence_ok_def grant_backed_def split: prod.splits)+
  have "resolve_status s (approval_decisions q (req_id s) db') = Inr ApApproved"
    if "(q, s) \<in> set (approval_requests db')" "req_status s = ApApproved" for q s
    using that assms(2) inv by (auto simp: new(1,3) approval_decisions_def approval_inv_def)
  moreover have "distinct (map (\<lambda>(_, s). req_id s) (approval_requests db'))"
    using inv fresh by (auto simp: new(1) approval_inv_def)
  ultimately show ?thesis using inv more by (auto simp: approval_inv_def new(1,3,4))
qed

lemma insert_approval_requests_inv:
  assumes "insert_approval_requests repo wid n ds created db = Inr db'" and "approval_inv db"
  shows "approval_inv db'"
  using assms unfolding insert_approval_requests_def
proof (rule foldE_invariant)
  fix d u v assume "insert_approval_request repo wid n created d u = Inr v" and inv: "approval_inv u"
  then obtain q db1 r where decision: "save_decision repo q u = Inr db1" and request: "save_approval_request repo r db1 = Inr v"
    and pending: "req_status r = ApPending"
    by (fastforce simp: insert_approval_request_def Let_def result_simps split: if_splits)
  have "approval_inv db1"
    using decision by (intro approval_inv_frame [OF inv]) (auto simp: save_decision_def split: if_splits)
  from save_approval_request_inv [OF request pending this] show "approval_inv v" .
qed

lemma facts_only_approval_inv: "facts_only db db' \<Longrightarrow> approval_inv db \<Longrightarrow> approval_inv db'"
  using permission_tables_cong [OF facts_only_more] by (metis approval_inv_frame)

lemma satisfy_waits_permission:
  "approval_requests (satisfy_waits repo wid ts sid body db) = approval_requests db \<and>
   approval_evidences (satisfy_waits repo wid ts sid body db) = approval_evidences db \<and>
   permission_grants (satisfy_waits repo wid ts sid body db) = permission_grants db \<and>
   retained_facts (satisfy_waits repo wid ts sid body db) = retained_facts db"
proof -
  have "approval_requests (fold (satisfy_listed repo wid ts sid body) ws db) = approval_requests db \<and>
      approval_evidences (fold (satisfy_listed repo wid ts sid body) ws db) = approval_evidences db \<and>
      permission_grants (fold (satisfy_listed repo wid ts sid body) ws db) = permission_grants db \<and>
      retained_facts (fold (satisfy_listed repo wid ts sid body) ws db) = retained_facts db" for ws
    by (induction ws arbitrary: db) (simp_all add: satisfy_listed_def satisfy_wait_def)
  then show ?thesis by (simp add: satisfy_waits_eq)
qed

lemma enqueue_permission:
  assumes "enqueue_workflow_signal repo wid key body ts sid db = Inr (g, db')"
  shows "approval_requests db' = approval_requests db" "approval_evidences db' = approval_evidences db"
    "permission_grants db' = permission_grants db" "retained_facts db' = retained_facts db"
  using assms by (cases rule: enqueueE; simp add: satisfy_waits_permission uuid4_def)+

lemma enqueue_approval_inv:
  "enqueue_workflow_signal repo wid key body ts sid db = Inr (g, db') \<Longrightarrow> approval_inv db \<Longrightarrow> approval_inv db'"
  by (rule approval_inv_frame) (simp_all add: enqueue_permission)

lemma resolve_workflow_inv:
  assumes "resolve_approval_request sha repo wid aid n expected who c why ts db = Inr (res, db')" and inv: "approval_inv db"
  shows "approval_inv db'"
proof -
  obtain e granted where res: "res = (e, granted)" by fastforce
  from assms(1) [unfolded res] show ?thesis
  proof (rule resolve_workflowE, goal_cases)
    case (1 r run operation status db3 db4)
    then have "approval_inv db3" using resolve_core_inv [OF 1(13) inv 1(1,4,12)] by simp
    then have "approval_inv db4"
      using 1(14) by (auto split: if_splits intro: enqueue_approval_inv)
    with 1(15) show ?case by (rule facts_only_approval_inv)
  qed
qed

lemma approval_step_inv: "approval_step db db' \<Longrightarrow> approval_inv db \<Longrightarrow> approval_inv db'"
proof (induction rule: approval_step.induct)
  case (requested repo r db db')
  show ?case by (rule save_approval_request_inv [OF requested.hyps requested.prems])
next
  case (drafted repo wid n ds created db db')
  then show ?case by (rule insert_approval_requests_inv)
next
  case (granted repo g db db')
  note new = save_grantE(1) [OF granted.hyps(1)] save_grant_rest [OF granted.hyps(1)]
  with granted show ?case
    by (auto simp: approval_inv_def approval_decisions_def granted_approvals_def grant_backed_def)
next
  case (standalone sha repo aid expected who c why ts db res db')
  obtain e given where res: "res = (e, given)" by fastforce
  show ?case
  proof (rule resolve_standaloneE [OF standalone.hyps [unfolded res]], goal_cases)
    case (1 r op status db3)
    show ?case by (rule facts_only_approval_inv [OF 1(10) resolve_core_inv [OF 1(9) standalone.prems 1(1,4,7)]])
  qed
next
  case (workflow sha repo wid aid n expected who c why ts db res db')
  then show ?case by (rule resolve_workflow_inv)
next
  case (elsewhere db' db)
  show ?case by (rule approval_inv_frame [OF elsewhere.prems elsewhere.hyps])
qed

lemma approval_steps_inv: "approval_step\<^sup>*\<^sup>* db db' \<Longrightarrow> approval_inv db \<Longrightarrow> approval_inv db'"
  by (induction rule: rtranclp_induct) (auto intro: approval_step_inv)

text \<open>
  C16: no authority without review. Over any sequence of operations of the approval store, every grant that names an
  approval belongs to a request with that id that is approved, for the very digest, subject and scope that
  were requested; the reviews stored for it satisfy its reviewer policy, none of them denies it, each
  is for that digest and by an eligible kind of reviewer; and no other grant names the approval.
\<close>

theorem approvals_back_grants:
  assumes "approval_step\<^sup>*\<^sup>* db db'" and "approval_inv db"
  shows "(\<forall>(q, g) \<in> set (permission_grants db'). \<forall>a. grant_approval g = Some a \<longrightarrow>
      (\<exists>r. (q, r) \<in> set (approval_requests db') \<and> req_id r = a \<and> req_status r = ApApproved \<and>
         grant_digest g = req_digest r \<and> issued_to g = req_by r \<and> grant_scope g = req_scope r \<and>
         policy_met r (approval_decisions q a db') \<and>
         (\<forall>e \<in> set (approval_decisions q a db'). evidence_digest e = req_digest r \<and>
            (\<exists>k \<in> set (req_reviewers r). reviewer_kind_of (reviewer e) = Inr k)))) \<and>
    distinct (granted_approvals (permission_grants db'))"
proof -
  have inv: "approval_inv db'" by (rule approval_steps_inv [OF assms])
  have "policy_met r (approval_decisions q (req_id r) db') \<and>
      (\<forall>e \<in> set (approval_decisions q (req_id r) db'). evidence_digest e = req_digest r \<and>
         (\<exists>k \<in> set (req_reviewers r). reviewer_kind_of (reviewer e) = Inr k))"
    if r: "(q, r) \<in> set (approval_requests db')" "req_status r = ApApproved" for q r
  proof -
    have "policy_met r (approval_decisions q (req_id r) db')"
      using inv r by (auto simp: approval_inv_def intro: resolve_status_approved)
    moreover have "evidence_digest e = req_digest r \<and> (\<exists>k \<in> set (req_reviewers r). reviewer_kind_of (reviewer e) = Inr k)"
      if "e \<in> set (approval_decisions q (req_id r) db')" for e
    proof -
      from that have e: "(q, e) \<in> set (approval_evidences db')" "evidence_approval e = req_id r"
        by (auto simp: approval_decisions_def)
      with inv obtain s where s: "(q, s) \<in> set (approval_requests db')" "req_id s = req_id r"
        "evidence_digest e = req_digest s" "eligible_reviewer s (reviewer e) = Inr ()"
        by (fastforce simp: approval_inv_def evidence_ok_def)
      with same_request [OF inv s(1) r(1)] show ?thesis
        by (auto simp: eligible_reviewer_def result_simps split: if_splits)
    qed
    ultimately show ?thesis by blast
  qed
  with inv show ?thesis by (fastforce simp: approval_inv_def grant_backed_def)
qed

lemma resolve_core_tables:
  assumes "resolve_core repo r operation who c why ts db e status granted db'"
  shows "permission_db.more db' = permission_db.more db"
    and "resolve_status r (approval_decisions repo (req_id r) db') = Inr status"
    and "granted \<noteq> None \<longleftrightarrow> status = ApApproved"
    and "evidence_approval e = req_id r" "(repo, e) \<in> set (approval_evidences db')"
proof -
  obtain db1 db2 where review: "review_approval repo r who c why ts db = Inr ((e, status), db1)"
    and grant: "grant_if_approved repo r operation status who ts db1 = Inr (granted, db2)"
    and close: "close_request repo (req_id r) status db2 = Inr db'"
    using assms by (auto simp: resolve_core_def)
  note ev = review_approvalE [OF review] and cl = close_requestE [OF close]
  have "permission_db.more db2 = permission_db.more db1" "approval_evidences db2 = approval_evidences db1"
    "granted \<noteq> None \<longleftrightarrow> status = ApApproved"
    by (cases rule: grant_if_approvedE [OF grant]; simp)+
  with ev cl show "permission_db.more db' = permission_db.more db"
    and "resolve_status r (approval_decisions repo (req_id r) db') = Inr status"
    and "granted \<noteq> None \<longleftrightarrow> status = ApApproved"
    and "evidence_approval e = req_id r" "(repo, e) \<in> set (approval_evidences db')"
    by (simp_all add: approval_decisions_def)
qed

lemma resolve_status_denied: "resolve_status r ds = Inr ApDenied \<longleftrightarrow> (\<exists>e \<in> set ds. choice e = Deny)"
  by (auto simp: resolve_status_def list_ex_iff Let_def result_simps split: if_splits approval_policy.splits)

lemma resolve_status_cases: "resolve_status r ds = Inr s \<Longrightarrow> s = ApApproved \<or> s = ApDenied \<or> s = ApPending"
  by (auto simp: resolve_status_def Let_def result_simps split: if_splits approval_policy.splits)

lemma no_active_wait:
  assumes "workflow_waits db' = update_where (\<lambda>w. waits_of repo wid w \<and> satisfied_at w = None \<and>
      signal_satisfies_wait finished (ApprovalResolvedSignal aid d) (wait_spec w)) (satisfied_wait ts sid) ws"
  shows "\<not> has_active_approval_wait repo wid aid db'"
proof -
  have "\<not> (waits_of repo wid w \<and> satisfied_at w = None \<and> wait_spec w = ApprovalWait aid)" if "w \<in> set (workflow_waits db')" for w
  proof
    assume w: "waits_of repo wid w \<and> satisfied_at w = None \<and> wait_spec w = ApprovalWait aid"
    from that obtain v where v: "w = (if waits_of repo wid v \<and> satisfied_at v = None \<and>
        signal_satisfies_wait finished (ApprovalResolvedSignal aid d) (wait_spec v) then satisfied_wait ts sid v else v)"
      unfolding assms set_update_where by blast
    show False
    proof (cases "waits_of repo wid v \<and> satisfied_at v = None \<and>
        signal_satisfies_wait finished (ApprovalResolvedSignal aid d) (wait_spec v)")
      case True
      with v w show False by simp
    next
      case False
      with v w show False by auto
    qed
  qed
  then show ?thesis by (auto simp: has_active_approval_wait_def list_ex_iff)
qed

text \<open>a resolved approval wakes its workflow, and only a resolved one. The review that completes the policy, or
  denies, puts exactly one pending signal with its evidence into the run's inbox and satisfies the run's open
  waits for this approval; before that a review changes neither the inbox nor the waits. A grant is
  issued exactly when the reviews satisfy the policy.
\<close>

theorem resolution_wakes_workflow:
  assumes "resolve_approval_request sha repo wid aid n expected who c why ts db = Inr ((e, granted), db')"
    and "find (\<lambda>h. signals_of repo wid h \<and> deduplication_key h = approval_key aid) (workflow_signals db) = None"
    and "distinct (map wait_id (workflow_waits db))"
  shows "\<exists>r. (repo, r) \<in> set (approval_requests db) \<and> req_id r = aid \<and> req_status r = ApPending \<and>
    (granted \<noteq> None \<longrightarrow> policy_met r (approval_decisions repo aid db')) \<and>
    (if granted \<noteq> None \<or> (\<exists>d \<in> set (approval_decisions repo aid db'). choice d = Deny)
     then (\<exists>g. workflow_signals db' = workflow_signals db @ [g] \<and> signals_of repo wid g \<and> consumed_at g = None \<and>
             signal_payload g = ApprovalResolvedSignal aid (evidence_id e)) \<and>
           \<not> has_active_approval_wait repo wid aid db'
     else workflow_signals db' = workflow_signals db \<and> workflow_waits db' = workflow_waits db)"
  using assms(1)
proof (rule resolve_workflowE, goal_cases)
  case (1 r run operation status db3 db4)
  note core = resolve_core_tables [OF 1(13)] and db4 = facts_only_workflow [OF 1(15)]
  note db3 = workflow_tables_cong [OF core(1)]
  have "facts_only db4 db'" by (rule 1(15))
  have same: "approval_decisions repo aid db' = approval_decisions repo aid db3"
  proof -
    have "approval_evidences db4 = approval_evidences db3"
      using 1(14) by (auto split: if_splits intro: enqueue_permission(2))
    then show ?thesis using permission_tables_cong(3) [OF facts_only_more [OF 1(15)]] by (simp add: approval_decisions_def)
  qed
  have resolved: "status = ApApproved \<or> status = ApDenied \<longleftrightarrow>
      granted \<noteq> None \<or> (\<exists>d \<in> set (approval_decisions repo aid db'). choice d = Deny)"
    using core(2,3) resolve_status_denied [of r "approval_decisions repo aid db'"] 1(2) by (auto simp: same)
  have policy: "granted \<noteq> None \<longrightarrow> policy_met r (approval_decisions repo aid db')"
    using core(2,3) 1(2) by (auto simp: same intro: resolve_status_approved)
  show ?case
  proof (cases "status = ApApproved \<or> status = ApDenied")
    case True
    with 1(14) obtain g where enq: "enqueue_workflow_signal repo wid (approval_key aid)
        (ApprovalResolvedSignal aid (evidence_id e)) ts None db3 = Inr (g, db4)" by auto
    from enqueue_new [OF enq] assms(2,3) have new: "workflow_waits db4 = update_where
        (\<lambda>w. waits_of repo wid w \<and> satisfied_at w = None \<and>
          signal_satisfies_wait (finished_activities repo wid db4) (ApprovalResolvedSignal aid (evidence_id e)) (wait_spec w))
        (satisfied_wait ts (signal_id g)) (workflow_waits db)"
      "\<exists>row. workflow_signals db4 = workflow_signals db @ [row] \<and> signals_of repo wid row \<and>
         signal_payload row = ApprovalResolvedSignal aid (evidence_id e) \<and> consumed_at row = None"
      by (auto simp: db3)
    have "\<not> has_active_approval_wait repo wid aid db'" by (rule no_active_wait [OF trans [OF db4(2) new(1)]])
    with True new(2) resolved policy 1(1,2,4) show ?thesis by (intro exI [of _ r]) (auto simp: db4(3))
  next
    case False
    with 1(1,2,4,14) resolved policy db3 db4 show ?thesis by (intro exI [of _ r]) auto
  qed
qed

subsection \<open>A store to run them on\<close>

definition sample_draft :: approval_draft where
  "sample_draft = \<lparr>approval_id = UUID 8, operation_digest = replicate 64 (CHR ''0''), approval_summary = [],
     approval_details = [], required_reviewers = [HumanReviewer], approval_policy = PolicyHumanRequired,
     requested_by = \<lparr>principal_kind = WORKFLOW, principal_id = ''w''\<rparr>, draft_scope = sample_scope\<rparr>"

definition sample_request :: approval_request where
  "sample_request = \<lparr>req_id = UUID 8, req_policy_decision = UUID 6, req_digest = replicate 64 (CHR ''0''),
     req_status = ApPending, req_reviewers = [HumanReviewer], req_policy = PolicyHumanRequired, req_scope = sample_scope,
     requested_at = 1, req_by = \<lparr>principal_kind = WORKFLOW, principal_id = ''w''\<rparr>, req_workflow = Some (UUID 1),
     req_workflow_revision = Some 3, req_description = [], req_payload = DraftPayload sample_draft\<rparr>"

definition sample_reviewer :: principal where
  "sample_reviewer = \<lparr>principal_kind = USER, principal_id = ''u''\<rparr>"

definition sample_approval_store :: workflow_db where
  "sample_approval_store = sample_store\<lparr>approval_requests := [(''r'', sample_request)]\<rparr>"

lemma sample_request_sel [simp]:
  "req_id sample_request = UUID 8" "req_status sample_request = ApPending" "req_workflow sample_request = Some (UUID 1)"
  "req_workflow_revision sample_request = Some 3" "req_digest sample_request = replicate 64 (CHR ''0'')"
  "req_policy sample_request = PolicyHumanRequired" "req_payload sample_request = DraftPayload sample_draft"
  "scope_expires_at (req_scope sample_request) = 100" "scope_operation_types (req_scope sample_request) = [''tool.invoke'']"
  "eligible_reviewer sample_request sample_reviewer = Inr ()" "reviewer_kind_of sample_reviewer = Inr HumanReviewer"
  by (simp_all add: sample_request_def sample_scope_def eligible_reviewer_def reviewer_kind_of_def sample_reviewer_def)

lemma sample_approval_store_sel [simp]:
  "approval_requests sample_approval_store = [(''r'', sample_request)]" "approval_evidences sample_approval_store = []"
  "permission_grants sample_approval_store = [(''r'', sample_grant)]" "retained_facts sample_approval_store = []"
  "workflow_runs sample_approval_store = workflow_runs sample_store"
  "workflow_waits sample_approval_store = workflow_waits sample_store" "workflow_signals sample_approval_store = []"
  by (simp_all add: sample_approval_store_def sample_store_def sample_permission_db_def empty_fact_db_def fact_db.defs
      permission_db.defs workflow_db.defs)

lemma append_permission_fact_ids:
  assumes "append_permission_fact repo draft proj key gen ts db = Inr db'"
  shows "fact_id ` set (retained_facts db') \<subseteq> insert (fact_id draft) (fact_id ` set (retained_facts db))"
  using assms by (auto simp: append_permission_fact_def frame_simps elim!: append_fact_dbE split: prod.splits)

lemma sample_resolution:
  "\<exists>res db'. resolve_approval_request (\<lambda>_. []) ''r'' (UUID 1) (UUID 8) 3 (replicate 64 (CHR ''0'')) sample_reviewer Approve [] 5
     sample_approval_store = Inr (res, db')"
proof -
  let ?db = sample_approval_store and ?r = sample_request
  obtain did db0 where d0: "uuid4 ?db = (did, db0)" by fastforce
  note s0 = uuid4_permission [OF d0] uuid4_tables [of ?db, unfolded d0, simplified]
  define e where "e = \<lparr>evidence_id = did, evidence_approval = UUID 8, evidence_digest = replicate 64 (CHR ''0''),
    choice = Approve, reviewer = sample_reviewer, review_rationale = [], evidence_at = 5\<rparr>"
  define db1 where "db1 = db0\<lparr>approval_evidences := [(''r'', e)]\<rparr>"
  have review: "review_approval ''r'' ?r sample_reviewer Approve [] 5 ?db = Inr ((e, ApApproved), db1)"
    using s0 by (simp add: review_approval_def d0 save_approval_def db1_def e_def approval_decisions_def resolve_status_def Let_def)
  obtain gid db2 where d1: "uuid4 db1 = (gid, db2)" by fastforce
  let ?g = "approved_grant ?r gid sample_reviewer 5"
  have gid: "gid = UUID4 (uuid_draws db1)" using d1 by (auto simp: uuid4_def)
  note s1 = uuid4_permission [OF d1] uuid4_tables [of db1, unfolded d1, simplified]
  have facts0: "retained_facts db2 = []"
    using d0 d1 by (auto simp: uuid4_def db1_def)
  have grants: "permission_grants db2 = [(''r'', sample_grant)]" using s0 s1 by (simp add: db1_def)
  have "\<forall>f \<in> set (retained_facts (db2\<lparr>permission_grants := permission_grants db2 @ [(''r'', ?g)]\<rparr>)).
      fact_id f \<noteq> fact_id (grant_issued_fact ?g)" by (simp add: facts0)
  from append_permission_factI [OF this] obtain db3 where issued: "append_permission_fact ''r'' (grant_issued_fact ?g) ''permissions''
      (uuid_text gid) 0 5 (db2\<lparr>permission_grants := permission_grants db2 @ [(''r'', ?g)]\<rparr>) = Inr db3" by blast
  have save: "save_grant ''r'' ?g db2 = Inr db3"
    using issued by (simp add: save_grant_def grants approved_grant_def gid sample_grant_def)
  obtain auid db4 where d2: "uuid4 db3 = (auid, db4)" by fastforce
  obtain a where grant: "grant_if_approved ''r'' ?r None ApApproved sample_reviewer 5 db1 = Inr (Some (?g, a), db4)"
    by (simp add: grant_if_approved_def d1 save d2 authorize_approved_def Let_def)
  have db4: "approval_requests db4 = [(''r'', ?r)]" "permission_db.more db4 = permission_db.more ?db"
    using save_grant_rest [OF save] uuid4_permission [OF d2] s0 s1 by (simp_all add: db1_def)
  define db5 where "db5 = db4\<lparr>approval_requests := [(''r'', ?r\<lparr>req_status := ApApproved\<rparr>)]\<rparr>"
  have close: "close_request ''r'' (UUID 8) ApApproved db4 = Inr db5"
    by (simp add: close_request_def db4 count_where_def db5_def)
  have "permission_db.more db5 = permission_db.more ?db" by (simp add: db5_def db4)
  note w5 = workflow_tables_cong [OF this]
  obtain g db6 where enq: "enqueue_workflow_signal ''r'' (UUID 1) (approval_key (UUID 8)) (ApprovalResolvedSignal (UUID 8) did) 5 None db5
      = Inr (g, db6)"
    using w5 by (simp add: enqueue_workflow_signal_def require_workflow_run_def get_workflow_run_def run_row_named_def
      get_workflow_signal_def find_append Let_def approval_key_def uuid4_def split: option.splits)
  have "fact_id ` set (retained_facts db6) \<subseteq> {gid}"
  proof -
    have "retained_facts db6 = retained_facts db3" using d2 by (auto simp: enqueue_permission(4) [OF enq] db5_def uuid4_def)
    with append_permission_fact_ids [OF issued] show ?thesis
      by (simp add: facts0 grant_issued_fact_def simple_fact_def approved_grant_def)
  qed
  then have "\<forall>f \<in> set (retained_facts db6). fact_id f \<noteq> fact_id (resolved_fact ?r e ApApproved (Some gid) agg sample_reviewer 5)" for agg
    by (auto simp: resolved_fact_def simple_fact_def gid)
  from append_permission_factI [OF this] obtain db7 where "append_permission_fact ''r''
      (resolved_fact ?r e ApApproved (Some gid) \<lparr>aggregate_kind = ''workflow'', aggregate_id = UUID 1, aggregate_revision = Some 3\<rparr>
        sample_reviewer 5) ''approvals'' (uuid_text (UUID 8)) 3 5 db6 = Inr db7" by blast
  moreover have "has_active_approval_wait ''r'' (UUID 1) (UUID 8) ?db"
    by (simp add: has_active_approval_wait_def waits_of_def)
  moreover have "grant_id ?g = gid" "evidence_id e = did" by (simp_all add: approved_grant_def e_def)
  ultimately show ?thesis
    using review grant close enq by (simp add: resolve_approval_request_def proposed_in_def)
qed

lemma sample_approval_inv: "approval_inv sample_approval_store"
  by (simp add: approval_inv_def grant_backed_def sample_grant_def granted_approvals_def)

theorem approvals_back_grants_witness:
  "\<exists>res db'. resolve_approval_request (\<lambda>_. []) ''r'' (UUID 1) (UUID 8) 3 (replicate 64 (CHR ''0'')) sample_reviewer Approve [] 5
     sample_approval_store = Inr (res, db') \<and> distinct (granted_approvals (permission_grants db'))"
proof -
  obtain res db' where run: "resolve_approval_request (\<lambda>_. []) ''r'' (UUID 1) (UUID 8) 3 (replicate 64 (CHR ''0''))
      sample_reviewer Approve [] 5 sample_approval_store = Inr (res, db')" using sample_resolution by blast
  then have "approval_step\<^sup>*\<^sup>* sample_approval_store db'" by (intro r_into_rtranclp approval_step.workflow)
  from approvals_back_grants [OF this sample_approval_inv] run show ?thesis by blast
qed

theorem resolution_wakes_workflow_witness:
  "\<exists>res db'. resolve_approval_request (\<lambda>_. []) ''r'' (UUID 1) (UUID 8) 3 (replicate 64 (CHR ''0'')) sample_reviewer Approve [] 5
     sample_approval_store = Inr (res, db') \<and>
     (snd res \<noteq> None \<longrightarrow> \<not> has_active_approval_wait ''r'' (UUID 1) (UUID 8) db')"
proof -
  obtain e granted db' where run: "resolve_approval_request (\<lambda>_. []) ''r'' (UUID 1) (UUID 8) 3 (replicate 64 (CHR ''0''))
      sample_reviewer Approve [] 5 sample_approval_store = Inr ((e, granted), db')" using sample_resolution by fast
  have "find (\<lambda>h. signals_of ''r'' (UUID 1) h \<and> deduplication_key h = approval_key (UUID 8))
      (workflow_signals sample_approval_store) = None" "distinct (map wait_id (workflow_waits sample_approval_store))"
    by simp_all
  from resolution_wakes_workflow [OF run this] run show ?thesis by (auto split: if_splits)
qed

end
