(* ===== verification/PermissionService.thy ===== *)
theory PermissionService
  imports Approvals
begin

text \<open>
  The permission service, \<open>murder/permissions/service.py\<close>, with the local policy of \<open>policy.py\<close> and the
  enforcement wrapper of \<open>enforcement.py\<close>: an operation is decided by the policy, an allowed one gets a grant and a
  proof, and the proof is checked against the operation and consumed immediately before the side effect.
  The policy is an argument of \<open>request\<close>, as in the code; the clock is the argument \<open>now\<close>
  (and \<open>later\<close> where one call reads it twice).

  A refusal that the code raises after its transaction committed is an answer next to the new state; an
  error that rolls the transaction back has no state. Lemmas: what a refused, allowed or deferred
  request leaves behind, what enforcement checks, and that a proof works at most once.
\<close>

section \<open>The local policy\<close>

definition destructive_client_types :: "string list" where
  "destructive_client_types = [''tool.invoke'', ''file.mutate'', ''network.request'', ''secret.access'', ''git.mutate'']"

definition local_policy_id :: string where
  "local_policy_id = ''murder.local-service.v1''"

definition local_policy :: "proposed_operation \<Rightarrow> policy_outcome \<times> string" where
  "local_policy op =
     (let kind = principal_kind (operation_principal op) in
      (if operation_type op = ''session.writer.takeover''
       then RequireApprovalDecision ''writer takeover requires explicit approval'' [HumanReviewer] PolicyHumanRequired
       else if (kind = USER \<or> kind = CLIENT \<or> kind = LLM) \<and> List.member destructive_client_types (operation_type op)
       then RequireApprovalDecision
         (operation_type op @ '' from '' @ principal_kind_value kind @ '' requires explicit approval'')
         [HumanReviewer] PolicyHumanRequired
       else if kind = SERVICE \<or> kind = WORKFLOW then AllowDecision ''trusted local automation principal''
       else if operation_type op = ''terminal.write'' \<and> (kind = USER \<or> kind = CLIENT) \<and> operation_fence op \<noteq> None
       then AllowDecision ''interactive terminal write is separately holder-fenced''
       else DenyDecision ''operation is not allowed by the local service policy'',
       local_policy_id))"

section \<open>Scopes\<close>

definition op_session :: "proposed_operation \<Rightarrow> uuid option" where
  "op_session op = (case op of
     TerminalWrite _ _ s _ _ _ _ _ \<Rightarrow> Some s | SessionControl _ _ s _ _ \<Rightarrow> Some s
   | WriterTakeover _ _ s _ _ _ _ _ \<Rightarrow> Some s | _ \<Rightarrow> None)"

definition op_repository :: "proposed_operation \<Rightarrow> uuid option" where
  "op_repository op = (case op of
     ToolInvocation _ _ _ _ _ r _ _ \<Rightarrow> r | FileMutation _ _ r _ _ _ \<Rightarrow> Some r
   | GitOperation _ _ r _ _ _ _ _ _ \<Rightarrow> Some r | _ \<Rightarrow> None)"

definition op_workflow :: "proposed_operation \<Rightarrow> uuid option" where
  "op_workflow op = (case op of
     ToolInvocation _ _ _ _ _ _ w _ \<Rightarrow> w | NetworkOperation _ _ _ _ _ w _ \<Rightarrow> w
   | SecretAccess _ _ _ _ w _ \<Rightarrow> w | _ \<Rightarrow> None)"

definition op_activity :: "proposed_operation \<Rightarrow> uuid option" where
  "op_activity op = (case op of
     ToolInvocation _ _ _ _ _ _ _ a \<Rightarrow> a | NetworkOperation _ _ _ _ _ _ a \<Rightarrow> a
   | SecretAccess _ _ _ _ _ a \<Rightarrow> a | _ \<Rightarrow> None)"

definition op_destination :: "proposed_operation \<Rightarrow> string option" where
  "op_destination op = (case op of NetworkOperation _ _ d _ _ _ _ \<Rightarrow> Some d | _ \<Rightarrow> None)"

definition operation_path :: "proposed_operation \<Rightarrow> string option" where
  "operation_path op = (case op of
     FileMutation _ _ _ p _ _ \<Rightarrow> Some p | GitOperation _ _ _ _ _ w _ _ _ \<Rightarrow> w | _ \<Rightarrow> None)"

definition opt_list :: "'a option \<Rightarrow> 'a list" where
  "opt_list x = (case x of None \<Rightarrow> [] | Some y \<Rightarrow> [y])"

definition scope_for :: "proposed_operation \<Rightarrow> time \<Rightarrow> grant_scope" where
  "scope_for op expires = \<lparr>scope_repositories = opt_list (op_repository op), scope_workflows = opt_list (op_workflow op),
     scope_activities = opt_list (op_activity op), scope_sessions = opt_list (op_session op),
     scope_operation_types = [operation_type op],
     scope_paths = filter (\<lambda>p. p \<noteq> []) (opt_list (operation_path op)),
     scope_destinations = filter (\<lambda>d. d \<noteq> []) (opt_list (op_destination op)),
     max_uses = 1, scope_expires_at = expires\<rparr>"

definition rstrip_slash :: "string \<Rightarrow> string" where
  "rstrip_slash s = rev (dropWhile (\<lambda>c. c = CHR ''/'') (rev s))"

definition path_allowed :: "string \<Rightarrow> string list \<Rightarrow> bool" where
  "path_allowed path prefixes =
     list_ex (\<lambda>p. path = p \<or> starts_with (rstrip_slash p @ ''/'') path) prefixes"

definition dimension_allowed :: "uuid option \<Rightarrow> uuid list \<Rightarrow> bool" where
  "dimension_allowed i allowed = (case i of None \<Rightarrow> True | Some u \<Rightarrow> List.member allowed u)"

definition scope_error :: "proposed_operation \<Rightarrow> grant_scope \<Rightarrow> string option" where
  "scope_error op s =
     (if \<not> List.member (scope_operation_types s) (operation_type op)
      then Some ''grant does not include this operation type''
      else if \<not> dimension_allowed (op_repository op) (scope_repositories s) then Some ''grant does not include this repository''
      else if \<not> dimension_allowed (op_workflow op) (scope_workflows s) then Some ''grant does not include this workflow''
      else if \<not> dimension_allowed (op_activity op) (scope_activities s) then Some ''grant does not include this activity''
      else if \<not> dimension_allowed (op_session op) (scope_sessions s) then Some ''grant does not include this session''
      else if (case operation_path op of None \<Rightarrow> False | Some p \<Rightarrow> \<not> path_allowed p (scope_paths s))
      then Some ''grant does not include this path''
      else if (case op_destination op of None \<Rightarrow> False | Some d \<Rightarrow> \<not> List.member (scope_destinations s) d)
      then Some ''grant does not include this destination''
      else None)"

section \<open>Requests\<close>

datatype answer = Authorized authorization | Refused exn

definition policy_issuer :: principal where
  "policy_issuer = \<lparr>principal_kind = SERVICE, principal_id = ''murder.permission-policy''\<rparr>"

definition issue :: "(json \<Rightarrow> string) \<Rightarrow> string \<Rightarrow> proposed_operation \<Rightarrow> uuid \<Rightarrow> principal \<Rightarrow> time \<Rightarrow> time \<Rightarrow>
    'z permission_db_scheme \<Rightarrow> exn + authorization \<times> 'z permission_db_scheme" where
  "issue sha repo op did who now ttl db =
     bindE (canonical_scope (scope_for op (now + ttl))) (\<lambda>scope.
     let (gid, db) = uuid4 db;
         g = \<lparr>grant_id = gid, grant_digest = digest_of sha op, issued_to = operation_principal op, issued_by = who,
              grant_scope = scope, issued_at = now, grant_approval = None, grant_decision = did,
              revoked_at = None, revocation_reason = None, grant_uses = 0\<rparr>
     in
     bindE (save_grant repo g db) (\<lambda>db.
     let (auid, db) = uuid4 db in
     Inr (\<lparr>authorization_id = auid, auth_grant = gid, auth_operation = operation_id op, auth_type = operation_type op,
           auth_digest = digest_of sha op, auth_subject = operation_principal op, auth_issued_at = now,
           auth_expires_at = scope_expires_at scope, auth_fence = operation_fence op\<rparr>, db)))"

definition request_approval :: "(json \<Rightarrow> string) \<Rightarrow> string \<Rightarrow> proposed_operation \<Rightarrow> uuid \<Rightarrow> string \<Rightarrow> reviewer_kind list \<Rightarrow>
    approval_policy \<Rightarrow> time \<Rightarrow> time \<Rightarrow> 'z permission_db_scheme \<Rightarrow> exn + uuid \<times> 'z permission_db_scheme" where
  "request_approval sha repo op did reason reviewers rp now ttl db =
     (let (aid, db) = uuid4 db in
      bindE (canonical_scope (scope_for op (now + ttl))) (\<lambda>scope.
      bindE (sized (valid_reviewer_policy reviewers rp)) (\<lambda>_.
      bindE (save_approval_request repo \<lparr>req_id = aid, req_policy_decision = did, req_digest = digest_of sha op,
          req_status = ApPending, req_reviewers = reviewers, req_policy = rp, req_scope = scope, requested_at = now,
          req_by = operation_principal op, req_workflow = None, req_workflow_revision = None,
          req_description = reason, req_payload = OperationPayload op\<rparr> db) (\<lambda>db. Inr (aid, db)))))"

definition request_permission :: "(proposed_operation \<Rightarrow> policy_outcome \<times> string) \<Rightarrow> (json \<Rightarrow> string) \<Rightarrow> string \<Rightarrow> time \<Rightarrow> time \<Rightarrow>
    proposed_operation \<Rightarrow> 'z permission_db_scheme \<Rightarrow> exn + answer \<times> 'z permission_db_scheme" where
  "request_permission policy sha repo now ttl op db =
     (let (outcome, pid) = policy op; (did, db) = uuid4 db in
      bindE (save_decision repo \<lparr>decision_id = did, decided_operation = operation_id op,
          decided_digest = digest_of sha op, decision_outcome = outcome, policy_id = pid, decided_at = now\<rparr> db) (\<lambda>db.
      case outcome of
        RequireApprovalDecision reason reviewers rp \<Rightarrow>
          bindE (request_approval sha repo op did reason reviewers rp now ttl db)
            (\<lambda>(aid, db). Inr (Refused (ApprovalRequiredError aid), db))
      | DenyDecision reason \<Rightarrow> Inr (Refused (PermissionDeniedError reason), db)
      | TransformDecision reason _ \<Rightarrow> Inr (Refused (PermissionDeniedError
          ''policy transformed the operation; submit the recorded transformed operation''), db)
      | AllowDecision reason \<Rightarrow>
          bindE (issue sha repo op did policy_issuer now ttl db) (\<lambda>(a, db). Inr (Authorized a, db))))"

definition decide_approval :: "(json \<Rightarrow> string) \<Rightarrow> string \<Rightarrow> time \<Rightarrow> proposed_operation \<Rightarrow> policy_decision \<Rightarrow> approval_request \<Rightarrow>
    principal \<Rightarrow> approval_choice \<Rightarrow> string \<Rightarrow> approval_evidence list \<Rightarrow> 'z permission_db_scheme \<Rightarrow>
    exn + answer \<times> 'z permission_db_scheme" where
  "decide_approval sha repo now op decision r who c why prior db =
     (if decided_digest decision \<noteq> digest_of sha op
      then Inl (InvalidAuthorizationError ''approval policy decision targets another operation'')
      else if req_policy_decision r \<noteq> decision_id decision \<or> req_digest r \<noteq> digest_of sha op
      then Inl (InvalidAuthorizationError ''approval request targets another decision'')
      else if prior \<noteq> []
      then Inl (InvalidAuthorizationError ''callers must not supply approval evidence. The service loads it from persistence'')
      else
        bindE (resolve_standalone_approval_request sha repo (req_id r) (digest_of sha op) who c why now db)
          (\<lambda>((e, granted), db).
          case granted of
            Some (g, a) \<Rightarrow> Inr (Authorized a, db)
          | None \<Rightarrow> Inr (Refused (PermissionDeniedError (''approval is '' @
              (case get_approval_request repo (req_id r) db of None \<Rightarrow> ''unavailable''
               | Some s \<Rightarrow> approval_status_value (req_status s)))), db)))"

section \<open>Enforcement\<close>

definition invalid :: "string \<Rightarrow> exn + 'a" where
  "invalid why = Inl (InvalidAuthorizationError why)"

definition enforce :: "(json \<Rightarrow> string) \<Rightarrow> string \<Rightarrow> time \<Rightarrow> proposed_operation \<Rightarrow> authorization \<Rightarrow>
    'z permission_db_scheme \<Rightarrow> exn + 'z permission_db_scheme" where
  "enforce sha repo now op a db =
     (case get_grant repo (auth_grant a) db of
        None \<Rightarrow> invalid ''authorization grant does not exist''
      | Some g \<Rightarrow>
        if revoked_at g \<noteq> None \<or> grant_is_revoked repo (grant_id g) db then invalid ''authorization grant was revoked''
        else if auth_operation a \<noteq> operation_id op then invalid ''authorization operation id does not match''
        else if auth_type a \<noteq> operation_type op then invalid ''authorization operation type does not match''
        else if auth_digest a \<noteq> digest_of sha op \<or> grant_digest g \<noteq> digest_of sha op
        then invalid ''authorization digest does not match''
        else if auth_subject a \<noteq> operation_principal op \<or> issued_to g \<noteq> operation_principal op
        then invalid ''authorization subject does not match''
        else if min (auth_expires_at a) (scope_expires_at (grant_scope g)) \<le> now then invalid ''authorization has expired''
        else case scope_error op (grant_scope g) of
          Some why \<Rightarrow> invalid why
        | None \<Rightarrow>
          if auth_fence a \<noteq> operation_fence op then invalid ''authorization lease fence does not match''
          else case record_use repo a now db of
            Inl (GrantConsumptionError why) \<Rightarrow> invalid why
          | Inl e \<Rightarrow> Inl e
          | Inr (fresh, db) \<Rightarrow> if \<not> fresh then invalid ''authorization proof was already used'' else Inr db)"

definition permission_denied :: "exn \<Rightarrow> bool" where
  "permission_denied e = (case e of PermissionDeniedError _ \<Rightarrow> True | ApprovalRequiredError _ \<Rightarrow> True
     | InvalidAuthorizationError _ \<Rightarrow> True | _ \<Rightarrow> False)"

text \<open>What a request decided stays, whatever becomes of its proof.\<close>

definition enforce_answer :: "(json \<Rightarrow> string) \<Rightarrow> string \<Rightarrow> time \<Rightarrow> proposed_operation \<Rightarrow> answer \<Rightarrow>
    'z permission_db_scheme \<Rightarrow> (exn + unit) \<times> 'z permission_db_scheme" where
  "enforce_answer sha repo now op answer db = (case answer of
     Refused e \<Rightarrow> (Inl e, db)
   | Authorized a \<Rightarrow> (case enforce sha repo now op a db of Inl e \<Rightarrow> (Inl e, db) | Inr db \<Rightarrow> (Inr (), db)))"

definition authorize :: "(proposed_operation \<Rightarrow> policy_outcome \<times> string) \<Rightarrow> (json \<Rightarrow> string) \<Rightarrow> string \<Rightarrow> time \<Rightarrow> time \<Rightarrow> time \<Rightarrow>
    proposed_operation \<Rightarrow> authorization option \<Rightarrow> 'z permission_db_scheme \<Rightarrow> (exn + unit) \<times> 'z permission_db_scheme" where
  "authorize policy sha repo now later ttl op proof db = (case proof of
     Some a \<Rightarrow> enforce_answer sha repo later op (Authorized a) db
   | None \<Rightarrow> (case request_permission policy sha repo now ttl op db of
       Inl e \<Rightarrow> (Inl e, db) | Inr (answer, db) \<Rightarrow> enforce_answer sha repo later op answer db))"

definition authorize_or_enforce :: "(proposed_operation \<Rightarrow> policy_outcome \<times> string) \<Rightarrow> (json \<Rightarrow> string) \<Rightarrow> string \<Rightarrow> time \<Rightarrow> time \<Rightarrow> time \<Rightarrow>
    proposed_operation \<Rightarrow> authorization option \<Rightarrow> 'z permission_db_scheme \<Rightarrow> (exn + bool) \<times> 'z permission_db_scheme" where
  "authorize_or_enforce policy sha repo now later ttl op proof db =
     (case authorize policy sha repo now later ttl op proof db of
        (Inr _, db) \<Rightarrow> (Inr True, db)
      | (Inl e, db) \<Rightarrow> (if permission_denied e then Inr False else Inl e, db))"

definition revoke :: "string \<Rightarrow> time \<Rightarrow> uuid \<Rightarrow> string \<Rightarrow> 'z permission_db_scheme \<Rightarrow> exn + 'z permission_db_scheme" where
  "revoke repo now gid why db = revoke_grant repo gid now why db"

definition record_safety_review :: "(json \<Rightarrow> string) \<Rightarrow> string \<Rightarrow> proposed_operation \<Rightarrow> safety_review \<Rightarrow>
    'z permission_db_scheme \<Rightarrow> exn + 'z permission_db_scheme" where
  "record_safety_review sha repo op v db =
     (if safety_digest v \<noteq> digest_of sha op then invalid ''safety review targets another operation''
      else save_safety_review repo v db)"

text \<open>\<open>SideEffectEnforcer.execute\<close>: the effect on the world \<open>'w\<close> runs directly after enforcement.\<close>

definition is_non_session_operation :: "proposed_operation \<Rightarrow> bool" where
  "is_non_session_operation op = (case op of TerminalWrite _ _ _ _ _ _ _ _ \<Rightarrow> False | SessionControl _ _ _ _ _ \<Rightarrow> False
     | WriterTakeover _ _ _ _ _ _ _ _ \<Rightarrow> False | _ \<Rightarrow> True)"

definition execute :: "(proposed_operation \<Rightarrow> policy_outcome \<times> string) \<Rightarrow> (json \<Rightarrow> string) \<Rightarrow> string \<Rightarrow> time \<Rightarrow> time \<Rightarrow> time \<Rightarrow>
    proposed_operation \<Rightarrow> ('w \<Rightarrow> (exn + 'r) \<times> 'w) \<Rightarrow> authorization option \<Rightarrow> 'z permission_db_scheme \<times> 'w \<Rightarrow>
    (exn + 'r) \<times> 'z permission_db_scheme \<times> 'w" where
  "execute policy sha repo now later ttl op effect proof = (\<lambda>(db, w).
     case authorize policy sha repo now later ttl op proof db of
       (Inl e, db) \<Rightarrow> (Inl e, db, w)
     | (Inr _, db) \<Rightarrow> (case effect w of (r, w) \<Rightarrow> (r, db, w)))"

section \<open>What the service promises\<close>

lemma get_grantE:
  assumes "get_grant repo gid db = Some g"
  obtains h where "(repo, h) \<in> set (permission_grants db)" "grant_id h = gid" "grant_id g = gid" "grant_digest g = grant_digest h"
    "issued_to g = issued_to h" "grant_scope g = grant_scope h"
proof -
  obtain q h where find: "find (\<lambda>(q, g). q = repo \<and> grant_id g = gid) (permission_grants db) = Some (q, h)"
    and g: "g = (let g = h\<lparr>grant_uses := grant_use_count repo gid db\<rparr> in
      case revocation_of repo gid db of None \<Rightarrow> g | Some (at, why) \<Rightarrow> g\<lparr>revoked_at := Some at, revocation_reason := Some why\<rparr>)"
    using assms by (auto simp: get_grant_def)
  then have "(repo, h) \<in> set (permission_grants db)" "grant_id h = gid" by (auto dest: find_Some_mem)
  with g show thesis by (intro that [of h]) (auto simp: Let_def split: option.splits)
qed

lemma enforceE:
  assumes "enforce sha repo now op a db = Inr db'"
  obtains g where "(repo, g) \<in> set (permission_grants db)" "grant_id g = auth_grant a" "auth_operation a = operation_id op"
    "auth_type a = operation_type op" "auth_digest a = digest_of sha op" "grant_digest g = digest_of sha op"
    "auth_subject a = operation_principal op" "issued_to g = operation_principal op" "now < auth_expires_at a"
    "now < scope_expires_at (grant_scope g)" "scope_error op (grant_scope g) = None" "auth_fence a = operation_fence op"
    "record_use repo a now db = Inr (True, db')"
proof -
  obtain g where get: "get_grant repo (auth_grant a) db = Some g"
    and guards: "auth_operation a = operation_id op" "auth_type a = operation_type op" "auth_digest a = digest_of sha op"
      "grant_digest g = digest_of sha op" "auth_subject a = operation_principal op" "issued_to g = operation_principal op"
      "\<not> min (auth_expires_at a) (scope_expires_at (grant_scope g)) \<le> now" "scope_error op (grant_scope g) = None"
      "auth_fence a = operation_fence op"
    and use: "(case record_use repo a now db of Inl (GrantConsumptionError why) \<Rightarrow> invalid why | Inl e \<Rightarrow> Inl e
      | Inr (fresh, db) \<Rightarrow> if \<not> fresh then invalid ''authorization proof was already used'' else Inr db) = Inr db'"
    using assms by (auto simp: enforce_def invalid_def split: option.splits if_splits)
  have "record_use repo a now db = Inr (True, db')"
    using use by (auto simp: invalid_def split: sum.splits exn.splits prod.splits if_splits)
  with get guards show thesis by (elim get_grantE) (auto intro: that)
qed

text \<open>
  C3: what enforcement lets through. A proof is accepted only for the operation, type, digest, subject and
  fence it was issued for, before it and its grant expire, under a stored grant for the same digest and subject that is
  not revoked, covers the operation and has a use left; and accepting it records exactly that use.
\<close>

theorem enforce_exact:
  assumes "enforce sha repo now op a db = Inr db'"
  shows "\<exists>g. (repo, g) \<in> set (permission_grants db) \<and> grant_id g = auth_grant a \<and>
    \<not> grant_is_revoked repo (auth_grant a) db \<and>
    auth_operation a = operation_id op \<and> auth_type a = operation_type op \<and> auth_fence a = operation_fence op \<and>
    auth_digest a = digest_of sha op \<and> grant_digest g = digest_of sha op \<and>
    auth_subject a = operation_principal op \<and> issued_to g = operation_principal op \<and>
    now < auth_expires_at a \<and> now < scope_expires_at (grant_scope g) \<and> scope_error op (grant_scope g) = None \<and>
    (\<exists>h. (repo, h) \<in> set (permission_grants db) \<and> grant_id h = auth_grant a \<and>
       int (grant_use_count repo (auth_grant a) db) < max_uses (grant_scope h)) \<and>
    authorization_uses db' = authorization_uses db @ [(repo, a, now)]"
proof -
  obtain g where g: "(repo, g) \<in> set (permission_grants db)" "grant_id g = auth_grant a" "auth_operation a = operation_id op"
    "auth_type a = operation_type op" "auth_digest a = digest_of sha op" "grant_digest g = digest_of sha op"
    "auth_subject a = operation_principal op" "issued_to g = operation_principal op" "now < auth_expires_at a"
    "now < scope_expires_at (grant_scope g)" "scope_error op (grant_scope g) = None" "auth_fence a = operation_fence op"
    and use: "record_use repo a now db = Inr (True, db')"
    by (rule enforceE [OF assms])
  from use show ?thesis
  proof (cases rule: record_useE)
    case (used h)
    with g show ?thesis by (intro exI [of _ g]) auto
  qed simp
qed

lemma used_proof_rejected:
  assumes "(q, b, t) \<in> set (authorization_uses db)" and "authorization_id b = authorization_id a"
  shows "enforce sha repo now op a db \<noteq> Inr db'"
proof
  assume "enforce sha repo now op a db = Inr db'"
  then have "record_use repo a now db = Inr (True, db')" by (rule enforceE)
  with assms show False by (auto simp: record_use_def list_ex_iff split: option.splits if_splits)
qed

lemma uses_grow_steps: "permission_step\<^sup>*\<^sup>* db db' \<Longrightarrow> set (authorization_uses db) \<subseteq> set (authorization_uses db')"
  by (induction rule: rtranclp_induct) (use uses_grow in blast)+

text \<open>
  C20: a proof works once. After a proof was enforced, and after any further operations of the store and of others, no
  proof with its identifier is ever enforced again, for whatever operation and at whatever time.
\<close>

theorem proof_single_use:
  assumes "enforce sha repo now op a db = Inr db1" and "permission_step\<^sup>*\<^sup>* db1 db2"
    and "authorization_id b = authorization_id a"
  shows "enforce sha repo' later op' b db2 \<noteq> Inr db3"
proof -
  have "record_use repo a now db = Inr (True, db1)" by (rule enforceE [OF assms(1)])
  then have "(repo, a, now) \<in> set (authorization_uses db1)" by (cases rule: record_useE) simp_all
  with uses_grow_steps [OF assms(2)] have "(repo, a, now) \<in> set (authorization_uses db2)" by blast
  from used_proof_rejected [OF this] assms(3) show ?thesis by simp
qed

lemma save_decisionE:
  assumes "save_decision repo d db = Inr db'"
  shows "policy_decisions db' = policy_decisions db @ [(repo, d)]" "approval_requests db' = approval_requests db"
    "permission_grants db' = permission_grants db" "approval_evidences db' = approval_evidences db"
    "authorization_uses db' = authorization_uses db" "grant_revocations db' = grant_revocations db"
    "retained_facts db' = retained_facts db" "uuid_draws db' = uuid_draws db"
  using assms by (auto simp: save_decision_def split: if_splits)

lemma save_grant_decisions: "save_grant repo g db = Inr db' \<Longrightarrow> policy_decisions db' = policy_decisions db"
proof -
  assume "save_grant repo g db = Inr db'"
  then have "append_permission_fact repo (grant_issued_fact g) ''permissions'' (uuid_text (grant_id g)) 0
      (issued_at g) (db\<lparr>permission_grants := permission_grants db @ [(repo, g)]\<rparr>) = Inr db'"
    by (simp add: save_grant_def split: if_splits)
  from permission_fact_tables [OF this] show ?thesis by simp
qed

definition issued_grant :: "(json \<Rightarrow> string) \<Rightarrow> proposed_operation \<Rightarrow> uuid \<Rightarrow> uuid \<Rightarrow> principal \<Rightarrow> time \<Rightarrow> grant_scope \<Rightarrow> permission_grant" where
  "issued_grant sha op gid did who now scope =
     \<lparr>grant_id = gid, grant_digest = digest_of sha op, issued_to = operation_principal op, issued_by = who,
      grant_scope = scope, issued_at = now, grant_approval = None, grant_decision = did, revoked_at = None,
      revocation_reason = None, grant_uses = 0\<rparr>"

definition issued_proof :: "(json \<Rightarrow> string) \<Rightarrow> proposed_operation \<Rightarrow> uuid \<Rightarrow> uuid \<Rightarrow> time \<Rightarrow> grant_scope \<Rightarrow> authorization" where
  "issued_proof sha op auid gid now scope =
     \<lparr>authorization_id = auid, auth_grant = gid, auth_operation = operation_id op, auth_type = operation_type op,
      auth_digest = digest_of sha op, auth_subject = operation_principal op, auth_issued_at = now,
      auth_expires_at = scope_expires_at scope, auth_fence = operation_fence op\<rparr>"

lemma issueE:
  assumes "issue sha repo op did who now ttl db = Inr (a, db')"
  obtains scope gid auid db1 db2 where "canonical_scope (scope_for op (now + ttl)) = Inr scope" "uuid4 db = (gid, db1)"
    "save_grant repo (issued_grant sha op gid did who now scope) db1 = Inr db2" "uuid4 db2 = (auid, db')"
    "a = issued_proof sha op auid gid now scope"
proof -
  from assms obtain scope where scope: "canonical_scope (scope_for op (now + ttl)) = Inr scope"
    by (cases "canonical_scope (scope_for op (now + ttl))") (simp_all add: issue_def)
  obtain gid db1 where d: "uuid4 db = (gid, db1)" by fastforce
  with assms scope obtain db2 where save: "save_grant repo (issued_grant sha op gid did who now scope) db1 = Inr db2"
    by (auto simp: issue_def Let_def issued_grant_def result_simps)
  obtain auid db3 where "uuid4 db2 = (auid, db3)" by fastforce
  with assms scope d save show thesis
    by (intro that [of scope gid db1 db2 auid]) (auto simp: issue_def Let_def issued_grant_def issued_proof_def result_simps)
qed

lemma issue_tables:
  assumes "issue sha repo op did who now ttl db = Inr (a, db')"
  obtains g where "permission_grants db' = permission_grants db @ [(repo, g)]" "grant_id g = auth_grant a"
    "grant_digest g = digest_of sha op" "issued_to g = operation_principal op" "grant_approval g = None"
    "max_uses (grant_scope g) = 1" "scope_expires_at (grant_scope g) = now + ttl"
    "approval_requests db' = approval_requests db" "policy_decisions db' = policy_decisions db"
    "authorization_uses db' = authorization_uses db"
proof -
  obtain scope gid auid db1 db2 where scope: "canonical_scope (scope_for op (now + ttl)) = Inr scope"
    and d: "uuid4 db = (gid, db1)" "uuid4 db2 = (auid, db')"
    and save: "save_grant repo (issued_grant sha op gid did who now scope) db1 = Inr db2"
    and a: "a = issued_proof sha op auid gid now scope"
    by (rule issueE [OF assms])
  have "max_uses scope = 1 \<and> scope_expires_at scope = now + ttl"
    using scope by (auto simp: canonical_scope_def scope_for_def result_simps split: if_splits sum.splits)
  with a save_grantE(1,2) [OF save] save_grant_rest [OF save] save_grant_decisions [OF save] uuid4_permission [OF d(1)]
    uuid4_permission [OF d(2)]
  show thesis by (intro that [of "issued_grant sha op gid did who now scope"]) (simp_all add: issued_grant_def issued_proof_def)
qed

lemma request_approvalE:
  assumes "request_approval sha repo op did reason reviewers rp now ttl db = Inr (aid, db')"
  obtains r where "approval_requests db' = approval_requests db @ [(repo, r)]" "req_id r = aid" "req_status r = ApPending"
    "req_policy r = rp" "req_reviewers r = reviewers" "req_digest r = digest_of sha op" "req_by r = operation_principal op"
    "permission_grants db' = permission_grants db" "policy_decisions db' = policy_decisions db"
    "authorization_uses db' = authorization_uses db"
proof -
  obtain u db1 where d: "uuid4 db = (u, db1)" by fastforce
  with assms obtain r where "aid = u" "save_approval_request repo r db1 = Inr db'" "req_id r = u" "req_status r = ApPending"
    "req_policy r = rp" "req_reviewers r = reviewers" "req_digest r = digest_of sha op" "req_by r = operation_principal op"
    by (fastforce simp: request_approval_def Let_def result_simps)
  with save_approval_requestE [OF this(2)] uuid4_permission [OF d] show thesis by (intro that [of r]) simp_all
qed

definition needs_approval :: "proposed_operation \<Rightarrow> bool" where
  "needs_approval op \<longleftrightarrow> operation_type op = ''session.writer.takeover'' \<or>
     principal_kind (operation_principal op) \<in> {USER, CLIENT, LLM} \<and>
     operation_type op \<in> {''tool.invoke'', ''file.mutate'', ''network.request'', ''secret.access'', ''git.mutate''}"

definition trusted :: "proposed_operation \<Rightarrow> bool" where
  "trusted op \<longleftrightarrow> principal_kind (operation_principal op) \<in> {SERVICE, WORKFLOW} \<or>
     operation_type op = ''terminal.write'' \<and> principal_kind (operation_principal op) \<in> {USER, CLIENT}"

lemma terminal_fence: "operation_type op = ''terminal.write'' \<Longrightarrow> operation_fence op \<noteq> None"
  by (cases op) (simp_all add: operation_type_def operation_fence_def)

lemma local_policy_cases:
  "needs_approval op \<Longrightarrow> \<exists>reason. local_policy op =
     (RequireApprovalDecision reason [HumanReviewer] PolicyHumanRequired, local_policy_id)"
  "\<not> needs_approval op \<Longrightarrow> trusted op \<Longrightarrow> \<exists>reason. local_policy op = (AllowDecision reason, local_policy_id)"
  "\<not> needs_approval op \<Longrightarrow> \<not> trusted op \<Longrightarrow> \<exists>reason. local_policy op = (DenyDecision reason, local_policy_id)"
  using terminal_fence [of op]
  by (auto simp: local_policy_def needs_approval_def trusted_def destructive_client_types_def Let_def)

text \<open>what the local policy lets a request do. A destructive operation of a user, client or model, and every writer
  takeover, only ever raises a pending request for a human approval; a trusted operation gets one grant for
  one use of exactly this operation, that expires with the time to live; every other operation is refused. A
  request that is not authorised issues no grant, and every request that returns has its decision recorded.
\<close>

theorem local_request_exact:
  assumes "request_permission local_policy sha repo now ttl op db = Inr (ans, db')"
  shows "(\<exists>d. policy_decisions db' = policy_decisions db @ [(repo, d)] \<and> decided_operation d = operation_id op \<and>
      decided_digest d = digest_of sha op \<and> policy_id d = local_policy_id) \<and>
    (if needs_approval op then permission_grants db' = permission_grants db \<and>
       (\<exists>r. ans = Refused (ApprovalRequiredError (req_id r)) \<and> approval_requests db' = approval_requests db @ [(repo, r)] \<and>
          req_status r = ApPending \<and> req_policy r = PolicyHumanRequired \<and> req_reviewers r = [HumanReviewer] \<and>
          req_digest r = digest_of sha op)
     else if trusted op then approval_requests db' = approval_requests db \<and>
       (\<exists>a g. ans = Authorized a \<and> permission_grants db' = permission_grants db @ [(repo, g)] \<and> grant_id g = auth_grant a \<and>
          grant_digest g = digest_of sha op \<and> issued_to g = operation_principal op \<and>
          max_uses (grant_scope g) = 1 \<and> scope_expires_at (grant_scope g) = now + ttl)
     else permission_grants db' = permission_grants db \<and> approval_requests db' = approval_requests db \<and>
       (\<exists>reason. ans = Refused (PermissionDeniedError reason)))"
proof -
  obtain did db1 where d: "uuid4 db = (did, db1)" by fastforce
  define stored where "stored = \<lparr>decision_id = did, decided_operation = operation_id op, decided_digest = digest_of sha op,
    decision_outcome = fst (local_policy op), policy_id = snd (local_policy op), decided_at = now\<rparr>"
  from assms d obtain db2 where save: "save_decision repo stored db1 = Inr db2"
    by (auto simp: request_permission_def stored_def result_simps split: prod.splits)
  note db2 = save_decisionE [OF save] uuid4_permission [OF d]
  have pid: "policy_id stored = local_policy_id" by (simp add: stored_def local_policy_def Let_def)
  have stored: "decided_operation stored = operation_id op" "decided_digest stored = digest_of sha op" by (simp_all add: stored_def)
  consider (approval) "needs_approval op" | (allow) "\<not> needs_approval op" "trusted op" | (deny) "\<not> needs_approval op" "\<not> trusted op" by blast
  then show ?thesis
  proof cases
    case approval
    then obtain reason where "local_policy op = (RequireApprovalDecision reason [HumanReviewer] PolicyHumanRequired, local_policy_id)"
      using local_policy_cases(1) by blast
    with assms d save obtain aid where "ans = Refused (ApprovalRequiredError aid)"
      and req: "request_approval sha repo op did reason [HumanReviewer] PolicyHumanRequired now ttl db2 = Inr (aid, db')"
      by (auto simp: request_permission_def stored_def result_simps)
    with approval db2 pid stored show ?thesis by (elim request_approvalE) auto
  next
    case allow
    then obtain reason where "local_policy op = (AllowDecision reason, local_policy_id)" using local_policy_cases(2) by blast
    with assms d save obtain a where "ans = Authorized a" and iss: "issue sha repo op did policy_issuer now ttl db2 = Inr (a, db')"
      by (auto simp: request_permission_def stored_def result_simps)
    with allow db2 pid stored show ?thesis by (elim issue_tables) auto
  next
    case deny
    then obtain reason where "local_policy op = (DenyDecision reason, local_policy_id)" using local_policy_cases(3) by blast
    with assms d save have "ans = Refused (PermissionDeniedError reason)" "db' = db2"
      by (auto simp: request_permission_def stored_def result_simps)
    with deny db2 pid stored show ?thesis by auto
  qed
qed

section \<open>A fresh proof is accepted\<close>

lemma validated_Inr [simp]: "validated m = Inr x \<longleftrightarrow> m = Inr x" "validated (Inr x) = Inr x"
  by (auto simp: validated_def split: sum.splits exn.splits)

lemma sized_Inr [simp]: "sized b = Inr u \<longleftrightarrow> b"
  by (simp add: sized_def)

lemma canonical_repo_path_Nil: "canonical_repo_path [] = Inl (ValueError ''repository path must be normalized, relative, and traversal-free'')"
  by (simp add: canonical_repo_path_def strip_def)

text \<open>What validation leaves unchanged names a path and a destination that validation of a scope leaves unchanged.\<close>

lemma canonical_targets:
  assumes "canonical_operation sha op = Inr op"
  shows "operation_path op = Some p \<Longrightarrow> canonical_repo_path p = Inr p \<and> p \<noteq> []"
    and "op_destination op = Some d \<Longrightarrow> canonical_destination d = Inr d \<and> d \<noteq> []"
  using assms
  by (cases op; auto simp: canonical_operation_def operation_path_def op_destination_def result_simps Let_def
      canonical_repo_path_Nil split: option.splits)+

lemma scope_for_fixed:
  assumes "canonical_operation sha op = Inr op"
  shows "canonical_scope (scope_for op t) = Inr (scope_for op t)"
  using canonical_targets [OF assms]
  by (auto simp: canonical_scope_def scope_for_def opt_list_def sized_def split: option.splits)

lemma scope_for_covers:
  assumes "canonical_operation sha op = Inr op"
  shows "scope_error op (scope_for op t) = None"
  using canonical_targets [OF assms]
  by (auto simp: scope_error_def scope_for_def opt_list_def dimension_allowed_def path_allowed_def split: option.splits)

lemma permission_fact_grows:
  assumes "append_permission_fact repo d proj key gen ts db = Inr db'"
  shows "uuid_draws db' = Suc (uuid_draws db)" "fact_id ` set (retained_facts db') \<subseteq> insert (fact_id d) (fact_id ` set (retained_facts db))"
proof -
  from assms obtain iid db1 where d: "uuid4 db = (iid, db1)"
    and app: "append_fact_db repo d [\<lparr>input_id = iid, projection = proj, subject_key = key, generation = gen\<rparr>] ts db1 = Inr db'"
    by (auto simp: append_permission_fact_def split: prod.splits)
  show "uuid_draws db' = Suc (uuid_draws db)" using append_fact_db_rest(2) [OF app] d by (auto simp: uuid4_def)
  show "fact_id ` set (retained_facts db') \<subseteq> insert (fact_id d) (fact_id ` set (retained_facts db))"
    using app uuid4_frame(1) [OF d] by (auto elim!: append_fact_dbE simp: frame_simps)
qed

text \<open>Identifiers not drawn yet occur nowhere: what uniqueness of \<open>uuid4\<close> means for the tables.\<close>

definition undrawn :: "'z permission_db_scheme \<Rightarrow> bool" where
  "undrawn db \<longleftrightarrow> (\<forall>n \<ge> uuid_draws db.
     UUID4 n \<notin> fact_id ` set (retained_facts db) \<and>
     UUID4 n \<notin> (\<lambda>(_, a, _). authorization_id a) ` set (authorization_uses db) \<and>
     UUID4 n \<notin> (\<lambda>(_, a, _). auth_grant a) ` set (authorization_uses db) \<and>
     UUID4 n \<notin> (\<lambda>(_, g, _). g) ` set (grant_revocations db))"

lemma fresh_grant_found:
  assumes "permission_grants db' = gs @ [(repo, g)]" and "\<forall>(_, h) \<in> set gs. grant_id h \<noteq> grant_id g"
    and "grant_id g \<notin> (\<lambda>(_, a, _). auth_grant a) ` set (authorization_uses db')"
    and "grant_id g \<notin> (\<lambda>(_, g, _). g) ` set (grant_revocations db')"
  shows "get_grant repo (grant_id g) db' = Some (g\<lparr>grant_uses := 0\<rparr>)" "\<not> grant_is_revoked repo (grant_id g) db'"
proof -
  have "grant_use_count repo (grant_id g) db' = 0"
    using assms(3) by (force simp: grant_use_count_def count_where_0)
  moreover have "revocation_of repo (grant_id g) db' = None"
    using assms(4) by (force simp: revocation_of_def find_eq_None)
  moreover have "find (\<lambda>(q, h). q = repo \<and> grant_id h = grant_id g) gs = None"
    using assms(2) by (auto simp: find_eq_None)
  ultimately show "get_grant repo (grant_id g) db' = Some (g\<lparr>grant_uses := 0\<rparr>)"
    using assms(1) by (simp add: get_grant_def table_simps)
  show "\<not> grant_is_revoked repo (grant_id g) db'"
    using assms(4) by (force simp: grant_is_revoked_def list_ex_iff)
qed


lemma fresh_proof_enforced:
  assumes "canonical_operation sha op = Inr op" and "undrawn db" and "later < now + ttl"
    and "issue sha repo op did who now ttl db = Inr (a, db')"
  shows "\<exists>db''. enforce sha repo later op a db' = Inr db''"
proof -
  obtain scope gid auid db1 db2 where scope: "canonical_scope (scope_for op (now + ttl)) = Inr scope"
    and d: "uuid4 db = (gid, db1)" "uuid4 db2 = (auid, db')"
    and save: "save_grant repo (issued_grant sha op gid did who now scope) db1 = Inr db2"
    and a: "a = issued_proof sha op auid gid now scope"
    by (rule issueE [OF assms(4)])
  define g where "g = issued_grant sha op gid did who now scope"
  have scope: "scope = scope_for op (now + ttl)" using scope scope_for_fixed [OF assms(1)] by simp
  have app: "append_permission_fact repo (grant_issued_fact g) ''permissions'' (uuid_text gid) 0 now
      (db1\<lparr>permission_grants := permission_grants db1 @ [(repo, g)]\<rparr>) = Inr db2"
    using save by (simp add: save_grant_def g_def issued_grant_def split: if_splits)
  have ids: "gid = UUID4 (uuid_draws db)" "auid = UUID4 (Suc (Suc (uuid_draws db)))"
    using d permission_fact_grows(1) [OF app] by (auto simp: uuid4_def)
  have facts: "fact_id ` set (retained_facts db') \<subseteq> insert gid (fact_id ` set (retained_facts db))"
    using permission_fact_grows(2) [OF app] uuid4_frame(1) [OF d(1)] uuid4_frame(1) [OF d(2)]
    by (simp add: g_def issued_grant_def grant_issued_fact_def simple_fact_def)
  note tables = save_grantE [OF save [folded g_def]] uuid4_permission [OF d(1)] uuid4_permission [OF d(2)]
  have "gid \<noteq> auid" "auid \<notin> fact_id ` set (retained_facts db)" using assms(2) by (simp_all add: undrawn_def ids)
  with facts have new0: "auid \<notin> fact_id ` set (retained_facts db')" by blast
  have new: "auid \<notin> (\<lambda>(_, a, _). authorization_id a) ` set (authorization_uses db')"
    "gid \<notin> (\<lambda>(_, a, _). auth_grant a) ` set (authorization_uses db')" "gid \<notin> (\<lambda>(_, g, _). g) ` set (grant_revocations db')"
    using assms(2) tables by (simp_all add: undrawn_def ids)
  have g: "grant_id g = gid" "grant_digest g = digest_of sha op" "issued_to g = operation_principal op" "grant_scope g = scope"
    "revoked_at g = None" by (simp_all add: g_def issued_grant_def)
  have found: "get_grant repo gid db' = Some (g\<lparr>grant_uses := 0\<rparr>)" "\<not> grant_is_revoked repo gid db'"
    using fresh_grant_found [of db' "permission_grants db1" repo g] tables new(2,3) g(1) by simp_all
  let ?db = "db'\<lparr>authorization_uses := authorization_uses db' @ [(repo, a, later)]\<rparr>"
  have "\<forall>r \<in> set (retained_facts ?db). fact_id r \<noteq> fact_id (grant_used_fact (g\<lparr>grant_uses := 0\<rparr>) a later)"
    using new0 by (auto simp: grant_used_fact_def simple_fact_def a issued_proof_def)
  from append_permission_factI [OF this] obtain db'' where "append_permission_fact repo
      (grant_used_fact (g\<lparr>grant_uses := 0\<rparr>) a later) ''permissions'' (uuid_text gid) 1 later ?db = Inr db''" by blast
  then have use: "record_use repo a later db' = Inr (True, db'')"
    using found new(1) g scope by (force simp: record_use_def a issued_proof_def scope_for_def list_ex_iff)
  show ?thesis
    using found g use scope_for_covers [OF assms(1), of "now + ttl"] assms(3)
    by (simp add: enforce_def a issued_proof_def scope) (simp add: scope_for_def)
qed

text \<open>
  C22: a fresh proof is good for its operation. The proof that a grant comes with is accepted by enforcement for the
  operation it was issued for, at any time before the time to live is over; the operation only has to be one that
  validation leaves unchanged, and the identifiers drawn have to be new.
\<close>

theorem issued_proof_enforces:
  assumes "canonical_operation sha op = Inr op" and "undrawn db" and "later < now + ttl"
    and "issue sha repo op did who now ttl db = Inr (a, db')"
  shows "\<exists>db''. enforce sha repo later op a db' = Inr db''"
  by (rule fresh_proof_enforced [OF assms])

section \<open>No effect without a proof\<close>

lemma request_permission_uses:
  assumes "request_permission policy sha repo now ttl op db = Inr (ans, db')"
  shows "authorization_uses db' = authorization_uses db"
proof -
  obtain did db1 where d: "uuid4 db = (did, db1)" by fastforce
  obtain outcome pid where p: "policy op = (outcome, pid)" by fastforce
  from assms d p obtain dec db2 where save: "save_decision repo dec db1 = Inr db2"
    and rest: "(case outcome of
        RequireApprovalDecision reason reviewers rp \<Rightarrow>
          bindE (request_approval sha repo op did reason reviewers rp now ttl db2)
            (\<lambda>(aid, db). Inr (Refused (ApprovalRequiredError aid), db))
      | DenyDecision reason \<Rightarrow> Inr (Refused (PermissionDeniedError reason), db2)
      | TransformDecision reason _ \<Rightarrow> Inr (Refused (PermissionDeniedError
          ''policy transformed the operation; submit the recorded transformed operation''), db2)
      | AllowDecision reason \<Rightarrow>
          bindE (issue sha repo op did policy_issuer now ttl db2) (\<lambda>(a, db). Inr (Authorized a, db))) = Inr (ans, db')"
    by (auto simp: request_permission_def result_simps)
  have "authorization_uses db2 = authorization_uses db" using save_decisionE(5) [OF save] uuid4_permission [OF d] by simp
  moreover have "authorization_uses db' = authorization_uses db2"
    using rest by (cases outcome) (auto simp: result_simps elim: request_approvalE issue_tables)
  ultimately show ?thesis by simp
qed

text \<open>
  C4: no effect without a proof. The wrapped executor runs only after a proof for exactly this operation,
  still valid at the time, was consumed; when the request is refused, the proof is not accepted or the use cannot be
  recorded, the world is untouched and no use is recorded.
\<close>

theorem no_effect_without_proof:
  assumes "execute policy sha repo now later ttl op effect proof (db, w) = (r, db', w')"
  shows "(\<exists>e. r = Inl e \<and> w' = w \<and> authorization_uses db' = authorization_uses db) \<or>
    (\<exists>a. effect w = (r, w') \<and> authorization_uses db' = authorization_uses db @ [(repo, a, later)] \<and>
       auth_operation a = operation_id op \<and> auth_digest a = digest_of sha op \<and> auth_subject a = operation_principal op \<and>
       auth_fence a = operation_fence op \<and> later < auth_expires_at a)"
proof -
  have final: ?thesis if enf: "enforce_answer sha repo later op answer db1 = (m, db2)"
    and uses: "authorization_uses db1 = authorization_uses db"
    and run: "(case m of Inl e \<Rightarrow> (Inl e, db2, w) | Inr _ \<Rightarrow> (case effect w of (r, w) \<Rightarrow> (r, db2, w))) = (r, db', w')"
    for answer db1 m db2
  proof (cases "m")
    case (Inl e)
    then have "db2 = db1" using enf by (auto simp: enforce_answer_def split: answer.splits sum.splits)
    with Inl run uses show ?thesis by auto
  next
    case (Inr x)
    then obtain a where "answer = Authorized a" and ok: "enforce sha repo later op a db1 = Inr db2"
      using enf by (auto simp: enforce_answer_def split: answer.splits sum.splits)
    obtain g where "record_use repo a later db1 = Inr (True, db2)" and g: "auth_operation a = operation_id op"
      "auth_digest a = digest_of sha op" "auth_subject a = operation_principal op" "auth_fence a = operation_fence op"
      "later < auth_expires_at a"
      by (rule enforceE [OF ok])
    then have "authorization_uses db2 = authorization_uses db1 @ [(repo, a, later)]" by (cases rule: record_useE) simp_all
    with Inr run uses g show ?thesis by (auto split: prod.splits)
  qed
  show ?thesis
  proof (cases "proof")
    case (Some a)
    with assms show ?thesis
      by (intro final [of "Authorized a" db "fst (authorize policy sha repo now later ttl op proof db)"
            "snd (authorize policy sha repo now later ttl op proof db)"])
        (auto simp: execute_def authorize_def split: prod.splits sum.splits)
  next
    case None
    show ?thesis
    proof (cases "request_permission policy sha repo now ttl op db")
      case (Inl e)
      with None assms show ?thesis by (auto simp: execute_def authorize_def)
    next
      case (Inr p)
      obtain answer db1 where "p = (answer, db1)" by (cases p)
      with Inr have req: "request_permission policy sha repo now ttl op db = Inr (answer, db1)" by simp
      from None req assms request_permission_uses [OF req] show ?thesis
        by (intro final [of answer db1 "fst (authorize policy sha repo now later ttl op proof db)"
              "snd (authorize policy sha repo now later ttl op proof db)"])
          (auto simp: execute_def authorize_def split: prod.splits sum.splits)
    qed
  qed
qed

lemma ipv6_canonical: "canonical_destination ''http://[::1]:8080/x'' = Inr ''http://::1:8080/x''"
  by (simp add: url_simps Let_def port_text)

lemma ipv6_refused: "canonical_destination ''http://::1:8080/x'' =
     Inl (ValueError ''network destination must have a scheme and host without credentials'')"
  by (simp add: url_simps Let_def)

text \<open>a destination with an IPv6 host can be proposed but never authorised. Validation strips its brackets, and the scope that
  a grant or an approval request needs refuses the result, so that the request fails however the policy decides
  (unless it denies the operation).
\<close>

theorem ipv6_destination_unauthorisable:
  "canonical_operation sha (NetworkOperation i p ''http://[::1]:8080/x'' ''GET'' None w a) =
     Inr (NetworkOperation i p ''http://::1:8080/x'' ''GET'' None w a) \<and>
   issue sha repo (NetworkOperation i p ''http://::1:8080/x'' ''GET'' None w a) did who now ttl db = Inl ValidationError \<and>
   request_approval sha repo (NetworkOperation i p ''http://::1:8080/x'' ''GET'' None w a) did reason reviewers rp now ttl db =
     Inl ValidationError"
proof -
  have get: "map upper (strip ''GET'') = ''GET''" by code_simp
  have "canonical_operation sha (NetworkOperation i p ''http://[::1]:8080/x'' ''GET'' None w a) =
     Inr (NetworkOperation i p ''http://::1:8080/x'' ''GET'' None w a)"
    using get by (simp add: canonical_operation_def valid_optional_digest_def sized_def ipv6_canonical)
  moreover have "canonical_scope (scope_for (NetworkOperation i p ''http://::1:8080/x'' ''GET'' None w a) (now + ttl)) = Inl ValidationError"
    by (simp add: canonical_scope_def scope_for_def op_destination_def operation_path_def opt_list_def ipv6_refused validated_def)
  ultimately show ?thesis by (simp add: issue_def request_approval_def Let_def split: prod.splits)
qed

section \<open>A service request\<close>

text \<open>A session control by a trusted service, on empty tables.\<close>

definition sample_sha :: "json \<Rightarrow> string" where
  "sample_sha j = replicate 64 CHR ''0''"

definition sample_service_op :: proposed_operation where
  "sample_service_op = SessionControl (UUID 20) \<lparr>principal_kind = SERVICE, principal_id = ''s''\<rparr> (UUID 21) ''interrupt''
     (replicate 64 CHR ''0'')"

definition no_permissions :: permission_db where
  "no_permissions = fact_db.extend empty_fact_db (permission_db.fields [] [] [] [] [] [] [])"

lemma sample_service_sel [simp]:
  "operation_type sample_service_op = ''session.control''" "operation_id sample_service_op = UUID 20"
  "operation_fence sample_service_op = None" "operation_path sample_service_op = None" "op_destination sample_service_op = None"
  "principal_kind (operation_principal sample_service_op) = SERVICE"
  by (simp_all add: sample_service_op_def operation_type_def operation_fence_def operation_path_def op_destination_def)

lemma sample_service_valid: "canonical_operation sample_sha sample_service_op = Inr sample_service_op"
  by (simp add: sample_service_op_def canonical_operation_def sized_def session_commands_def valid_digest_def list_all_iff
      less_eq_char_def)

lemma no_permissions_sel [simp]:
  "retained_facts no_permissions = []" "permission_grants no_permissions = []" "authorization_uses no_permissions = []"
  "grant_revocations no_permissions = []" "policy_decisions no_permissions = []" "uuid_draws no_permissions = 0"
  by (simp_all add: no_permissions_def fact_db.defs permission_db.defs empty_fact_db_def)

lemma issueI:
  assumes "canonical_operation sha op = Inr op" and "retained_facts db = []" and "permission_grants db = []"
  shows "\<exists>a db'. issue sha repo op did who now ttl db = Inr (a, db')"
proof -
  obtain gid db1 where d: "uuid4 db = (gid, db1)" by fastforce
  define g where "g = issued_grant sha op gid did who now (scope_for op (now + ttl))"
  have "\<forall>r \<in> set (retained_facts (db1\<lparr>permission_grants := permission_grants db1 @ [(repo, g)]\<rparr>)).
      fact_id r \<noteq> fact_id (grant_issued_fact g)" using uuid4_frame(1) [OF d] assms(2) by simp
  from append_permission_factI [OF this] obtain db2 where "save_grant repo g db1 = Inr db2"
    using uuid4_permission [OF d] assms(3) by (fastforce simp: save_grant_def)
  with d scope_for_fixed [OF assms(1)] show ?thesis
    by (auto simp: issue_def g_def issued_grant_def Let_def split: prod.splits)
qed

lemma sample_service_request:
  obtains a db1 db' where "request_permission local_policy sample_sha ''r'' 0 10 sample_service_op no_permissions = Inr (Authorized a, db')"
    "issue sample_sha ''r'' sample_service_op (UUID4 0) policy_issuer 0 10 db1 = Inr (a, db')" "undrawn db1"
proof -
  define d where "d = \<lparr>decision_id = UUID4 0, decided_operation = UUID 20, decided_digest = digest_of sample_sha sample_service_op,
    decision_outcome = fst (local_policy sample_service_op), policy_id = local_policy_id, decided_at = 0\<rparr>"
  define db1 where "db1 = no_permissions\<lparr>uuid_draws := 1, policy_decisions := [(''r'', d)]\<rparr>"
  have "retained_facts db1 = []" "permission_grants db1 = []" by (simp_all add: db1_def)
  from issueI [OF sample_service_valid this] obtain a db' where
    iss: "issue sample_sha ''r'' sample_service_op (UUID4 0) policy_issuer 0 10 db1 = Inr (a, db')" by blast
  have pol: "local_policy sample_service_op = (AllowDecision ''trusted local automation principal'', local_policy_id)"
    by (simp add: local_policy_def destructive_client_types_def)
  have "uuid4 no_permissions = (UUID4 0, no_permissions\<lparr>uuid_draws := 1\<rparr>)" by (simp add: uuid4_def)
  moreover have "save_decision ''r'' d (no_permissions\<lparr>uuid_draws := 1\<rparr>) = Inr db1" by (simp add: save_decision_def db1_def)
  ultimately have "request_permission local_policy sample_sha ''r'' 0 10 sample_service_op no_permissions = Inr (Authorized a, db')"
    using iss by (simp add: request_permission_def pol d_def)
  moreover have "undrawn db1" by (simp add: undrawn_def db1_def)
  ultimately show thesis using that iss by blast
qed

lemma sample_service_enforced:
  obtains a db' db'' where "request_permission local_policy sample_sha ''r'' 0 10 sample_service_op no_permissions = Inr (Authorized a, db')"
    "enforce sample_sha ''r'' 5 sample_service_op a db' = Inr db''"
proof -
  obtain a db1 db' where req: "request_permission local_policy sample_sha ''r'' 0 10 sample_service_op no_permissions = Inr (Authorized a, db')"
    and iss: "issue sample_sha ''r'' sample_service_op (UUID4 0) policy_issuer 0 10 db1 = Inr (a, db')" and new: "undrawn db1"
    by (rule sample_service_request)
  have "(5::int) < 0 + 10" by simp
  from fresh_proof_enforced [OF sample_service_valid new this iss] req show thesis using that by blast
qed

theorem enforce_exact_witness:
  "\<exists>a db' db''. enforce sample_sha ''r'' 5 sample_service_op a (db' :: permission_db) = Inr db'' \<and>
     authorization_uses db'' = authorization_uses db' @ [(''r'', a, 5)]"
proof -
  obtain a db' and db'' :: permission_db where "enforce sample_sha ''r'' 5 sample_service_op a db' = Inr db''"
    by (rule sample_service_enforced)
  with enforce_exact [OF this] show ?thesis by blast
qed

theorem proof_single_use_witness:
  "\<exists>a db' db''. enforce sample_sha ''r'' 5 sample_service_op a (db' :: permission_db) = Inr db'' \<and>
     enforce sample_sha ''r'' 6 sample_service_op a db'' \<noteq> Inr db'"
proof -
  obtain a db' and db'' :: permission_db where run: "enforce sample_sha ''r'' 5 sample_service_op a db' = Inr db''"
    by (rule sample_service_enforced)
  with proof_single_use [OF run rtranclp.rtrancl_refl refl] show ?thesis by blast
qed

theorem local_request_exact_witness:
  "\<exists>a db'. request_permission local_policy sample_sha ''r'' 0 10 sample_service_op no_permissions = Inr (Authorized a, db') \<and>
     (\<exists>g. permission_grants db' = [(''r'', g)] \<and> max_uses (grant_scope g) = 1 \<and> scope_expires_at (grant_scope g) = 10)"
proof -
  obtain a db' db'' where req: "request_permission local_policy sample_sha ''r'' 0 10 sample_service_op no_permissions = Inr (Authorized a, db')"
    and "enforce sample_sha ''r'' 5 sample_service_op a db' = Inr db''"
    by (rule sample_service_enforced)
  have "\<not> needs_approval sample_service_op" "trusted sample_service_op" by (simp_all add: needs_approval_def trusted_def)
  with local_request_exact [OF req] req show ?thesis by auto
qed

theorem issued_proof_enforces_witness:
  "\<exists>a db1 db' db''. issue sample_sha ''r'' sample_service_op (UUID4 0) policy_issuer 0 10 (db1 :: permission_db) = Inr (a, db') \<and>
     enforce sample_sha ''r'' 9 sample_service_op a db' = Inr db''"
proof -
  obtain a db1 and db' :: permission_db where
    iss: "issue sample_sha ''r'' sample_service_op (UUID4 0) policy_issuer 0 10 db1 = Inr (a, db')" and new: "undrawn db1"
    by (rule sample_service_request)
  have "(9::int) < 0 + 10" by simp
  from issued_proof_enforces [OF sample_service_valid new this iss] iss show ?thesis by blast
qed

theorem no_effect_without_proof_witness:
  "\<exists>db'. execute local_policy sample_sha ''r'' 0 5 10 sample_service_op (\<lambda>w. (Inr w, Suc w)) None (no_permissions, 0) =
       (Inr 0, db', Suc 0) \<and> length (authorization_uses db') = 1"
proof -
  obtain a db' db'' where req: "request_permission local_policy sample_sha ''r'' 0 10 sample_service_op no_permissions = Inr (Authorized a, db')"
    and "enforce sample_sha ''r'' 5 sample_service_op a db' = Inr db''"
    by (rule sample_service_enforced)
  then have run: "execute local_policy sample_sha ''r'' 0 5 10 sample_service_op (\<lambda>w. (Inr w, Suc w)) None (no_permissions, 0) =
       (Inr 0, db'', Suc 0)" by (simp add: execute_def authorize_def enforce_answer_def)
  with no_effect_without_proof [OF run] show ?thesis by auto
qed

end
