(* ===== verification/ActivityContracts.thy ===== *)
theory ActivityContracts
  imports WorkflowContracts
begin

text \<open>
  Contracts of durable, claimed work, \<open>murder/work/activities/runtime.py\<close>, and the two policies that
  decide where and when it runs: routing (\<open>murder/work/routing.py\<close>) and admission
  (\<open>murder/runtime/admission.py\<close>). Both policies are pure. Lemmas: a route satisfies the requirements
  of its activity and is the first compatible candidate in preference order, work is held only when no
  candidate is compatible, and work is admitted only within every limit.
\<close>

section \<open>Contracts\<close>

datatype activity_status =
  ActPending | ActRouting | ActWaitingAdmission | ActClaimed | ActRunning | ActSucceeded | ActFailed | ActCancelled

fun activity_status_value :: "activity_status \<Rightarrow> string" where
  "activity_status_value ActPending = ''pending''"
| "activity_status_value ActRouting = ''routing''"
| "activity_status_value ActWaitingAdmission = ''waiting_admission''"
| "activity_status_value ActClaimed = ''claimed''"
| "activity_status_value ActRunning = ''running''"
| "activity_status_value ActSucceeded = ''succeeded''"
| "activity_status_value ActFailed = ''failed''"
| "activity_status_value ActCancelled = ''cancelled''"

record model_assignment =
  assignment_role :: string
  assigned_harness :: string
  assigned_model :: string
  assigned_effort :: "string option"

record execution_route =
  route_id :: uuid
  assignments :: "model_assignment list"
  route_strategy :: session_strategy
  selected_session_id :: "uuid option"
  structured_protocol :: bool
  terminal_fallback :: bool
  capability_revision :: int
  usage_revision :: int
  rationale :: string

record activity =
  act_id :: uuid
  act_workflow :: uuid
  act_workflow_revision :: int
  act_ordinal :: nat
  act_revision :: int
  act_status :: activity_status
  act_payload :: activity_payload
  act_requirements :: execution_requirements
  act_idempotency_key :: string
  act_priority :: int
  act_retry_policy :: string
  act_max_attempts :: int
  act_route_id :: "uuid option"
  act_route :: "execution_route option"
  act_session :: "uuid option"
  act_attempts :: int
  claimed_by :: "string option"
  claim_fence :: int
  lease_expires_at :: "time option"
  act_created_at :: time
  act_updated_at :: time

record activity_claim =
  claim_activity_id :: uuid
  claim_owner :: string
  claim_attempt :: int
  fence :: int
  claimed_at :: time
  claim_expires_at :: time

datatype activity_outcome =
    ActivitySuccess json_object
  | ActivityFailure string string bool json_object
  | ActivityCancelled "string option"

record activity_result =
  result_id :: uuid
  result_activity :: uuid
  result_attempt :: int
  result_outcome :: activity_outcome
  completed_at :: time

section \<open>Routing\<close>

record route_candidate =
  cand_harness :: string
  cand_models :: "string list"
  cand_tags :: "string list"
  cand_structured :: bool
  cand_terminal :: bool
  reusable_session_ids :: "uuid list"
  cand_available :: bool
  cand_capability_revision :: int
  cand_usage_revision :: int

record routing_context =
  routed_activity :: uuid
  routing_requirements :: execution_requirements
  candidates :: "route_candidate list"
  model_teams :: "(string \<times> string list) list"

datatype routing_decision = RouteTo execution_route string | Hold string

definition harness_rank :: "string list \<Rightarrow> string \<Rightarrow> nat" where
  "harness_rank preferred name =
     (case map_of (rev (zip preferred [0..<length preferred])) name of
        Some index \<Rightarrow> index | None \<Rightarrow> length (remdups preferred))"

definition ordered_candidates :: "execution_requirements \<Rightarrow> route_candidate list \<Rightarrow> route_candidate list" where
  "ordered_candidates req cands =
     (let available = filter cand_available cands in
      if preferred_harnesses req \<noteq> []
      then sort_key (\<lambda>c. (harness_rank (preferred_harnesses req) (cand_harness c), cand_harness c)) available
      else sort_key cand_harness available)"

definition candidate_models :: "execution_requirements \<Rightarrow> route_candidate \<Rightarrow> string list" where
  "candidate_models req c =
     (if preferred_models req \<noteq> [] then
        let preferred = filter (List.member (cand_models c)) (preferred_models req)
        in preferred @ filter (\<lambda>m. \<not> List.member preferred m) (cand_models c)
      else cand_models c)"

definition candidate_session :: "execution_requirements \<Rightarrow> route_candidate \<Rightarrow> uuid option" where
  "candidate_session req c =
     (if reusable_session req then (case reusable_session_ids c of [] \<Rightarrow> None | s # _ \<Rightarrow> Some s) else None)"

definition chosen_strategy :: "execution_requirements \<Rightarrow> session_strategy" where
  "chosen_strategy req = (case session_strategy req of
     Some s \<Rightarrow> s | None \<Rightarrow> if reusable_session req then StrategyReuse else StrategyNew)"

text \<open>The \<open>continue\<close> guards of the loop, negated.\<close>

definition compatible :: "execution_requirements \<Rightarrow> route_candidate \<Rightarrow> bool" where
  "compatible req c \<longleftrightarrow>
     \<not> List.member (excluded_harnesses req) (cand_harness c) \<and>
     list_all (List.member (cand_tags c)) (capability_tags req) \<and>
     \<not> (require_structured_protocol req \<and> \<not> cand_structured c) \<and>
     \<not> (require_terminal req \<and> \<not> cand_terminal c) \<and>
     candidate_models req c \<noteq> [] \<and>
     \<not> (chosen_strategy req = StrategyRequire \<and> candidate_session req c = None)"

definition assignment_models :: "routing_context \<Rightarrow> route_candidate \<Rightarrow> string list" where
  "assignment_models ctx c =
     (let first = [hd (candidate_models (routing_requirements ctx) c)] in
      case List.map_filter (map_of (model_teams ctx)) (preferred_models (routing_requirements ctx)) of
        [] \<Rightarrow> first
      | team # _ \<Rightarrow> if team \<noteq> [] \<and> list_all (List.member (cand_models c)) team then team else first)"

definition route_to :: "routing_context \<Rightarrow> route_candidate \<Rightarrow> routing_decision" where
  "route_to ctx c =
     (let req = routing_requirements ctx;
          why = ''selected '' @ cand_harness c @ ''/'' @ hd (candidate_models req c);
          models = assignment_models ctx c
      in RouteTo
        \<lparr>route_id = UUID5 namespace_url (''activity-route:'' @ uuid_text (routed_activity ctx) @ '':'' @
            int_text (cand_capability_revision c) @ '':'' @ int_text (cand_usage_revision c)),
         assignments = map (\<lambda>(i, m). \<lparr>assignment_role = (if i = 0 then ''primary'' else ''reviewer''),
             assigned_harness = cand_harness c, assigned_model = m, assigned_effort = None\<rparr>)
           (zip [0..<length models] models),
         route_strategy = chosen_strategy req, selected_session_id = candidate_session req c,
         structured_protocol = cand_structured c, terminal_fallback = cand_terminal c,
         capability_revision = cand_capability_revision c, usage_revision = cand_usage_revision c,
         rationale = why\<rparr> why)"

definition decide_route :: "routing_context \<Rightarrow> routing_decision" where
  "decide_route ctx =
     (case find (compatible (routing_requirements ctx))
             (ordered_candidates (routing_requirements ctx) (candidates ctx)) of
        Some c \<Rightarrow> route_to ctx c
      | None \<Rightarrow> Hold ''no compatible execution route'')"

section \<open>Admission\<close>

record admission_context =
  adm_activity :: activity
  running_total :: int
  max_running :: int
  running_by_harness :: "(string \<times> int) list"
  harness_limits :: "(string \<times> int) list"
  quota_available :: "(string \<times> bool) list"
  held_locks :: "string list"
  required_locks :: "string list"
  older_ready_count :: int
  adm_now :: time
  reservation_lease_seconds :: int

datatype admission_decision =
    Admitted (reservation_id: uuid) (reservation_keys: "string list") (admitted_at: time) (reservation_expires_at: time)
  | Deferred "string list"
  | Rejected "string list"

definition sorted_set :: "string list \<Rightarrow> string list" where
  "sorted_set xs = sort (remdups xs)"

definition decide_admission :: "admission_context \<Rightarrow> exn + admission_decision" where
  "decide_admission ctx =
     (case act_route (adm_activity ctx) of
        None \<Rightarrow> Inr (Rejected [''activity has no route''])
      | Some route \<Rightarrow>
          if max_running ctx \<le> running_total ctx then Inr (Deferred [''global concurrency limit''])
          else case assignments route of
            [] \<Rightarrow> Inl IndexError
          | a # _ \<Rightarrow>
            let harness = assigned_harness a in
            if (case map_of (harness_limits ctx) harness of
                  None \<Rightarrow> False
                | Some limit \<Rightarrow> limit \<le> (case map_of (running_by_harness ctx) harness of
                    None \<Rightarrow> 0 | Some n \<Rightarrow> n))
            then Inr (Deferred [''harness concurrency limit''])
            else if map_of (quota_available ctx) harness = Some False
            then Inr (Deferred [''provider quota unavailable''])
            else
              let conflicts = filter (List.member (held_locks ctx)) (required_locks ctx) in
              if conflicts \<noteq> [] then
                Inr (Deferred [''locks held: '' @ json_repr (JList (map JStr (sorted_set conflicts)))])
              else if older_ready_count ctx \<noteq> 0 \<and> act_priority (adm_activity ctx) \<le> 0
              then Inr (Deferred [''older equal-priority work is waiting''])
              else Inr (Admitted
                (UUID5 namespace_url (''activity-reservation:'' @ uuid_text (act_id (adm_activity ctx)) @
                   '':'' @ isoformat (adm_now ctx)))
                (sorted_set (required_locks ctx)) (adm_now ctx)
                (adm_now ctx + microseconds (reservation_lease_seconds ctx))))"

section \<open>Properties\<close>

lemma set_ordered_candidates: "set (ordered_candidates req cands) = {c \<in> set cands. cand_available c}"
  by (auto simp: ordered_candidates_def Let_def)

lemma set_candidate_models: "set (candidate_models req c) = set (cand_models c)"
  by (auto simp: candidate_models_def Let_def)

lemma set_assignment_models:
  assumes "candidate_models (routing_requirements ctx) c \<noteq> []"
  shows "set (assignment_models ctx c) \<subseteq> set (cand_models c) \<and> assignment_models ctx c \<noteq> []"
proof -
  have "hd (candidate_models (routing_requirements ctx) c) \<in> set (cand_models c)"
    using assms by (metis hd_in_set set_candidate_models)
  then show ?thesis
    by (auto simp: assignment_models_def Let_def list_all_iff split: list.splits)
qed

definition route_fits :: "routing_context \<Rightarrow> execution_route \<Rightarrow> route_candidate \<Rightarrow> bool" where
  "route_fits ctx r c \<longleftrightarrow> c \<in> set (candidates ctx) \<and> cand_available c \<and>
     compatible (routing_requirements ctx) c \<and> assignments r \<noteq> [] \<and>
     (\<forall>a \<in> set (assignments r). assigned_harness a = cand_harness c \<and> assigned_model a \<in> set (cand_models c)) \<and>
     assignment_role (hd (assignments r)) = ''primary'' \<and>
     capability_revision r = cand_capability_revision c \<and>
     (\<forall>s. selected_session_id r = Some s \<longrightarrow> s \<in> set (reusable_session_ids c))"

lemma route_to_fits:
  assumes "c \<in> set (candidates ctx)" "cand_available c" "compatible (routing_requirements ctx) c"
    and "route_to ctx c = RouteTo r why"
  shows "route_fits ctx r c"
proof -
  let ?models = "assignment_models ctx c"
  have models: "set ?models \<subseteq> set (cand_models c)" "?models \<noteq> []"
    using set_assignment_models [of ctx c] assms(3) by (auto simp: compatible_def)
  have "selected_session_id r = candidate_session (routing_requirements ctx) c"
    using assms(4) by (auto simp: route_to_def Let_def)
  then have "\<forall>s. selected_session_id r = Some s \<longrightarrow> s \<in> set (reusable_session_ids c)"
    by (auto simp: candidate_session_def split: if_splits list.splits)
  moreover have r: "assignments r = map (\<lambda>(i, m). \<lparr>assignment_role = (if i = 0 then ''primary'' else ''reviewer''),
      assigned_harness = cand_harness c, assigned_model = m, assigned_effort = None\<rparr>)
      (zip [0..<length ?models] ?models)" "capability_revision r = cand_capability_revision c"
    using assms(4) by (auto simp: route_to_def Let_def)
  moreover have "\<forall>a \<in> set (assignments r). assigned_harness a = cand_harness c \<and> assigned_model a \<in> set (cand_models c)"
    using models(1) by (auto simp: r dest: set_zip_rightD)
  moreover have "assignments r \<noteq> [] \<and> assignment_role (hd (assignments r)) = ''primary''"
    using models(2) by (cases ?models) (auto simp: r upt_conv_Cons simp del: upt_Suc)
  ultimately show ?thesis using assms(1-3) by (simp add: route_fits_def)
qed

text \<open>The order the router prefers candidates in.\<close>

definition preference_key :: "execution_requirements \<Rightarrow> route_candidate \<Rightarrow> nat \<times> string" where
  "preference_key req c =
     (if preferred_harnesses req \<noteq> [] then harness_rank (preferred_harnesses req) (cand_harness c) else 0,
      cand_harness c)"

lemma sorted_ordered_candidates: "sorted (map (preference_key req) (ordered_candidates req cands))"
proof (cases "preferred_harnesses req = []")
  case True
  have "sorted (map cand_harness (ordered_candidates req cands))"
    by (simp add: ordered_candidates_def True Let_def)
  then show ?thesis by (simp add: sorted_map preference_key_def True)
next
  case False
  then have "preference_key req = (\<lambda>c. (harness_rank (preferred_harnesses req) (cand_harness c), cand_harness c))"
    by (simp add: preference_key_def fun_eq_iff)
  with False show ?thesis by (simp add: ordered_candidates_def Let_def)
qed

lemma find_sorted_first:
  fixes k :: "'a \<Rightarrow> 'b::linorder"
  assumes "sorted (map k xs)" and "find P xs = Some x" and "y \<in> set xs" and "P y"
  shows "k x \<le> k y"
  using assms by (induction xs) (auto split: if_splits)

text \<open>routing is sound, complete and follows the preference order. A route is returned exactly when
  some available candidate is compatible with the requirements; it is then a route to a compatible
  candidate that no compatible candidate precedes in preference order, its assignments use that
  candidate's harness and models with a primary first, and a session it reuses is one of the
  candidate's.
\<close>

theorem decide_route_exact:
  "(\<forall>r why. decide_route ctx = RouteTo r why \<longrightarrow>
     (\<exists>c. route_fits ctx r c \<and>
       (\<forall>d \<in> set (candidates ctx). cand_available d \<and> compatible (routing_requirements ctx) d \<longrightarrow>
          preference_key (routing_requirements ctx) c \<le> preference_key (routing_requirements ctx) d))) \<and>
   ((\<exists>why. decide_route ctx = Hold why) \<longleftrightarrow>
     (\<forall>d \<in> set (candidates ctx). cand_available d \<longrightarrow> \<not> compatible (routing_requirements ctx) d))"
proof -
  let ?req = "routing_requirements ctx"
  let ?cands = "ordered_candidates ?req (candidates ctx)"
  show ?thesis
  proof (cases "find (compatible ?req) ?cands")
    case None
    then have "\<forall>d \<in> set ?cands. \<not> compatible ?req d" by (simp add: find_eq_None)
    with None show ?thesis by (auto simp: decide_route_def set_ordered_candidates)
  next
    case (Some c)
    then have c: "c \<in> set (candidates ctx)" "cand_available c" "compatible ?req c"
      using find_Some_mem [OF Some] by (auto simp: set_ordered_candidates)
    have first: "preference_key ?req c \<le> preference_key ?req d"
      if "d \<in> set (candidates ctx)" "cand_available d" "compatible ?req d" for d
      using find_sorted_first [OF sorted_ordered_candidates Some] that
      by (simp add: set_ordered_candidates)
    obtain r why where "route_to ctx c = RouteTo r why" by (simp add: route_to_def Let_def)
    moreover from this c have "route_fits ctx r c" by (intro route_to_fits) auto
    ultimately show ?thesis using Some c first by (auto simp: decide_route_def)
  qed
qed

definition sample_requirements :: execution_requirements where
  "sample_requirements = \<lparr>capability_tags = [''coding''],
      preferred_harnesses = [], excluded_harnesses = [], preferred_models = [],
      require_structured_protocol = False, require_terminal = False, reusable_session = True,
      session_strategy = None, req_worktree = None, max_parallelism_group = None, policy_profile = None\<rparr>"

definition sample_candidate :: route_candidate where
  "sample_candidate = \<lparr>cand_harness = ''codex'', cand_models = [''m''], cand_tags = [''coding''],
        cand_structured = True, cand_terminal = True, reusable_session_ids = [], cand_available = True,
        cand_capability_revision = 1, cand_usage_revision = 0\<rparr>"

definition sample_route :: execution_route where
  "sample_route = \<lparr>route_id = UUID 9, assignments = [\<lparr>assignment_role = ''primary'',
      assigned_harness = ''codex'', assigned_model = ''m'', assigned_effort = None\<rparr>],
     route_strategy = StrategyNew, selected_session_id = None, structured_protocol = True,
     terminal_fallback = True, capability_revision = 1, usage_revision = 0, rationale = ''x''\<rparr>"

definition sample_activity :: activity where
  "sample_activity = \<lparr>act_id = UUID 11, act_workflow = UUID 1, act_workflow_revision = 1,
      act_ordinal = 0, act_revision = 0, act_status = ActPending,
      act_payload = RunAgentTurn ''go'' [] sample_requirements, act_requirements = sample_requirements,
      act_idempotency_key = ''k'', act_priority = 0, act_retry_policy = ''default'', act_max_attempts = 3,
      act_route_id = Some (UUID 9), act_route = Some sample_route, act_session = None, act_attempts = 0,
      claimed_by = None, claim_fence = 0, lease_expires_at = None, act_created_at = 0, act_updated_at = 0\<rparr>"

theorem decide_route_exact_witness:
  "\<exists>r why. decide_route \<lparr>routed_activity = UUID 1, routing_requirements = sample_requirements,
      candidates = [sample_candidate], model_teams = []\<rparr> = RouteTo r why"
  (is "\<exists>r why. decide_route ?ctx = _")
proof -
  have "\<not> (\<exists>why. decide_route ?ctx = Hold why)"
    unfolding decide_route_exact [of ?ctx, THEN conjunct2]
    by (simp add: compatible_def candidate_models_def chosen_strategy_def candidate_session_def
        sample_requirements_def sample_candidate_def)
  then show ?thesis by (cases "decide_route ?ctx") auto
qed

text \<open>admission respects every limit. Work is admitted exactly when it has a route with an
  assignment, the global and the harness's concurrency limits are not reached, the provider has
  quota, none of its locks is held and no older work of at least its priority waits; the reservation
  then holds exactly the required locks until the end of the lease. Work is rejected only when it has
  no route.
\<close>

theorem decide_admission_exact:
  "(\<exists>rid keys adm expires. decide_admission ctx = Inr (Admitted rid keys adm expires)) =
   (\<exists>route a rest. act_route (adm_activity ctx) = Some route \<and> assignments route = a # rest \<and>
      running_total ctx < max_running ctx \<and>
      (\<forall>limit. map_of (harness_limits ctx) (assigned_harness a) = Some limit \<longrightarrow>
         (case map_of (running_by_harness ctx) (assigned_harness a) of None \<Rightarrow> 0 | Some n \<Rightarrow> n) < limit) \<and>
      map_of (quota_available ctx) (assigned_harness a) \<noteq> Some False \<and>
      set (required_locks ctx) \<inter> set (held_locks ctx) = {} \<and>
      (older_ready_count ctx = 0 \<or> 0 < act_priority (adm_activity ctx))) \<and>
   (\<forall>rid keys adm expires. decide_admission ctx = Inr (Admitted rid keys adm expires) \<longrightarrow>
      set keys = set (required_locks ctx) \<and> distinct keys \<and> sorted keys \<and> adm = adm_now ctx \<and>
      expires = adm_now ctx + microseconds (reservation_lease_seconds ctx)) \<and>
   (\<forall>reasons. decide_admission ctx = Inr (Rejected reasons) \<longrightarrow> act_route (adm_activity ctx) = None)"
proof (cases "act_route (adm_activity ctx)")
  case None
  then show ?thesis by (simp add: decide_admission_def)
next
  case (Some route)
  have locks: "filter (List.member (held_locks ctx)) (required_locks ctx) = [] \<longleftrightarrow>
      set (required_locks ctx) \<inter> set (held_locks ctx) = {}"
    by (auto simp: filter_empty_conv)
  show ?thesis
  proof (cases "assignments route")
    case Nil
    with Some show ?thesis by (simp add: decide_admission_def)
  next
    case (Cons a rest)
    show ?thesis
      by (cases "map_of (harness_limits ctx) (assigned_harness a)")
        (auto simp: decide_admission_def Some Cons Let_def locks sorted_set_def not_le)
  qed
qed

theorem decide_admission_exact_witness:
  "\<exists>rid keys adm expires. decide_admission \<lparr>adm_activity = sample_activity, running_total = 0,
      max_running = 8, running_by_harness = [], harness_limits = [(''codex'', 1)],
      quota_available = [], held_locks = [''a''], required_locks = [''b''], older_ready_count = 0,
      adm_now = 0, reservation_lease_seconds = 60\<rparr> = Inr (Admitted rid keys adm expires)"
  unfolding decide_admission_exact [THEN conjunct1]
  by (simp add: sample_activity_def sample_route_def)

end
