(* ===== verification/Activities.thy ===== *)
theory Activities
  imports WorkflowStore ActivityContracts
begin

text \<open>
  The activity queue at rest, \<open>murder/state/persistence/activities.py\<close>: activities, admission
  reservations and their locks, results, and the fenced claim life cycle, with the facts every
  operation appends in its transaction. Waking the owning workflow after a completion is the argument
  \<open>wake\<close> (the runtime's \<open>decide_once\<close>, which \<open>WorkflowRuns\<close> supplies); whatever it raises is ignored.

  \<open>released_at\<close> keeps the text that is stored, because one statement binds another value to it.
  Instants compare like their fixed-width ISO texts.
\<close>

section \<open>Tables\<close>

record activity_row = activity + act_repository :: string
record result_row = activity_result + result_repository :: string

record reservation_row =
  res_id :: uuid
  res_activity :: uuid
  res_keys :: "string list"
  res_admitted_at :: time
  res_expires_at :: time
  released_at :: "string option"
  res_repository :: string

record lock_row =
  lock_repository :: string
  lock_key :: string
  lock_activity :: uuid
  lock_expires_at :: time

record activity_db = workflow_db +
  activities :: "activity_row list"
  reservations :: "reservation_row list"
  reservation_locks :: "lock_row list"
  activity_results :: "result_row list"

definition activity_record :: "activity_row \<Rightarrow> activity" where
  "activity_record r = activity.truncate r"

definition result_record :: "result_row \<Rightarrow> activity_result" where
  "result_record r = activity_result.truncate r"

lemma activity_record_sel [simp]:
  "act_id (activity_record r) = act_id r" "act_workflow (activity_record r) = act_workflow r"
  "act_status (activity_record r) = act_status r" "act_revision (activity_record r) = act_revision r"
  "act_attempts (activity_record r) = act_attempts r" "claim_fence (activity_record r) = claim_fence r"
  "claimed_by (activity_record r) = claimed_by r" "lease_expires_at (activity_record r) = lease_expires_at r"
  "act_max_attempts (activity_record r) = act_max_attempts r" "act_route (activity_record r) = act_route r"
  by (simp_all add: activity_record_def activity.defs)

definition this_activity :: "string \<Rightarrow> uuid \<Rightarrow> activity_row \<Rightarrow> bool" where
  "this_activity repo aid a \<longleftrightarrow> act_id a = aid \<and> act_repository a = repo"

definition this_reservation :: "string \<Rightarrow> uuid \<Rightarrow> reservation_row \<Rightarrow> bool" where
  "this_reservation repo aid r \<longleftrightarrow> res_activity r = aid \<and> res_repository r = repo"

definition get_activity :: "string \<Rightarrow> uuid \<Rightarrow> 'z activity_db_scheme \<Rightarrow> activity option" where
  "get_activity repo aid db = map_option activity_record (find (this_activity repo aid) (activities db))"

definition require_activity :: "string \<Rightarrow> uuid \<Rightarrow> 'z activity_db_scheme \<Rightarrow> exn + activity" where
  "require_activity repo aid db = (case get_activity repo aid db of
     None \<Rightarrow> Inl (ActivityLifecycleError ''activity does not exist'') | Some a \<Rightarrow> Inr a)"

definition list_activities :: "string \<Rightarrow> activity_status option \<Rightarrow> 'z activity_db_scheme \<Rightarrow> activity list" where
  "list_activities repo status db = map activity_record
     (sort_key (\<lambda>a. (- act_priority a, act_created_at a, act_id a))
       (filter (\<lambda>a. act_repository a = repo \<and> (status = None \<or> status = Some (act_status a))) (activities db)))"

definition update_activity :: "(activity_row \<Rightarrow> bool) \<Rightarrow> (activity_row \<Rightarrow> activity_row) \<Rightarrow>
    'z activity_db_scheme \<Rightarrow> 'z activity_db_scheme" where
  "update_activity P f db = db\<lparr>activities := update_where P f (activities db)\<rparr>"

section \<open>Facts\<close>

definition activity_fact_namespace :: uuid where
  "activity_fact_namespace = UUID 0x792f9708f68147b2a53eb3ef7a287c12"

definition activity_state_fact :: "activity \<Rightarrow> string \<Rightarrow> time \<Rightarrow> correlation \<Rightarrow> fact_draft" where
  "activity_state_fact a operation ts corr =
     \<lparr>fact_id = UUID5 activity_fact_namespace
        (''state:'' @ uuid_text (act_id a) @ '':'' @ int_text (act_revision a) @ '':'' @ operation),
      schema_version = 1, occurred_at = ts,
      aggregate = Some \<lparr>aggregate_kind = ''activity'', aggregate_id = act_id a,
        aggregate_revision = Some (act_revision a)\<rparr>,
      actor = \<lparr>actor_kind = ''activity'', actor_id = uuid_text (act_id a)\<rparr>,
      fact_correlation = corr,
      payload = ActivityStateChangedPayload (''activity.'' @ operation) (act_id a) (act_workflow a)
        (activity_status_value (act_status a)) (act_revision a) (act_attempts a) (claim_fence a)\<rparr>"

definition activity_input :: "uuid \<Rightarrow> activity \<Rightarrow> projection_input_draft" where
  "activity_input iid a = \<lparr>input_id = iid, projection = ''activities'',
     subject_key = uuid_text (act_id a), generation = act_revision a\<rparr>"

definition append_activity_input :: "string \<Rightarrow> activity \<Rightarrow> string \<Rightarrow> time \<Rightarrow> 'z workflow_db_scheme \<Rightarrow>
    exn + 'z workflow_db_scheme" where
  "append_activity_input repo a operation ts db =
     bindE (require_workflow_run repo (act_workflow a) db) (\<lambda>run.
     append_fact_db repo (activity_state_fact a operation ts (run_correlation run))
       [activity_input (UUID5 activity_fact_namespace
          (uuid_text (act_id a) @ '':'' @ int_text (act_revision a) @ '':'' @ operation)) a] ts db)"

definition outcome_status :: "activity_outcome \<Rightarrow> activity_status" where
  "outcome_status outcome = (case outcome of ActivitySuccess _ \<Rightarrow> ActSucceeded
     | ActivityFailure _ _ _ _ \<Rightarrow> ActFailed | ActivityCancelled _ \<Rightarrow> ActCancelled)"

definition outcome_data :: "activity_outcome \<Rightarrow> json_object" where
  "outcome_data outcome = (case outcome of
     ActivitySuccess output \<Rightarrow> [(''type'', JStr ''success''), (''output'', JObj output)]
   | ActivityFailure code message retryable details \<Rightarrow>
       [(''type'', JStr ''failure''), (''code'', JStr code), (''message'', JStr message),
        (''retryable'', JBool retryable), (''details'', JObj details)]
   | ActivityCancelled reason \<Rightarrow> [(''type'', JStr ''cancelled''),
       (''reason'', case reason of None \<Rightarrow> JNull | Some r \<Rightarrow> JStr r)])"

definition append_completion_fact :: "string \<Rightarrow> activity \<Rightarrow> uuid \<Rightarrow> int \<Rightarrow> activity_outcome \<Rightarrow> fact_actor \<Rightarrow> time
    \<Rightarrow> string option \<Rightarrow> 'z activity_db_scheme \<Rightarrow> exn + 'z activity_db_scheme" where
  "append_completion_fact repo a rid attempt outcome who ts kind db =
     (let fact_type = (case kind of Some k \<Rightarrow> k
            | None \<Rightarrow> ''activity.'' @ activity_status_value (outcome_status outcome))
      in
      bindE (require_workflow_run repo (act_workflow a) db) (\<lambda>run.
      bindE (if List.member [''activity.succeeded'', ''activity.failed'', ''activity.cancelled''] fact_type
             then Inr (ActivityOutcomeRecordedPayload fact_type (act_workflow a) rid attempt (outcome_data outcome))
             else private_payload fact_type
               [(''workflow_id'', JStr (uuid_text (act_workflow a))), (''result_id'', JStr (uuid_text rid)),
                (''attempt'', JInt attempt), (''outcome'', JObj (outcome_data outcome))]) (\<lambda>body.
      bindE (require_activity repo (act_id a) db) (\<lambda>current.
      let (iid, db) = uuid4 db in
      append_fact_db repo
        \<lparr>fact_id = rid, schema_version = 1, occurred_at = ts,
         aggregate = Some \<lparr>aggregate_kind = ''activity'', aggregate_id = act_id a,
           aggregate_revision = Some attempt\<rparr>,
         actor = who, fact_correlation = run_correlation run, payload = body\<rparr>
        [\<lparr>input_id = iid, projection = ''activities'', subject_key = uuid_text (act_id a),
          generation = act_revision current\<rparr>] ts db))))"

text \<open>Every state change appends its fact from the row as the change left it.\<close>

definition record_change :: "string \<Rightarrow> uuid \<Rightarrow> string \<Rightarrow> time \<Rightarrow> 'z activity_db_scheme \<Rightarrow>
    exn + activity \<times> 'z activity_db_scheme" where
  "record_change repo aid operation ts db =
     bindE (require_activity repo aid db) (\<lambda>a.
     bindE (append_activity_input repo a operation ts db) (\<lambda>db. Inr (a, db)))"

section \<open>Requests, routes and admission\<close>

definition activity_row_of :: "string \<Rightarrow> uuid \<Rightarrow> int \<Rightarrow> nat \<Rightarrow> activity_request \<Rightarrow> time \<Rightarrow> activity_row" where
  "activity_row_of repo wid wrev ordinal draft created =
     \<lparr>act_id = activity_id draft, act_workflow = wid, act_workflow_revision = wrev, act_ordinal = ordinal,
      act_revision = 0, act_status = ActPending, act_payload = activity_payload draft,
      act_requirements = (case activity_payload draft of
        RunAgentTurn _ _ req \<Rightarrow> req | RunReview _ _ req \<Rightarrow> req),
      act_idempotency_key = idempotency_key draft, act_priority = priority draft,
      act_retry_policy = retry_policy draft, act_max_attempts = max_attempts draft, act_route_id = None,
      act_route = None, act_session = None, act_attempts = 0, claimed_by = None, claim_fence = 0,
      lease_expires_at = None, act_created_at = created, act_updated_at = created, act_repository = repo\<rparr>"

definition insert_activity_request :: "string \<Rightarrow> uuid \<Rightarrow> int \<Rightarrow> time \<Rightarrow> nat \<times> activity_request \<Rightarrow>
    'z activity_db_scheme \<Rightarrow> exn + 'z activity_db_scheme" where
  "insert_activity_request repo wid wrev created = (\<lambda>(ordinal, draft) db.
     if list_ex (\<lambda>a. act_id a = activity_id draft \<or>
          (act_workflow a = wid \<and> act_workflow_revision a = wrev \<and> act_ordinal a = ordinal) \<or>
          (act_repository a = repo \<and> act_idempotency_key a = idempotency_key draft)) (activities db)
     then Inl IntegrityError
     else
       bindE (record_change repo (activity_id draft) ''created'' created
           (db\<lparr>activities := activities db @ [activity_row_of repo wid wrev ordinal draft created]\<rparr>))
         (\<lambda>(_, db). Inr db))"

definition insert_activity_requests :: "string \<Rightarrow> uuid \<Rightarrow> int \<Rightarrow> activity_request list \<Rightarrow> time \<Rightarrow>
    'z activity_db_scheme \<Rightarrow> exn + 'z activity_db_scheme" where
  "insert_activity_requests repo wid wrev drafts created db =
     foldE (insert_activity_request repo wid wrev created) (enumerate 0 drafts) db"

definition routable :: "activity_status \<Rightarrow> bool" where
  "routable s \<longleftrightarrow> s = ActPending \<or> s = ActRouting \<or> s = ActWaitingAdmission"

definition persist_route :: "string \<Rightarrow> uuid \<Rightarrow> execution_route \<Rightarrow> time \<Rightarrow> 'z activity_db_scheme \<Rightarrow>
    exn + activity \<times> 'z activity_db_scheme" where
  "persist_route repo aid route ts db =
     (let mine = (\<lambda>a. this_activity repo aid a \<and> routable (act_status a)) in
      if count_where mine (activities db) \<noteq> 1
      then Inl (ActivityLifecycleError ''activity cannot be routed from its current state'')
      else record_change repo aid ''routed'' ts
        (update_activity mine (\<lambda>a. a\<lparr>act_status := ActWaitingAdmission, act_revision := act_revision a + 1,
           act_route := Some route, act_route_id := Some (route_id route),
           act_session := selected_session_id route, act_updated_at := ts\<rparr>) db))"

text \<open>
  The parameters of the \<open>UPDATE\<close> are bound in the order the code passes them: \<open>released_at\<close> gets the
  repository id, and the rows are selected by comparing the repository with the text of the time.
\<close>

definition release_expired_reservations :: "string \<Rightarrow> time \<Rightarrow> 'z activity_db_scheme \<Rightarrow> nat \<times> 'z activity_db_scheme" where
  "release_expired_reservations repo ts db =
     (let ids = map res_activity (filter (\<lambda>r. res_repository r = repo \<and> released_at r = None \<and>
            res_expires_at r \<le> ts) (reservations db))
      in if ids = [] then (0, db)
         else (length ids,
           db\<lparr>reservations := update_where
                (\<lambda>r. res_repository r = iso_micros ts \<and> List.member ids (res_activity r))
                (\<lambda>r. r\<lparr>released_at := Some repo\<rparr>) (reservations db),
              reservation_locks := delete_where
                (\<lambda>l. lock_repository l = repo \<and> List.member ids (lock_activity l)) (reservation_locks db)\<rparr>))"

definition reap_expired_reservations :: "string \<Rightarrow> time \<Rightarrow> 'z activity_db_scheme \<Rightarrow> nat \<times> 'z activity_db_scheme" where
  "reap_expired_reservations repo ts db = release_expired_reservations repo ts db"

definition upsert_reservation :: "string \<Rightarrow> uuid \<Rightarrow> uuid \<Rightarrow> string list \<Rightarrow> time \<Rightarrow> time \<Rightarrow> 'z activity_db_scheme \<Rightarrow>
    exn + 'z activity_db_scheme" where
  "upsert_reservation repo aid rid keys ts expires db =
     (if list_ex (\<lambda>r. res_id r = rid \<and> res_activity r \<noteq> aid) (reservations db) then Inl IntegrityError
      else if list_ex (\<lambda>r. res_activity r = aid) (reservations db) then
        Inr (db\<lparr>reservations := update_where (\<lambda>r. res_activity r = aid)
          (\<lambda>r. r\<lparr>res_id := rid, res_keys := keys, res_admitted_at := ts, res_expires_at := expires,
                 released_at := None\<rparr>) (reservations db)\<rparr>)
      else Inr (db\<lparr>reservations := reservations db @ [\<lparr>res_id = rid, res_activity = aid, res_keys = keys,
          res_admitted_at = ts, res_expires_at = expires, released_at = None, res_repository = repo\<rparr>]\<rparr>))"

definition insert_lock :: "string \<Rightarrow> uuid \<Rightarrow> time \<Rightarrow> string \<Rightarrow> 'z activity_db_scheme \<Rightarrow> exn + 'z activity_db_scheme" where
  "insert_lock repo aid expires key db =
     (if list_ex (\<lambda>l. lock_repository l = repo \<and> lock_key l = key) (reservation_locks db)
      then Inl (ActivityLifecycleError ''admission resource lock is already reserved'')
      else Inr (db\<lparr>reservation_locks := reservation_locks db @ [\<lparr>lock_repository = repo, lock_key = key,
          lock_activity = aid, lock_expires_at = expires\<rparr>]\<rparr>))"

definition bump_activity :: "string \<Rightarrow> uuid \<Rightarrow> time \<Rightarrow> (activity_row \<Rightarrow> activity_row) \<Rightarrow> 'z activity_db_scheme \<Rightarrow>
    'z activity_db_scheme" where
  "bump_activity repo aid ts f db = update_activity (this_activity repo aid)
     (\<lambda>a. f a\<lparr>act_revision := act_revision a + 1, act_updated_at := ts\<rparr>) db"

definition delete_locks :: "string \<Rightarrow> uuid \<Rightarrow> 'z activity_db_scheme \<Rightarrow> 'z activity_db_scheme" where
  "delete_locks repo aid db = db\<lparr>reservation_locks := delete_where
     (\<lambda>l. lock_activity l = aid \<and> lock_repository l = repo) (reservation_locks db)\<rparr>"

definition admit_activity :: "string \<Rightarrow> uuid \<Rightarrow> uuid \<Rightarrow> string list \<Rightarrow> time \<Rightarrow> time \<Rightarrow> 'z activity_db_scheme \<Rightarrow>
    exn + 'z activity_db_scheme" where
  "admit_activity repo aid rid keys expires ts db =
     bindE (upsert_reservation repo aid rid keys ts expires (snd (release_expired_reservations repo ts db))) (\<lambda>db.
     bindE (foldE (insert_lock repo aid expires) keys (delete_locks repo aid db)) (\<lambda>db.
     bindE (record_change repo aid ''admitted'' ts (bump_activity repo aid ts id db)) (\<lambda>(_, db). Inr db)))"

definition insert_result :: "string \<Rightarrow> activity_result \<Rightarrow> 'z activity_db_scheme \<Rightarrow> exn + 'z activity_db_scheme" where
  "insert_result repo r db =
     (if list_ex (\<lambda>q. result_activity q = result_activity r \<and> result_attempt q = result_attempt r)
           (activity_results db) then Inl IntegrityError
      else Inr (db\<lparr>activity_results := activity_results db @
        [activity_result.extend r (result_row.fields repo)]\<rparr>))"

definition reject_activity :: "string \<Rightarrow> activity \<Rightarrow> string list \<Rightarrow> time \<Rightarrow> 'z activity_db_scheme \<Rightarrow>
    exn + 'z activity_db_scheme" where
  "reject_activity repo current reasons ts db =
     (let (rid, db) = uuid4 db; outcome = ActivityCancelled (Some (join_text ''; '' reasons)) in
      bindE (insert_result repo \<lparr>result_id = rid, result_activity = act_id current, result_attempt = 0,
        result_outcome = outcome, completed_at = ts\<rparr> db) (\<lambda>db.
      bindE (append_completion_fact repo current rid 0 outcome
          \<lparr>actor_kind = ''admission'', actor_id = ''scheduler''\<rparr> ts None
          (bump_activity repo (act_id current) ts (\<lambda>a. a\<lparr>act_status := ActCancelled\<rparr>) db)) (\<lambda>db.
      bindE (enqueue_workflow_signal repo (act_workflow current)
          (''activity:'' @ uuid_text (act_id current) @ '':admission:rejected'')
          (ActivityFinishedSignal (act_id current) rid) ts None db) (\<lambda>(_, db). Inr db))))"

type_synonym 'z wake = "string \<Rightarrow> uuid \<Rightarrow> time \<Rightarrow> 'z activity_db_scheme \<Rightarrow> exn + 'z activity_db_scheme"

definition best_effort_wake :: "'z wake \<Rightarrow> string \<Rightarrow> uuid \<Rightarrow> time \<Rightarrow> 'z activity_db_scheme \<Rightarrow> 'z activity_db_scheme" where
  "best_effort_wake wake repo wid ts db = (case wake repo wid ts db of Inl _ \<Rightarrow> db | Inr db' \<Rightarrow> db')"

definition persist_admission :: "'z wake \<Rightarrow> string \<Rightarrow> uuid \<Rightarrow> admission_decision \<Rightarrow> time \<Rightarrow> 'z activity_db_scheme \<Rightarrow>
    exn + activity \<times> 'z activity_db_scheme" where
  "persist_admission wake repo aid decision ts db =
     bindE (require_activity repo aid db) (\<lambda>current.
     if act_status current \<noteq> ActWaitingAdmission
     then Inl (ActivityLifecycleError ''only routed activities may be admitted'')
     else
       bindE (case decision of
          Admitted rid keys _ expires \<Rightarrow> admit_activity repo aid rid keys expires ts db
        | Rejected reasons \<Rightarrow>
            bindE (reject_activity repo current reasons ts db)
              (\<lambda>db. Inr (best_effort_wake wake repo (act_workflow current) ts db))
        | Deferred _ \<Rightarrow> Inr db) (\<lambda>db.
       bindE (require_activity repo aid db) (\<lambda>a. Inr (a, db))))"

section \<open>Claims\<close>

text \<open>The guard every operation of a claim holder states in its \<open>WHERE\<close> clause.\<close>

definition holds_claim :: "activity_claim \<Rightarrow> time \<Rightarrow> activity \<Rightarrow> bool" where
  "holds_claim c ts a \<longleftrightarrow> act_attempts a = claim_attempt c \<and> claimed_by a = Some (claim_owner c) \<and>
     claim_fence a = fence c \<and> (case lease_expires_at a of None \<Rightarrow> False | Some e \<Rightarrow> ts < e)"

definition live_claim :: "activity_status \<Rightarrow> bool" where
  "live_claim s \<longleftrightarrow> s = ActClaimed \<or> s = ActRunning"

definition active_reservation :: "string \<Rightarrow> uuid \<Rightarrow> time \<Rightarrow> 'z activity_db_scheme \<Rightarrow> bool" where
  "active_reservation repo aid ts db = (case find (this_reservation repo aid) (reservations db) of
     None \<Rightarrow> False | Some r \<Rightarrow> released_at r = None \<and> ts < res_expires_at r)"

definition claim_activity :: "string \<Rightarrow> uuid \<Rightarrow> string \<Rightarrow> int \<Rightarrow> int \<Rightarrow> time \<Rightarrow> 'z activity_db_scheme \<Rightarrow>
    exn + activity_claim \<times> 'z activity_db_scheme" where
  "claim_activity repo aid owner lease_for cap ts db =
     (if owner = [] \<or> lease_for \<le> 0 then Inl (ValueError ''claim owner and positive lease are required'')
      else case find (this_activity repo aid) (activities db) of
        None \<Rightarrow> Inl (ActivityLifecycleError ''activity has no active admission reservation'')
      | Some a \<Rightarrow>
        if \<not> active_reservation repo aid ts db
        then Inl (ActivityLifecycleError ''activity has no active admission reservation'')
        else if act_status a \<noteq> ActWaitingAdmission \<and> act_status a \<noteq> ActClaimed
        then Inl (ActivityLifecycleError ''activity is not claimable'')
        else if act_status a = ActClaimed \<and>
          (case lease_expires_at a of None \<Rightarrow> False | Some e \<Rightarrow> ts < e)
        then Inl (ActivityLifecycleError ''activity claim is still live'')
        else if (case act_route a of None \<Rightarrow> True | Some r \<Rightarrow> capability_revision r \<noteq> cap)
        then Inl (ActivityLifecycleError ''activity route capability revision is stale'')
        else
          let attempt = act_attempts a + 1; new_fence = claim_fence a + 1 in
          bindE (record_change repo aid ''claimed'' ts
            (update_activity (this_activity repo aid) (\<lambda>a. a\<lparr>act_status := ActClaimed,
               act_revision := act_revision a + 1, act_attempts := attempt, claimed_by := Some owner,
               claim_fence := new_fence, lease_expires_at := Some (ts + lease_for), act_updated_at := ts\<rparr>) db))
            (\<lambda>(_, db). Inr (\<lparr>claim_activity_id = aid, claim_owner = owner, claim_attempt = attempt,
               fence = new_fence, claimed_at = ts, claim_expires_at = ts + lease_for\<rparr>, db)))"

definition renew_activity_claim :: "string \<Rightarrow> activity_claim \<Rightarrow> int \<Rightarrow> time \<Rightarrow> 'z activity_db_scheme \<Rightarrow>
    exn + activity_claim \<times> 'z activity_db_scheme" where
  "renew_activity_claim repo c lease_for ts db =
     (if lease_for \<le> 0 then Inl (ValueError ''lease_for must be positive'')
      else
        let mine = (\<lambda>a. this_activity repo (claim_activity_id c) a \<and> live_claim (act_status a) \<and>
              holds_claim c ts (activity_record a)) in
        if count_where mine (activities db) \<noteq> 1
        then Inl (ActivityLifecycleError ''activity claim is stale or expired'')
        else bindE (record_change repo (claim_activity_id c) ''claim_renewed'' ts
          (update_activity mine (\<lambda>a. a\<lparr>act_revision := act_revision a + 1,
             lease_expires_at := Some (ts + lease_for), act_updated_at := ts\<rparr>) db))
          (\<lambda>(_, db). Inr (c\<lparr>claim_expires_at := ts + lease_for\<rparr>, db)))"

definition start_activity :: "string \<Rightarrow> activity_claim \<Rightarrow> time \<Rightarrow> 'z activity_db_scheme \<Rightarrow>
    exn + activity \<times> 'z activity_db_scheme" where
  "start_activity repo c ts db =
     (let mine = (\<lambda>a. this_activity repo (claim_activity_id c) a \<and> act_status a = ActClaimed \<and>
            holds_claim c ts (activity_record a)) in
      if count_where mine (activities db) \<noteq> 1
      then Inl (ActivityLifecycleError ''activity claim is stale or expired'')
      else record_change repo (claim_activity_id c) ''started'' ts
        (update_activity mine (\<lambda>a. a\<lparr>act_status := ActRunning, act_revision := act_revision a + 1,
           act_updated_at := ts\<rparr>) db))"

definition claim_expired :: "string \<Rightarrow> time \<Rightarrow> activity_row \<Rightarrow> bool" where
  "claim_expired repo ts a \<longleftrightarrow> act_repository a = repo \<and> live_claim (act_status a) \<and>
     (case lease_expires_at a of None \<Rightarrow> False | Some e \<Rightarrow> e \<le> ts)"

definition reap_expired_claims :: "string \<Rightarrow> time \<Rightarrow> 'z activity_db_scheme \<Rightarrow> exn + nat \<times> 'z activity_db_scheme" where
  "reap_expired_claims repo ts db =
     (let ids = map act_id (filter (claim_expired repo ts) (activities db));
          updated = count_where (claim_expired repo ts) (activities db)
      in bindE (foldE (\<lambda>aid db. bindE (record_change repo aid ''claim_reaped'' ts db) (\<lambda>(_, db). Inr db)) ids
           (update_activity (claim_expired repo ts) (\<lambda>a. a\<lparr>act_status := ActWaitingAdmission,
              act_revision := act_revision a + 1, claimed_by := None, lease_expires_at := None,
              act_updated_at := ts\<rparr>) db))
         (\<lambda>db. Inr (updated, db)))"

definition retrying :: "activity_claim \<Rightarrow> activity_outcome \<Rightarrow> activity \<Rightarrow> bool" where
  "retrying c outcome a = (case outcome of
     ActivityFailure _ _ retryable _ \<Rightarrow> retryable \<and> claim_attempt c < act_max_attempts a | _ \<Rightarrow> False)"

definition close_activity :: "string \<Rightarrow> uuid \<Rightarrow> activity_status \<Rightarrow> time \<Rightarrow> 'z activity_db_scheme \<Rightarrow>
    'z activity_db_scheme" where
  "close_activity repo aid status ts db =
     (let db = bump_activity repo aid ts
            (\<lambda>a. a\<lparr>claimed_by := None, lease_expires_at := None, act_status := status\<rparr>) db;
          db = db\<lparr>reservations := update_where (this_reservation repo aid)
            (\<lambda>r. r\<lparr>released_at := Some (iso_micros ts)\<rparr>) (reservations db)\<rparr>
      in delete_locks repo aid db)"

definition finished_key :: "uuid \<Rightarrow> int \<Rightarrow> string" where
  "finished_key aid attempt = ''activity:'' @ uuid_text aid @ '':attempt:'' @ int_text attempt @ '':finished''"

definition complete_activity :: "'z wake \<Rightarrow> string \<Rightarrow> activity_claim \<Rightarrow> activity_outcome \<Rightarrow> time \<Rightarrow>
    'z activity_db_scheme \<Rightarrow> exn + activity_result \<times> 'z activity_db_scheme" where
  "complete_activity wake repo c outcome ts db =
     (let (rid, db) = uuid4 db; aid = claim_activity_id c;
          result = \<lparr>result_id = rid, result_activity = aid, result_attempt = claim_attempt c,
            result_outcome = outcome, completed_at = ts\<rparr>
      in
      bindE (require_activity repo aid db) (\<lambda>a.
      case find (\<lambda>r. result_activity r = aid \<and> result_repository r = repo \<and>
             result_attempt r = claim_attempt c) (activity_results db) of
        Some existing \<Rightarrow>
          if result_outcome existing \<noteq> outcome
          then Inl (ActivityLifecycleError ''activity attempt already completed with a different outcome'')
          else Inr (result_record existing, db)
      | None \<Rightarrow>
          if \<not> live_claim (act_status a) \<or> \<not> holds_claim c ts a
          then Inl (ActivityLifecycleError ''completion claim/attempt is stale or expired'')
          else
            bindE (insert_result repo result db) (\<lambda>db.
            let db = close_activity repo aid
                  (if retrying c outcome a then ActWaitingAdmission else outcome_status outcome) ts db
            in
            bindE (append_completion_fact repo a rid (claim_attempt c) outcome
                \<lparr>actor_kind = ''activity_worker'', actor_id = claim_owner c\<rparr> ts
                (Some (if retrying c outcome a then ''activity.attempt_failed''
                       else ''activity.'' @ activity_status_value (outcome_status outcome))) db) (\<lambda>db.
            if retrying c outcome a then Inr (result, db)
            else
              bindE (enqueue_workflow_signal repo (act_workflow a)
                (finished_key aid (claim_attempt c))
                (ActivityFinishedSignal aid rid) ts None db)
              (\<lambda>(_, db). Inr (result, best_effort_wake wake repo (act_workflow a) ts db))))))"

section \<open>What each operation leaves alone\<close>

lemma activity_tables_cong:
  assumes "workflow_db.more db' = workflow_db.more (db :: 'z activity_db_scheme)"
  shows "activities db' = activities db" "reservations db' = reservations db"
    "reservation_locks db' = reservation_locks db" "activity_results db' = activity_results db"
    "activity_db.more db' = activity_db.more db"
  using assms by (cases db; cases db'; simp)+

lemmas facts_only_activity = activity_tables_cong [OF facts_only_workflow(5)]
lemmas enqueue_activity = activity_tables_cong [OF enqueue_frame(3)]

lemma uuid4_activity [simp]:
  "activities (snd (uuid4 db)) = activities db" "reservations (snd (uuid4 db)) = reservations db"
  "reservation_locks (snd (uuid4 db)) = reservation_locks db" "activity_results (snd (uuid4 db)) = activity_results db"
  by (simp_all add: uuid4_def)

lemma require_activityE:
  assumes "require_activity repo aid db = Inr a"
  obtains row where "find (this_activity repo aid) (activities db) = Some row" "row \<in> set (activities db)"
    "act_id row = aid" "act_repository row = repo" "a = activity_record row"
  using assms that
  by (auto simp: require_activity_def get_activity_def this_activity_def dest: find_Some_mem split: option.splits)

lemma append_activity_input_facts:
  "append_activity_input repo a operation ts db = Inr db' \<Longrightarrow> facts_only db db'"
  by (auto simp: append_activity_input_def result_simps intro: facts_only_append)

lemma record_changeE:
  assumes "record_change repo aid operation ts db = Inr (a, db')"
  shows "require_activity repo aid db = Inr a" and "facts_only db db'"
  using assms by (auto simp: record_change_def result_simps intro: append_activity_input_facts)

lemma append_completion_facts:
  assumes "append_completion_fact repo a rid attempt outcome who ts kind db = Inr db'"
  shows "facts_only db db'"
proof -
  obtain iid db1 where draw: "uuid4 db = (iid, db1)" by fastforce
  with assms obtain draft items where "append_fact_db repo draft items ts db1 = Inr db'"
    by (auto simp: append_completion_fact_def Let_def bindE_eq_Inr)
  then show ?thesis using facts_only_uuid4 [OF draw] facts_only_append facts_only_trans by blast
qed

section \<open>The store invariant\<close>

text \<open>
  An activity is claimed exactly while it is CLAIMED or RUNNING, and its attempt counter is its fence;
  results are recorded once per attempt, for an attempt that was made; a resource has one lock.
\<close>

definition terminal_activity :: "activity_status \<Rightarrow> bool" where
  "terminal_activity s \<longleftrightarrow> s = ActSucceeded \<or> s = ActFailed \<or> s = ActCancelled"

definition claim_ok :: "activity_row \<Rightarrow> bool" where
  "claim_ok a \<longleftrightarrow> (live_claim (act_status a) \<longleftrightarrow> claimed_by a \<noteq> None) \<and>
     (claimed_by a = None \<longleftrightarrow> lease_expires_at a = None) \<and> 0 \<le> act_attempts a \<and> claim_fence a = act_attempts a"

definition row_next :: "activity_row \<Rightarrow> activity_row \<Rightarrow> bool" where
  "row_next a a' \<longleftrightarrow> act_id a' = act_id a \<and> act_repository a' = act_repository a \<and> act_workflow a' = act_workflow a \<and>
     act_attempts a \<le> act_attempts a' \<and> claim_fence a \<le> claim_fence a' \<and>
     (terminal_activity (act_status a) \<longrightarrow> act_status a' = act_status a) \<and> (claim_ok a \<longrightarrow> claim_ok a')"

definition result_key :: "result_row \<Rightarrow> uuid \<times> int" where
  "result_key r = (result_activity r, result_attempt r)"

definition lock_name :: "lock_row \<Rightarrow> string \<times> string" where
  "lock_name l = (lock_repository l, lock_key l)"

definition activity_inv :: "'z activity_db_scheme \<Rightarrow> bool" where
  "activity_inv db \<longleftrightarrow> distinct (map act_id (activities db)) \<and> (\<forall>a \<in> set (activities db). claim_ok a) \<and>
     distinct (map result_key (activity_results db)) \<and>
     (\<forall>r \<in> set (activity_results db). \<exists>a \<in> set (activities db).
        act_id a = result_activity r \<and> result_attempt r \<le> act_attempts a) \<and>
     distinct (map lock_name (reservation_locks db))"

definition activity_progress :: "'z activity_db_scheme \<Rightarrow> 'z activity_db_scheme \<Rightarrow> bool" where
  "activity_progress db db' \<longleftrightarrow> (\<forall>a \<in> set (activities db). \<exists>a' \<in> set (activities db'). row_next a a') \<and>
     set (activity_results db) \<subseteq> set (activity_results db')"

definition activity_more :: "'z activity_db_scheme \<Rightarrow> 'z activity_db_scheme \<Rightarrow> bool" where
  "activity_more db db' \<longleftrightarrow> (activity_inv db \<longrightarrow> activity_inv db' \<and> activity_progress db db')"

lemma row_next_refl [simp]: "row_next a a"
  by (simp add: row_next_def)

lemma row_next_trans: "row_next a b \<Longrightarrow> row_next b c \<Longrightarrow> row_next a c"
  by (auto simp: row_next_def)

lemma activity_more_refl [simp]: "activity_more db db"
  by (auto simp: activity_more_def activity_progress_def intro: row_next_refl)

lemma activity_more_trans [trans]:
  assumes "activity_more a b" and "activity_more b c"
  shows "activity_more a c"
proof -
  have "\<exists>z \<in> set (activities c). row_next x z" if "activity_inv a" "x \<in> set (activities a)" for x
  proof -
    from assms(1) that obtain y where "y \<in> set (activities b)" "row_next x y" "activity_inv b"
      unfolding activity_more_def activity_progress_def by blast
    moreover from this assms(2) obtain z where "z \<in> set (activities c)" "row_next y z"
      unfolding activity_more_def activity_progress_def by blast
    ultimately show ?thesis using row_next_trans by blast
  qed
  with assms show ?thesis unfolding activity_more_def activity_progress_def by blast
qed

text \<open>The kinds of change an operation is made of.\<close>

lemma activity_more_same:
  assumes "activities db' = activities db" "activity_results db' = activity_results db"
    and "distinct (map lock_name (reservation_locks db)) \<Longrightarrow> distinct (map lock_name (reservation_locks db'))"
  shows "activity_more db db'"
  using assms by (auto simp: activity_more_def activity_inv_def activity_progress_def intro: row_next_refl)

lemma activity_more_facts: "facts_only db db' \<Longrightarrow> activity_more db db'"
  by (rule activity_more_same) (simp_all add: facts_only_activity)

lemma activity_more_enqueue:
  "enqueue_workflow_signal repo wid key body ts sid db = Inr (g, db') \<Longrightarrow> activity_more db db'"
  by (rule activity_more_same) (simp_all add: enqueue_activity)

lemma activity_more_uuid4 [simp]: "activity_more db (snd (uuid4 db))"
  by (rule activity_more_same) simp_all

lemma activity_more_update:
  assumes "\<And>a. activity_inv db \<Longrightarrow> a \<in> set (activities db) \<Longrightarrow> P a \<Longrightarrow> row_next a (f a)"
  shows "activity_more db (update_activity P f db)"
proof -
  let ?rows = "activities (update_activity P f db)"
  have rows: "?rows = update_where P f (activities db)" by (simp add: update_activity_def)
  have same: "activity_results (update_activity P f db) = activity_results db"
    "reservation_locks (update_activity P f db) = reservation_locks db" by (simp_all add: update_activity_def)
  have "activity_inv (update_activity P f db) \<and> activity_progress db (update_activity P f db)" if inv: "activity_inv db"
  proof -
    have step: "row_next a (if P a then f a else a)" if "a \<in> set (activities db)" for a
      using assms [OF inv that] by simp
    have ids: "map act_id ?rows = map act_id (activities db)"
      unfolding rows by (rule map_update_where) (use assms [OF inv] in \<open>simp add: row_next_def\<close>)
    have next_row: "\<exists>a' \<in> set ?rows. row_next a a'" if "a \<in> set (activities db)" for a
      using step [OF that] that unfolding rows set_update_where by blast
    have ok: "claim_ok a'" if "a' \<in> set ?rows" for a'
      using that inv step unfolding rows set_update_where activity_inv_def row_next_def by blast
    have results: "\<exists>a \<in> set ?rows. act_id a = result_activity r \<and> result_attempt r \<le> act_attempts a"
      if r: "r \<in> set (activity_results db)" for r
    proof -
      from inv r obtain a where a: "a \<in> set (activities db)" "act_id a = result_activity r"
        "result_attempt r \<le> act_attempts a" unfolding activity_inv_def by blast
      with next_row [OF a(1)] show ?thesis unfolding row_next_def by fastforce
    qed
    show ?thesis
      using inv ids ok results next_row by (simp add: activity_inv_def activity_progress_def same)
  qed
  then show ?thesis by (simp add: activity_more_def)
qed

lemma activity_more_change:
  assumes "record_change repo aid operation ts (update_activity P f db) = Inr (a, db')"
    and "\<And>a. activity_inv db \<Longrightarrow> a \<in> set (activities db) \<Longrightarrow> P a \<Longrightarrow> row_next a (f a)"
  shows "activity_more db db'"
  using activity_more_trans [OF activity_more_update [OF assms(2)] activity_more_facts [OF record_changeE(2) [OF assms(1)]]]
  by blast

lemma activity_more_result:
  assumes "insert_result repo r db = Inr db'"
    and "\<exists>a \<in> set (activities db). act_id a = result_activity r \<and> (activity_inv db \<longrightarrow> result_attempt r \<le> act_attempts a)"
  shows "activity_more db db'"
proof -
  from assms(1) have db': "db' = db\<lparr>activity_results := activity_results db @
      [activity_result.extend r (result_row.fields repo)]\<rparr>"
    and new: "\<forall>q \<in> set (activity_results db). \<not> (result_activity q = result_activity r \<and> result_attempt q = result_attempt r)"
    by (auto simp: insert_result_def list_ex_iff split: if_splits)
  have row: "result_activity (activity_result.extend r (result_row.fields repo)) = result_activity r"
    "result_attempt (activity_result.extend r (result_row.fields repo)) = result_attempt r"
    by (simp_all add: activity_result.defs)
  show ?thesis
    using new assms(2) row
    by (auto simp: activity_more_def activity_inv_def activity_progress_def db' result_key_def intro: row_next_refl)
qed

subsection \<open>The operations\<close>

lemma insert_activity_request_more:
  assumes "insert_activity_request repo wid wrev created (n, draft) db = Inr db'"
  shows "activity_more db db'"
proof -
  let ?db1 = "db\<lparr>activities := activities db @ [activity_row_of repo wid wrev n draft created]\<rparr>"
  from assms obtain a where change: "record_change repo (activity_id draft) ''created'' created ?db1 = Inr (a, db')"
    and fresh: "\<forall>a \<in> set (activities db). act_id a \<noteq> activity_id draft"
    by (auto simp: insert_activity_request_def result_simps list_ex_iff split: if_splits)
  have row: "act_id (activity_row_of repo wid wrev n draft created) = activity_id draft"
    "claim_ok (activity_row_of repo wid wrev n draft created)"
    by (simp_all add: activity_row_of_def claim_ok_def live_claim_def)
  have "activity_more db ?db1"
    using fresh row by (auto simp: activity_more_def activity_inv_def activity_progress_def intro: row_next_refl)
  from this activity_more_facts [OF record_changeE(2) [OF change]] show ?thesis by (rule activity_more_trans)
qed

lemma insert_activity_requests_more:
  assumes "insert_activity_requests repo wid wrev drafts created db = Inr db'"
  shows "activity_more db db'"
  using assms unfolding insert_activity_requests_def
  by (rule foldE_invariant) (auto intro: activity_more_trans insert_activity_request_more)

lemma persist_route_more:
  "persist_route repo aid route ts db = Inr (a, db') \<Longrightarrow> activity_more db db'"
  unfolding persist_route_def Let_def
  by (auto split: if_splits elim!: activity_more_change
      simp: row_next_def routable_def terminal_activity_def claim_ok_def live_claim_def)

lemma distinct_map_filter_keys: "distinct (map k rs) \<Longrightarrow> distinct (map k (delete_where P rs))"
  by (simp add: delete_where_def distinct_map inj_on_def)

lemma release_expired_more: "activity_more db (snd (release_expired_reservations repo ts db))"
  by (rule activity_more_same) (simp_all add: release_expired_reservations_def Let_def distinct_map_filter_keys)

lemma delete_locks_more: "activity_more db (delete_locks repo aid db)"
  by (rule activity_more_same) (simp_all add: delete_locks_def distinct_map_filter_keys)

lemma upsert_reservation_more:
  "upsert_reservation repo aid rid keys ts expires db = Inr db' \<Longrightarrow> activity_more db db'"
  by (rule activity_more_same) (auto simp: upsert_reservation_def split: if_splits)

lemma insert_lock_more: "insert_lock repo aid expires key db = Inr db' \<Longrightarrow> activity_more db db'"
  by (rule activity_more_same) (auto simp: insert_lock_def list_ex_iff lock_name_def split: if_splits)

lemma insert_locks_more: "foldE (insert_lock repo aid expires) keys db = Inr db' \<Longrightarrow> activity_more db db'"
  by (erule foldE_invariant) (auto intro: activity_more_trans insert_lock_more)

lemma admit_activity_more:
  assumes "admit_activity repo aid rid keys expires ts db = Inr db'"
  shows "activity_more db db'"
proof -
  from assms obtain db1 db2 a where steps:
    "upsert_reservation repo aid rid keys ts expires (snd (release_expired_reservations repo ts db)) = Inr db1"
    "foldE (insert_lock repo aid expires) keys (delete_locks repo aid db1) = Inr db2"
    "record_change repo aid ''admitted'' ts (bump_activity repo aid ts id db2) = Inr (a, db')"
    by (auto simp: admit_activity_def result_simps)
  note release_expired_more [of db repo ts]
  also note upsert_reservation_more [OF steps(1)]
  also note delete_locks_more [of db1 repo aid]
  also note insert_locks_more [OF steps(2)]
  also have "activity_more db2 db'"
    by (rule activity_more_change [OF steps(3) [unfolded bump_activity_def]]) (auto simp: row_next_def claim_ok_def)
  finally show ?thesis .
qed

text \<open>A change of one activity, which the store holds once.\<close>

lemma bump_activity_more:
  assumes "find (this_activity repo aid) (activities db) = Some a"
    and "activity_inv db \<Longrightarrow> row_next a (f a\<lparr>act_revision := act_revision a + 1, act_updated_at := ts\<rparr>)"
  shows "activity_more db (bump_activity repo aid ts f db)"
  unfolding bump_activity_def
proof (rule activity_more_update)
  fix a' assume inv: "activity_inv db" and a': "a' \<in> set (activities db)" "this_activity repo aid a'"
  from find_Some_mem [OF assms(1)] a' have "a' = a"
    using inv distinct_key_eq by (fastforce simp: activity_inv_def this_activity_def)
  with assms(2) [OF inv] show "row_next a' (f a'\<lparr>act_revision := act_revision a' + 1, act_updated_at := ts\<rparr>)" by simp
qed

lemma insert_result_activities:
  "insert_result repo r db = Inr db' \<Longrightarrow> activities db' = activities db"
  by (auto simp: insert_result_def split: if_splits)

lemma reject_activity_more:
  assumes "reject_activity repo current reasons ts db = Inr db'" and "require_activity repo (act_id current) db = Inr current"
    and "act_status current = ActWaitingAdmission"
  shows "activity_more db db'"
proof -
  from assms(2) obtain row where row: "find (this_activity repo (act_id current)) (activities db) = Some row"
    "row \<in> set (activities db)" "act_id row = act_id current" "current = activity_record row"
    by (rule require_activityE)
  obtain rid db1 where draw: "uuid4 db = (rid, db1)" by fastforce
  then have db1: "activities db1 = activities db" "activity_more db db1"
    using uuid4_activity(1) [of db] activity_more_uuid4 [of db] by simp_all
  let ?r = "\<lparr>result_id = rid, result_activity = act_id current, result_attempt = 0,
      result_outcome = ActivityCancelled (Some (join_text ''; '' reasons)), completed_at = ts\<rparr>"
  let ?cancel = "\<lambda>a. a\<lparr>act_status := ActCancelled\<rparr>"
  let ?fact = "append_completion_fact repo current rid 0 (ActivityCancelled (Some (join_text ''; '' reasons)))
      \<lparr>actor_kind = ''admission'', actor_id = ''scheduler''\<rparr> ts None"
  let ?signal = "enqueue_workflow_signal repo (act_workflow current)
      (''activity:'' @ uuid_text (act_id current) @ '':admission:rejected'')
      (ActivityFinishedSignal (act_id current) rid) ts None"
  have "bindE (insert_result repo ?r db1) (\<lambda>db. bindE (?fact (bump_activity repo (act_id current) ts ?cancel db))
      (\<lambda>db. bindE (?signal db) (\<lambda>(_, db). Inr db))) = Inr db'"
    using assms(1) by (simp only: reject_activity_def Let_def draw prod.case)
  then obtain db2 where steps1: "insert_result repo ?r db1 = Inr db2"
    and "bindE (?fact (bump_activity repo (act_id current) ts ?cancel db2))
      (\<lambda>db. bindE (?signal db) (\<lambda>(_, db). Inr db)) = Inr db'" by (rule bindE_InrE)
  from this(2) obtain db3 where steps2: "?fact (bump_activity repo (act_id current) ts ?cancel db2) = Inr db3"
    and "bindE (?signal db3) (\<lambda>(_, db). Inr db) = Inr db'" by (rule bindE_InrE)
  from this(2) obtain g where "?signal db3 = Inr (g, db')" by (rule bindE_InrE) (simp split: prod.splits)
  note steps = steps1 steps2 this
  note db1(2)
  also have "activity_more db1 db2"
    by (rule activity_more_result [OF steps(1)])
      (use row(2,3) in \<open>auto simp: db1 activity_inv_def claim_ok_def intro!: bexI [of _ row]\<close>)
  also have "activity_more db2 (bump_activity repo (act_id current) ts ?cancel db2)"
  proof (rule bump_activity_more)
    show "find (this_activity repo (act_id current)) (activities db2) = Some row"
      using row(1) by (simp add: insert_result_activities [OF steps(1)] db1)
    show "row_next row (?cancel row\<lparr>act_revision := act_revision row + 1, act_updated_at := ts\<rparr>)"
      using assms(3) row(4)
      by (auto simp: row_next_def terminal_activity_def claim_ok_def live_claim_def)
  qed
  also note activity_more_facts [OF append_completion_facts [OF steps(2)]]
  also note activity_more_enqueue [OF steps(3)]
  finally show ?thesis .
qed

definition wake_ok :: "'z wake \<Rightarrow> bool" where
  "wake_ok wake \<longleftrightarrow> (\<forall>repo wid ts db db'. wake repo wid ts db = Inr db' \<longrightarrow> activity_more db db')"

lemma best_effort_wake_more: "wake_ok wake \<Longrightarrow> activity_more db (best_effort_wake wake repo wid ts db)"
  by (auto simp: wake_ok_def best_effort_wake_def split: sum.splits)

lemma persist_admission_more:
  assumes "persist_admission wake repo aid decision ts db = Inr (a, db')" and "wake_ok wake"
  shows "activity_more db db'"
proof -
  from assms(1) obtain current where current: "require_activity repo aid db = Inr current"
    "act_status current = ActWaitingAdmission"
    by (auto simp: persist_admission_def bindE_eq_Inr split: if_splits)
  then have id: "act_id current = aid" by (auto elim: require_activityE)
  show ?thesis
  proof (cases decision)
    case (Admitted rid keys adm expires)
    then have "admit_activity repo aid rid keys expires ts db = Inr db'"
      using assms(1) current by (auto simp: persist_admission_def bindE_eq_Inr)
    then show ?thesis by (rule admit_activity_more)
  next
    case (Deferred reasons)
    then have "db' = db" using assms(1) current by (auto simp: persist_admission_def bindE_eq_Inr)
    then show ?thesis by simp
  next
    case (Rejected reasons)
    then obtain db1 where rej: "reject_activity repo current reasons ts db = Inr db1"
      and wake: "db' = best_effort_wake wake repo (act_workflow current) ts db1"
      using assms(1) current by (auto simp: persist_admission_def bindE_eq_Inr)
    from current id rej have "activity_more db db1" by (auto intro: reject_activity_more)
    also note best_effort_wake_more [OF assms(2), of db1 repo "act_workflow current" ts]
    finally show ?thesis by (simp add: wake)
  qed
qed

lemma this_activity_unique:
  assumes "activity_inv db" "find (this_activity repo aid) (activities db) = Some a"
    and "x \<in> set (activities db)" "this_activity repo aid x"
  shows "x = a"
  using assms find_Some_mem [OF assms(2)] distinct_key_eq [of act_id "activities db" x a]
  by (auto simp: activity_inv_def this_activity_def)

text \<open>What a successful claim found, and what it leaves behind.\<close>

lemma claim_activityE:
  assumes "claim_activity repo aid owner lease_for cap ts db = Inr (c, db')"
  obtains row f route where "find (this_activity repo aid) (activities db) = Some row"
    "f = (\<lambda>a. a\<lparr>act_status := ActClaimed, act_revision := act_revision a + 1, act_attempts := act_attempts row + 1,
       claimed_by := Some owner, claim_fence := claim_fence row + 1, lease_expires_at := Some (ts + lease_for),
       act_updated_at := ts\<rparr>)"
    "record_change repo aid ''claimed'' ts (update_activity (this_activity repo aid) f db) = Inr (activity_record (f row), db')"
    "c = \<lparr>claim_activity_id = aid, claim_owner = owner, claim_attempt = act_attempts row + 1,
       fence = claim_fence row + 1, claimed_at = ts, claim_expires_at = ts + lease_for\<rparr>"
    "active_reservation repo aid ts db" "act_route row = Some route" "capability_revision route = cap"
    "act_status row = ActWaitingAdmission \<or> act_status row = ActClaimed \<and>
       (\<forall>e. lease_expires_at row = Some e \<longrightarrow> e \<le> ts)"
    "owner \<noteq> []" "0 < lease_for"
proof -
  from assms obtain row where row: "find (this_activity repo aid) (activities db) = Some row"
    by (auto simp: claim_activity_def split: if_splits option.splits)
  define f where "f = (\<lambda>a. a\<lparr>act_status := ActClaimed, act_revision := act_revision a + 1,
    act_attempts := act_attempts row + 1, claimed_by := Some owner, claim_fence := claim_fence row + 1,
    lease_expires_at := Some (ts + lease_for), act_updated_at := ts\<rparr> :: activity_row)"
  let ?db1 = "update_activity (this_activity repo aid) f db"
  from assms row obtain a where change: "record_change repo aid ''claimed'' ts ?db1 = Inr (a, db')"
    and c: "c = \<lparr>claim_activity_id = aid, claim_owner = owner, claim_attempt = act_attempts row + 1,
       fence = claim_fence row + 1, claimed_at = ts, claim_expires_at = ts + lease_for\<rparr>"
    by (auto simp: claim_activity_def f_def bindE_eq_Inr Let_def split: if_splits option.splits)
  have "find (this_activity repo aid) (activities ?db1) = map_option (\<lambda>a. if this_activity repo aid a then f a else a)
      (find (this_activity repo aid) (activities db))"
  proof -
    have "this_activity repo aid (f a) = this_activity repo aid a" for a by (simp add: f_def this_activity_def)
    then show ?thesis unfolding update_activity_def by (simp add: find_update_where)
  qed
  then have "find (this_activity repo aid) (activities ?db1) = Some (f row)"
    using row find_Some_mem [OF row] by simp
  with record_changeE(1) [OF change] have a: "a = activity_record (f row)"
    by (simp add: require_activity_def get_activity_def)
  from assms row obtain route where "act_route row = Some route" "capability_revision route = cap"
    by (auto simp: claim_activity_def split: if_splits option.splits)
  moreover from assms row have "active_reservation repo aid ts db" "owner \<noteq> []" "0 < lease_for"
    by (simp_all add: claim_activity_def split: if_splits)
  moreover from assms row have "act_status row = ActWaitingAdmission \<or> act_status row = ActClaimed \<and>
       (\<forall>e. lease_expires_at row = Some e \<longrightarrow> e \<le> ts)"
    by (auto simp: claim_activity_def split: if_splits option.splits)
  ultimately show thesis using row f_def change c a by (intro that) simp_all
qed

lemma claim_activity_more:
  assumes "claim_activity repo aid owner lease_for cap ts db = Inr (c, db')"
  shows "activity_more db db'"
proof (rule claim_activityE [OF assms])
  fix row f
  assume row: "find (this_activity repo aid) (activities db) = Some row"
    and f: "f = (\<lambda>a. a\<lparr>act_status := ActClaimed, act_revision := act_revision a + 1, act_attempts := act_attempts row + 1,
       claimed_by := Some owner, claim_fence := claim_fence row + 1, lease_expires_at := Some (ts + lease_for),
       act_updated_at := ts\<rparr>)"
    and change: "record_change repo aid ''claimed'' ts (update_activity (this_activity repo aid) f db) =
       Inr (activity_record (f row), db')"
    and status: "act_status row = ActWaitingAdmission \<or> act_status row = ActClaimed \<and>
       (\<forall>e. lease_expires_at row = Some e \<longrightarrow> e \<le> ts)"
  show ?thesis
    by (rule activity_more_change [OF change], drule this_activity_unique [OF _ row])
      (use status in \<open>auto simp: f row_next_def terminal_activity_def claim_ok_def live_claim_def\<close>)
qed

lemma renew_activity_claim_more:
  "renew_activity_claim repo c lease_for ts db = Inr (c', db') \<Longrightarrow> activity_more db db'"
  unfolding renew_activity_claim_def Let_def
  by (auto simp: bindE_eq_Inr split: if_splits elim!: activity_more_change)
    (auto simp: row_next_def terminal_activity_def claim_ok_def live_claim_def)

lemma start_activity_more:
  "start_activity repo c ts db = Inr (a, db') \<Longrightarrow> activity_more db db'"
  unfolding start_activity_def Let_def
  by (auto split: if_splits elim!: activity_more_change)
    (auto simp: row_next_def terminal_activity_def claim_ok_def live_claim_def)

lemma reap_expired_claims_more:
  assumes "reap_expired_claims repo ts db = Inr (n, db')"
  shows "activity_more db db'"
proof -
  define f where "f = (\<lambda>a. a\<lparr>act_status := ActWaitingAdmission, act_revision := act_revision a + 1,
    claimed_by := None, lease_expires_at := None, act_updated_at := ts\<rparr> :: activity_row)"
  let ?facts = "\<lambda>aid db. bindE (record_change repo aid ''claim_reaped'' ts db) (\<lambda>(_, db). Inr db)"
  have "activity_more db (update_activity (claim_expired repo ts) f db)"
    by (rule activity_more_update)
      (auto simp: f_def row_next_def terminal_activity_def claim_ok_def live_claim_def claim_expired_def)
  also from assms have "foldE ?facts (map act_id (filter (claim_expired repo ts) (activities db)))
      (update_activity (claim_expired repo ts) f db) = Inr db'"
    by (auto simp: reap_expired_claims_def f_def bindE_eq_Inr)
  then have "activity_more (update_activity (claim_expired repo ts) f db) db'"
    by (rule foldE_invariant)
      (auto simp: bindE_eq_Inr intro: activity_more_trans activity_more_facts dest: record_changeE(2))
  finally show ?thesis .
qed

lemma close_activity_more:
  assumes "find (this_activity repo aid) (activities db) = Some row"
    and "live_claim (act_status row)" and "\<not> live_claim status"
  shows "activity_more db (close_activity repo aid status ts db)"
proof -
  let ?f = "\<lambda>a. a\<lparr>claimed_by := None, lease_expires_at := None, act_status := status\<rparr>"
  let ?db1 = "bump_activity repo aid ts ?f db"
  let ?db2 = "?db1\<lparr>reservations := update_where (this_reservation repo aid)
      (\<lambda>r. r\<lparr>released_at := Some (iso_micros ts)\<rparr>) (reservations ?db1)\<rparr>"
  have "activity_more db ?db1"
    by (rule bump_activity_more [OF assms(1)])
      (use assms(2,3) in \<open>auto simp: row_next_def terminal_activity_def claim_ok_def live_claim_def\<close>)
  also have "activity_more ?db1 ?db2" by (rule activity_more_same) simp_all
  also note delete_locks_more [of ?db2 repo aid]
  finally show ?thesis by (simp add: close_activity_def Let_def)
qed

text \<open>
  A completion either finds the attempt's result, or it closes the activity, and unless the attempt is
  to be retried it signals the owning run and wakes it.
\<close>

lemma complete_activityE:
  assumes "complete_activity wake repo c outcome ts db = Inr (r, db')"
  obtains (again) old where "old \<in> set (activity_results db)" "result_activity old = claim_activity_id c"
      "result_attempt old = claim_attempt c" "result_repository old = repo" "result_outcome old = outcome"
      "r = result_record old" "db' = snd (uuid4 db)"
  | (fresh) row db1 db2 where "find (this_activity repo (claim_activity_id c)) (activities db) = Some row"
      "live_claim (act_status row)" "holds_claim c ts (activity_record row)"
      "r = \<lparr>result_id = fst (uuid4 db), result_activity = claim_activity_id c, result_attempt = claim_attempt c,
         result_outcome = outcome, completed_at = ts\<rparr>"
      "insert_result repo r (snd (uuid4 db)) = Inr db1"
      "append_completion_fact repo (activity_record row) (result_id r) (claim_attempt c) outcome
         \<lparr>actor_kind = ''activity_worker'', actor_id = claim_owner c\<rparr> ts
         (Some (if retrying c outcome (activity_record row) then ''activity.attempt_failed''
                else ''activity.'' @ activity_status_value (outcome_status outcome)))
         (close_activity repo (claim_activity_id c)
            (if retrying c outcome (activity_record row) then ActWaitingAdmission else outcome_status outcome) ts db1)
         = Inr db2"
      "if retrying c outcome (activity_record row) then db' = db2
       else \<exists>g db3. enqueue_workflow_signal repo (act_workflow row)
           (finished_key (claim_activity_id c) (claim_attempt c))
           (ActivityFinishedSignal (claim_activity_id c) (result_id r)) ts None db2 = Inr (g, db3) \<and>
         db' = best_effort_wake wake repo (act_workflow row) ts db3"
proof -
  obtain rid db0 where draw: "uuid4 db = (rid, db0)" by fastforce
  have db0: "db0 = snd (uuid4 db)" "rid = fst (uuid4 db)" using draw by simp_all
  have tables: "activities db0 = activities db" "activity_results db0 = activity_results db"
    unfolding db0 by simp_all
  let ?mine = "\<lambda>q. result_activity q = claim_activity_id c \<and> result_repository q = repo \<and>
      result_attempt q = claim_attempt c"
  obtain a where a: "require_activity repo (claim_activity_id c) db0 = Inr a"
    using assms draw by (auto simp: complete_activity_def Let_def bindE_eq_Inr)
  then obtain row where row: "find (this_activity repo (claim_activity_id c)) (activities db) = Some row"
    "a = activity_record row" by (rule require_activityE) (simp add: tables)
  show thesis
  proof (cases "find ?mine (activity_results db0)")
    case (Some old)
    from find_Some_mem [OF this] have old: "old \<in> set (activity_results db)" "?mine old" by (simp_all add: tables)
    from assms draw a Some have "result_outcome old = outcome" "r = result_record old" "db' = db0"
      by (auto simp: complete_activity_def Let_def split: if_splits)
    with old show thesis by (intro again [of old]) (simp_all add: db0)
  next
    case None
    let ?r = "\<lparr>result_id = rid, result_activity = claim_activity_id c, result_attempt = claim_attempt c,
        result_outcome = outcome, completed_at = ts\<rparr>"
    let ?fact = "\<lambda>db1. append_completion_fact repo a rid (claim_attempt c) outcome
         \<lparr>actor_kind = ''activity_worker'', actor_id = claim_owner c\<rparr> ts
         (Some (if retrying c outcome a then ''activity.attempt_failed''
                else ''activity.'' @ activity_status_value (outcome_status outcome)))
         (close_activity repo (claim_activity_id c)
            (if retrying c outcome a then ActWaitingAdmission else outcome_status outcome) ts db1)"
    let ?signal = "enqueue_workflow_signal repo (act_workflow a)
           (finished_key (claim_activity_id c) (claim_attempt c))
           (ActivityFinishedSignal (claim_activity_id c) rid) ts None"
    let ?rest = "\<lambda>db. if retrying c outcome a then Inr (?r, db) else bindE (?signal db)
        (\<lambda>(_, db). Inr (?r, best_effort_wake wake repo (act_workflow a) ts db))"
    have guards: "live_claim (act_status a)" "holds_claim c ts a"
      and "bindE (insert_result repo ?r db0) (\<lambda>db. bindE (?fact db) ?rest) = Inr (r, db')"
      using assms None a by (simp_all add: complete_activity_def draw Let_def split: if_splits)
    then obtain db1 where ins: "insert_result repo ?r db0 = Inr db1" and "bindE (?fact db1) ?rest = Inr (r, db')"
      by (auto elim: bindE_InrE)
    then obtain db2 where fact: "?fact db1 = Inr db2" and rest: "?rest db2 = Inr (r, db')" by (auto elim: bindE_InrE)
    from rest have r: "r = ?r" by (auto simp: bindE_eq_Inr split: if_splits)
    have "if retrying c outcome a then db' = db2 else \<exists>g db3. ?signal db2 = Inr (g, db3) \<and>
        db' = best_effort_wake wake repo (act_workflow a) ts db3"
      using rest by (auto simp: bindE_eq_Inr split: if_splits)
    with row guards r ins fact show thesis
      by (intro fresh [of row db1 db2]) (cases "retrying c outcome a"; simp add: db0)+
  qed
qed

lemma complete_tail_more:
  assumes "find (this_activity repo aid) (activities db) = Some row" "live_claim (act_status row)"
    and ins: "insert_result repo r (snd (uuid4 db)) = Inr db1"
    and fact: "append_completion_fact repo a rid attempt outcome who ts kind (close_activity repo aid
          (if retry then ActWaitingAdmission else outcome_status outcome) ts db1) = Inr db2"
    and rest: "if retry then db' = db2
       else \<exists>g db3. enqueue_workflow_signal repo wid key body ts None db2 = Inr (g, db3) \<and>
         db' = best_effort_wake wake repo wid ts db3"
    and wake: "wake_ok wake"
  shows "activity_more db1 db'"
proof -
  let ?status = "if retry then ActWaitingAdmission else outcome_status outcome"
  have "activity_more db1 (close_activity repo aid ?status ts db1)"
    by (rule close_activity_more [OF _ assms(2)])
      (use assms(1) insert_result_activities [OF ins] in
        \<open>auto simp: live_claim_def outcome_status_def split: activity_outcome.splits\<close>)
  also note activity_more_facts [OF append_completion_facts [OF fact]]
  also have "activity_more db2 db'"
  proof (cases retry)
    case True
    with rest show ?thesis by simp
  next
    case False
    with rest obtain g db3 where "activity_more db2 db3"
      "db' = best_effort_wake wake repo wid ts db3" by (auto dest: activity_more_enqueue)
    with best_effort_wake_more [OF wake, of db3 repo wid ts] show ?thesis
      by (auto intro: activity_more_trans)
  qed
  finally show ?thesis .
qed

lemma complete_activity_more:
  assumes "complete_activity wake repo c outcome ts db = Inr (r, db')" and "wake_ok wake"
  shows "activity_more db db'"
  using assms(1)
proof (cases rule: complete_activityE)
  case (again old)
  then show ?thesis by simp
next
  case (fresh row db1 db2)
  have row: "row \<in> set (activities db)" "act_id row = claim_activity_id c"
    using find_Some_mem [OF fresh(1)] by (simp_all add: this_activity_def)
  note activity_more_uuid4 [of db]
  also have "activity_more (snd (uuid4 db)) db1"
    by (rule activity_more_result [OF fresh(5)])
      (use row fresh(3) in \<open>auto simp: fresh(4) holds_claim_def intro!: bexI [of _ row]\<close>)
  also note complete_tail_more [OF fresh(1,2,5,6,7) assms(2)]
  finally show ?thesis .
qed

text \<open>After a completion the store holds the result it returned.\<close>

lemma complete_activity_recorded:
  assumes "complete_activity wake repo c outcome ts db = Inr (r, db')" and "wake_ok wake" and "activity_inv db"
  shows "\<exists>old \<in> set (activity_results db'). result_activity old = claim_activity_id c \<and>
    result_attempt old = claim_attempt c \<and> result_repository old = repo \<and> result_outcome old = outcome \<and> r = result_record old"
  using assms(1)
proof (cases rule: complete_activityE)
  case (again old)
  then show ?thesis by (intro bexI [of _ old]) simp_all
next
  case (fresh row db1 db2)
  have row: "row \<in> set (activities db)" "act_id row = claim_activity_id c"
    using find_Some_mem [OF fresh(1)] by (simp_all add: this_activity_def)
  let ?old = "activity_result.extend r (result_row.fields repo)"
  have "activity_more (snd (uuid4 db)) db1"
    by (rule activity_more_result [OF fresh(5)])
      (use row fresh(3) in \<open>auto simp: fresh(4) holds_claim_def intro!: bexI [of _ row]\<close>)
  with activity_more_uuid4 [of db] assms(3) have "activity_inv db1" by (simp add: activity_more_def)
  with complete_tail_more [OF fresh(1,2,5,6,7) assms(2)]
  have "set (activity_results db1) \<subseteq> set (activity_results db')" by (simp add: activity_more_def activity_progress_def)
  moreover have "?old \<in> set (activity_results db1)"
    using fresh(5) by (auto simp: insert_result_def split: if_splits)
  ultimately have "?old \<in> set (activity_results db')" by blast
  moreover have "r = result_record ?old" by (simp add: result_record_def activity_result.defs result_row.defs)
  ultimately show ?thesis
    by (intro bexI [of _ ?old]) (simp_all add: fresh(4) result_record_def activity_result.defs result_row.defs)
qed

end
