(* ===== verification/ActivityLeases.thy ===== *)
theory ActivityLeases
  imports Activities
begin

text \<open>
  What the fenced claims of \<open>murder/state/persistence/activities.py\<close> guarantee over any interleaving of
  the store's operations: a superseded claim is dead for good, a completion is recorded once per
  attempt, resource locks are exclusive. The fencing argument is a locale over any store whose
  resources carry a growing fence.
\<close>

section \<open>Fenced leases\<close>

text \<open>
  A holder names the fence it was given, every step of the system keeps the fences from falling, and who
  holds a resource holds it under the current fence.
\<close>

locale fenced_lease =
  fixes step :: "'s \<Rightarrow> 's \<Rightarrow> bool" and wf :: "'s \<Rightarrow> bool"
    and fence_at :: "'k \<Rightarrow> 's \<Rightarrow> int" and holds :: "'s \<Rightarrow> 'c \<Rightarrow> bool"
    and resource :: "'c \<Rightarrow> 'k" and token :: "'c \<Rightarrow> int"
  assumes step_wf: "step s t \<Longrightarrow> wf s \<Longrightarrow> wf t"
    and step_fence: "step s t \<Longrightarrow> wf s \<Longrightarrow> fence_at k s \<le> fence_at k t"
    and holder_token: "holds s c \<Longrightarrow> fence_at (resource c) s = token c"
begin

lemma run_fence:
  assumes "step\<^sup>*\<^sup>* s t" and "wf s"
  shows "wf t" and "fence_at k s \<le> fence_at k t"
proof -
  from assms have "wf t \<and> fence_at k s \<le> fence_at k t"
  proof (induction rule: rtranclp_induct)
    case base
    then show ?case by simp
  next
    case (step u v)
    then show ?case using step_wf step_fence order_trans by blast
  qed
  then show "wf t" and "fence_at k s \<le> fence_at k t" by simp_all
qed

text \<open>Once another holder got a larger fence, the old one never holds the resource again.\<close>

lemma superseded:
  assumes "step\<^sup>*\<^sup>* s t" and "wf s" and "holds s new" and "resource new = resource old" and "token old < token new"
  shows "\<not> holds t old"
proof
  assume "holds t old"
  from holder_token [OF this] run_fence(2) [OF assms(1,2), of "resource old"] holder_token [OF assms(3)] assms(4,5)
  show False by simp
qed

lemma same_token: "holds s a \<Longrightarrow> holds s b \<Longrightarrow> resource a = resource b \<Longrightarrow> token a = token b"
  using holder_token by metis

end

section \<open>Runs of the activity store\<close>

definition fence_at :: "string \<times> uuid \<Rightarrow> 'z activity_db_scheme \<Rightarrow> int" where
  "fence_at k db = (case find (this_activity (fst k) (snd k)) (activities db) of None \<Rightarrow> 0 | Some a \<Rightarrow> claim_fence a)"

definition claim_held :: "'z activity_db_scheme \<Rightarrow> string \<times> activity_claim \<Rightarrow> bool" where
  "claim_held db = (\<lambda>(repo, c). case find (this_activity repo (claim_activity_id c)) (activities db) of
     None \<Rightarrow> False
   | Some a \<Rightarrow> live_claim (act_status a) \<and> act_attempts a = claim_attempt c \<and>
       claimed_by a = Some (claim_owner c) \<and> claim_fence a = fence c)"

definition claimed_resource :: "string \<times> activity_claim \<Rightarrow> string \<times> uuid" where
  "claimed_resource = (\<lambda>(repo, c). (repo, claim_activity_id c))"

text \<open>
  Any operation of the store, in any order, for any repository; \<open>elsewhere\<close> is a step of another component,
  which leaves the activity tables alone.
\<close>

inductive activity_step :: "'z activity_db_scheme \<Rightarrow> 'z activity_db_scheme \<Rightarrow> bool" where
  requested: "insert_activity_requests repo wid wrev drafts ts db = Inr db' \<Longrightarrow> activity_step db db'"
| routed: "persist_route repo aid route ts db = Inr (a, db') \<Longrightarrow> activity_step db db'"
| admitted: "wake_ok wake \<Longrightarrow> persist_admission wake repo aid decision ts db = Inr (a, db') \<Longrightarrow> activity_step db db'"
| claimed: "claim_activity repo aid owner lease_for cap ts db = Inr (c, db') \<Longrightarrow> activity_step db db'"
| renewed: "renew_activity_claim repo c lease_for ts db = Inr (c', db') \<Longrightarrow> activity_step db db'"
| started: "start_activity repo c ts db = Inr (a, db') \<Longrightarrow> activity_step db db'"
| reaped: "reap_expired_claims repo ts db = Inr (n, db') \<Longrightarrow> activity_step db db'"
| released: "reap_expired_reservations repo ts db = (n, db') \<Longrightarrow> activity_step db db'"
| completed: "wake_ok wake \<Longrightarrow> complete_activity wake repo c outcome ts db = Inr (r, db') \<Longrightarrow> activity_step db db'"
| elsewhere: "activities db' = activities db \<Longrightarrow> activity_results db' = activity_results db \<Longrightarrow>
    reservation_locks db' = reservation_locks db \<Longrightarrow> activity_step db db'"

lemma activity_step_more: "activity_step db db' \<Longrightarrow> activity_more db db'"
proof (induction rule: activity_step.induct)
  case (released repo ts db n db')
  then show ?case
    using release_expired_more [of db repo ts] by (simp add: reap_expired_reservations_def)
qed (auto intro: insert_activity_requests_more persist_route_more persist_admission_more claim_activity_more
    renew_activity_claim_more start_activity_more reap_expired_claims_more complete_activity_more activity_more_same)

lemma activity_more_fence:
  assumes "activity_more db db'" and "activity_inv db"
  shows "activity_inv db'" and "fence_at k db \<le> fence_at k db'"
proof -
  show inv': "activity_inv db'" using assms by (simp add: activity_more_def)
  show "fence_at k db \<le> fence_at k db'"
  proof (cases "find (this_activity (fst k) (snd k)) (activities db)")
    case None
    have "0 \<le> claim_fence a" if "find (this_activity (fst k) (snd k)) (activities db') = Some a" for a
      using inv' find_Some_mem [OF that] by (fastforce simp: activity_inv_def claim_ok_def)
    with None show ?thesis by (auto simp: fence_at_def split: option.splits)
  next
    case (Some a)
    from find_Some_mem [OF this] have a: "a \<in> set (activities db)" "this_activity (fst k) (snd k) a" by simp_all
    then obtain a' where a': "a' \<in> set (activities db')" "row_next a a'"
      using assms by (auto simp: activity_more_def activity_progress_def)
    with a(2) have this': "this_activity (fst k) (snd k) a'" by (simp add: this_activity_def row_next_def)
    with a'(1) obtain b where b: "find (this_activity (fst k) (snd k)) (activities db') = Some b"
      by (cases "find (this_activity (fst k) (snd k)) (activities db')") (auto simp: find_eq_None)
    from this_activity_unique [OF inv' b a'(1) this'] a'(2) Some b show ?thesis
      by (simp add: fence_at_def row_next_def)
  qed
qed

interpretation activity_lease: fenced_lease activity_step activity_inv fence_at claim_held claimed_resource "fence \<circ> snd"
proof (unfold_locales, goal_cases)
  case (1 s t)
  then show ?case using activity_more_fence(1) [OF activity_step_more] by blast
next
  case (2 s t k)
  then show ?case using activity_more_fence(2) [OF activity_step_more] by blast
next
  case (3 s c)
  then show ?case by (auto simp: claim_held_def claimed_resource_def fence_at_def split: option.splits prod.splits)
qed

text \<open>A successful claim holds the activity, under the next fence.\<close>

lemma claim_activity_holds:
  assumes "claim_activity repo aid owner lease_for cap ts db = Inr (c, db')"
  shows "claim_held db' (repo, c)" and "claim_activity_id c = aid" and "fence c = fence_at (repo, aid) db + 1"
proof -
  from assms obtain row f where row: "find (this_activity repo aid) (activities db) = Some row"
    and f: "f = (\<lambda>a. a\<lparr>act_status := ActClaimed, act_revision := act_revision a + 1, act_attempts := act_attempts row + 1,
       claimed_by := Some owner, claim_fence := claim_fence row + 1, lease_expires_at := Some (ts + lease_for),
       act_updated_at := ts\<rparr>)"
    and change: "record_change repo aid ''claimed'' ts (update_activity (this_activity repo aid) f db) =
       Inr (activity_record (f row), db')"
    and c: "c = \<lparr>claim_activity_id = aid, claim_owner = owner, claim_attempt = act_attempts row + 1,
       fence = claim_fence row + 1, claimed_at = ts, claim_expires_at = ts + lease_for\<rparr>"
    by (rule claim_activityE)
  have keep: "this_activity repo aid (f a) = this_activity repo aid a" for a by (simp add: f this_activity_def)
  have "activities db' = update_where (this_activity repo aid) f (activities db)"
    using facts_only_activity(1) [OF record_changeE(2) [OF change]] by (simp add: update_activity_def)
  then have "find (this_activity repo aid) (activities db') = Some (f row)"
    using row find_Some_mem [OF row] by (simp add: find_update_where keep)
  then show "claim_held db' (repo, c)" by (simp add: claim_held_def c f live_claim_def)
  show "claim_activity_id c = aid" and "fence c = fence_at (repo, aid) db + 1"
    by (simp_all add: c fence_at_def row)
qed

lemma holder_required:
  shows "renew_activity_claim repo c lease_for ts db = Inr (c', db') \<Longrightarrow> activity_inv db \<Longrightarrow> claim_held db (repo, c)"
    and "start_activity repo c ts db = Inr (a, db') \<Longrightarrow> activity_inv db \<Longrightarrow> claim_held db (repo, c)"
proof -
  have held: "claim_held db (repo, c)" if inv: "activity_inv db"
    and "count_where (\<lambda>a. this_activity repo (claim_activity_id c) a \<and> P (act_status a) \<and>
      holds_claim c ts (activity_record a)) (activities db) = 1" and P: "\<And>s. P s \<Longrightarrow> live_claim s" for P
  proof -
    let ?mine = "\<lambda>a. this_activity repo (claim_activity_id c) a \<and> P (act_status a) \<and> holds_claim c ts (activity_record a)"
    from that(2) have "filter ?mine (activities db) \<noteq> []" by (auto simp: count_where_def)
    then obtain x where x: "x \<in> set (activities db)" "?mine x" by (auto simp: filter_empty_conv)
    then obtain b where b: "find (this_activity repo (claim_activity_id c)) (activities db) = Some b"
      by (cases "find (this_activity repo (claim_activity_id c)) (activities db)") (auto simp: find_eq_None)
    with this_activity_unique [OF inv b x(1)] x(2) have "b = x" by simp
    with b x P show ?thesis by (simp add: claim_held_def holds_claim_def)
  qed
  show "renew_activity_claim repo c lease_for ts db = Inr (c', db') \<Longrightarrow> activity_inv db \<Longrightarrow> claim_held db (repo, c)"
    by (rule held [where P = live_claim]) (auto simp: renew_activity_claim_def Let_def split: if_splits)
  show "start_activity repo c ts db = Inr (a, db') \<Longrightarrow> activity_inv db \<Longrightarrow> claim_held db (repo, c)"
    by (rule held [where P = "\<lambda>s. s = ActClaimed"])
      (auto simp: start_activity_def Let_def live_claim_def split: if_splits)
qed

section \<open>What the store promises\<close>

text \<open>
  C17: a claim that was superseded is dead for good. If an activity was claimed and, after any steps of the
  store, claimed again, the second claim has the larger fence, and whatever happens afterwards the
  first claim can never be renewed or started again, nor complete the activity: a completion under it
  at most reads back a result that was recorded for its attempt before, and changes nothing.
\<close>

theorem superseded_claim_is_dead:
  assumes "activity_inv db0"
    and "claim_activity repo aid owner lease_for cap ts db0 = Inr (c, db1)" and "activity_step\<^sup>*\<^sup>* db1 db2"
    and "claim_activity repo aid owner' lease_for' cap' ts' db2 = Inr (c', db3)" and "activity_step\<^sup>*\<^sup>* db3 db"
  shows "fence c < fence c' \<and>
    (\<forall>lease now r. renew_activity_claim repo c lease now db \<noteq> Inr r) \<and>
    (\<forall>now r. start_activity repo c now db \<noteq> Inr r) \<and>
    (\<forall>wake outcome now r db'. complete_activity wake repo c outcome now db = Inr (r, db') \<longrightarrow>
       db' = snd (uuid4 db) \<and>
       (\<exists>old \<in> set (activity_results db). r = result_record old \<and> result_attempt old = claim_attempt c))"
proof -
  note first = claim_activity_holds [OF assms(2)] and second = claim_activity_holds [OF assms(4)]
  have inv1: "activity_inv db1" using activity_more_fence(1) [OF claim_activity_more [OF assms(2)] assms(1)] .
  note inv2 = activity_lease.run_fence(1) [OF assms(3) inv1]
  have inv3: "activity_inv db3" using activity_more_fence(1) [OF claim_activity_more [OF assms(4)] inv2] .
  note inv = activity_lease.run_fence(1) [OF assms(5) inv3]
  have "fence c = fence_at (repo, aid) db1"
    using activity_lease.holder_token [OF first(1)] first(2) by (simp add: claimed_resource_def)
  also have "\<dots> \<le> fence_at (repo, aid) db2" by (rule activity_lease.run_fence(2) [OF assms(3) inv1])
  finally have less: "fence c < fence c'" using second(3) by simp
  have not_held: "\<not> claim_held db (repo, c)"
    by (rule activity_lease.superseded [OF assms(5) inv3 second(1)]) (simp_all add: claimed_resource_def first(2) second(2) less)
  have "db' = snd (uuid4 db) \<and> (\<exists>old \<in> set (activity_results db). r = result_record old \<and> result_attempt old = claim_attempt c)"
    if "complete_activity wake repo c outcome now db = Inr (r, db')" for wake outcome now r db'
    using that
  proof (cases rule: complete_activityE)
    case (again old)
    then show ?thesis by auto
  next
    case (fresh row dba dbb)
    with not_held show ?thesis by (simp add: claim_held_def holds_claim_def)
  qed
  with less not_held holder_required(1) [OF _ inv, of repo c] holder_required(2) [OF _ inv, of repo c]
  show ?thesis by auto
qed

text \<open>
  C18: completing an attempt is idempotent. After a completion, a repeated completion of the same attempt with the
  same outcome, however late and even after the claim expired, returns the recorded result and changes
  nothing but the counter of drawn identifiers; one with another outcome is refused.
\<close>

theorem complete_exactly_once:
  assumes "complete_activity wake repo c outcome ts db = Inr (r, db')" and "wake_ok wake" and "activity_inv db"
  shows "complete_activity wake' repo c outcome' ts' db' =
    (if outcome' = outcome then Inr (r, snd (uuid4 db'))
     else Inl (ActivityLifecycleError ''activity attempt already completed with a different outcome''))"
proof -
  have inv: "activity_inv db'" using activity_more_fence(1) [OF complete_activity_more [OF assms(1,2)] assms(3)] .
  obtain old where old: "old \<in> set (activity_results db')" "result_activity old = claim_activity_id c"
    "result_attempt old = claim_attempt c" "result_repository old = repo" "result_outcome old = outcome" "r = result_record old"
    using complete_activity_recorded [OF assms] by blast
  let ?mine = "\<lambda>q. result_activity q = claim_activity_id c \<and> result_repository q = repo \<and> result_attempt q = claim_attempt c"
  have "find ?mine (activity_results db') = Some old"
  proof (cases "find ?mine (activity_results db')")
    case None
    with old show ?thesis by (auto simp: find_eq_None)
  next
    case (Some q)
    from find_Some_mem [OF this] old have "q \<in> set (activity_results db')" "result_key q = result_key old"
      by (simp_all add: result_key_def)
    moreover from inv have "distinct (map result_key (activity_results db'))" by (simp add: activity_inv_def)
    ultimately have "q = old" using distinct_key_eq [OF _ _ old(1)] by blast
    with Some show ?thesis by simp
  qed
  moreover obtain a where "require_activity repo (claim_activity_id c) db' = Inr a"
  proof -
    from assms(1) obtain a0 where "require_activity repo (claim_activity_id c) (snd (uuid4 db)) = Inr a0"
      by (cases "require_activity repo (claim_activity_id c) (snd (uuid4 db))")
        (simp_all add: complete_activity_def Let_def split_beta)
    then obtain row where "row \<in> set (activities db)" "act_id row = claim_activity_id c" "act_repository row = repo"
      by (rule require_activityE) auto
    with complete_activity_more [OF assms(1,2)] assms(3) obtain row' where "row' \<in> set (activities db')"
      "this_activity repo (claim_activity_id c) row'"
      by (fastforce simp: activity_more_def activity_progress_def row_next_def this_activity_def)
    then show thesis
      using that by (cases "find (this_activity repo (claim_activity_id c)) (activities db')")
        (auto simp: require_activity_def get_activity_def find_eq_None)
  qed
  moreover obtain rid db2 where "uuid4 db' = (rid, db2)" by fastforce
  moreover from this have "activities db2 = activities db'" "activity_results db2 = activity_results db'"
    using uuid4_activity [of db'] by simp_all
  ultimately show ?thesis using old(5,6)
    by (simp add: complete_activity_def require_activity_def get_activity_def split: option.splits)
qed

section \<open>Locks and reservations\<close>

lemma insert_locksE:
  assumes "foldE (insert_lock repo aid expires) keys db = Inr db'"
  shows "set (reservation_locks db') = set (reservation_locks db) \<union>
      {\<lparr>lock_repository = repo, lock_key = k, lock_activity = aid, lock_expires_at = expires\<rparr> | k. k \<in> set keys}"
    and "\<forall>l \<in> set (reservation_locks db). lock_repository l = repo \<longrightarrow> lock_key l \<notin> set keys"
  using assms
proof (induction keys arbitrary: db)
  case (Cons k keys)
  {
    case 1
    then obtain db1 where "insert_lock repo aid expires k db = Inr db1"
      and rest: "foldE (insert_lock repo aid expires) keys db1 = Inr db'" by (auto simp: bindE_eq_Inr)
    with Cons.IH(1) [OF rest] show ?case by (auto simp: insert_lock_def split: if_splits)
  next
    case 2
    then obtain db1 where "insert_lock repo aid expires k db = Inr db1"
      and rest: "foldE (insert_lock repo aid expires) keys db1 = Inr db'" by (auto simp: bindE_eq_Inr)
    with Cons.IH(2) [OF rest] show ?case by (auto simp: insert_lock_def list_ex_iff split: if_splits)
  }
qed auto

text \<open>The activities whose reservations a reaper at \<open>ts\<close> considers expired.\<close>

definition expired_reservation :: "string \<Rightarrow> time \<Rightarrow> 'z activity_db_scheme \<Rightarrow> uuid \<Rightarrow> bool" where
  "expired_reservation repo ts db aid \<longleftrightarrow> list_ex (\<lambda>r. res_activity r = aid \<and> res_repository r = repo \<and>
     released_at r = None \<and> res_expires_at r \<le> ts) (reservations db)"

lemma release_expired_locks:
  "set (reservation_locks (snd (release_expired_reservations repo ts db))) =
     {l \<in> set (reservation_locks db). \<not> (lock_repository l = repo \<and> expired_reservation repo ts db (lock_activity l))}"
  by (auto simp: release_expired_reservations_def Let_def set_delete_where expired_reservation_def list_ex_iff
      filter_empty_conv image_iff)

text \<open>
  C19: resource locks are exclusive. An admission that succeeds leaves its activity with exactly the locks of
  its reservation keys, no key is locked twice, and no other activity held one of the keys, unless that
  activity's reservation had expired.
\<close>

theorem admitted_locks_exclusive:
  assumes "persist_admission wake repo aid (Admitted rid keys adm expires) ts db = Inr (a, db')" and "activity_inv db"
  shows "{lock_key l | l. l \<in> set (reservation_locks db') \<and> lock_repository l = repo \<and> lock_activity l = aid} = set keys \<and>
    distinct (map lock_name (reservation_locks db')) \<and>
    (\<forall>l \<in> set (reservation_locks db). lock_repository l = repo \<and> lock_key l \<in> set keys \<longrightarrow>
       lock_activity l = aid \<or> expired_reservation repo ts db (lock_activity l))"
proof -
  from assms(1) have admit: "admit_activity repo aid rid keys expires ts db = Inr db'"
    by (auto simp: persist_admission_def bindE_eq_Inr split: if_splits)
  let ?db0 = "snd (release_expired_reservations repo ts db)"
  from admit obtain db1 db2 b where steps: "upsert_reservation repo aid rid keys ts expires ?db0 = Inr db1"
    "foldE (insert_lock repo aid expires) keys (delete_locks repo aid db1) = Inr db2"
    and change: "record_change repo aid ''admitted'' ts (bump_activity repo aid ts id db2) = Inr (b, db')"
    by (auto simp: admit_activity_def bindE_eq_Inr)
  have "reservation_locks db1 = reservation_locks ?db0"
    using steps(1) by (auto simp: upsert_reservation_def split: if_splits)
  then have before: "set (reservation_locks (delete_locks repo aid db1)) = {l \<in> set (reservation_locks db).
      \<not> (lock_repository l = repo \<and> (lock_activity l = aid \<or> expired_reservation repo ts db (lock_activity l)))}"
    by (auto simp: delete_locks_def set_delete_where release_expired_locks)
  have after: "reservation_locks db' = reservation_locks db2"
    using facts_only_activity(3) [OF record_changeE(2) [OF change]] by (simp add: bump_activity_def update_activity_def)
  note locks = insert_locksE [OF steps(2), unfolded before]
  have "distinct (map lock_name (reservation_locks db'))"
    using activity_more_fence(1) [OF admit_activity_more [OF admit] assms(2)] by (simp add: activity_inv_def)
  moreover have "{lock_key l | l. l \<in> set (reservation_locks db') \<and> lock_repository l = repo \<and> lock_activity l = aid} =
      lock_key ` {l \<in> set (reservation_locks db'). lock_repository l = repo \<and> lock_activity l = aid}" by blast
  moreover have "{l \<in> set (reservation_locks db'). lock_repository l = repo \<and> lock_activity l = aid} =
      (\<lambda>k. \<lparr>lock_repository = repo, lock_key = k, lock_activity = aid, lock_expires_at = expires\<rparr>) ` set keys"
    unfolding after locks(1) by auto
  moreover have "lock_activity l = aid \<or> expired_reservation repo ts db (lock_activity l)"
    if "l \<in> set (reservation_locks db)" "lock_repository l = repo" "lock_key l \<in> set keys" for l
    using locks(2) that by auto
  ultimately show ?thesis by (simp add: image_image)
qed

text \<open>releasing expired reservations never marks one as released. The reaper's \<open>UPDATE\<close> compares the
  repository with the text of the current time, so unless a repository is named like a timestamp, its
  reservations stay as they were, and the next run of the reaper counts the same ones again.
\<close>

theorem reaper_releases_nothing:
  assumes "\<forall>r \<in> set (reservations db). CHR ''T'' \<notin> set (res_repository r)"
  shows "reap_expired_reservations repo ts db = (n, db') \<Longrightarrow>
    reservations db' = reservations db \<and> fst (reap_expired_reservations repo ts db') = n"
proof -
  assume run: "reap_expired_reservations repo ts db = (n, db')"
  have "res_repository r \<noteq> iso_micros ts" if "r \<in> set (reservations db)" for r
    using assms that iso_micros_T [of ts] by auto
  then have "update_where (\<lambda>r. res_repository r = iso_micros ts \<and> Q r) f (reservations db) = reservations db" for Q f
    by (intro update_where_none) auto
  with run have same: "reservations db' = reservations db"
    by (auto simp: reap_expired_reservations_def release_expired_reservations_def Let_def split: if_splits)
  with run show ?thesis
    by (auto simp: reap_expired_reservations_def release_expired_reservations_def Let_def split: if_splits)
qed

subsection \<open>A store to run them on\<close>

lemma record_changeI:
  assumes "find (this_activity repo aid) (activities db) = Some row"
    and "require_workflow_run repo (act_workflow row) db = Inr run"
    and "\<forall>f \<in> set (retained_facts db). fact_id f \<noteq> fact_id (activity_state_fact (activity_record row) operation ts (run_correlation run))"
  shows "\<exists>db'. record_change repo aid operation ts db = Inr (activity_record row, db')"
  using assms append_fact_dbI_new [OF assms(3)]
  by (simp add: record_change_def require_activity_def get_activity_def append_activity_input_def)

lemma record_change_fact_ids:
  assumes "record_change repo aid operation ts db = Inr (a, db')"
  shows "\<exists>corr. fact_id ` set (retained_facts db') \<subseteq>
    insert (fact_id (activity_state_fact a operation ts corr)) (fact_id ` set (retained_facts db))"
proof -
  from assms obtain run :: workflow_run and items where "append_fact_db repo (activity_state_fact a operation ts (run_correlation run)) items ts db = Inr db'"
    unfolding record_change_def append_activity_input_def by (elim bindE_InrE) (auto elim!: bindE_InrE)
  then show ?thesis by (auto elim!: append_fact_dbE simp: frame_simps intro!: exI [of _ "run_correlation run"])
qed

definition sample_row :: activity_row where
  "sample_row = activity.extend (sample_activity\<lparr>act_status := ActWaitingAdmission\<rparr>) (activity_row.fields ''r'')"

definition sample_activity_store :: activity_db where
  "sample_activity_store = workflow_db.extend sample_store (activity_db.fields [sample_row]
     [\<lparr>res_id = UUID 31, res_activity = UUID 11, res_keys = [''a''], res_admitted_at = 0, res_expires_at = 1000,
       released_at = None, res_repository = ''r''\<rparr>]
     [\<lparr>lock_repository = ''r'', lock_key = ''a'', lock_activity = UUID 11, lock_expires_at = 1000\<rparr>] [])"

lemma sample_row_sel [simp]:
  "act_id sample_row = UUID 11" "act_workflow sample_row = UUID 1" "act_status sample_row = ActWaitingAdmission"
  "act_repository sample_row = ''r''" "act_route sample_row = Some sample_route" "act_attempts sample_row = 0"
  "claim_fence sample_row = 0" "claimed_by sample_row = None" "lease_expires_at sample_row = None"
  "act_revision sample_row = 0"
  by (simp_all add: sample_row_def sample_activity_def activity.defs activity_row.defs)

lemma sample_activity_store_sel [simp]:
  "activities sample_activity_store = [sample_row]" "activity_results sample_activity_store = []"
  "reservations sample_activity_store = [\<lparr>res_id = UUID 31, res_activity = UUID 11, res_keys = [''a''],
     res_admitted_at = 0, res_expires_at = 1000, released_at = None, res_repository = ''r''\<rparr>]"
  "reservation_locks sample_activity_store = [\<lparr>lock_repository = ''r'', lock_key = ''a'', lock_activity = UUID 11,
     lock_expires_at = 1000\<rparr>]"
  "workflow_runs sample_activity_store = [run_row_of ''r'' (sample_run (UUID 1) WfWaiting)]"
  "retained_facts sample_activity_store = []"
  by (simp_all add: sample_activity_store_def sample_store_def sample_permission_db_def empty_fact_db_def
      workflow_db.defs activity_db.defs permission_db.defs fact_db.defs)

lemma sample_activity_store_inv: "activity_inv sample_activity_store"
  by (simp add: activity_inv_def claim_ok_def live_claim_def)

lemma sample_run_found:
  assumes "workflow_runs db = [run_row_of ''r'' (sample_run (UUID 1) WfWaiting)]"
  shows "\<exists>run. require_workflow_run ''r'' (UUID 1) db = Inr run"
  by (simp add: require_workflow_run_def get_workflow_run_def run_row_named_def assms)

lemma one_neq_two: "int_text 1 \<noteq> int_text 2"
  by (simp add: int_text_def nat_text.simps [of "Suc 0"] nat_text.simps [of 2] digit_char_def)

lemma claim_activityI:
  fixes row :: activity_row
  assumes "find (this_activity repo aid) (activities db) = Some row" "active_reservation repo aid ts db"
    and "act_status row = ActWaitingAdmission \<or> act_status row = ActClaimed \<and> (\<forall>e. lease_expires_at row = Some e \<longrightarrow> e \<le> ts)"
    and "act_route row = Some route" "capability_revision route = cap" "owner \<noteq> []" "0 < lease_for"
    and "require_workflow_run repo (act_workflow row) db = Inr run"
    and fresh: "\<forall>f \<in> set (retained_facts db). fact_id f \<noteq> UUID5 activity_fact_namespace
      (''state:'' @ uuid_text aid @ '':'' @ int_text (act_revision row + 1) @ '':claimed'')"
  shows "\<exists>c db'. claim_activity repo aid owner lease_for cap ts db = Inr (c, db')"
proof -
  define f where "f = (\<lambda>a. a\<lparr>act_status := ActClaimed, act_revision := act_revision a + 1,
    act_attempts := act_attempts row + 1, claimed_by := Some owner, claim_fence := claim_fence row + 1,
    lease_expires_at := Some (ts + lease_for), act_updated_at := ts\<rparr> :: activity_row)"
  let ?db1 = "update_activity (this_activity repo aid) f db"
  have keep: "this_activity repo aid (f a) = this_activity repo aid a" for a by (simp add: f_def this_activity_def)
  have row: "find (this_activity repo aid) (activities ?db1) = Some (f row)"
    using assms(1) find_Some_mem [OF assms(1)] by (simp add: update_activity_def find_update_where keep)
  have sel: "act_workflow (f row) = act_workflow row" "act_id (f row) = aid" "act_revision (f row) = act_revision row + 1"
    using find_Some_mem [OF assms(1)] by (simp_all add: f_def this_activity_def)
  have "require_workflow_run repo (act_workflow (f row)) ?db1 = Inr run"
    using assms(8) require_run_cong [of ?db1 db] by (simp add: sel update_activity_def)
  moreover have "retained_facts ?db1 = retained_facts db" by (simp add: update_activity_def)
  then have "\<forall>g \<in> set (retained_facts ?db1).
      fact_id g \<noteq> fact_id (activity_state_fact (activity_record (f row)) ''claimed'' ts (run_correlation run))"
    using fresh by (simp add: activity_state_fact_def sel)
  ultimately obtain db' where "record_change repo aid ''claimed'' ts ?db1 = Inr (activity_record (f row), db')"
    using record_changeI [OF row] by blast
  then show ?thesis
    using assms(1-7) by (auto simp: claim_activity_def Let_def f_def split: option.splits)
qed

definition sample_claimed_row :: activity_row where
  "sample_claimed_row = sample_row\<lparr>act_status := ActClaimed, act_revision := 1, act_attempts := 1,
     claimed_by := Some ''w'', claim_fence := 1, lease_expires_at := Some 15, act_updated_at := 5\<rparr>"

definition sample_claim :: activity_claim where
  "sample_claim = \<lparr>claim_activity_id = UUID 11, claim_owner = ''w'', claim_attempt = 1, fence = 1, claimed_at = 5,
     claim_expires_at = 15\<rparr>"

lemma sample_claimed:
  "\<exists>db1 run corr. claim_activity ''r'' (UUID 11) ''w'' 10 1 5 sample_activity_store = Inr (sample_claim, db1) \<and>
     find (this_activity ''r'' (UUID 11)) (activities db1) = Some sample_claimed_row \<and>
     reservations db1 = reservations sample_activity_store \<and> activity_results db1 = [] \<and>
     require_workflow_run ''r'' (UUID 1) db1 = Inr run \<and>
     fact_id ` set (retained_facts db1) \<subseteq>
       {fact_id (activity_state_fact (activity_record sample_claimed_row) ''claimed'' 5 corr)}"
proof -
  obtain run where run: "require_workflow_run ''r'' (UUID 1) sample_activity_store = Inr run"
    using sample_run_found sample_activity_store_sel(5) by blast
  have "\<exists>c db1. claim_activity ''r'' (UUID 11) ''w'' 10 1 5 sample_activity_store = Inr (c, db1)"
    by (rule claim_activityI [where row = sample_row and route = sample_route and run = run])
      (simp_all add: this_activity_def active_reservation_def this_reservation_def sample_route_def run [simplified])
  then obtain c db1 where first: "claim_activity ''r'' (UUID 11) ''w'' 10 1 5 sample_activity_store = Inr (c, db1)" by blast
  then obtain row f where row: "find (this_activity ''r'' (UUID 11)) (activities sample_activity_store) = Some row"
    and f: "f = (\<lambda>a. a\<lparr>act_status := ActClaimed, act_revision := act_revision a + 1, act_attempts := act_attempts row + 1,
       claimed_by := Some ''w'', claim_fence := claim_fence row + 1, lease_expires_at := Some (5 + 10),
       act_updated_at := 5\<rparr>)"
    and change: "record_change ''r'' (UUID 11) ''claimed'' 5
       (update_activity (this_activity ''r'' (UUID 11)) f sample_activity_store) = Inr (activity_record (f row), db1)"
    and c: "c = \<lparr>claim_activity_id = UUID 11, claim_owner = ''w'', claim_attempt = act_attempts row + 1,
       fence = claim_fence row + 1, claimed_at = 5, claim_expires_at = 5 + 10\<rparr>"
    by (rule claim_activityE)
  have row': "row = sample_row" using row by (simp add: this_activity_def)
  then have f': "f sample_row = sample_claimed_row" by (simp add: f sample_claimed_row_def)
  note tables = facts_only_activity [OF record_changeE(2) [OF change]]
  have "find (this_activity ''r'' (UUID 11)) (activities db1) = Some sample_claimed_row"
    by (simp add: tables(1) update_activity_def row' this_activity_def f') (simp add: sample_claimed_row_def)
  moreover have "reservations db1 = reservations sample_activity_store" "activity_results db1 = []"
    by (simp_all add: tables update_activity_def)
  moreover have "\<exists>corr. fact_id ` set (retained_facts db1) \<subseteq>
      {fact_id (activity_state_fact (activity_record sample_claimed_row) ''claimed'' 5 corr)}"
    using record_change_fact_ids [OF change] by (simp add: update_activity_def row' f')
  moreover have "workflow_runs db1 = workflow_runs sample_activity_store"
    using facts_only_workflow(1) [OF record_changeE(2) [OF change]] by (simp add: update_activity_def)
  then have "require_workflow_run ''r'' (UUID 1) db1 = Inr run" using run require_run_cong by metis
  moreover have "c = sample_claim" by (simp add: c row' sample_claim_def)
  ultimately show ?thesis using first by blast
qed

lemma sample_claims:
  "\<exists>c db1 c' db3. claim_activity ''r'' (UUID 11) ''w'' 10 1 5 sample_activity_store = Inr (c, db1) \<and>
     claim_activity ''r'' (UUID 11) ''v'' 10 1 20 db1 = Inr (c', db3)"
proof -
  obtain db1 run corr where first: "claim_activity ''r'' (UUID 11) ''w'' 10 1 5 sample_activity_store = Inr (sample_claim, db1)"
    and found: "find (this_activity ''r'' (UUID 11)) (activities db1) = Some sample_claimed_row"
    and res: "reservations db1 = reservations sample_activity_store"
    and run: "require_workflow_run ''r'' (UUID 1) db1 = Inr run"
    and ids: "fact_id ` set (retained_facts db1) \<subseteq>
       {fact_id (activity_state_fact (activity_record sample_claimed_row) ''claimed'' 5 corr)}"
    using sample_claimed by blast
  from ids have facts: "\<forall>g \<in> set (retained_facts db1). fact_id g \<noteq> UUID5 activity_fact_namespace
      (''state:'' @ uuid_text (UUID 11) @ '':'' @ int_text (act_revision sample_claimed_row + 1) @ '':claimed'')"
    using one_neq_two by (fastforce simp: activity_state_fact_def sample_claimed_row_def)
  have run1: "require_workflow_run ''r'' (act_workflow sample_claimed_row) db1 = Inr run"
    using run by (simp add: sample_claimed_row_def)
  have "\<exists>c' db3. claim_activity ''r'' (UUID 11) ''v'' 10 1 20 db1 = Inr (c', db3)"
    by (rule claim_activityI [OF found _ _ _ _ _ _ run1 facts, where route = sample_route])
      (simp_all add: active_reservation_def res this_reservation_def sample_claimed_row_def sample_route_def)
  with first show ?thesis by blast
qed

theorem superseded_claim_is_dead_witness:
  "\<exists>c db1 c' db3. claim_activity ''r'' (UUID 11) ''w'' 10 1 5 sample_activity_store = Inr (c, db1) \<and>
     claim_activity ''r'' (UUID 11) ''v'' 10 1 20 db1 = Inr (c', db3) \<and> fence c < fence c' \<and>
     (\<forall>r. start_activity ''r'' c 21 db3 \<noteq> Inr r)"
proof -
  obtain c db1 c' db3 where claims: "claim_activity ''r'' (UUID 11) ''w'' 10 1 5 sample_activity_store = Inr (c, db1)"
    "claim_activity ''r'' (UUID 11) ''v'' 10 1 20 db1 = Inr (c', db3)" using sample_claims by blast
  with superseded_claim_is_dead [OF sample_activity_store_inv claims(1) rtranclp.rtrancl_refl claims(2) rtranclp.rtrancl_refl]
  show ?thesis by blast
qed

theorem reaper_releases_nothing_witness:
  "\<exists>db'. reap_expired_reservations ''r'' 2000 sample_activity_store = (1, db') \<and>
     reservations db' = reservations sample_activity_store \<and> fst (reap_expired_reservations ''r'' 2000 db') = 1"
proof -
  have "fst (reap_expired_reservations ''r'' 2000 sample_activity_store) = 1"
    by (simp add: reap_expired_reservations_def release_expired_reservations_def Let_def)
  then obtain db' where run: "reap_expired_reservations ''r'' 2000 sample_activity_store = (1, db')"
    by (cases "reap_expired_reservations ''r'' 2000 sample_activity_store") simp
  from reaper_releases_nothing [OF _ run] run show ?thesis by auto
qed

lemma sample_admission:
  "\<exists>a db'. persist_admission (\<lambda>_ _ _ _. Inl AssertionError) ''r'' (UUID 11) (Admitted (UUID 41) [''a'', ''b''] 0 99) 5
     sample_activity_store = Inr (a, db')"
proof -
  obtain run where run: "require_workflow_run ''r'' (UUID 1) sample_activity_store = Inr run"
    using sample_run_found sample_activity_store_sel(5) by blast
  let ?locks = "map (\<lambda>k. \<lparr>lock_repository = ''r'', lock_key = k, lock_activity = UUID 11, lock_expires_at = 99\<rparr>) [''a'', ''b'']"
  let ?db2 = "sample_activity_store\<lparr>reservations := [\<lparr>res_id = UUID 41, res_activity = UUID 11, res_keys = [''a'', ''b''],
      res_admitted_at = 5, res_expires_at = 99, released_at = None, res_repository = ''r''\<rparr>], reservation_locks := ?locks\<rparr>"
  let ?row = "sample_row\<lparr>act_revision := 1, act_updated_at := 5\<rparr>"
  let ?db3 = "bump_activity ''r'' (UUID 11) 5 id ?db2"
  have row: "find (this_activity ''r'' (UUID 11)) (activities ?db3) = Some ?row"
    by (simp add: bump_activity_def update_activity_def this_activity_def)
  have "require_workflow_run ''r'' (act_workflow ?row) ?db3 = Inr run"
    using run require_run_cong [of ?db3 sample_activity_store "''r''" "UUID 1"]
    by (simp add: bump_activity_def update_activity_def)
  from record_changeI [OF row this, of "''admitted''" 5] obtain db' where
    change: "record_change ''r'' (UUID 11) ''admitted'' 5 ?db3 = Inr (activity_record ?row, db')"
    by (auto simp: bump_activity_def update_activity_def)
  have "upsert_reservation ''r'' (UUID 11) (UUID 41) [''a'', ''b''] 5 99
      (snd (release_expired_reservations ''r'' 5 sample_activity_store)) =
      Inr (sample_activity_store\<lparr>reservations := reservations ?db2\<rparr>)"
    by (simp add: upsert_reservation_def release_expired_reservations_def)
  moreover have "foldE (insert_lock ''r'' (UUID 11) 99) [''a'', ''b'']
      (delete_locks ''r'' (UUID 11) (sample_activity_store\<lparr>reservations := reservations ?db2\<rparr>)) = Inr ?db2"
    by (simp add: insert_lock_def delete_locks_def delete_where_def)
  ultimately have "admit_activity ''r'' (UUID 11) (UUID 41) [''a'', ''b''] 99 5 sample_activity_store = Inr db'"
    using change by (simp add: admit_activity_def)
  moreover have "find (this_activity ''r'' (UUID 11)) (activities db') = Some ?row"
    using facts_only_activity(1) [OF record_changeE(2) [OF change]] row by simp
  ultimately show ?thesis
    by (simp add: persist_admission_def require_activity_def get_activity_def this_activity_def)
qed

theorem admitted_locks_exclusive_witness:
  "\<exists>a db'. persist_admission (\<lambda>_ _ _ _. Inl AssertionError) ''r'' (UUID 11) (Admitted (UUID 41) [''a'', ''b''] 0 99) 5
       sample_activity_store = Inr (a, db') \<and>
     {lock_key l | l. l \<in> set (reservation_locks db') \<and> lock_repository l = ''r'' \<and> lock_activity l = UUID 11} = {''a'', ''b''}"
proof -
  obtain a db' where run: "persist_admission (\<lambda>_ _ _ _. Inl AssertionError) ''r'' (UUID 11)
      (Admitted (UUID 41) [''a'', ''b''] 0 99) 5 sample_activity_store = Inr (a, db')" using sample_admission by blast
  with admitted_locks_exclusive [OF run sample_activity_store_inv] show ?thesis by auto
qed

lemma sample_completion:
  assumes "find (this_activity ''r'' (UUID 11)) (activities db) = Some sample_claimed_row" "activity_results db = []"
    "require_workflow_run ''r'' (UUID 1) db = Inr run"
    "fact_id ` set (retained_facts db) \<subseteq> {UUID5 ns name}"
  shows "\<exists>r db'. complete_activity wake ''r'' sample_claim (ActivityFailure ''code'' ''m'' True []) 6 db = Inr (r, db')"
proof -
  let ?out = "ActivityFailure ''code'' ''m'' True []"
  obtain rid db0 where draw: "uuid4 db = (rid, db0)" by fastforce
  have rid: "rid = UUID4 (uuid_draws db)" and db0: "activities db0 = activities db" "activity_results db0 = []"
    "retained_facts db0 = retained_facts db" "workflow_runs db0 = workflow_runs db"
    using draw assms(2) uuid4_activity(1,4) [of db] by (auto simp: uuid4_def)
  let ?r = "\<lparr>result_id = rid, result_activity = UUID 11, result_attempt = 1, result_outcome = ?out, completed_at = 6\<rparr>"
  define db1 where "db1 = db0\<lparr>activity_results := [activity_result.extend ?r (result_row.fields ''r'')]\<rparr>"
  define db2 where "db2 = close_activity ''r'' (UUID 11) ActWaitingAdmission 6 db1"
  have ins: "insert_result ''r'' ?r db0 = Inr db1" by (simp add: insert_result_def db1_def db0)
  have retry: "retrying sample_claim ?out (activity_record sample_claimed_row)"
    by (simp add: retrying_def sample_claim_def sample_claimed_row_def sample_row_def sample_activity_def
        activity.defs activity_row.defs)
  have facts2: "retained_facts db2 = retained_facts db"
    by (simp add: db2_def close_activity_def bump_activity_def update_activity_def delete_locks_def db1_def db0 Let_def)
  obtain iid db3 where draw3: "uuid4 db2 = (iid, db3)" by fastforce
  then have facts3: "retained_facts db3 = retained_facts db" by (simp add: frame_simps facts2)
  have run2: "require_workflow_run ''r'' (UUID 1) db2 = Inr run"
    using assms(3) require_run_cong [of db2 db "''r''" "UUID 1"]
    by (simp add: db2_def close_activity_def bump_activity_def update_activity_def delete_locks_def db1_def db0 Let_def)
  have "find (this_activity ''r'' (UUID 11)) (activities db2) \<noteq> None"
    using assms(1) by (simp add: db2_def close_activity_def bump_activity_def update_activity_def delete_locks_def
        db1_def db0 Let_def find_update_where this_activity_def)
  then obtain cur where cur: "require_activity ''r'' (UUID 11) db2 = Inr cur"
    by (auto simp: require_activity_def get_activity_def)
  have new: "\<forall>g \<in> set (retained_facts db3). fact_id g \<noteq> rid" using assms(4) facts3 rid by auto
  have "\<exists>db4. append_completion_fact ''r'' (activity_record sample_claimed_row) rid 1 ?out
      \<lparr>actor_kind = ''activity_worker'', actor_id = ''w''\<rparr> 6 (Some ''activity.attempt_failed'') db2 = Inr db4"
    using run2 cur draw3
    by (simp add: append_completion_fact_def Let_def private_payload_def is_public_def public_fact_types_def append_fact_dbI_new new
        sample_claimed_row_def)
  then show ?thesis
    using assms(1) ins retry db0 draw
    by (auto simp: complete_activity_def Let_def require_activity_def get_activity_def sample_claim_def holds_claim_def
        live_claim_def sample_claimed_row_def db2_def)
qed

theorem complete_exactly_once_witness:
  "\<exists>db1 r db2. claim_activity ''r'' (UUID 11) ''w'' 10 1 5 sample_activity_store = Inr (sample_claim, db1) \<and>
     complete_activity (\<lambda>_ _ _ _. Inl AssertionError) ''r'' sample_claim (ActivityFailure ''code'' ''m'' True []) 6 db1 = Inr (r, db2) \<and>
     complete_activity (\<lambda>_ _ _ _. Inl AssertionError) ''r'' sample_claim (ActivityFailure ''code'' ''m'' True []) 90 db2 =
       Inr (r, snd (uuid4 db2))"
proof -
  obtain db1 run corr where first: "claim_activity ''r'' (UUID 11) ''w'' 10 1 5 sample_activity_store = Inr (sample_claim, db1)"
    and state: "find (this_activity ''r'' (UUID 11)) (activities db1) = Some sample_claimed_row" "activity_results db1 = []"
      "require_workflow_run ''r'' (UUID 1) db1 = Inr run"
      "fact_id ` set (retained_facts db1) \<subseteq>
         {fact_id (activity_state_fact (activity_record sample_claimed_row) ''claimed'' 5 corr)}"
    using sample_claimed by blast
  have "activity_inv db1"
    using activity_more_fence(1) [OF claim_activity_more [OF first] sample_activity_store_inv] .
  moreover obtain r db2 where run: "complete_activity (\<lambda>_ _ _ _. Inl AssertionError) ''r'' sample_claim
      (ActivityFailure ''code'' ''m'' True []) 6 db1 = Inr (r, db2)"
    using sample_completion [OF state(1-3) state(4) [unfolded activity_state_fact_def fact_draft.simps]] by blast
  ultimately show ?thesis using complete_exactly_once [OF run] first by (auto simp: wake_ok_def)
qed

end
