(* ===== verification/WorkflowRuns.thy ===== *)
theory WorkflowRuns
  imports ActivityLeases
begin

text \<open>
  \<open>apply_transition_plan\<close> of \<open>murder/state/persistence/workflow_runs.py\<close>, the one write path for workflow
  decisions: its guards, signal consumption, state and wait replacement, activity and approval
  requests and transition facts, all in one transaction. Rebuilding a public
  payload from JSON is pydantic's, the argument \<open>validate\<close>.
\<close>

section \<open>Consuming signals\<close>

definition selected_signals :: "string \<Rightarrow> uuid list \<Rightarrow> signal_row list \<Rightarrow> signal_row list" where
  "selected_signals repo ids rows =
     filter (\<lambda>g. signal_repository g = repo \<and> List.member ids (signal_id g)) rows"

fun check_selected :: "uuid \<Rightarrow> signal_row list \<Rightarrow> exn + unit" where
  "check_selected wid [] = Inr ()"
| "check_selected wid (g # gs) =
     (if signal_workflow g \<noteq> wid then
        Inl (SignalConsumptionError ''a workflow may only consume its own addressed signals'')
      else if consumed_at g \<noteq> None then Inl (SignalConsumptionError ''a selected signal is already consumed'')
      else check_selected wid gs)"

definition consume_signals :: "string \<Rightarrow> uuid \<Rightarrow> uuid list \<Rightarrow> time \<Rightarrow> int \<Rightarrow> 'z workflow_db_scheme \<Rightarrow>
    exn + 'z workflow_db_scheme" where
  "consume_signals repo wid ids ts new_revision db =
     (if ids = [] then Inr db
      else
        let rows = selected_signals repo ids (workflow_signals db) in
        if length rows \<noteq> length ids
        then Inl (SignalConsumptionError ''one or more selected signals do not exist'')
        else bindE (check_selected wid rows) (\<lambda>_.
          Inr (db\<lparr>workflow_signals := update_where
            (\<lambda>g. signal_repository g = repo \<and> List.member ids (signal_id g))
            (\<lambda>g. g\<lparr>consumed_at := Some ts, consumed_at_revision := Some new_revision\<rparr>)
            (workflow_signals db)\<rparr>)))"

section \<open>Waits\<close>

definition wait_activities :: "wait_spec \<Rightarrow> uuid list" where
  "wait_activities w = (case w of ActivityWait a \<Rightarrow> [a] | JoinWait ids _ _ \<Rightarrow> ids | _ \<Rightarrow> [])"

definition validate_activity_wait_references :: "string \<Rightarrow> uuid \<Rightarrow> wait_spec list \<Rightarrow> 'z activity_db_scheme \<Rightarrow>
    exn + unit" where
  "validate_activity_wait_references repo wid waits db =
     (if list_all (\<lambda>aid. case find (this_activity repo aid) (activities db) of
            None \<Rightarrow> False | Some a \<Rightarrow> act_workflow a = wid) (concat (map wait_activities waits))
      then Inr ()
      else Inl (ValueError ''activity wait references unknown activity for this workflow''))"

section \<open>Facts\<close>

definition append_transition_facts :: "(json_object \<Rightarrow> exn + fact_payload) \<Rightarrow> string \<Rightarrow> workflow_run \<Rightarrow> int \<Rightarrow>
    transition_plan \<Rightarrow> time \<Rightarrow> 'z fact_db_scheme \<Rightarrow> exn + 'z fact_db_scheme" where
  "append_transition_facts validate repo workflow rn plan ts db =
     bindE (append_workflow_fact repo workflow rn (workflow_fact_id (workflow_id workflow) rn ''transition'')
         (WorkflowTransitionAppliedPayload (workflow_id workflow)
            (workflow_status_value (run_status workflow))
            (workflow_status_value (replaced_status (plan_state plan))) rn) ts None True db)
       (foldE (\<lambda>(ordinal, draft) db.
          bindE (fact_payload_from_storage validate (wf_fact_kind draft) (wf_fact_payload draft)) (\<lambda>body.
          append_workflow_fact repo workflow rn
            (workflow_fact_id (workflow_id workflow) rn (nat_text ordinal)) body ts
            (Some (case wf_fact_aggregate draft of Some a \<Rightarrow> a
               | None \<Rightarrow> \<lparr>aggregate_kind = ''workflow'', aggregate_id = workflow_id workflow,
                   aggregate_revision = Some rn\<rparr>)) False db))
        (enumerate 0 (plan_facts plan)))"

section \<open>Applying a plan\<close>

definition this_run :: "string \<Rightarrow> uuid \<Rightarrow> run_row \<Rightarrow> bool" where
  "this_run repo wid r \<longleftrightarrow> workflow_id r = wid \<and> run_repository r = repo"

definition plan_error :: "transition_plan \<Rightarrow> exn option" where
  "plan_error plan =
     (if \<not> distinct (consume_signal_ids plan) then
        Some (SignalConsumptionError ''consume_signal_ids contains duplicates'')
      else if replaced_status (plan_state plan) = WfWaiting \<and> replace_waits plan = [] then
        Some (ValueError ''a waiting transition requires at least one explicit wait'')
      else if terminal_workflow (replaced_status (plan_state plan)) \<and> replace_waits plan \<noteq> [] then
        Some (ValueError ''a terminal transition cannot install waits'')
      else None)"

definition run_error :: "uuid \<Rightarrow> transition_plan \<Rightarrow> run_row \<Rightarrow> exn option" where
  "run_error wid plan row =
     (if revision row \<noteq> replaced_revision (plan_state plan) then
        Some (StaleWorkflowRevisionError wid (replaced_revision (plan_state plan)) (revision row))
      else if terminal_workflow (run_status row) then Some (TerminalWorkflowTransitionError wid)
      else if schema_name (run_state row) \<noteq> schema_name (replaced_state (plan_state plan)) \<or>
        state_version (run_state row) \<noteq> state_version (replaced_state (plan_state plan))
      then Some WorkflowStateMigrationRequiredError
      else None)"

definition replace_state :: "string \<Rightarrow> uuid \<Rightarrow> transition_plan \<Rightarrow> time \<Rightarrow> 'z workflow_db_scheme \<Rightarrow>
    exn + 'z workflow_db_scheme" where
  "replace_state repo wid plan ts db =
     (let mine = (\<lambda>r. this_run repo wid r \<and> revision r = replaced_revision (plan_state plan)) in
      if count_where mine (workflow_runs db) \<noteq> 1 then
        bindE (require_workflow_run repo wid db) (\<lambda>current.
          Inl (StaleWorkflowRevisionError wid (replaced_revision (plan_state plan)) (revision current)))
      else Inr (db\<lparr>workflow_runs := update_where mine
        (\<lambda>r. r\<lparr>run_status := replaced_status (plan_state plan),
               revision := replaced_revision (plan_state plan) + 1,
               run_state := replaced_state (plan_state plan), run_updated_at := ts,
               terminal_reason := replaced_reason (plan_state plan)\<rparr>) (workflow_runs db)\<rparr>))"

definition replace_all_waits :: "string \<Rightarrow> uuid \<Rightarrow> transition_plan \<Rightarrow> time \<Rightarrow> 'z workflow_db_scheme \<Rightarrow>
    'z workflow_db_scheme" where
  "replace_all_waits repo wid plan ts db =
     insert_waits repo wid (replace_waits plan) ts
       (db\<lparr>workflow_waits := delete_where (waits_of repo wid) (workflow_waits db)\<rparr>)"

definition apply_transition_plan :: "(json_object \<Rightarrow> exn + fact_payload) \<Rightarrow> string \<Rightarrow> uuid \<Rightarrow>
    transition_plan \<Rightarrow> time \<Rightarrow> 'z activity_db_scheme \<Rightarrow> exn + workflow_run \<times> 'z activity_db_scheme" where
  "apply_transition_plan validate repo wid plan ts db =
     (case plan_error plan of
        Some e \<Rightarrow> Inl e
      | None \<Rightarrow>
        let rn = replaced_revision (plan_state plan) + 1 in
        case find (this_run repo wid) (workflow_runs db) of
          None \<Rightarrow> Inl (WorkflowNotFoundError wid)
        | Some row \<Rightarrow>
          (case run_error wid plan row of
             Some e \<Rightarrow> Inl e
           | None \<Rightarrow>
             bindE (consume_signals repo wid (consume_signal_ids plan) ts rn db) (\<lambda>db.
             bindE (replace_state repo wid plan ts db) (\<lambda>db.
             let db = replace_all_waits repo wid plan ts db in
             bindE (if plan_activities plan = [] then Inr db
                    else insert_activity_requests repo wid rn (plan_activities plan) ts db) (\<lambda>db.
             bindE (validate_activity_wait_references repo wid (replace_waits plan) db) (\<lambda>_.
             bindE (if plan_approvals plan = [] then Inr db
                    else insert_approval_requests repo wid rn (plan_approvals plan) ts db) (\<lambda>db.
             bindE (append_transition_facts validate repo (run_record row) rn plan ts db) (\<lambda>db.
             bindE (require_workflow_run repo wid db) (\<lambda>run. Inr (run, db))))))))))"

section \<open>What applying a plan does\<close>

lemma append_transition_facts_only:
  assumes "append_transition_facts validate repo run rn plan ts db = Inr db'"
  shows "facts_only db db'"
proof -
  from assms obtain db1 where first: "facts_only db db1" and rest: "foldE (\<lambda>(ordinal, draft) db.
          bindE (fact_payload_from_storage validate (wf_fact_kind draft) (wf_fact_payload draft)) (\<lambda>body.
          append_workflow_fact repo run rn
            (workflow_fact_id (workflow_id run) rn (nat_text ordinal)) body ts
            (Some (case wf_fact_aggregate draft of Some a \<Rightarrow> a
               | None \<Rightarrow> \<lparr>aggregate_kind = ''workflow'', aggregate_id = workflow_id run,
                   aggregate_revision = Some rn\<rparr>)) False db))
        (enumerate 0 (plan_facts plan)) db1 = Inr db'"
    unfolding append_transition_facts_def by (elim bindE_InrE) (auto intro: facts_only_workflow_fact)
  from rest first show ?thesis
    by (rule foldE_invariant) (auto simp: bindE_eq_Inr dest!: facts_only_workflow_fact intro: facts_only_trans)
qed

lemma insert_activity_requests_workflow:
  assumes "insert_activity_requests repo wid wrev drafts ts db = Inr db'"
  shows "workflow_runs db' = workflow_runs db" "workflow_waits db' = workflow_waits db"
    "workflow_signals db' = workflow_signals db" "state_migrations db' = state_migrations db"
proof -
  have one: "workflow_runs v = workflow_runs u \<and> workflow_waits v = workflow_waits u \<and>
      workflow_signals v = workflow_signals u \<and> state_migrations v = state_migrations u"
    if "insert_activity_request repo wid wrev ts x u = Inr v" for x u v
  proof -
    obtain n draft where x: "x = (n, draft)" by fastforce
    from that obtain a where "record_change repo (activity_id draft) ''created'' ts
        (u\<lparr>activities := activities u @ [activity_row_of repo wid wrev n draft ts]\<rparr>) = Inr (a, v)"
      unfolding x insert_activity_request_def by (auto simp: bindE_eq_Inr split: if_splits)
    from facts_only_workflow [OF record_changeE(2) [OF this]] show ?thesis by simp
  qed
  have "workflow_runs db' = workflow_runs db \<and> workflow_waits db' = workflow_waits db \<and>
      workflow_signals db' = workflow_signals db \<and> state_migrations db' = state_migrations db"
    using assms unfolding insert_activity_requests_def
    by (rule foldE_invariant) (auto dest: one)
  then show "workflow_runs db' = workflow_runs db" "workflow_waits db' = workflow_waits db"
    "workflow_signals db' = workflow_signals db" "state_migrations db' = state_migrations db" by simp_all
qed

definition consumed_signal :: "time \<Rightarrow> int \<Rightarrow> signal_row \<Rightarrow> signal_row" where
  "consumed_signal ts n g = g\<lparr>consumed_at := Some ts, consumed_at_revision := Some n\<rparr>"

definition selected :: "string \<Rightarrow> uuid list \<Rightarrow> signal_row \<Rightarrow> bool" where
  "selected repo ids g \<longleftrightarrow> signal_repository g = repo \<and> List.member ids (signal_id g)"

lemma check_selected_ok:
  "check_selected wid gs = Inr () \<longleftrightarrow> (\<forall>g \<in> set gs. signal_workflow g = wid \<and> consumed_at g = None)"
  by (induction gs) auto

lemma consume_signalsE:
  assumes "consume_signals repo wid ids ts n db = Inr db'"
  shows "db' = db\<lparr>workflow_signals := update_where (selected repo ids) (consumed_signal ts n) (workflow_signals db)\<rparr>"
    and "\<forall>g \<in> set (workflow_signals db). selected repo ids g \<longrightarrow> signal_workflow g = wid \<and> consumed_at g = None"
    and "length (filter (selected repo ids) (workflow_signals db)) = length ids"
proof -
  have sel: "selected_signals repo ids rows = filter (selected repo ids) rows" for rows
    by (simp add: selected_signals_def selected_def [abs_def])
  have empty: "filter (selected repo []) rows = []" for rows by (simp add: selected_def)
  show "db' = db\<lparr>workflow_signals := update_where (selected repo ids) (consumed_signal ts n) (workflow_signals db)\<rparr>"
  proof (cases "ids = []")
    case True
    then have "update_where (selected repo ids) (consumed_signal ts n) (workflow_signals db) = workflow_signals db"
      by (intro update_where_none) (simp add: selected_def)
    with assms True show ?thesis by (simp add: consume_signals_def)
  next
    case False
    with assms show ?thesis
      by (auto simp: consume_signals_def Let_def bindE_eq_Inr selected_def [abs_def] consumed_signal_def [abs_def]
          split: if_splits)
  qed
  show "\<forall>g \<in> set (workflow_signals db). selected repo ids g \<longrightarrow> signal_workflow g = wid \<and> consumed_at g = None"
    using assms by (cases "ids = []") (auto simp: consume_signals_def Let_def bindE_eq_Inr sel check_selected_ok
        selected_def split: if_splits)
  show "length (filter (selected repo ids) (workflow_signals db)) = length ids"
    using assms empty by (cases "ids = []") (auto simp: consume_signals_def Let_def bindE_eq_Inr sel split: if_splits)
qed

definition replaced_run :: "transition_plan \<Rightarrow> time \<Rightarrow> run_row \<Rightarrow> run_row" where
  "replaced_run plan ts r = r\<lparr>run_status := replaced_status (plan_state plan),
     revision := replaced_revision (plan_state plan) + 1, run_state := replaced_state (plan_state plan),
     run_updated_at := ts, terminal_reason := replaced_reason (plan_state plan)\<rparr>"

definition this_revision :: "string \<Rightarrow> uuid \<Rightarrow> transition_plan \<Rightarrow> run_row \<Rightarrow> bool" where
  "this_revision repo wid plan r \<longleftrightarrow> this_run repo wid r \<and> revision r = replaced_revision (plan_state plan)"

lemma replaced_run_sel [simp]:
  "workflow_id (replaced_run plan ts r) = workflow_id r" "run_repository (replaced_run plan ts r) = run_repository r"
  "run_status (replaced_run plan ts r) = replaced_status (plan_state plan)"
  "revision (replaced_run plan ts r) = replaced_revision (plan_state plan) + 1"
  "run_state (replaced_run plan ts r) = replaced_state (plan_state plan)"
  "parent_ticket_id (replaced_run plan ts r) = parent_ticket_id r"
  by (simp_all add: replaced_run_def)

lemma replace_stateE:
  assumes "replace_state repo wid plan ts db = Inr db'"
  shows "db' = db\<lparr>workflow_runs := update_where (this_revision repo wid plan) (replaced_run plan ts) (workflow_runs db)\<rparr>"
  using assms by (auto simp: replace_state_def Let_def bindE_eq_Inr this_revision_def [abs_def] replaced_run_def [abs_def]
      split: if_splits)

text \<open>
  A plan that was applied had passed its guards on the run as stored, and the tables afterwards are those
  it asked for.
\<close>

lemma apply_transition_planE:
  assumes "apply_transition_plan validate repo wid plan ts db = Inr (run, db')"
  obtains row rows where "find (this_run repo wid) (workflow_runs db) = Some row"
    "plan_error plan = None" "run_error wid plan row = None"
    "workflow_runs db' = update_where (this_revision repo wid plan) (replaced_run plan ts) (workflow_runs db)"
    "workflow_signals db' = update_where (selected repo (consume_signal_ids plan))
       (consumed_signal ts (replaced_revision (plan_state plan) + 1)) (workflow_signals db)"
    "\<forall>g \<in> set (workflow_signals db). selected repo (consume_signal_ids plan) g \<longrightarrow> signal_workflow g = wid \<and> consumed_at g = None"
    "length (filter (selected repo (consume_signal_ids plan)) (workflow_signals db)) = length (consume_signal_ids plan)"
    "workflow_waits db' = delete_where (waits_of repo wid) (workflow_waits db) @ rows"
    "map wait_spec rows = replace_waits plan" "list_all (fresh_wait repo wid) rows"
    "state_migrations db' = state_migrations db" "activity_more db db'"
    "require_workflow_run repo wid db' = Inr run"
proof -
  let ?rn = "replaced_revision (plan_state plan) + 1"
  from assms obtain row where row: "find (this_run repo wid) (workflow_runs db) = Some row"
    and errors: "plan_error plan = None" "run_error wid plan row = None"
    by (auto simp: apply_transition_plan_def Let_def split: option.splits)
  have "bindE (consume_signals repo wid (consume_signal_ids plan) ts ?rn db) (\<lambda>db.
             bindE (replace_state repo wid plan ts db) (\<lambda>db.
             bindE (if plan_activities plan = [] then Inr (replace_all_waits repo wid plan ts db)
                    else insert_activity_requests repo wid ?rn (plan_activities plan) ts
                      (replace_all_waits repo wid plan ts db)) (\<lambda>db.
             bindE (validate_activity_wait_references repo wid (replace_waits plan) db) (\<lambda>_.
             bindE (if plan_approvals plan = [] then Inr db
                    else insert_approval_requests repo wid ?rn (plan_approvals plan) ts db) (\<lambda>db.
             bindE (append_transition_facts validate repo (run_record row) ?rn plan ts db) (\<lambda>db.
             bindE (require_workflow_run repo wid db) (\<lambda>run. Inr (run, db)))))))) = Inr (run, db')"
    using assms row errors by (simp add: apply_transition_plan_def Let_def)
  then obtain db1 db2 db3 db4 where s1: "consume_signals repo wid (consume_signal_ids plan) ts ?rn db = Inr db1"
    and s2: "replace_state repo wid plan ts db1 = Inr db2"
    and s3: "(if plan_activities plan = [] then Inr (replace_all_waits repo wid plan ts db2)
       else insert_activity_requests repo wid ?rn (plan_activities plan) ts (replace_all_waits repo wid plan ts db2)) = Inr db3"
    and s4: "(if plan_approvals plan = [] then Inr db3
       else insert_approval_requests repo wid ?rn (plan_approvals plan) ts db3) = Inr db4"
    and s5: "append_transition_facts validate repo (run_record row) ?rn plan ts db4 = Inr db'"
    and s6: "require_workflow_run repo wid db' = Inr run"
    by (elim bindE_InrE) simp
  let ?w = "db2\<lparr>workflow_waits := delete_where (waits_of repo wid) (workflow_waits db2)\<rparr>"
  have w: "replace_all_waits repo wid plan ts db2 = insert_waits repo wid (replace_waits plan) ts ?w"
    by (simp add: replace_all_waits_def)
  obtain rows where rows: "workflow_waits (replace_all_waits repo wid plan ts db2) =
      delete_where (waits_of repo wid) (workflow_waits db2) @ rows" "map wait_spec rows = replace_waits plan"
    "list_all (fresh_wait repo wid) rows"
    using insert_waits_rows [of repo wid "replace_waits plan" ts ?w] by (auto simp: w)
  have t3: "workflow_runs db3 = workflow_runs db2" "workflow_signals db3 = workflow_signals db2"
    "state_migrations db3 = state_migrations db2" "workflow_waits db3 = workflow_waits (replace_all_waits repo wid plan ts db2)"
    "activity_more db2 db3"
  proof -
    let ?d = "replace_all_waits repo wid plan ts db2"
    have "workflow_db.more ?d = workflow_db.more db2" by (simp add: w insert_waits_tables)
    note tables = activity_tables_cong [OF this]
    have "activity_more db2 ?d" by (rule activity_more_same) (simp_all only: tables)
    moreover have "activity_more ?d db3" using s3 by (auto dest: insert_activity_requests_more split: if_splits)
    ultimately show "activity_more db2 db3" by (rule activity_more_trans)
  qed (use s3 in \<open>auto simp: w insert_waits_tables insert_activity_requests_workflow split: if_splits\<close>)
  have more4: "permission_db.more db4 = permission_db.more db3"
    using s4 insert_approval_requests_more by (auto split: if_splits)
  note t4 = workflow_tables_cong [OF this] and t5 = facts_only_workflow [OF append_transition_facts_only [OF s5]]
  have "activity_more db db1"
    by (rule activity_more_same) (simp_all add: consume_signalsE(1) [OF s1])
  also have "activity_more db1 db2"
    by (rule activity_more_same) (simp_all add: replace_stateE [OF s2])
  also note t3(5)
  also have "activity_more db3 db4"
    by (rule activity_more_same) (simp_all add: activity_tables_cong [OF t4(5)])
  also note activity_more_facts [OF append_transition_facts_only [OF s5]]
  finally have more: "activity_more db db'" .
  have "workflow_waits db' = workflow_waits (replace_all_waits repo wid plan ts db2)" by (simp only: t5 t4 t3)
  also note rows(1)
  also have "workflow_waits db2 = workflow_waits db" by (simp add: replace_stateE [OF s2] consume_signalsE(1) [OF s1])
  finally have waits: "workflow_waits db' = delete_where (waits_of repo wid) (workflow_waits db) @ rows" .
  show thesis
    by (rule that [OF row errors _ _ consume_signalsE(2,3) [OF s1] waits rows(2,3) _ more s6])
      (simp_all add: t5 t4 t3 rows(1) replace_stateE [OF s2] consume_signalsE(1) [OF s1])
qed

lemma this_revision_unique:
  assumes "workflow_inv db" "find (this_run repo wid) (workflow_runs db) = Some row" "run_error wid plan row = None"
    and "r \<in> set (workflow_runs db)" "workflow_id r = wid"
  shows "r = row" and "this_revision repo wid plan r" and "\<not> terminal_workflow (run_status r)"
proof -
  from find_Some_mem [OF assms(2)] have row: "row \<in> set (workflow_runs db)" "this_run repo wid row" by simp_all
  from assms(1) have "distinct (map workflow_id (workflow_runs db))" by (simp add: workflow_inv_def)
  from distinct_key_eq [OF this assms(4) row(1)] row(2) assms(5) show r: "r = row" by (simp add: this_run_def)
  show "this_revision repo wid plan r" "\<not> terminal_workflow (run_status r)"
    using row(2) assms(3) by (auto simp: r this_revision_def run_error_def split: if_splits)
qed

lemma apply_transition_plan_inv:
  assumes "apply_transition_plan validate repo wid plan ts db = Inr (run, db')" and inv: "workflow_inv db"
  shows "workflow_inv db'" and "workflow_progress db db'"
proof -
  let ?rn = "replaced_revision (plan_state plan) + 1" and ?sel = "selected repo (consume_signal_ids plan)"
  from assms(1) obtain row rows where row: "find (this_run repo wid) (workflow_runs db) = Some row"
    and errors: "plan_error plan = None" "run_error wid plan row = None"
    and runs: "workflow_runs db' = update_where (this_revision repo wid plan) (replaced_run plan ts) (workflow_runs db)"
    and signals: "workflow_signals db' = update_where ?sel (consumed_signal ts ?rn) (workflow_signals db)"
    and own: "\<forall>g \<in> set (workflow_signals db). ?sel g \<longrightarrow> signal_workflow g = wid \<and> consumed_at g = None"
    and waits: "workflow_waits db' = delete_where (waits_of repo wid) (workflow_waits db) @ rows"
    and rows: "map wait_spec rows = replace_waits plan" "list_all (fresh_wait repo wid) rows"
    by (rule apply_transition_planE)
  note mine = this_revision_unique [OF inv row errors(2)]
  have row_mem: "row \<in> set (workflow_runs db)" "workflow_id row = wid" "run_repository row = repo"
    using find_Some_mem [OF row] by (simp_all add: this_run_def)
  have step: "this_revision repo wid plan r \<longleftrightarrow> workflow_id r = wid" if "r \<in> set (workflow_runs db)" for r
    using mine [OF that] by (auto simp: this_revision_def this_run_def)
  have runs': "workflow_runs db' = update_where (\<lambda>r. workflow_id r = wid) (replaced_run plan ts) (workflow_runs db)"
    unfolding runs by (rule update_where_cong) (simp add: step)
  have ids: "map workflow_id (workflow_runs db') = map workflow_id (workflow_runs db)"
    unfolding runs by (rule map_update_where) simp
  have grow: "revision r \<le> revision (if workflow_id r = wid then replaced_run plan ts r else r)"
    if "r \<in> set (workflow_runs db)" for r
    using mine(2) [OF that] by (auto simp: this_revision_def)
  have exists: "(\<exists>r \<in> set (workflow_runs db'). workflow_id r = k) \<longleftrightarrow> (\<exists>r \<in> set (workflow_runs db). workflow_id r = k)" for k
    using ids by (metis (no_types, lifting) image_iff list.set_map)
  have runs_ok: "run_ok (workflow_waits db') r'" if r': "r' \<in> set (workflow_runs db')" for r'
  proof -
    from r' obtain r where r: "r \<in> set (workflow_runs db)" "r' = (if workflow_id r = wid then replaced_run plan ts r else r)"
      unfolding runs' set_update_where by blast
    show ?thesis
    proof (cases "workflow_id r = wid")
      case True
      with mine(1) r have "run_repository r = repo" using row_mem by blast
      moreover have "\<not> (w \<in> set (delete_where (waits_of repo wid) (workflow_waits db)) \<and> waits_of repo wid w)" for w
        by (simp add: set_delete_where)
      moreover have "waits_of repo wid w" if "w \<in> set rows" for w
        using rows(2) that by (auto simp: list_all_iff fresh_wait_def)
      ultimately show ?thesis
        using True r(2) errors(1) rows(1) waits by (cases rows) (auto simp: run_ok_def plan_error_def split: if_splits)
    next
      case False
      have "waits_of (run_repository r) (workflow_id r) w \<longleftrightarrow> False" if "w \<in> set rows" for w
        using rows(2) that False by (auto simp: list_all_iff fresh_wait_def waits_of_def)
      moreover have "w \<in> set (delete_where (waits_of repo wid) (workflow_waits db)) \<longleftrightarrow> w \<in> set (workflow_waits db)"
        if "waits_of (run_repository r) (workflow_id r) w" for w
        using that False by (auto simp: set_delete_where waits_of_def)
      moreover have "run_ok (workflow_waits db) r" using inv r(1) by (simp add: workflow_inv_def)
      ultimately show ?thesis using False r(2) waits by (auto simp: run_ok_def)
    qed
  qed
  have signals_ok: "signal_ok (workflow_runs db') g'" if "g' \<in> set (workflow_signals db')" for g'
  proof -
    from that obtain g where g: "g \<in> set (workflow_signals db)" "g' = (if ?sel g then consumed_signal ts ?rn g else g)"
      unfolding signals set_update_where by blast
    have ok: "signal_ok (workflow_runs db) g" using inv g(1) by (simp add: workflow_inv_def)
    have "n \<le> revision r'" if n: "consumed_at_revision g' = Some n" and r': "r' \<in> set (workflow_runs db')"
      "workflow_id r' = signal_workflow g'" for n r'
    proof -
      from r'(1) obtain r where r: "r \<in> set (workflow_runs db)" "r' = (if workflow_id r = wid then replaced_run plan ts r else r)"
        unfolding runs' set_update_where by blast
      show ?thesis
      proof (cases "?sel g")
        case True
        with own g r' r n show ?thesis by (auto simp: consumed_signal_def split: if_splits)
      next
        case False
        with g n r r' have "consumed_at_revision g = Some n" "workflow_id r = signal_workflow g" by (auto split: if_splits)
        with ok r(1) have "n \<le> revision r" by (simp add: signal_ok_def)
        with grow [OF r(1)] r(2) show ?thesis by simp
      qed
    qed
    with ok g(2) exists show ?thesis by (auto simp: signal_ok_def consumed_signal_def)
  qed
  have waits_ok: "wait_ok (workflow_runs db') w" if "w \<in> set (workflow_waits db')" for w
    using that inv rows(2) row_mem exists unfolding waits
    by (auto simp: set_delete_where workflow_inv_def wait_ok_def list_all_iff fresh_wait_def waits_of_def)
  have keys: "map signal_id (workflow_signals db') = map signal_id (workflow_signals db)"
    "map signal_key (workflow_signals db') = map signal_key (workflow_signals db)"
    unfolding signals by (rule map_update_where, simp add: consumed_signal_def signal_key_def)+
  show "workflow_inv db'"
    using inv ids keys runs_ok signals_ok waits_ok by (simp add: workflow_inv_def)
  have "\<exists>r' \<in> set (workflow_runs db'). workflow_id r' = workflow_id r \<and> run_repository r' = run_repository r \<and>
      revision r \<le> revision r' \<and> (revision r' = revision r \<longrightarrow> r' = r) \<and>
      (terminal_workflow (run_status r) \<longrightarrow> run_status r' = run_status r)"
    if r: "r \<in> set (workflow_runs db)" for r
    using grow [OF r] mine(2,3) [OF r] r
    by (intro bexI [of _ "if workflow_id r = wid then replaced_run plan ts r else r"]) (auto simp: runs' set_update_where this_revision_def)
  moreover have "g \<in> set (workflow_signals db')" if "g \<in> set (workflow_signals db)" "consumed_at g \<noteq> None" for g
    using own that by (auto simp: signals set_update_where)
  ultimately show "workflow_progress db db'" by (simp add: workflow_progress_def)
qed

section \<open>Every operation on runs\<close>

text \<open>
  The operations on runs in any order, for any repository and run; \<open>elsewhere\<close> is a step of another component, which
  leaves runs, waits and signals alone. The one statement elsewhere that names these tables, the \<open>DELETE FROM
  workflow_runs\<close> of the clean-up of a failed launch (\<open>delete_runs\<close> in \<open>Materialize\<close>), is not a step: the run of a
  launch is the last row it writes, so that there is none to delete when it failed.
\<close>

inductive workflow_step :: "'z activity_db_scheme \<Rightarrow> 'z activity_db_scheme \<Rightarrow> bool" where
  created: "create_workflow_run repo run waits db = Inr db' \<Longrightarrow> workflow_step db db'"
| enqueued: "enqueue_workflow_signal repo wid key body ts sid db = Inr (g, db') \<Longrightarrow> workflow_step db db'"
| migrated: "apply_workflow_state_migration repo wid expected target name ts db = Inr (m, db') \<Longrightarrow> workflow_step db db'"
| applied: "apply_transition_plan validate repo wid plan ts db = Inr (run, db') \<Longrightarrow> workflow_step db db'"
| elsewhere: "workflow_runs db' = workflow_runs db \<Longrightarrow> workflow_waits db' = workflow_waits db \<Longrightarrow>
    workflow_signals db' = workflow_signals db \<Longrightarrow> workflow_step db db'"

lemma workflow_step_inv:
  assumes "workflow_step db db'" and "workflow_inv db"
  shows "workflow_inv db' \<and> workflow_progress db db'"
  using assms
proof (induction rule: workflow_step.induct)
  case (created repo run waits db db')
  then show ?case using create_workflow_run_inv by blast
next
  case (enqueued repo wid key body ts sid db g db')
  then show ?case using enqueue_inv by blast
next
  case (migrated repo wid expected target name ts db m db')
  then show ?case using migration_inv(1,2) by blast
next
  case (applied validate repo wid plan ts db run db')
  then show ?case using apply_transition_plan_inv by blast
next
  case (elsewhere db' db)
  then show ?case using same_tables_inv [of db' db] by blast
qed

lemma workflow_steps_inv:
  assumes "workflow_step\<^sup>*\<^sup>* db db'" and "workflow_inv db"
  shows "workflow_inv db'" and "workflow_progress db db'"
proof -
  from assms have "workflow_inv db' \<and> workflow_progress db db'"
    by (induction rule: rtranclp_induct) (use workflow_step_inv workflow_progress_trans in \<open>auto, blast+\<close>)
  then show "workflow_inv db'" and "workflow_progress db db'" by simp_all
qed

text \<open>A selected id names exactly one stored signal.\<close>

lemma selected_signal_stored:
  assumes "length (filter (selected repo ids) rows) = length ids" and "distinct ids"
    and "distinct (map signal_id rows)" and "sid \<in> set ids"
  shows "\<exists>g \<in> set rows. signal_id g = sid \<and> selected repo ids g"
proof -
  let ?rows = "filter (selected repo ids) rows"
  have "distinct (map signal_id ?rows)" using assms(3) by (rule distinct_map_filter)
  then have "card (set (map signal_id ?rows)) = card (set ids)"
    using assms(1,2) by (simp add: distinct_card del: set_map)
  moreover have "set (map signal_id ?rows) \<subseteq> set ids" by (auto simp: selected_def)
  ultimately have "set (map signal_id ?rows) = set ids" by (metis List.finite_set card_subset_eq)
  with assms(4) show ?thesis by (force simp: image_iff)
qed

section \<open>What the write path promises\<close>

text \<open>
  C15: over any sequence of operations the store of runs stays well formed (ids and deduplication keys unique,
  references resolved, a waiting run has a wait and a finished one has none, a signal is consumed at a
  revision its run has reached), no run disappears, changes without a new revision or falls back to an
  earlier one, a finished run keeps its status, and a consumed signal is never touched again.
\<close>

theorem workflow_store_sound:
  assumes "workflow_step\<^sup>*\<^sup>* db db'" and "workflow_inv db"
  shows "workflow_inv db' \<and>
    (\<forall>r \<in> set (workflow_runs db). \<exists>r' \<in> set (workflow_runs db'). workflow_id r' = workflow_id r \<and>
       run_repository r' = run_repository r \<and> revision r \<le> revision r' \<and> (revision r' = revision r \<longrightarrow> r' = r) \<and>
       (terminal_workflow (run_status r) \<longrightarrow> run_status r' = run_status r)) \<and>
    (\<forall>g \<in> set (workflow_signals db). consumed_at g \<noteq> None \<longrightarrow> g \<in> set (workflow_signals db'))"
  using workflow_steps_inv [OF assms] by (simp add: workflow_progress_def)

lemma applied_plan:
  assumes "apply_transition_plan validate repo wid plan ts db = Inr (run, db')" and inv: "workflow_inv db"
  shows "(\<exists>row \<in> set (workflow_runs db). this_run repo wid row \<and> \<not> terminal_workflow (run_status row) \<and>
      revision row = replaced_revision (plan_state plan) \<and>
      schema_name (run_state row) = schema_name (replaced_state (plan_state plan)) \<and>
      workflow_runs db' = update_where (\<lambda>r. workflow_id r = wid) (replaced_run plan ts) (workflow_runs db)) \<and>
    (\<forall>sid \<in> set (consume_signal_ids plan). \<exists>g \<in> set (workflow_signals db).
       signal_id g = sid \<and> signals_of repo wid g \<and> consumed_at g = None) \<and>
    workflow_signals db' = update_where (selected repo (consume_signal_ids plan))
      (consumed_signal ts (replaced_revision (plan_state plan) + 1)) (workflow_signals db) \<and>
    (\<exists>rows. workflow_waits db' = delete_where (waits_of repo wid) (workflow_waits db) @ rows \<and>
       map wait_spec rows = replace_waits plan \<and> list_all (fresh_wait repo wid) rows)"
proof -
  from assms(1) obtain row rows where row: "find (this_run repo wid) (workflow_runs db) = Some row"
    and errors: "plan_error plan = None" "run_error wid plan row = None"
    and runs: "workflow_runs db' = update_where (this_revision repo wid plan) (replaced_run plan ts) (workflow_runs db)"
    and signals: "workflow_signals db' = update_where (selected repo (consume_signal_ids plan))
       (consumed_signal ts (replaced_revision (plan_state plan) + 1)) (workflow_signals db)"
    and own: "\<forall>g \<in> set (workflow_signals db). selected repo (consume_signal_ids plan) g \<longrightarrow> signal_workflow g = wid \<and> consumed_at g = None"
    and len: "length (filter (selected repo (consume_signal_ids plan)) (workflow_signals db)) = length (consume_signal_ids plan)"
    and waits: "workflow_waits db' = delete_where (waits_of repo wid) (workflow_waits db) @ rows"
      "map wait_spec rows = replace_waits plan" "list_all (fresh_wait repo wid) rows"
    by (rule apply_transition_planE)
  note mine = this_revision_unique [OF inv row errors(2)]
  have row_mem: "row \<in> set (workflow_runs db)" "this_run repo wid row" using find_Some_mem [OF row] by simp_all
  have runs': "workflow_runs db' = update_where (\<lambda>r. workflow_id r = wid) (replaced_run plan ts) (workflow_runs db)"
    unfolding runs by (rule update_where_cong) (use mine in \<open>auto simp: this_revision_def this_run_def\<close>)
  have "\<exists>g \<in> set (workflow_signals db). signal_id g = sid \<and> signals_of repo wid g \<and> consumed_at g = None"
    if sid: "sid \<in> set (consume_signal_ids plan)" for sid
  proof -
    have "distinct (consume_signal_ids plan)" "distinct (map signal_id (workflow_signals db))"
      using errors(1) inv by (auto simp: plan_error_def workflow_inv_def split: if_splits)
    from selected_signal_stored [OF len this sid] own show ?thesis by (auto simp: selected_def signals_of_def)
  qed
  moreover have "run_error wid plan row = None" by (rule errors(2))
  ultimately show ?thesis
    using row_mem runs' signals waits by (auto simp: run_error_def split: if_splits intro!: bexI [of _ row])
qed

text \<open>
  C5: an applied plan did what it says. It was computed from the current revision of a run that was not
  finished and keeps its state schema; it consumed exactly the signals it names, each an unconsumed one of this
  run; the run has the next revision and the planned status and state, its open waits are the planned ones,
  and no other run, wait or signal changed.
\<close>

theorem transition_applied_exactly:
  assumes "apply_transition_plan validate repo wid plan ts db = Inr (run, db')" and inv: "workflow_inv db"
  shows "(\<exists>row \<in> set (workflow_runs db). this_run repo wid row \<and> \<not> terminal_workflow (run_status row) \<and>
      revision row = replaced_revision (plan_state plan) \<and>
      schema_name (run_state row) = schema_name (replaced_state (plan_state plan)) \<and>
      workflow_runs db' = update_where (\<lambda>r. workflow_id r = wid) (replaced_run plan ts) (workflow_runs db)) \<and>
    (\<forall>sid \<in> set (consume_signal_ids plan). \<exists>g \<in> set (workflow_signals db).
       signal_id g = sid \<and> signals_of repo wid g \<and> consumed_at g = None) \<and>
    workflow_signals db' = update_where (selected repo (consume_signal_ids plan))
      (consumed_signal ts (replaced_revision (plan_state plan) + 1)) (workflow_signals db) \<and>
    (\<exists>rows. workflow_waits db' = delete_where (waits_of repo wid) (workflow_waits db) @ rows \<and>
       map wait_spec rows = replace_waits plan \<and> list_all (fresh_wait repo wid) rows)"
  using assms by (rule applied_plan)

text \<open>
  C1: a revision is decided once and a signal is consumed once. After a plan was applied, and after any
  further operations, no plan computed from that revision or an earlier one can be applied, and no plan
  that names one of the signals it consumed.
\<close>

theorem one_decision_per_revision:
  assumes "apply_transition_plan validate repo wid plan ts db = Inr (run, db1)" and inv: "workflow_inv db"
    and "workflow_step\<^sup>*\<^sup>* db1 db2"
    and "replaced_revision (plan_state plan') \<le> replaced_revision (plan_state plan) \<or>
      set (consume_signal_ids plan') \<inter> set (consume_signal_ids plan) \<noteq> {}"
  shows "apply_transition_plan validate' repo wid plan' ts' db2 \<noteq> Inr result"
proof
  obtain run' db3 where result: "result = (run', db3)" by fastforce
  assume "apply_transition_plan validate' repo wid plan' ts' db2 = Inr result"
  then have second: "apply_transition_plan validate' repo wid plan' ts' db2 = Inr (run', db3)" by (simp add: result)
  have inv1: "workflow_inv db1" by (rule apply_transition_plan_inv(1) [OF assms(1) inv])
  note inv2 = workflow_steps_inv(1) [OF assms(3) inv1] and progress = workflow_steps_inv(2) [OF assms(3) inv1]
  note first = applied_plan [OF assms(1) inv] and again = applied_plan [OF second inv2]
  from again obtain row2 where row2: "row2 \<in> set (workflow_runs db2)" "this_run repo wid row2"
    "revision row2 = replaced_revision (plan_state plan')" by blast
  from first obtain row where row: "row \<in> set (workflow_runs db)" "workflow_id row = wid"
    and runs1: "workflow_runs db1 = update_where (\<lambda>r. workflow_id r = wid) (replaced_run plan ts) (workflow_runs db)"
    by (auto simp: this_run_def)
  then have "replaced_run plan ts row \<in> set (workflow_runs db1)" by (auto simp: set_update_where)
  with progress obtain r where r: "r \<in> set (workflow_runs db2)" "workflow_id r = wid"
    "replaced_revision (plan_state plan) + 1 \<le> revision r"
    using row(2) unfolding workflow_progress_def by fastforce
  have "r = row2"
    using distinct_key_eq [of workflow_id "workflow_runs db2" r row2] inv2 r row2 by (auto simp: workflow_inv_def this_run_def)
  with r(3) row2(3) have "set (consume_signal_ids plan') \<inter> set (consume_signal_ids plan) \<noteq> {}" using assms(4) by auto
  then obtain sid where sid: "sid \<in> set (consume_signal_ids plan')" "sid \<in> set (consume_signal_ids plan)" by blast
  from first sid(2) obtain g where g: "g \<in> set (workflow_signals db)" "signal_id g = sid" "signals_of repo wid g" by blast
  let ?g = "consumed_signal ts (replaced_revision (plan_state plan) + 1) g"
  have "?g \<in> set (workflow_signals db1)"
    using first g sid(2) by (auto simp: set_update_where selected_def signals_of_def)
  moreover have "consumed_at ?g \<noteq> None" "signal_id ?g = sid" using g(2) by (simp_all add: consumed_signal_def)
  ultimately have g2: "?g \<in> set (workflow_signals db2)" using progress by (simp add: workflow_progress_def)
  from again sid(1) obtain h where h: "h \<in> set (workflow_signals db2)" "signal_id h = sid" "consumed_at h = None" by blast
  from distinct_key_eq [of signal_id, OF _ g2 h(1)] inv2 h(2) \<open>signal_id ?g = sid\<close> have "?g = h" by (simp add: workflow_inv_def)
  with h(3) \<open>consumed_at ?g \<noteq> None\<close> show False by simp
qed

subsection \<open>A store to run them on\<close>

definition sample_signal :: signal_row where
  "sample_signal = \<lparr>signal_id = UUID 21, signal_workflow = UUID 1, deduplication_key = ''k'', signal_created_at = 4,
     signal_payload = TimerFiredSignal (UUID 7), consumed_at = None, consumed_at_revision = None, signal_repository = ''r''\<rparr>"

definition sample_signal_store :: activity_db where
  "sample_signal_store = sample_activity_store\<lparr>workflow_signals := [sample_signal]\<rparr>"

definition sample_plan :: transition_plan where
  "sample_plan = \<lparr>plan_state = \<lparr>replaced_revision = 3, replaced_status = WfCompleted,
     replaced_state = make_versioned_state (OtherDoc []) ''own'' 1, replaced_reason = None\<rparr>,
     consume_signal_ids = [UUID 21], replace_waits = [], plan_activities = [], plan_approvals = [], plan_facts = []\<rparr>"

lemma sample_signal_store_sel [simp]:
  "workflow_runs sample_signal_store = [run_row_of ''r'' (sample_run (UUID 1) WfWaiting)]"
  "workflow_waits sample_signal_store = workflow_waits sample_store" "workflow_signals sample_signal_store = [sample_signal]"
  "retained_facts sample_signal_store = []"
  by (simp_all add: sample_signal_store_def sample_activity_store_def sample_store_def sample_permission_db_def
      empty_fact_db_def workflow_db.defs permission_db.defs fact_db.defs)

lemma sample_signal_store_inv: "workflow_inv sample_signal_store"
  by (simp add: workflow_inv_def run_ok_def wait_ok_def waits_of_def terminal_workflow_def signal_ok_def sample_signal_def)

lemma sample_apply:
  "\<exists>run db'. apply_transition_plan (\<lambda>_. Inl ValidationError) ''r'' (UUID 1) sample_plan 9 sample_signal_store = Inr (run, db')"
proof -
  let ?row = "run_row_of ''r'' (sample_run (UUID 1) WfWaiting)"
  have row: "find (this_run ''r'' (UUID 1)) (workflow_runs sample_signal_store) = Some ?row" by (simp add: this_run_def)
  have errors: "plan_error sample_plan = None" "run_error (UUID 1) sample_plan ?row = None"
    by (simp_all add: plan_error_def run_error_def sample_plan_def terminal_workflow_def sample_run_def
        make_versioned_state_def)
  define db1 where "db1 = sample_signal_store\<lparr>workflow_signals := [consumed_signal 9 4 sample_signal]\<rparr>"
  have s1: "consume_signals ''r'' (UUID 1) (consume_signal_ids sample_plan) 9 4 sample_signal_store = Inr db1"
    by (simp add: consume_signals_def sample_plan_def selected_signals_def db1_def sample_signal_def consumed_signal_def Let_def)
  define db2 where "db2 = db1\<lparr>workflow_runs := [replaced_run sample_plan 9 ?row]\<rparr>"
  have s2: "replace_state ''r'' (UUID 1) sample_plan 9 db1 = Inr db2"
    by (simp add: replace_state_def db2_def db1_def count_where_def this_run_def sample_plan_def replaced_run_def Let_def)
  define db3 where "db3 = replace_all_waits ''r'' (UUID 1) sample_plan 9 db2"
  have db3: "workflow_runs db3 = [replaced_run sample_plan 9 ?row]" "retained_facts db3 = []"
    unfolding db3_def replace_all_waits_def by (simp_all only: insert_waits_tables) (simp_all add: db2_def db1_def)
  obtain iid db3' where draw: "uuid4 db3 = (iid, db3')" by fastforce
  with db3(2) have "retained_facts db3' = []" by (simp add: frame_simps)
  then have "\<exists>db4. append_transition_facts (\<lambda>_. Inl ValidationError) ''r'' (run_record ?row) 4 sample_plan 9 db3 = Inr db4"
    using draw append_fact_dbI_new [of db3']
    by (simp add: append_transition_facts_def append_workflow_fact_def sample_plan_def Let_def)
  then obtain db4 where s3: "append_transition_facts (\<lambda>_. Inl ValidationError) ''r'' (run_record ?row) 4 sample_plan 9 db3 = Inr db4" ..
  have "\<exists>run. require_workflow_run ''r'' (UUID 1) db4 = Inr run"
    by (simp add: require_workflow_run_def get_workflow_run_def run_row_named_def db3(1)
        facts_only_workflow(1) [OF append_transition_facts_only [OF s3]])
  moreover have "replaced_revision (plan_state sample_plan) = 3" "plan_activities sample_plan = []"
    "plan_approvals sample_plan = []" "replace_waits sample_plan = []" by (simp_all add: sample_plan_def)
  ultimately show ?thesis
    using row errors s1 s2 s3
    by (auto simp: apply_transition_plan_def Let_def db3_def validate_activity_wait_references_def)
qed

theorem workflow_store_sound_witness:
  "\<exists>db'. workflow_step\<^sup>*\<^sup>* sample_signal_store db' \<and> workflow_inv db' \<and>
     (\<exists>r \<in> set (workflow_runs db'). workflow_id r = UUID 1 \<and> 3 \<le> revision r)"
proof -
  obtain run db' where "apply_transition_plan (\<lambda>_. Inl ValidationError) ''r'' (UUID 1) sample_plan 9 sample_signal_store = Inr (run, db')"
    using sample_apply by blast
  then have steps: "workflow_step\<^sup>*\<^sup>* sample_signal_store db'" by (intro r_into_rtranclp workflow_step.applied)
  with workflow_store_sound [OF steps sample_signal_store_inv] show ?thesis by (auto simp del: One_nat_def)
qed

theorem transition_applied_exactly_witness:
  "\<exists>run db'. apply_transition_plan (\<lambda>_. Inl ValidationError) ''r'' (UUID 1) sample_plan 9 sample_signal_store = Inr (run, db') \<and>
     map revision (workflow_runs db') = [4] \<and> map run_status (workflow_runs db') = [WfCompleted] \<and>
     map consumed_at (workflow_signals db') = [Some 9] \<and> workflow_waits db' = []"
proof -
  obtain run db' where app: "apply_transition_plan (\<lambda>_. Inl ValidationError) ''r'' (UUID 1) sample_plan 9 sample_signal_store = Inr (run, db')"
    using sample_apply by blast
  with transition_applied_exactly [OF app sample_signal_store_inv] show ?thesis
    by (auto simp: sample_plan_def selected_def consumed_signal_def sample_signal_def delete_where_def waits_of_def)
qed

theorem one_decision_per_revision_witness:
  "\<exists>run db'. apply_transition_plan (\<lambda>_. Inl ValidationError) ''r'' (UUID 1) sample_plan 9 sample_signal_store = Inr (run, db') \<and>
     (\<forall>result. apply_transition_plan (\<lambda>_. Inl ValidationError) ''r'' (UUID 1) sample_plan 9 db' \<noteq> Inr result)"
proof -
  obtain run db' where app: "apply_transition_plan (\<lambda>_. Inl ValidationError) ''r'' (UUID 1) sample_plan 9 sample_signal_store = Inr (run, db')"
    using sample_apply by blast
  with one_decision_per_revision [OF app sample_signal_store_inv rtranclp.rtrancl_refl] show ?thesis by blast
qed

end
