(* ===== verification/WorkflowRuntime.thy ===== *)
theory WorkflowRuntime
  imports WorkflowRuns StaticDag
begin

text \<open>
  The synchronous runtime of \<open>murder/work/workflows/service.py\<close>: resolving the machine of a persisted run,
  one load-decide-apply round with its bounded retries, waking runs after a restart, delivering
  signals and ticket outcomes, and explicit state migrations.

  A machine is what the runtime uses of one: the validation of a persisted state and the decision on it.
  Validating a document against a model succeeds exactly for the documents that encode a value of
  that model (\<open>StaticDagDoc\<close>, \<open>DefinitionDoc\<close>). What other processes write between
  the load and the apply of a round is the argument \<open>env\<close>, per attempt. Creating
  facts from JSON is the argument \<open>validate\<close>, as in \<open>WorkflowRuns\<close>. A transaction that raises leaves no trace.
\<close>

section \<open>Machines\<close>

record machine =
  validate_state :: "state_doc \<Rightarrow> exn + unit"
  decide_state :: "state_doc \<Rightarrow> workflow_wait list \<Rightarrow> workflow_signal list \<Rightarrow> time \<Rightarrow> int \<Rightarrow> exn + transition_plan"

record machine_key =
  key_definition_name :: string
  key_definition_version :: int
  key_schema_name :: string
  key_schema_version :: int

type_synonym registry = "(machine_key \<times> machine) list"
type_synonym resolver = "workflow_run \<Rightarrow> exn + machine"

definition key_from_run :: "workflow_run \<Rightarrow> machine_key" where
  "key_from_run run = \<lparr>key_definition_name = definition_name run,
     key_definition_version = run_definition_version run, key_schema_name = schema_name (run_state run),
     key_schema_version = state_version (run_state run)\<rparr>"

definition register_machine :: "machine_key \<Rightarrow> machine \<Rightarrow> registry \<Rightarrow> exn + registry" where
  "register_machine key m machines =
     (if map_of machines key \<noteq> None then Inl (ValueError ''workflow machine already registered'')
      else Inr (machines @ [(key, m)]))"

definition resolve_machine :: "registry \<Rightarrow> resolver" where
  "resolve_machine machines run = (case map_of machines (key_from_run run) of
     None \<Rightarrow> Inl WorkflowDefinitionUnavailableError | Some m \<Rightarrow> Inr m)"

definition static_state :: "state_doc \<Rightarrow> exn + static_dag_state" where
  "static_state doc = (case doc of StaticDagDoc st \<Rightarrow> Inr st | OtherDoc _ \<Rightarrow> Inl ValidationError)"

definition static_machine :: "static_dag_machine \<Rightarrow> machine" where
  "static_machine m =
     \<lparr>validate_state = (\<lambda>doc. bindE (static_state doc) (\<lambda>_. Inr ())),
      decide_state = (\<lambda>doc waits signals now rn. bindE (static_state doc) (\<lambda>st. decide m st waits signals now rn))\<rparr>"

definition static_machine_of :: "workflow_run \<Rightarrow> workflow_def \<Rightarrow> static_dag_machine" where
  "static_machine_of run defn = \<lparr>machine_definition = defn, ticket_map = stage_map run\<rparr>"

definition resolve_persisted_machine :: resolver where
  "resolve_persisted_machine run =
     (if schema_name (run_state run) \<noteq> ''static_dag'' \<or> state_version (run_state run) \<noteq> 1
      then Inl WorkflowDefinitionUnavailableError
      else case definition_snapshot run of
        None \<Rightarrow> Inl WorkflowDefinitionUnavailableError
      | Some (OtherDefinition _) \<Rightarrow> Inl ValidationError
      | Some (DefinitionDoc defn) \<Rightarrow>
          if definition_version defn \<noteq> run_definition_version run then Inl WorkflowDefinitionUnavailableError
          else bindE (register_machine (key_from_run run) (static_machine (static_machine_of run defn)) [])
                 (\<lambda>machines. resolve_machine machines run))"

lemma resolve_registered:
  "register_machine key m machines = Inr machines' \<Longrightarrow> key_from_run run = key \<Longrightarrow> resolve_machine machines' run = Inr m"
  by (auto simp: register_machine_def resolve_machine_def map_add_def split: if_splits option.splits)

lemma resolve_persisted_machineE:
  assumes "resolve_persisted_machine run = Inr m"
  obtains defn where "schema_name (run_state run) = ''static_dag''" "state_version (run_state run) = 1"
    "definition_snapshot run = Some (DefinitionDoc defn)" "definition_version defn = run_definition_version run"
    "m = static_machine (static_machine_of run defn)"
  using assms
  by (auto simp: resolve_persisted_machine_def register_machine_def resolve_machine_def split: if_splits option.splits
      definition_doc.splits)

section \<open>One round\<close>

type_synonym 'z world = "'z activity_db_scheme"

definition compute_plan :: "resolver \<Rightarrow> decision_input \<Rightarrow> exn + transition_plan" where
  "compute_plan resolver d =
     bindE (resolver (input_run d)) (\<lambda>m.
     bindE (validate_state m (state_value (run_state (input_run d)))) (\<lambda>_.
     decide_state m (state_value (run_state (input_run d))) (input_waits d) (input_signals d) (input_now d)
       (revision (input_run d))))"

text \<open>\<open>left\<close> counts the retries that are left after this attempt.\<close>

fun decide_attempts :: "resolver \<Rightarrow> (json_object \<Rightarrow> exn + fact_payload) \<Rightarrow> string \<Rightarrow> (nat \<Rightarrow> 'z world \<Rightarrow> 'z world) \<Rightarrow>
    uuid \<Rightarrow> time \<Rightarrow> nat \<Rightarrow> nat \<Rightarrow> 'z world \<Rightarrow> exn + workflow_run \<times> 'z world" where
  "decide_attempts resolver validate repo env wid now attempt left db =
     bindE (load_workflow_decision_input repo wid now 100 db) (\<lambda>d.
     if terminal_workflow (run_status (input_run d)) then Inr (input_run d, db)
     else
       bindE (compute_plan resolver d) (\<lambda>plan.
       case apply_transition_plan validate repo wid plan (input_now d) (env attempt db) of
         Inr applied \<Rightarrow> Inr applied
       | Inl (StaleWorkflowRevisionError w e a) \<Rightarrow>
           (case left of 0 \<Rightarrow> Inl (StaleWorkflowRevisionError w e a)
            | Suc left' \<Rightarrow> decide_attempts resolver validate repo env wid now (Suc attempt) left' (env attempt db))
       | Inl other \<Rightarrow> Inl other))"

declare decide_attempts.simps [simp del]

definition decide_once :: "resolver \<Rightarrow> (json_object \<Rightarrow> exn + fact_payload) \<Rightarrow> nat \<Rightarrow> string \<Rightarrow> (nat \<Rightarrow> 'z world \<Rightarrow> 'z world) \<Rightarrow>
    uuid \<Rightarrow> time \<Rightarrow> 'z world \<Rightarrow> exn + workflow_run \<times> 'z world" where
  "decide_once resolver validate max_conflict_retries repo env wid now db =
     decide_attempts resolver validate repo env wid now 0 max_conflict_retries db"

text \<open>Without interference, and what the stores call after a completion: the default runtime.\<close>

definition undisturbed :: "nat \<Rightarrow> 'z world \<Rightarrow> 'z world" where
  "undisturbed n db = db"

definition wake_workflow :: "(json_object \<Rightarrow> exn + fact_payload) \<Rightarrow> 'z wake" where
  "wake_workflow validate repo wid ts db =
     bindE (decide_once resolve_persisted_machine validate 3 repo undisturbed wid ts db) (\<lambda>(_, db). Inr db)"

section \<open>Delivering signals\<close>

definition enqueue_and_wake :: "resolver \<Rightarrow> (json_object \<Rightarrow> exn + fact_payload) \<Rightarrow> nat \<Rightarrow> string \<Rightarrow> uuid \<Rightarrow> string \<Rightarrow>
    signal_payload \<Rightarrow> time \<Rightarrow> 'z world \<Rightarrow> exn + (workflow_signal \<times> workflow_run) \<times> 'z world" where
  "enqueue_and_wake resolver validate retries repo wid key body created db =
     bindE (enqueue_workflow_signal repo wid key body created None db) (\<lambda>(signal, db).
     if consumed_at signal \<noteq> None then
       bindE (load_workflow_decision_input repo wid created 100 db) (\<lambda>d. Inr ((signal, input_run d), db))
     else
       bindE (decide_once resolver validate retries repo undisturbed wid created db) (\<lambda>(run, db).
       Inr ((signal, run), db)))"

definition migrate_state :: "resolver \<Rightarrow> string \<Rightarrow> uuid \<Rightarrow> int \<Rightarrow> versioned_state \<Rightarrow> string \<Rightarrow> time \<Rightarrow> 'z world \<Rightarrow>
    exn + workflow_state_migration \<times> 'z world" where
  "migrate_state resolver repo wid expected target name now db =
     bindE (load_workflow_decision_input repo wid now 100 db) (\<lambda>d.
     if revision (input_run d) \<noteq> expected
     then Inl (StaleWorkflowRevisionError wid expected (revision (input_run d)))
     else
       bindE (resolver ((input_run d)\<lparr>run_state := target\<rparr>)) (\<lambda>m.
       bindE (validate_state m (state_value target)) (\<lambda>_.
       apply_workflow_state_migration repo wid expected target name now db)))"

definition ticket_key :: "string \<Rightarrow> string \<Rightarrow> string" where
  "ticket_key ticket status = ''ticket:'' @ ticket @ '':terminal:'' @ status"

definition ticket_signal :: "string \<Rightarrow> string \<Rightarrow> signal_payload" where
  "ticket_signal ticket status =
     ExternalWorkflowSignal ''ticket.finished'' (Some ticket) [(''status'', JStr status)]"

definition signal_run :: "resolver \<Rightarrow> (json_object \<Rightarrow> exn + fact_payload) \<Rightarrow> nat \<Rightarrow> string \<Rightarrow> string \<Rightarrow> string \<Rightarrow> time \<Rightarrow>
    workflow_run \<Rightarrow> workflow_run list \<times> 'z world \<Rightarrow> exn + workflow_run list \<times> 'z world" where
  "signal_run resolver validate retries repo ticket status ts run = (\<lambda>(updated, db).
     if terminal_workflow (run_status run) then Inr (updated, db)
     else if \<not> List.member (map snd (stage_map run)) ticket then Inr (updated, db)
     else
       bindE (enqueue_workflow_signal repo (workflow_id run) (ticket_key ticket status)
           (ticket_signal ticket status) ts None db) (\<lambda>(signal, db).
       if consumed_at signal = None then
         bindE (decide_once resolver validate retries repo undisturbed (workflow_id run) ts db) (\<lambda>(r, db).
         Inr (updated @ [r], db))
       else Inr (updated @ [run], db)))"

definition signal_ticket_finished :: "resolver \<Rightarrow> (json_object \<Rightarrow> exn + fact_payload) \<Rightarrow> nat \<Rightarrow> string \<Rightarrow> string \<Rightarrow> string \<Rightarrow>
    time \<Rightarrow> 'z world \<Rightarrow> exn + workflow_run list \<times> 'z world" where
  "signal_ticket_finished resolver validate retries repo ticket status ts db =
     foldE (signal_run resolver validate retries repo ticket status ts) (list_workflow_runs repo db) ([], db)"

definition notify_ticket_status :: "(json_object \<Rightarrow> exn + fact_payload) \<Rightarrow> string \<Rightarrow> string \<Rightarrow> string \<Rightarrow> time \<Rightarrow> 'z world \<Rightarrow>
    exn + workflow_run list \<times> 'z world" where
  "notify_ticket_status validate repo ticket status ts db =
     (if \<not> List.member [''done'', ''failed'', ''archived''] status then Inr ([], db)
      else signal_ticket_finished resolve_persisted_machine validate 3 repo ticket status ts db)"

section \<open>Recovery\<close>

definition pending_signals :: "string \<Rightarrow> uuid \<Rightarrow> 'z world \<Rightarrow> nat" where
  "pending_signals repo wid db =
     count_where (\<lambda>g. signals_of repo wid g \<and> consumed_at g = None) (workflow_signals db)"

definition wakeable :: "string \<Rightarrow> uuid list \<Rightarrow> 'z world \<Rightarrow> run_row \<Rightarrow> bool" where
  "wakeable repo blocked db r \<longleftrightarrow> run_repository r = repo \<and> (run_status r = WfRunning \<or> run_status r = WfWaiting) \<and>
     0 < pending_signals repo (workflow_id r) db \<and> \<not> List.member blocked (workflow_id r)"

definition pending_page :: "string \<Rightarrow> int \<Rightarrow> uuid list \<Rightarrow> 'z world \<Rightarrow> (uuid \<times> nat) list" where
  "pending_page repo limit blocked db =
     map (\<lambda>r. (workflow_id r, pending_signals repo (workflow_id r) db))
       (take (nat limit) (sort_key (\<lambda>r. (run_updated_at r, workflow_id r))
         (filter (wakeable repo blocked db) (workflow_runs db))))"

definition put_run :: "uuid \<Rightarrow> workflow_run \<Rightarrow> (uuid \<times> workflow_run) list \<Rightarrow> (uuid \<times> workflow_run) list" where
  "put_run wid run d = (if map_of d wid \<noteq> None then map (\<lambda>(k, v). if k = wid then (k, run) else (k, v)) d
     else d @ [(wid, run)])"

type_synonym 'z recovery = "(uuid \<times> workflow_run) list \<times> uuid list \<times> 'z world"

definition recover_row :: "resolver \<Rightarrow> (json_object \<Rightarrow> exn + fact_payload) \<Rightarrow> nat \<Rightarrow> string \<Rightarrow> time \<Rightarrow> uuid \<times> nat \<Rightarrow>
    'z recovery \<Rightarrow> exn + 'z recovery" where
  "recover_row resolver validate retries repo now = (\<lambda>(wid, pending_before) (recovered, blocked, db).
     case decide_once resolver validate retries repo undisturbed wid now db of
       Inl WorkflowDefinitionUnavailableError \<Rightarrow> Inr (recovered, wid # blocked, db)
     | Inl e \<Rightarrow> Inl e
     | Inr (updated, db) \<Rightarrow>
         Inr (put_run wid updated recovered,
           if pending_before \<le> pending_signals repo wid db then wid # blocked else blocked, db))"

section \<open>What a round does\<close>

lemma load_inputE:
  assumes "load_workflow_decision_input repo wid now limit db = Inr d"
  shows "require_workflow_run repo wid db = Inr (input_run d)" and "input_now d = now"
    and "input_signals d = map signal_record (take (nat limit) (sort_key (\<lambda>g. (signal_created_at g, signal_id g))
          (filter (\<lambda>g. signals_of repo wid g \<and> consumed_at g = None) (workflow_signals db))))"
  using assms by (auto simp: load_workflow_decision_input_def list_workflow_signals_def bindE_eq_Inr split: if_splits)

text \<open>
  A round either finds the run finished, or applies a plan it computed from an input that was loaded
  after some of the attempts' interference, with the interference of the last attempt in between.
\<close>

lemma decide_attemptsE:
  assumes "decide_attempts resolver validate repo env wid now attempt left db = Inr (run, db')"
    and env: "\<And>n s. R\<^sup>*\<^sup>* s (env n s)"
  obtains (finished) loaded d where "R\<^sup>*\<^sup>* db loaded" "load_workflow_decision_input repo wid now 100 loaded = Inr d"
      "terminal_workflow (run_status (input_run d))" "run = input_run d" "db' = loaded"
  | (decided) loaded n d plan where "R\<^sup>*\<^sup>* db loaded" "load_workflow_decision_input repo wid now 100 loaded = Inr d"
      "\<not> terminal_workflow (run_status (input_run d))" "compute_plan resolver d = Inr plan"
      "apply_transition_plan validate repo wid plan now (env n loaded) = Inr (run, db')"
  using assms(1)
proof (induction left arbitrary: attempt db thesis)
  case (0 attempt db)
  from "0.prems"(3) obtain d where d: "load_workflow_decision_input repo wid now 100 db = Inr d"
    by (subst (asm) decide_attempts.simps) (auto elim: bindE_InrE)
  show ?case
  proof (cases "terminal_workflow (run_status (input_run d))")
    case True
    with "0.prems"(3) d have "run = input_run d" "db' = db"
      by (simp_all add: decide_attempts.simps [of _ _ _ _ _ _ _ 0])
    with d True show ?thesis by (intro "0.prems"(1) [of db d]) simp_all
  next
    case False
    with "0.prems"(3) d obtain plan where plan: "compute_plan resolver d = Inr plan"
      by (cases "compute_plan resolver d") (simp_all add: decide_attempts.simps [of _ _ _ _ _ _ _ 0])
    with "0.prems"(3) d False load_inputE(2) [OF d]
    have "apply_transition_plan validate repo wid plan now (env attempt db) = Inr (run, db')"
      by (simp add: decide_attempts.simps [of _ _ _ _ _ _ _ 0] split: sum.splits exn.splits)
    with d False plan show ?thesis by (intro "0.prems"(2) [of db d plan attempt]) simp_all
  qed
next
  case (Suc left attempt db)
  show ?case
  proof -
    from Suc.prems(3) obtain d where d: "load_workflow_decision_input repo wid now 100 db = Inr d"
      by (subst (asm) decide_attempts.simps) (auto elim: bindE_InrE)
    show ?thesis
    proof (cases "terminal_workflow (run_status (input_run d))")
      case True
      with Suc.prems(3) d have "run = input_run d" "db' = db"
        by (simp_all add: decide_attempts.simps [of _ _ _ _ _ _ _ "Suc left"])
      with d True show ?thesis by (intro Suc.prems(1) [of db d]) simp_all
    next
      case False
      with Suc.prems(3) d obtain plan where plan: "compute_plan resolver d = Inr plan"
        by (cases "compute_plan resolver d") (simp_all add: decide_attempts.simps [of _ _ _ _ _ _ _ "Suc left"])
      note now = load_inputE(2) [OF d]
      show ?thesis
      proof (cases "apply_transition_plan validate repo wid plan now (env attempt db)")
        case (Inr applied)
        with Suc.prems(3) d False plan now have "applied = (run, db')"
          by (simp add: decide_attempts.simps [of _ _ _ _ _ _ _ "Suc left"])
        with Inr d False plan show ?thesis by (intro Suc.prems(2) [of db d plan attempt]) simp_all
      next
        case (Inl e)
        with Suc.prems(3) d False plan now
        have rest: "decide_attempts resolver validate repo env wid now (Suc attempt) left (env attempt db) = Inr (run, db')"
          by (simp add: decide_attempts.simps [of _ _ _ _ _ _ _ "Suc left"] split: exn.splits)
        have step: "R\<^sup>*\<^sup>* db (env attempt db)" using env by blast
        show ?thesis
        proof (rule Suc.IH [OF _ _ rest], goal_cases)
          case (1 loaded d)
          from rtranclp_trans [OF step 1(1)] 1(2-) show ?case by (rule Suc.prems(1))
        next
          case (2 loaded d plan n)
          from rtranclp_trans [OF step 2(1)] 2(2-) show ?case by (rule Suc.prems(2))
        qed
      qed
    qed
  qed
qed

text \<open>Without interference there is one attempt that counts.\<close>

lemma decide_once_undisturbedE:
  assumes "decide_once resolver validate retries repo undisturbed wid now db = Inr (run, db')"
  obtains (finished) d where "load_workflow_decision_input repo wid now 100 db = Inr d"
      "terminal_workflow (run_status (input_run d))" "run = input_run d" "db' = db"
  | (decided) d plan where "load_workflow_decision_input repo wid now 100 db = Inr d"
      "\<not> terminal_workflow (run_status (input_run d))" "compute_plan resolver d = Inr plan"
      "apply_transition_plan validate repo wid plan now db = Inr (run, db')"
proof (rule decide_attemptsE [OF assms [unfolded decide_once_def], of "\<lambda>_ _. False"], goal_cases)
  case (1 n s)
  then show ?case by (simp add: undisturbed_def)
next
  case (2 loaded d)
  from 2(3) have "loaded = db" by (induction rule: rtranclp_induct) simp_all
  with 2(4-7) show ?case by (intro finished [of d]) simp_all
next
  case (3 loaded n d plan)
  from 3(3) have "loaded = db" by (induction rule: rtranclp_induct) simp_all
  with 3(4-7) show ?case by (intro decided [of d plan]) (simp_all add: undisturbed_def)
qed

lemma decide_once_more:
  assumes "decide_once resolver validate retries repo undisturbed wid now db = Inr (run, db')"
  shows "activity_more db db'" and "workflow_step\<^sup>*\<^sup>* db db'"
  using assms
  by (cases rule: decide_once_undisturbedE; auto elim: apply_transition_planE intro: workflow_step.applied)+

lemma wake_workflow_ok: "wake_ok (wake_workflow validate)"
  unfolding wake_ok_def wake_workflow_def by (auto simp: bindE_eq_Inr dest: decide_once_more(1))

section \<open>The recovery loop ends\<close>

lemma count_where_mono:
  assumes "\<And>x. x \<in> set xs \<Longrightarrow> Q (f x) \<Longrightarrow> Q x"
  shows "count_where Q (map f xs) \<le> count_where Q xs"
  using assms by (induction xs) (auto simp: count_where_def)

lemma count_where_less:
  assumes "\<And>x. x \<in> set xs \<Longrightarrow> Q (f x) \<Longrightarrow> Q x" and "y \<in> set xs" "Q y" "\<not> Q (f y)"
  shows "count_where Q (map f xs) < count_where Q xs"
proof -
  from assms(2) obtain us vs where xs: "xs = us @ y # vs" by (auto simp: in_set_conv_decomp)
  have "count_where Q (map f us) \<le> count_where Q us" "count_where Q (map f vs) \<le> count_where Q vs"
    using assms(1) by (auto intro!: count_where_mono simp: xs)
  with assms(3,4) show ?thesis by (simp add: xs count_where_def)
qed

text \<open>A round consumes signals and creates none, and it neither adds nor renames runs.\<close>

lemma decide_once_signals:
  assumes "decide_once resolver validate retries repo undisturbed wid now db = Inr (run, db')"
  shows "\<exists>P ts n. workflow_signals db' = map (\<lambda>g. if P g then consumed_signal ts n g else g) (workflow_signals db)"
    and "map workflow_id (workflow_runs db') = map workflow_id (workflow_runs db)"
proof -
  have same: "\<exists>P ts n. workflow_signals db = map (\<lambda>g. if P g then consumed_signal ts n g else g) (workflow_signals db)"
    by (rule exI [of _ "\<lambda>_. False"]) simp
  have "(\<exists>P ts n. workflow_signals db' = map (\<lambda>g. if P g then consumed_signal ts n g else g) (workflow_signals db)) \<and>
      map workflow_id (workflow_runs db') = map workflow_id (workflow_runs db)"
    using assms
  proof (cases rule: decide_once_undisturbedE)
    case (finished d)
    with same show ?thesis by simp
  next
    case (decided d plan)
    from decided(4) show ?thesis
      by (rule apply_transition_planE) (auto simp: update_where_def)
  qed
  then show "\<exists>P ts n. workflow_signals db' = map (\<lambda>g. if P g then consumed_signal ts n g else g) (workflow_signals db)"
    and "map workflow_id (workflow_runs db') = map workflow_id (workflow_runs db)" by simp_all
qed

lemma consumed_signal_sel [simp]:
  "signal_id (consumed_signal ts n g) = signal_id g" "signal_workflow (consumed_signal ts n g) = signal_workflow g"
  "signal_repository (consumed_signal ts n g) = signal_repository g" "consumed_at (consumed_signal ts n g) = Some ts"
  "deduplication_key (consumed_signal ts n g) = deduplication_key g" "signal_payload (consumed_signal ts n g) = signal_payload g"
  by (simp_all add: consumed_signal_def)

definition pending_total :: "string \<Rightarrow> 'z world \<Rightarrow> nat" where
  "pending_total repo db = count_where (\<lambda>g. signal_repository g = repo \<and> consumed_at g = None) (workflow_signals db)"

lemma decide_once_pending:
  assumes "decide_once resolver validate retries repo undisturbed wid now db = Inr (run, db')"
  shows "pending_signals q k db' \<le> pending_signals q k db" and "pending_total q db' \<le> pending_total q db"
    and "pending_signals q k db' < pending_signals q k db \<Longrightarrow> pending_total q db' < pending_total q db"
proof -
  obtain P ts n where signals: "workflow_signals db' =
      map (\<lambda>g. if P g then consumed_signal ts n g else g) (workflow_signals db)"
    using decide_once_signals(1) [OF assms] by blast
  show "pending_signals q k db' \<le> pending_signals q k db" and "pending_total q db' \<le> pending_total q db"
    unfolding pending_signals_def pending_total_def signals
    by (rule count_where_mono, simp add: signals_of_def split: if_splits)+
  show "pending_total q db' < pending_total q db" if less: "pending_signals q k db' < pending_signals q k db"
  proof -
    have "\<exists>g \<in> set (workflow_signals db). signals_of q k g \<and> consumed_at g = None \<and> P g"
    proof (rule ccontr)
      assume "\<not> ?thesis"
      then have "pending_signals q k db' = pending_signals q k db"
        unfolding pending_signals_def signals count_where_def filter_map length_map comp_def
        by (intro arg_cong [where f = length] filter_cong) (auto simp: signals_of_def)
      with less show False by simp
    qed
    then obtain g where "g \<in> set (workflow_signals db)" "signals_of q k g" "consumed_at g = None" "P g" by blast
    then show ?thesis
      unfolding pending_total_def signals
      by (intro count_where_less [where y = g]) (auto simp: signals_of_def split: if_splits)
  qed
qed

definition unblocked_runs :: "uuid list \<Rightarrow> 'z world \<Rightarrow> nat" where
  "unblocked_runs blocked db = count_where (\<lambda>k. \<not> List.member blocked k) (map workflow_id (workflow_runs db))"

definition recovery_measure :: "string \<Rightarrow> 'z recovery \<Rightarrow> nat" where
  "recovery_measure repo st = (case st of (recovered, blocked, db) \<Rightarrow> pending_total repo db + unblocked_runs blocked db)"

lemma unblocked_runs_block:
  "unblocked_runs (k # blocked) db \<le> unblocked_runs blocked db"
  "k \<in> workflow_id ` set (workflow_runs db) \<Longrightarrow> \<not> List.member blocked k \<Longrightarrow>
     unblocked_runs (k # blocked) db < unblocked_runs blocked db"
proof -
  have mono: "count_where (\<lambda>x. x \<noteq> k \<and> \<not> List.member blocked x) xs \<le> count_where (\<lambda>x. \<not> List.member blocked x) xs" for xs
    by (induction xs) (auto simp: count_where_def)
  have eq: "(\<lambda>x. \<not> List.member (k # blocked) x) = (\<lambda>x. x \<noteq> k \<and> \<not> List.member blocked x)"
    by (auto simp: fun_eq_iff)
  show "unblocked_runs (k # blocked) db \<le> unblocked_runs blocked db"
    unfolding unblocked_runs_def eq by (rule mono)
  assume "k \<in> workflow_id ` set (workflow_runs db)" and free: "\<not> List.member blocked k"
  then have "k \<in> set (map workflow_id (workflow_runs db))" by simp
  then obtain us vs where ids: "map workflow_id (workflow_runs db) = us @ k # vs" by (auto simp: in_set_conv_decomp)
  show "unblocked_runs (k # blocked) db < unblocked_runs blocked db"
    unfolding unblocked_runs_def eq ids using mono [of us] mono [of vs] free by (simp add: count_where_def)
qed

lemma recover_row_measure:
  assumes "recover_row resolver validate retries repo now (wid, before) (recovered, blocked, db) = Inr st"
  shows "recovery_measure repo st \<le> recovery_measure repo (recovered, blocked, db)"
    and "wid \<in> workflow_id ` set (workflow_runs db) \<Longrightarrow> \<not> List.member blocked wid \<Longrightarrow> before = pending_signals repo wid db \<Longrightarrow>
      recovery_measure repo st < recovery_measure repo (recovered, blocked, db)"
proof -
  consider (blocked) "st = (recovered, wid # blocked, db)"
    | (woken) updated db' where "decide_once resolver validate retries repo undisturbed wid now db = Inr (updated, db')"
      "st = (put_run wid updated recovered, if before \<le> pending_signals repo wid db' then wid # blocked else blocked, db')"
    using assms by (auto simp: recover_row_def split: sum.splits exn.splits prod.splits)
  note alternatives = this
  show "recovery_measure repo st \<le> recovery_measure repo (recovered, blocked, db)"
  proof (cases rule: alternatives)
    case blocked
    then show ?thesis using unblocked_runs_block(1) [of wid "blocked" db] by (simp add: recovery_measure_def)
  next
    case (woken updated db')
    have "unblocked_runs bs db' = unblocked_runs bs db" for bs
      using decide_once_signals(2) [OF woken(1)] by (simp add: unblocked_runs_def)
    with decide_once_pending(2) [OF woken(1), of repo] unblocked_runs_block(1) [of wid "blocked" db] woken(2)
    show ?thesis by (auto simp: recovery_measure_def)
  qed
  assume known: "wid \<in> workflow_id ` set (workflow_runs db)" and free: "\<not> List.member blocked wid"
    and before: "before = pending_signals repo wid db"
  show "recovery_measure repo st < recovery_measure repo (recovered, blocked, db)"
  proof (cases rule: alternatives)
    case blocked
    then show ?thesis using unblocked_runs_block(2) [OF known free] by (simp add: recovery_measure_def)
  next
    case (woken updated db')
    have same: "unblocked_runs bs db' = unblocked_runs bs db" for bs
      using decide_once_signals(2) [OF woken(1)] by (simp add: unblocked_runs_def)
    show ?thesis
    proof (cases "before \<le> pending_signals repo wid db'")
      case True
      with woken(2) same decide_once_pending(2) [OF woken(1), of repo] unblocked_runs_block(2) [OF known free]
      show ?thesis by (simp add: recovery_measure_def)
    next
      case False
      with woken(2) same decide_once_pending(3) [OF woken(1), of repo wid] before show ?thesis
        by (simp add: recovery_measure_def)
    qed
  qed
qed

lemma recover_page_measure:
  assumes "pending_page repo limit blocked db = row # rows"
    and "foldE (recover_row resolver validate retries repo now) (row # rows) (recovered, blocked, db) = Inr st"
  shows "recovery_measure repo st < recovery_measure repo (recovered, blocked, db)"
proof -
  obtain wid before where row: "row = (wid, before)" by fastforce
  from assms(2) obtain st1 where first: "recover_row resolver validate retries repo now (wid, before) (recovered, blocked, db) = Inr st1"
    and rest: "foldE (recover_row resolver validate retries repo now) rows st1 = Inr st"
    by (auto simp: bindE_eq_Inr row)
  have "row \<in> set (pending_page repo limit blocked db)" by (simp add: assms(1))
  then have "wid \<in> workflow_id ` set (workflow_runs db)" "\<not> List.member blocked wid" "before = pending_signals repo wid db"
    by (auto simp: pending_page_def row wakeable_def dest!: in_set_takeD)
  note recover_row_measure(2) [OF first this]
  moreover have "recovery_measure repo st \<le> recovery_measure repo st1"
    using rest
  proof (rule foldE_invariant [where P = "\<lambda>t. recovery_measure repo t \<le> recovery_measure repo st1"])
    fix x u v assume step: "recover_row resolver validate retries repo now x u = Inr v"
      and le: "recovery_measure repo u \<le> recovery_measure repo st1"
    obtain w n where x: "x = (w, n)" by fastforce
    obtain rec bs d where u: "u = (rec, bs, d)" by (cases u) auto
    from recover_row_measure(1) [OF step [unfolded x u]] le show "recovery_measure repo v \<le> recovery_measure repo st1"
      unfolding u by (rule order_trans)
  qed simp
  ultimately show ?thesis by simp
qed

function recover_loop :: "resolver \<Rightarrow> (json_object \<Rightarrow> exn + fact_payload) \<Rightarrow> nat \<Rightarrow> string \<Rightarrow> int \<Rightarrow> time \<Rightarrow> 'z recovery \<Rightarrow>
    exn + 'z recovery" where
  "recover_loop resolver validate retries repo limit now (recovered, blocked, db) =
     (case pending_page repo limit blocked db of
        [] \<Rightarrow> Inr (recovered, blocked, db)
      | row # rows \<Rightarrow>
          bindE (foldE (recover_row resolver validate retries repo now) (row # rows) (recovered, blocked, db))
            (recover_loop resolver validate retries repo limit now))"
  by pat_completeness auto
termination
  by (relation "measure (\<lambda>(resolver, validate, retries, repo, limit, now, st). recovery_measure repo st)")
    (auto dest: recover_page_measure)

declare recover_loop.simps [simp del]

definition recover_pending_signals :: "resolver \<Rightarrow> (json_object \<Rightarrow> exn + fact_payload) \<Rightarrow> nat \<Rightarrow> string \<Rightarrow> int \<Rightarrow> time \<Rightarrow>
    'z world \<Rightarrow> exn + workflow_run list \<times> 'z world" where
  "recover_pending_signals resolver validate retries repo limit now db =
     (if limit < 1 then Inl (ValueError ''limit must be positive'')
      else bindE (recover_loop resolver validate retries repo limit now ([], [], db))
        (\<lambda>(recovered, blocked, db). Inr (map snd recovered, db)))"

end
