(* ===== verification/WorkflowRounds.thy ===== *)
theory WorkflowRounds
  imports WorkflowRuntime
begin

text \<open>
  What the rounds of \<open>WorkflowRuntime\<close> do to persisted static-DAG runs, and to the inbox: no decision is
  applied to a state it was not computed from, a well-formed run stays well formed, a round on it
  returns and consumes its batch, and recovery leaves pending signals only where no machine can take them.
\<close>

section \<open>Persisted static-DAG runs\<close>

lemma compute_planE:
  assumes "compute_plan resolve_persisted_machine d = Inr plan"
  obtains defn st where "schema_name (run_state (input_run d)) = ''static_dag''" "state_version (run_state (input_run d)) = 1"
    "definition_snapshot (input_run d) = Some (DefinitionDoc defn)" "state_value (run_state (input_run d)) = StaticDagDoc st"
    "definition_version defn = run_definition_version (input_run d)"
    "decide (static_machine_of (input_run d) defn) st (input_waits d) (input_signals d) (input_now d)
       (revision (input_run d)) = Inr plan"
proof -
  from assms obtain m where m: "resolve_persisted_machine (input_run d) = Inr m"
    and plan: "decide_state m (state_value (run_state (input_run d))) (input_waits d) (input_signals d) (input_now d)
      (revision (input_run d)) = Inr plan"
    by (auto simp: compute_plan_def bindE_eq_Inr)
  from m obtain defn where "schema_name (run_state (input_run d)) = ''static_dag''" "state_version (run_state (input_run d)) = 1"
    "definition_snapshot (input_run d) = Some (DefinitionDoc defn)" "definition_version defn = run_definition_version (input_run d)"
    "m = static_machine (static_machine_of (input_run d) defn)" by (rule resolve_persisted_machineE)
  with plan show thesis
    by (auto simp: static_machine_def static_state_def bindE_eq_Inr split: state_doc.splits intro: that)
qed

lemma run_record_more: "run_record r = run \<Longrightarrow> definition_snapshot run = definition_snapshot r \<and>
    run_definition_version run = run_definition_version r \<and> stage_map run = stage_map r \<and>
    definition_name run = definition_name r \<and> parent_ticket_id run = parent_ticket_id r"
  by (auto simp: run_record_def workflow_run.defs)

text \<open>
  C2: no decision is applied to a state it was not computed from. Whatever the other writers do between
  the load and the apply of each attempt, a round that returns either found the run finished, or
  applied a plan computed from an input it loaded, to a store that still holds the very run that was
  loaded; and the round itself is a step of the store.
\<close>

theorem decision_never_stale:
  assumes "decide_once resolve_persisted_machine validate retries repo env wid now db = Inr (run, db')"
    and env: "\<And>n s. workflow_step\<^sup>*\<^sup>* s (env n s)" and inv: "workflow_inv db"
  shows "workflow_step\<^sup>*\<^sup>* db db' \<and>
    (terminal_workflow (run_status run) \<and> require_workflow_run repo wid db' = Inr run \<or>
     (\<exists>loaded d plan before. workflow_step\<^sup>*\<^sup>* db loaded \<and> workflow_step\<^sup>*\<^sup>* loaded before \<and>
        load_workflow_decision_input repo wid now 100 loaded = Inr d \<and>
        compute_plan resolve_persisted_machine d = Inr plan \<and>
        apply_transition_plan validate repo wid plan now before = Inr (run, db') \<and>
        (workflow_id (input_run d) = wid \<longrightarrow>
           (\<exists>r \<in> set (workflow_runs before). this_run repo wid r \<and> run_record r = input_run d))))"
  using decide_attemptsE [OF assms(1) [unfolded decide_once_def] env]
proof (cases, goal_cases)
  case (1 loaded d)
  then show ?case using load_inputE(1) by blast
next
  case (2 loaded n d plan)
  let ?before = "env n loaded"
  have inv1: "workflow_inv loaded" and inv2: "workflow_inv ?before"
    using workflow_steps_inv(1) [OF 2(1) inv] workflow_steps_inv(1) [OF env] by blast+
  have "\<exists>r \<in> set (workflow_runs ?before). this_run repo wid r \<and> run_record r = input_run d"
    if mine: "workflow_id (input_run d) = wid"
  proof -
    from require_run_mem [OF load_inputE(1) [OF 2(2)]] obtain r where r: "r \<in> set (workflow_runs loaded)"
      "run_repository r = repo" "input_run d = run_record r" by blast
    from workflow_steps_inv(2) [OF env inv1, of n] r(1) obtain r' where r': "r' \<in> set (workflow_runs ?before)"
      "workflow_id r' = workflow_id r" "revision r' = revision r \<longrightarrow> r' = r" unfolding workflow_progress_def by blast
    from applied_plan [OF 2(5) inv2] obtain row where row: "row \<in> set (workflow_runs ?before)"
      "this_run repo wid row" "revision row = replaced_revision (plan_state plan)" by blast
    have "replaced_revision (plan_state plan) = revision r"
      using 2(4) by (rule compute_planE) (auto dest: decide_plan_shape simp: r(3))
    moreover have "row = r'"
      using same_run [OF inv2 row(1) r'(1)] row(2) r'(2) r(3) mine by (simp add: this_run_def)
    ultimately show ?thesis using r' row r(3) by auto
  qed
  moreover have "workflow_step\<^sup>*\<^sup>* db db'"
    using rtranclp_trans [OF 2(1) env [where s = loaded and n = n]] workflow_step.applied [OF 2(5)] by (rule rtranclp.rtrancl_into_rtrancl)
  ultimately show ?case using 2 env [of loaded n] by blast
qed

text \<open>
  A persisted static-DAG run whose template, ticket map and state belong together.
\<close>

definition static_run_ok :: "run_row \<Rightarrow> bool" where
  "static_run_ok r \<longleftrightarrow> (case definition_snapshot r of
     Some (DefinitionDoc defn) \<Rightarrow> definition_version defn = run_definition_version r \<and>
       machine_ok (static_machine_of (run_record r) defn) \<and>
       schema_name (run_state r) = ''static_dag'' \<and> state_version (run_state r) = 1 \<and>
       (case state_value (run_state r) of StaticDagDoc st \<Rightarrow> state_ok (static_machine_of (run_record r) defn) st
        | _ \<Rightarrow> False)
   | _ \<Rightarrow> False)"

lemma open_stage_ticket:
  assumes "machine_ok m" and "state_ok m st" and "r \<in> set (dag_stages st)"
  shows "\<exists>t. map_of (ticket_map m) (run_stage_id r) = Some t"
proof -
  have "run_stage_id r \<in> set (map stage_id (wf_stages (machine_definition m)))"
    using assms(2,3) by (metis image_eqI set_map state_ok_def)
  then show ?thesis using assms(1) by (force simp: machine_ok_def)
qed

text \<open>The plan of a round on a well-formed static-DAG run.\<close>

lemma static_round_plan:
  assumes inv: "workflow_inv db" and row: "row \<in> set (workflow_runs db)" "this_run repo wid row" "static_run_ok row"
    and tickets: "\<forall>r \<in> set (workflow_runs db). parent_ticket_id r \<noteq> Some (uuid_text wid)"
  obtains d plan where "load_workflow_decision_input repo wid now 100 db = Inr d" "input_run d = run_record row"
    "compute_plan resolve_persisted_machine d = Inr plan" "static_run_ok (replaced_run plan now row)"
    "replaced_status (plan_state plan) = WfWaiting \<Longrightarrow> replace_waits plan \<noteq> []"
    "replaced_revision (plan_state plan) = revision row"
    "schema_name (replaced_state (plan_state plan)) = schema_name (run_state row)"
    "state_version (replaced_state (plan_state plan)) = state_version (run_state row)"
proof -
  from row(3) obtain defn st where doc: "definition_snapshot row = Some (DefinitionDoc defn)"
    "definition_version defn = run_definition_version row" "state_value (run_state row) = StaticDagDoc st"
    "schema_name (run_state row) = ''static_dag''" "state_version (run_state row) = 1"
    and ok: "machine_ok (static_machine_of (run_record row) defn)" "state_ok (static_machine_of (run_record row) defn) st"
    by (auto simp: static_run_ok_def split: option.splits definition_doc.splits state_doc.splits)
  have "find (run_row_named repo wid) (workflow_runs db) = Some row"
  proof (cases "find (run_row_named repo wid) (workflow_runs db)")
    case None
    with row show ?thesis by (auto simp: find_eq_None run_row_named_def this_run_def)
  next
    case (Some r)
    from find_Some_mem [OF this] tickets have "r \<in> set (workflow_runs db)" "workflow_id r = workflow_id row"
      using row(2) by (auto simp: run_row_named_def this_run_def)
    then have "r = row" using same_run [OF inv _ row(1)] by blast
    with Some show ?thesis by simp
  qed
  then have req: "require_workflow_run repo wid db = Inr (run_record row)"
    by (simp add: require_workflow_run_def get_workflow_run_def)
  then obtain d where load: "load_workflow_decision_input repo wid now 100 db = Inr d" and d: "input_run d = run_record row"
    by (auto simp: load_workflow_decision_input_def list_workflow_signals_def)
  have rec: "run_state (run_record row) = run_state row" "definition_snapshot (run_record row) = definition_snapshot row"
    "run_definition_version (run_record row) = run_definition_version row"
    using run_record_more [of row] by simp_all
  obtain plan st' where plan: "decide (static_machine_of (run_record row) defn) st (input_waits d) (input_signals d)
      (input_now d) (revision (run_record row)) = Inr plan"
    and st': "state_value (replaced_state (plan_state plan)) = StaticDagDoc st'"
      "state_ok (static_machine_of (run_record row) defn) st'"
    using decide_safe [OF ok] by metis
  have compute: "compute_plan resolve_persisted_machine d = Inr plan"
    using doc plan
    by (simp add: compute_plan_def d rec resolve_persisted_machine_def register_machine_def resolve_machine_def
        static_machine_def static_state_def)
  let ?row' = "replaced_run plan now row"
  have same: "stage_map ?row' = stage_map row" "definition_snapshot ?row' = definition_snapshot row"
    "run_definition_version ?row' = run_definition_version row" "run_state ?row' = replaced_state (plan_state plan)"
    by (simp_all add: replaced_run_def)
  have "static_machine_of (run_record ?row') defn = static_machine_of (run_record row) defn"
    using run_record_more [of ?row'] run_record_more [of row] same(1) by (simp add: static_machine_of_def)
  then have ok': "static_run_ok ?row'"
    using doc(1,2) ok(1) st' decide_plan_shape [OF plan] same by (simp add: static_run_ok_def)
  have "replace_waits plan \<noteq> []" if "replaced_status (plan_state plan) = WfWaiting"
  proof -
    have "set (replace_waits plan) = {ticket_wait t |r t. r \<in> set (dag_stages st') \<and> \<not> terminal_stage (stage_status r) \<and>
        map_of (ticket_map (static_machine_of (run_record row) defn)) (run_stage_id r) = Some t}"
      and "\<exists>r \<in> set (dag_stages st'). started_stage (stage_status r)"
      using decide_waits [OF ok plan that st'(1)] by blast+
    then obtain r where r: "r \<in> set (dag_stages st')" "\<not> terminal_stage (stage_status r)"
      "\<And>t. map_of (ticket_map (static_machine_of (run_record row) defn)) (run_stage_id r) = Some t \<Longrightarrow>
         ticket_wait t \<in> set (replace_waits plan)"
      by (auto simp: started_stage_def terminal_stage_def split: stage_status.splits)
    with open_stage_ticket [OF ok(1) st'(2) r(1)] show ?thesis by auto
  qed
  with ok' decide_plan_shape [OF plan] doc rec show thesis by (intro that [OF load d compute]) simp_all
qed

text \<open>
  C10: rounds keep persisted static-DAG runs well formed. A round on such a run never fails to find or
  run its machine, and afterwards the run is well formed again: same template and tickets, a state that fits
  them, in which no stage past \<open>blocked\<close> has a dependency that did not succeed.
\<close>

theorem static_run_stays_ok:
  assumes inv: "workflow_inv db" and row: "row \<in> set (workflow_runs db)" "this_run repo wid row" "static_run_ok row"
    and tickets: "\<forall>r \<in> set (workflow_runs db). parent_ticket_id r \<noteq> Some (uuid_text wid)"
  shows "(\<exists>d. load_workflow_decision_input repo wid now 100 db = Inr d \<and>
       (\<exists>plan. compute_plan resolve_persisted_machine d = Inr plan)) \<and>
    (\<forall>run db'. decide_once resolve_persisted_machine validate retries repo undisturbed wid now db = Inr (run, db') \<longrightarrow>
       (\<exists>row' \<in> set (workflow_runs db'). this_run repo wid row' \<and> static_run_ok row' \<and>
          definition_snapshot row' = definition_snapshot row \<and> stage_map row' = stage_map row))"
proof -
  obtain d plan where round: "load_workflow_decision_input repo wid now 100 db = Inr d"
    "compute_plan resolve_persisted_machine d = Inr plan" "static_run_ok (replaced_run plan now row)"
    using static_round_plan [OF assms] by metis
  have "\<exists>row' \<in> set (workflow_runs db'). this_run repo wid row' \<and> static_run_ok row' \<and>
      definition_snapshot row' = definition_snapshot row \<and> stage_map row' = stage_map row"
    if "decide_once resolve_persisted_machine validate retries repo undisturbed wid now db = Inr (run, db')" for run db'
    using that
  proof (cases rule: decide_once_undisturbedE)
    case (finished d')
    with row show ?thesis by blast
  next
    case (decided d' plan')
    with round have app: "apply_transition_plan validate repo wid plan now db = Inr (run, db')" by simp
    have "replaced_run plan now row \<in> set (workflow_runs db')"
      using applied_plan [OF app inv] row by (auto simp: set_update_where this_run_def)
    with round(3) row(2) show ?thesis
      by (intro bexI [of _ "replaced_run plan now row"]) (simp_all add: this_run_def replaced_run_def)
  qed
  with round show ?thesis by blast
qed

section \<open>Rounds that succeed\<close>

lemma open_batch:
  assumes "distinct (map key rows)"
  defines "batch n f P \<equiv> map key (take n (sort_key f (filter P rows)))"
  shows "distinct (batch n f P)"
    and "i \<in> set (batch n f P) \<Longrightarrow> \<exists>g \<in> set rows. key g = i \<and> P g"
    and "length (filter (\<lambda>g. P g \<and> key g \<notin> set (batch n f P)) rows) = length (filter P rows) - n"
proof -
  let ?sorted = "sort_key f (filter P rows)"
  have sorted: "distinct (map key ?sorted)"
  proof -
    have "distinct (map key (filter P rows))" by (rule distinct_map_filter [OF assms(1)])
    then show ?thesis by (simp add: distinct_map)
  qed
  then show "distinct (batch n f P)" unfolding batch_def take_map [symmetric] by (rule distinct_take)
  show "\<exists>g \<in> set rows. key g = i \<and> P g" if "i \<in> set (batch n f P)"
    using that by (auto simp: batch_def dest!: in_set_takeD)
  have "set (filter (\<lambda>g. key g \<notin> set (batch n f P)) ?sorted) = set (drop n ?sorted)"
    using sorted unfolding batch_def
    by (subst (asm) append_take_drop_id [of n ?sorted, symmetric], subst (2) append_take_drop_id [of n ?sorted, symmetric])
      (auto simp del: append_take_drop_id simp: image_iff)
  moreover have "distinct ?sorted" using sorted by (simp add: distinct_map)
  ultimately have "card (set (filter (\<lambda>g. key g \<notin> set (batch n f P)) ?sorted)) = length ?sorted - n"
    by (simp add: distinct_card)
  moreover have "set (filter (\<lambda>g. key g \<notin> set (batch n f P)) ?sorted) = set (filter (\<lambda>g. P g \<and> key g \<notin> set (batch n f P)) rows)" by auto
  moreover have "distinct (filter (\<lambda>g. P g \<and> key g \<notin> set (batch n f P)) rows)" using assms(1) by (simp add: distinct_map)
  ultimately show "length (filter (\<lambda>g. P g \<and> key g \<notin> set (batch n f P)) rows) = length (filter P rows) - n"
    by (metis distinct_card length_sort)
qed

lemma plan_consumes_input:
  assumes "compute_plan resolve_persisted_machine d = Inr plan" and load: "load_workflow_decision_input repo wid now 100 db = Inr d"
  shows "consume_signal_ids plan = map signal_id (take 100 (sort_key (\<lambda>g. (signal_created_at g, signal_id g))
    (filter (\<lambda>g. signals_of repo wid g \<and> consumed_at g = None) (workflow_signals db))))"
proof -
  have "consume_signal_ids plan = map signal_id (input_signals d)"
    using assms(1) by (rule compute_planE) (auto dest: decide_plan_shape)
  then show ?thesis using load_inputE(3) [OF load] by simp
qed

lemma check_selected_passes: "\<forall>g \<in> set gs. signal_workflow g = wid \<and> consumed_at g = None \<Longrightarrow> check_selected wid gs = Inr ()"
  by (induction gs) auto

lemma selected_signals_length:
  assumes "workflow_inv db" and "distinct ids"
    and "\<And>i. i \<in> set ids \<Longrightarrow> \<exists>g \<in> set (workflow_signals db). signal_id g = i \<and> signal_repository g = repo"
  shows "length (selected_signals repo ids (workflow_signals db)) = length ids"
proof -
  let ?rows = "selected_signals repo ids (workflow_signals db)"
  have "distinct (map signal_id (workflow_signals db))" using assms(1) by (simp add: workflow_inv_def)
  then have "distinct (map signal_id ?rows)" unfolding selected_signals_def by (rule distinct_map_filter)
  moreover have "set (map signal_id ?rows) = set ids" using assms(3) by (force simp: selected_signals_def)
  ultimately show ?thesis using assms(2) by (metis distinct_card length_map)
qed

lemma consume_signals_ok:
  assumes inv: "workflow_inv db" and "distinct ids"
    and open_ids: "\<And>i. i \<in> set ids \<Longrightarrow> \<exists>g \<in> set (workflow_signals db). signal_id g = i \<and> signals_of repo wid g \<and> consumed_at g = None"
  shows "\<exists>db'. consume_signals repo wid ids ts rn db = Inr db' \<and> workflow_runs db' = workflow_runs db \<and>
    retained_facts db' = retained_facts db"
proof -
  have "length (selected_signals repo ids (workflow_signals db)) = length ids"
    using open_ids by (intro selected_signals_length [OF inv assms(2)]) (force simp: signals_of_def)
  moreover have "check_selected wid (selected_signals repo ids (workflow_signals db)) = Inr ()"
  proof (rule check_selected_passes, intro ballI)
    fix g assume "g \<in> set (selected_signals repo ids (workflow_signals db))"
    then have g: "g \<in> set (workflow_signals db)" "signal_id g \<in> set ids" by (auto simp: selected_signals_def)
    from open_ids [OF g(2)] obtain h where h: "h \<in> set (workflow_signals db)" "signal_id h = signal_id g"
      "signals_of repo wid h" "consumed_at h = None" by blast
    then show "signal_workflow g = wid \<and> consumed_at g = None" using same_signal [OF inv g(1) h(1)] by (simp add: signals_of_def)
  qed
  ultimately show ?thesis by (auto simp: consume_signals_def Let_def)
qed

lemma replace_state_ok:
  assumes inv: "workflow_inv db" and row: "row \<in> set (workflow_runs db)" "this_run repo wid row"
    and "revision row = replaced_revision (plan_state plan)" and "workflow_runs db1 = workflow_runs db"
    and "retained_facts db1 = retained_facts db"
  shows "\<exists>db'. replace_state repo wid plan ts db1 = Inr db' \<and> (\<exists>r \<in> set (workflow_runs db'). this_run repo wid r) \<and>
    retained_facts db' = retained_facts db"
proof -
  let ?mine = "\<lambda>r. this_run repo wid r \<and> revision r = replaced_revision (plan_state plan)"
  have "distinct (filter ?mine (workflow_runs db))" using inv by (auto simp: workflow_inv_def distinct_map)
  moreover have "set (filter ?mine (workflow_runs db)) = {row}"
    using row assms(4) by (auto simp: this_run_def intro: same_run [OF inv])
  ultimately have one: "count_where ?mine (workflow_runs db) = 1"
    unfolding count_where_def using distinct_card by fastforce
  have "\<exists>r \<in> set (update_where ?mine f (workflow_runs db)). this_run repo wid r"
    if "\<And>r. this_run repo wid (f r) = this_run repo wid r" for f
    by (rule bexI [of _ "if ?mine row then f row else row"]) (use row that in \<open>auto simp: set_update_where\<close>)
  then show ?thesis using one assms(5,6) by (simp add: replace_state_def Let_def this_run_def)
qed

definition quiet_facts :: "workflow_fact list \<Rightarrow> bool" where
  "quiet_facts fs \<longleftrightarrow> fs = [] \<or> (\<exists>f. fs = [f] \<and> wf_fact_kind f \<in> {''workflow.completed'', ''workflow.failed'', ''workflow.cancelled''} \<and>
     map_of (wf_fact_payload f) ''type'' = None)"

lemma append_workflow_fact_ok:
  assumes "\<forall>f \<in> set (retained_facts db). fact_id f \<noteq> fid"
  shows "\<exists>db'. append_workflow_fact repo run rn fid body ts agg inval db = Inr db' \<and>
    fact_id ` set (retained_facts db') = insert fid (fact_id ` set (retained_facts db))"
proof -
  obtain iid db1 where draw: "uuid4 db = (iid, db1)" by fastforce
  then have db1: "retained_facts db1 = retained_facts db" by (auto simp: uuid4_def)
  show ?thesis
    using assms draw db1
    by (auto simp: append_workflow_fact_def Let_def append_fact_dbI_new frame_simps table_simps)
qed

lemma append_transition_facts_ok:
  assumes "\<And>suffix. \<forall>f \<in> set (retained_facts db). fact_id f \<noteq> workflow_fact_id (workflow_id run) rn suffix"
    and "quiet_facts (plan_facts plan)"
  shows "\<exists>db'. append_transition_facts validate repo run rn plan ts db = Inr db'"
proof -
  have new: "workflow_fact_id (workflow_id run) rn (nat_text 0) \<noteq> workflow_fact_id (workflow_id run) rn ''transition''"
    by (auto simp: workflow_fact_id_def nat_text.simps [of 0] dest!: arg_cong [of _ _ length])
  obtain db1 where 1: "append_workflow_fact repo run rn (workflow_fact_id (workflow_id run) rn ''transition'')
      (WorkflowTransitionAppliedPayload (workflow_id run) (workflow_status_value (run_status run))
        (workflow_status_value (replaced_status (plan_state plan))) rn) ts None True db = Inr db1"
    "fact_id ` set (retained_facts db1) = insert (workflow_fact_id (workflow_id run) rn ''transition'') (fact_id ` set (retained_facts db))"
    using append_workflow_fact_ok [OF assms(1)] by blast
  have fresh: "\<forall>f \<in> set (retained_facts db1). fact_id f \<noteq> workflow_fact_id (workflow_id run) rn (nat_text 0)"
  proof
    fix f assume "f \<in> set (retained_facts db1)"
    then have "fact_id f \<in> insert (workflow_fact_id (workflow_id run) rn ''transition'') (fact_id ` set (retained_facts db))"
      unfolding 1(2) [symmetric] by simp
    with new assms(1) [of "nat_text 0"] show "fact_id f \<noteq> workflow_fact_id (workflow_id run) rn (nat_text 0)" by auto
  qed
  show ?thesis
  proof (cases "plan_facts plan")
    case Nil
    with 1(1) show ?thesis by (simp add: append_transition_facts_def)
  next
    case (Cons f rest)
    with assms(2) obtain "rest = []" "map_of (wf_fact_payload f) ''type'' = None"
      "wf_fact_kind f \<in> {''workflow.completed'', ''workflow.failed'', ''workflow.cancelled''}" by (auto simp: quiet_facts_def)
    then obtain body where "fact_payload_from_storage validate (wf_fact_kind f) (wf_fact_payload f) = Inr body"
      by (auto simp: fact_payload_from_storage_def private_payload_def is_public_def public_fact_types_def)
    with 1(1) Cons \<open>rest = []\<close> append_workflow_fact_ok [OF fresh, of repo run rn body ts
        "Some (case wf_fact_aggregate f of Some a \<Rightarrow> a | None \<Rightarrow> \<lparr>aggregate_kind = ''workflow'',
          aggregate_id = workflow_id run, aggregate_revision = Some rn\<rparr>)" False] show ?thesis
      by (auto simp: append_transition_facts_def)
  qed
qed

text \<open>A plan with waits and state only is applied whenever its guards hold.\<close>

lemma apply_quiet_plan:
  assumes inv: "workflow_inv db" and row: "row \<in> set (workflow_runs db)" "this_run repo wid row"
    and guards: "plan_error plan = None" "run_error wid plan row = None"
    and quiet: "plan_activities plan = []" "plan_approvals plan = []" "quiet_facts (plan_facts plan)"
      "concat (map wait_activities (replace_waits plan)) = []"
    and "distinct (consume_signal_ids plan)"
    and "\<And>i. i \<in> set (consume_signal_ids plan) \<Longrightarrow>
      \<exists>g \<in> set (workflow_signals db). signal_id g = i \<and> signals_of repo wid g \<and> consumed_at g = None"
    and fresh: "\<And>suffix. \<forall>f \<in> set (retained_facts db). fact_id f \<noteq>
      workflow_fact_id wid (replaced_revision (plan_state plan) + 1) suffix"
  shows "\<exists>run db'. apply_transition_plan validate repo wid plan ts db = Inr (run, db')"
proof -
  let ?rn = "replaced_revision (plan_state plan) + 1"
  obtain r where r: "find (this_run repo wid) (workflow_runs db) = Some r"
    using row by (cases "find (this_run repo wid) (workflow_runs db)") (auto simp: find_eq_None)
  then have "r = row" using find_Some_mem [OF r] row by (intro same_run [OF inv]) (auto simp: this_run_def)
  have rev: "revision row = replaced_revision (plan_state plan)" using guards(2) by (simp add: run_error_def split: if_splits)
  obtain db1 where 1: "consume_signals repo wid (consume_signal_ids plan) ts ?rn db = Inr db1"
    "workflow_runs db1 = workflow_runs db" "retained_facts db1 = retained_facts db"
    using consume_signals_ok [OF inv assms(10,11)] by blast
  obtain db2 where 2: "replace_state repo wid plan ts db1 = Inr db2" "\<exists>r \<in> set (workflow_runs db2). this_run repo wid r"
    "retained_facts db2 = retained_facts db"
    using replace_state_ok [OF inv row rev 1(2,3)] by blast
  define db3 where "db3 = replace_all_waits repo wid plan ts db2"
  have 3: "workflow_runs db3 = workflow_runs db2" "retained_facts db3 = retained_facts db"
    unfolding db3_def replace_all_waits_def by (simp_all add: insert_waits_tables 2(3))
  have "workflow_id (run_record row) = wid" using row(2) by (simp add: this_run_def)
  with fresh 3(2) obtain db4 where 4: "append_transition_facts validate repo (run_record row) ?rn plan ts db3 = Inr db4"
    using append_transition_facts_ok [of db3 "run_record row" ?rn plan validate repo ts] quiet(3) by auto
  have "workflow_runs db4 = workflow_runs db2" using facts_only_workflow(1) [OF append_transition_facts_only [OF 4]] 3(1) by simp
  with 2(2) have "find (run_row_named repo wid) (workflow_runs db4) \<noteq> None"
    by (auto simp: find_eq_None run_row_named_def this_run_def)
  then obtain run where "require_workflow_run repo wid db4 = Inr run"
    by (auto simp: require_workflow_run_def get_workflow_run_def)
  moreover have "validate_activity_wait_references repo wid (replace_waits plan) db3 = Inr ()"
    by (simp only: validate_activity_wait_references_def quiet list.pred_inject(1) if_True)
  ultimately show ?thesis
    using guards r \<open>r = row\<close> 1 2(1) 4 quiet by (simp add: apply_transition_plan_def Let_def db3_def)
qed

lemma static_round_ok:
  assumes inv: "workflow_inv db" and row: "row \<in> set (workflow_runs db)" "this_run repo wid row" "static_run_ok row"
    and tickets: "\<forall>r \<in> set (workflow_runs db). parent_ticket_id r \<noteq> Some (uuid_text wid)"
    and live: "\<not> terminal_workflow (run_status row)"
    and fresh: "\<forall>f \<in> set (retained_facts db). \<forall>suffix. fact_id f \<noteq> workflow_fact_id wid (revision row + 1) suffix"
  shows "\<exists>run db'. decide_once resolve_persisted_machine validate retries repo undisturbed wid now db = Inr (run, db') \<and>
    (\<exists>row' \<in> set (workflow_runs db'). this_run repo wid row' \<and> revision row' = revision row + 1) \<and>
    pending_signals repo wid db' = pending_signals repo wid db - 100"
proof -
  obtain d plan where load: "load_workflow_decision_input repo wid now 100 db = Inr d" and d: "input_run d = run_record row"
    and plan: "compute_plan resolve_persisted_machine d = Inr plan"
    and waits: "replaced_status (plan_state plan) = WfWaiting \<Longrightarrow> replace_waits plan \<noteq> []"
    and rev: "replaced_revision (plan_state plan) = revision row"
    and schema: "schema_name (replaced_state (plan_state plan)) = schema_name (run_state row)"
      "state_version (replaced_state (plan_state plan)) = state_version (run_state row)"
    using static_round_plan [OF inv row tickets] by metis
  let ?open = "filter (\<lambda>g. signals_of repo wid g \<and> consumed_at g = None) (workflow_signals db)"
  have ids: "consume_signal_ids plan = map signal_id (take 100 (sort_key (\<lambda>g. (signal_created_at g, signal_id g)) ?open))"
    using plan_consumes_input [OF plan load] .
  have shape: "plan_activities plan = []" "plan_approvals plan = []" "quiet_facts (plan_facts plan)"
    "\<forall>w \<in> set (replace_waits plan). \<exists>t. w = ticket_wait t"
    "terminal_workflow (replaced_status (plan_state plan)) \<Longrightarrow> replace_waits plan = []"
    using plan by (auto elim!: compute_planE dest: decide_plan_shape simp: quiet_facts_def)
  have silent: "concat (map wait_activities (replace_waits plan)) = []"
    using shape(4) by (fastforce simp: ticket_wait_def wait_activities_def)
  have distinct: "distinct (map signal_id (workflow_signals db))" using inv by (simp add: workflow_inv_def)
  note batch = open_batch [OF distinct, where n = 100 and f = "\<lambda>g. (signal_created_at g, signal_id g)"
    and P = "\<lambda>g. signals_of repo wid g \<and> consumed_at g = None"]
  have errors: "plan_error plan = None" "run_error wid plan row = None"
    using batch(1) waits shape(5) rev schema live by (auto simp: plan_error_def run_error_def ids terminal_workflow_def)
  obtain run db' where app: "apply_transition_plan validate repo wid plan now db = Inr (run, db')"
    using apply_quiet_plan [OF inv row(1,2) errors shape(1-3) silent, of validate now] batch(1,2) fresh
    by (auto simp: ids rev)
  have "decide_once resolve_persisted_machine validate retries repo undisturbed wid now db = Inr (run, db')"
    using load plan app live d load_inputE(2) [OF load] by (simp add: decide_once_def decide_attempts.simps undisturbed_def)
  moreover have "replaced_run plan now row \<in> set (workflow_runs db')" "revision (replaced_run plan now row) = revision row + 1"
    using applied_plan [OF app inv] row(1,2) rev by (auto simp: set_update_where this_run_def replaced_run_def)
  moreover have "this_run repo wid (replaced_run plan now row)" using row(2) by (simp add: this_run_def replaced_run_def)
  moreover have "pending_signals repo wid db' = pending_signals repo wid db - 100"
  proof -
    have signals: "workflow_signals db' = map (\<lambda>g. if selected repo (consume_signal_ids plan) g
        then consumed_signal now (revision row + 1) g else g) (workflow_signals db)"
      using applied_plan [OF app inv] by (simp add: update_where_def rev)
    have "pending_signals repo wid db' = length (filter (\<lambda>g. (signals_of repo wid g \<and> consumed_at g = None) \<and>
        signal_id g \<notin> set (consume_signal_ids plan)) (workflow_signals db))"
      unfolding pending_signals_def count_where_def signals filter_map length_map
      by (rule arg_cong [where f = length], rule filter_cong) (auto simp: selected_def signals_of_def)
    then show ?thesis using batch(3) by (simp add: ids pending_signals_def count_where_def)
  qed
  ultimately show ?thesis by blast
qed

text \<open>
  C9: rounds on static-DAG runs make progress. Unless a fact already has the identity of a fact of the next revision,
  a round on a well-formed run that is not finished returns: the run has the next revision, and the oldest
  hundred pending signals are consumed.
\<close>

theorem static_round_returns:
  assumes inv: "workflow_inv db" and row: "row \<in> set (workflow_runs db)" "this_run repo wid row" "static_run_ok row"
    and tickets: "\<forall>r \<in> set (workflow_runs db). parent_ticket_id r \<noteq> Some (uuid_text wid)"
    and live: "\<not> terminal_workflow (run_status row)"
    and fresh: "\<forall>f \<in> set (retained_facts db). \<forall>suffix. fact_id f \<noteq> workflow_fact_id wid (revision row + 1) suffix"
  shows "\<exists>run db'. decide_once resolve_persisted_machine validate retries repo undisturbed wid now db = Inr (run, db') \<and>
    (\<exists>row' \<in> set (workflow_runs db'). this_run repo wid row' \<and> revision row' = revision row + 1) \<and>
    pending_signals repo wid db' = pending_signals repo wid db - 100"
  using assms by (rule static_round_ok)

section \<open>What recovery leaves\<close>

text \<open>Only the resolver reports an unavailable machine: the decision and the store raise other errors.\<close>

lemma get_item_error: "get_item t k name = Inl e \<Longrightarrow> e = KeyError name"
  by (simp add: get_item_def split: option.splits)

lemma get_items_error: "get_items t f ks = Inl e \<Longrightarrow> \<exists>k. e = KeyError k"
  by (induction ks) (auto simp: bindE_eq_Inl dest: get_item_error)

lemma dependency_statuses_error: "dependency_statuses t ds = Inl e \<Longrightarrow> \<exists>k. e = KeyError k"
  by (induction ds) (auto simp: bindE_eq_Inl dest: get_item_error)

lemma sweep_error: "foldE sweep_stage ss st = Inl e \<Longrightarrow> \<exists>k. e = KeyError k"
proof (induction ss arbitrary: st)
  case (Cons s ss)
  have "\<exists>k. e = KeyError k" if "sweep_stage s st = Inl e"
    using that by (cases st) (auto simp: sweep_stage_def bindE_eq_Inl dest: get_item_error dependency_statuses_error
        split: if_splits)
  with Cons show ?case by (auto simp: bindE_eq_Inl)
qed simp

lemma settle_error: "settle stages t = Inl e \<Longrightarrow> \<exists>k. e = KeyError k"
proof (induction stages t rule: settle.induct)
  case (1 stages t)
  from "1.prems" consider "foldE sweep_stage stages (t, False) = Inl e"
    | t' where "foldE sweep_stage stages (t, False) = Inr (t', True)" "settle stages t' = Inl e"
    by (subst (asm) settle.simps) (auto simp: bindE_eq_Inl split: if_splits)
  then show ?case
  proof cases
    case 1
    then show ?thesis by (rule sweep_error)
  next
    case (2 t')
    with "1.IH" [OF 2(1)] show ?thesis by simp
  qed
qed

lemma decide_error: "decide m st ws gs now n = Inl e \<Longrightarrow> \<exists>k. e = KeyError k"
  by (auto simp: decide_def Let_def bindE_eq_Inl split_beta dest: settle_error get_items_error split: if_splits)

definition plain_validate :: "(json_object \<Rightarrow> exn + fact_payload) \<Rightarrow> bool" where
  "plain_validate validate \<longleftrightarrow> (\<forall>j. validate j \<noteq> Inl WorkflowDefinitionUnavailableError)"

lemma append_fact_error: "append_fact_db repo d items ts db = Inl e \<Longrightarrow> e \<noteq> WorkflowDefinitionUnavailableError"
  by (auto simp: append_fact_db_def append_fact_def insert_fact_def bindE_eq_Inl Let_def split: option.splits if_splits)

lemma append_workflow_fact_error:
  "append_workflow_fact repo run rn fid body occurred agg flag db = Inl e \<Longrightarrow> e \<noteq> WorkflowDefinitionUnavailableError"
  by (auto simp: append_workflow_fact_def Let_def dest: append_fact_error split: prod.splits if_splits)

lemma foldE_error:
  "foldE f xs s = Inl e \<Longrightarrow> (\<And>x u. f x u = Inl e \<Longrightarrow> P) \<Longrightarrow> P"
  by (induction xs arbitrary: s) (auto simp: bindE_eq_Inl)

lemma append_transition_facts_error:
  assumes "plain_validate validate"
  shows "append_transition_facts validate repo run rn plan ts db \<noteq> Inl WorkflowDefinitionUnavailableError"
  using assms unfolding append_transition_facts_def
  by (auto simp: bindE_eq_Inl fact_payload_from_storage_def private_payload_def plain_validate_def
      dest: append_workflow_fact_error elim!: foldE_error split: if_splits)

lemma guards_error:
  "plan_error plan \<noteq> Some WorkflowDefinitionUnavailableError"
  "run_error wid plan row \<noteq> Some WorkflowDefinitionUnavailableError"
  "check_selected wid rows \<noteq> Inl WorkflowDefinitionUnavailableError"
  by (simp_all add: plan_error_def run_error_def) (induction rows; simp)

lemma steps_error:
  "consume_signals repo wid ids ts n db \<noteq> Inl WorkflowDefinitionUnavailableError"
  "require_workflow_run repo wid db \<noteq> Inl WorkflowDefinitionUnavailableError"
  "replace_state repo wid plan ts db \<noteq> Inl WorkflowDefinitionUnavailableError"
  "validate_activity_wait_references repo wid ws db' \<noteq> Inl WorkflowDefinitionUnavailableError"
  by (auto simp: consume_signals_def replace_state_def require_workflow_run_def validate_activity_wait_references_def
      Let_def bindE_eq_Inl guards_error split: option.splits if_splits)

lemma apply_transition_plan_error:
  assumes "apply_transition_plan validate repo wid plan ts db = Inl e" and "plain_validate validate"
    and "plan_activities plan = []" "plan_approvals plan = []"
  shows "e \<noteq> WorkflowDefinitionUnavailableError"
  using assms(1,3,4)
  by (auto simp: apply_transition_plan_def Let_def bindE_eq_Inl guards_error steps_error
      append_transition_facts_error [OF assms(2)] split: option.splits)

lemma decide_once_unavailable:
  assumes "decide_once resolve_persisted_machine validate retries repo undisturbed wid now db = Inl WorkflowDefinitionUnavailableError"
    and "plain_validate validate" and d: "load_workflow_decision_input repo wid now 100 db = Inr d"
  shows "resolve_persisted_machine (input_run d) = Inl WorkflowDefinitionUnavailableError"
proof -
  have "decide_attempts resolve_persisted_machine validate repo undisturbed wid now attempt left db = Inl WorkflowDefinitionUnavailableError \<Longrightarrow>
      compute_plan resolve_persisted_machine d = Inl WorkflowDefinitionUnavailableError" for attempt left
  proof (induction left arbitrary: attempt)
    case 0
    then show ?case
    proof (cases "compute_plan resolve_persisted_machine d")
      case (Inr plan)
      with 0 d load_inputE(2) [OF d] have "apply_transition_plan validate repo wid plan now db = Inl WorkflowDefinitionUnavailableError"
        by (simp add: decide_attempts.simps [of _ _ _ _ _ _ _ 0] undisturbed_def split: if_splits sum.splits exn.splits)
      moreover from Inr have "plan_activities plan = []" "plan_approvals plan = []"
        by (auto elim!: compute_planE dest: decide_plan_shape)
      ultimately show ?thesis using apply_transition_plan_error [OF _ assms(2)] by blast
    qed (simp add: d decide_attempts.simps [of _ _ _ _ _ _ _ 0] split: if_splits)
  next
    case (Suc left)
    show ?case
    proof (cases "compute_plan resolve_persisted_machine d")
      case (Inr plan)
      from Inr have "plan_activities plan = []" "plan_approvals plan = []"
        by (auto elim!: compute_planE dest: decide_plan_shape)
      then have "apply_transition_plan validate repo wid plan now db \<noteq> Inl WorkflowDefinitionUnavailableError"
        using apply_transition_plan_error [OF _ assms(2)] by blast
      with Suc Inr d load_inputE(2) [OF d] show ?thesis
        by (auto simp: decide_attempts.simps [of _ _ _ _ _ _ _ "Suc left"] undisturbed_def split: if_splits sum.splits exn.splits)
    next
      case (Inl e)
      with Suc.prems d show ?thesis by (simp add: decide_attempts.simps [of _ _ _ _ _ _ _ "Suc left"] split: if_splits)
    qed
  qed
  with assms(1) have "compute_plan resolve_persisted_machine d = Inl WorkflowDefinitionUnavailableError"
    by (simp add: decide_once_def)
  then show ?thesis
    by (auto simp: compute_plan_def bindE_eq_Inl static_machine_def static_state_def dest: decide_error
        elim!: resolve_persisted_machineE split: state_doc.splits)
qed

definition plain_tickets :: "'z world \<Rightarrow> bool" where
  "plain_tickets db \<longleftrightarrow> (\<forall>r \<in> set (workflow_runs db). \<forall>k. parent_ticket_id r \<noteq> Some (uuid_text k))"

definition blocked_ok :: "string \<Rightarrow> uuid \<Rightarrow> 'z world \<Rightarrow> bool" where
  "blocked_ok repo wid db \<longleftrightarrow> (\<forall>r \<in> set (workflow_runs db). this_run repo wid r \<longrightarrow> \<not> terminal_workflow (run_status r) \<longrightarrow>
     0 < pending_signals repo wid db \<longrightarrow> resolve_persisted_machine (run_record r) = Inl WorkflowDefinitionUnavailableError)"

lemma require_run_plain:
  assumes "plain_tickets db" "workflow_inv db" "r \<in> set (workflow_runs db)" "this_run repo wid r"
  shows "require_workflow_run repo wid db = Inr (run_record r)"
proof -
  have "find (run_row_named repo wid) (workflow_runs db) = Some r"
  proof (cases "find (run_row_named repo wid) (workflow_runs db)")
    case None
    with assms(3,4) show ?thesis by (auto simp: find_eq_None run_row_named_def this_run_def)
  next
    case (Some q)
    from find_Some_mem [OF this] assms(1) have "q \<in> set (workflow_runs db)" "workflow_id q = wid"
      by (auto simp: run_row_named_def plain_tickets_def)
    with same_run [OF assms(2) _ assms(3)] assms(4) Some show ?thesis by (simp add: this_run_def)
  qed
  then show ?thesis by (simp add: require_workflow_run_def get_workflow_run_def)
qed

lemma load_plain:
  assumes "plain_tickets db" "workflow_inv db" "r \<in> set (workflow_runs db)" "this_run repo wid r"
  obtains d where "load_workflow_decision_input repo wid now 100 db = Inr d" "input_run d = run_record r"
  using require_run_plain [OF assms] by (auto simp: load_workflow_decision_input_def list_workflow_signals_def)

text \<open>A static-DAG round consumes the whole batch it loaded, so it makes progress whenever there is a signal.\<close>

lemma static_round_progress:
  assumes "compute_plan resolve_persisted_machine d = Inr plan" and load: "load_workflow_decision_input repo wid now 100 db = Inr d"
    and app: "apply_transition_plan validate repo wid plan now db = Inr (run, db')"
    and pending: "0 < pending_signals repo wid db"
  shows "pending_signals repo wid db' < pending_signals repo wid db"
proof -
  let ?open = "filter (\<lambda>g. signals_of repo wid g \<and> consumed_at g = None) (workflow_signals db)"
  let ?sorted = "sort_key (\<lambda>g. (signal_created_at g, signal_id g)) ?open"
  note ids = plan_consumes_input [OF assms(1) load]
  have "length ?sorted = pending_signals repo wid db" by (simp add: pending_signals_def count_where_def)
  with pending have "?sorted \<noteq> []" by (metis less_numeral_extra(3) list.size(3))
  then obtain g rest where g: "?sorted = g # rest" unfolding neq_Nil_conv by blast
  have "g \<in> set ?sorted" unfolding g by simp
  then have "g \<in> set ?open" unfolding set_sort .
  moreover have "signal_id g \<in> set (consume_signal_ids plan)" unfolding ids g by simp
  moreover have "workflow_signals db' = map (\<lambda>g. if selected repo (consume_signal_ids plan) g
      then consumed_signal now (replaced_revision (plan_state plan) + 1) g else g) (workflow_signals db)"
    using app by (rule apply_transition_planE) (simp add: update_where_def)
  ultimately show ?thesis
    unfolding pending_signals_def
    by (simp only:) (rule count_where_less [where y = g]; auto simp: selected_def signals_of_def split: if_splits)
qed

definition recovery_ok :: "string \<Rightarrow> (uuid \<times> nat) list \<Rightarrow> 'z recovery \<Rightarrow> bool" where
  "recovery_ok repo rows st \<longleftrightarrow> (case st of (recovered, blocked, db) \<Rightarrow> workflow_inv db \<and> plain_tickets db \<and>
     (\<forall>wid \<in> set blocked. blocked_ok repo wid db) \<and> (\<forall>(wid, n) \<in> set rows. pending_signals repo wid db \<le> n))"

lemma recover_row_ok:
  assumes "recover_row resolve_persisted_machine validate retries repo now (wid, before) st = Inr st'"
    and "plain_validate validate" and "recovery_ok repo rows st" and "(wid, before) \<in> set rows"
  shows "recovery_ok repo rows st'"
proof -
  obtain recovered bs db where st: "st = (recovered, bs, db)" by (cases st) auto
  from assms(3) have inv: "workflow_inv db" and tickets: "plain_tickets db"
    and bs: "\<And>k. k \<in> set bs \<Longrightarrow> blocked_ok repo k db" and rows: "\<And>k n. (k, n) \<in> set rows \<Longrightarrow> pending_signals repo k db \<le> n"
    by (auto simp: recovery_ok_def st)
  consider (unavailable) "decide_once resolve_persisted_machine validate retries repo undisturbed wid now db = Inl WorkflowDefinitionUnavailableError"
      "st' = (recovered, wid # bs, db)"
    | (woken) updated db' where "decide_once resolve_persisted_machine validate retries repo undisturbed wid now db = Inr (updated, db')"
      "st' = (put_run wid updated recovered, if before \<le> pending_signals repo wid db' then wid # bs else bs, db')"
    using assms(1) by (auto simp: recover_row_def st split: sum.splits exn.splits prod.splits)
  then show ?thesis
  proof cases
    case unavailable
    have "blocked_ok repo wid db"
      unfolding blocked_ok_def
    proof (intro ballI impI)
      fix r assume "r \<in> set (workflow_runs db)" "this_run repo wid r"
      then obtain d where "load_workflow_decision_input repo wid now 100 db = Inr d" "input_run d = run_record r"
        using load_plain [OF tickets inv] by blast
      with decide_once_unavailable [OF unavailable(1) assms(2)]
      show "resolve_persisted_machine (run_record r) = Inl WorkflowDefinitionUnavailableError" by simp
    qed
    with inv tickets bs rows unavailable(2) show ?thesis by (auto simp: recovery_ok_def)
  next
    case (woken updated db')
    note fewer = decide_once_pending(1) [OF woken(1)]
    have inv': "workflow_inv db'" using workflow_steps_inv(1) [OF decide_once_more(2) [OF woken(1)] inv] .
    have rows': "pending_signals repo k db' \<le> n" if "(k, n) \<in> set rows" for k n
      using rows [OF that] fewer order_trans by blast
    from woken(1) show ?thesis
    proof (cases rule: decide_once_undisturbedE)
      case (finished d)
      have "terminal_workflow (run_status r)" if "r \<in> set (workflow_runs db)" "this_run repo wid r" for r
        using require_run_plain [OF tickets inv that] load_inputE(1) [OF finished(1)] finished(2) by simp
      then have "blocked_ok repo wid db" by (simp add: blocked_ok_def)
      with inv tickets bs rows woken(2) finished(4) show ?thesis by (auto simp: recovery_ok_def)
    next
      case (decided d plan)
      have runs: "workflow_runs db' = update_where (\<lambda>r. workflow_id r = wid) (replaced_run plan now) (workflow_runs db)"
        using applied_plan [OF decided(4) inv] by blast
      have tickets': "plain_tickets db'"
        using tickets by (auto simp: plain_tickets_def runs set_update_where)
      have stays: "blocked_ok repo k db'" if ok: "blocked_ok repo k db" and other: "k = wid \<Longrightarrow> pending_signals repo k db' = 0" for k
      proof (cases "k = wid")
        case True
        with other show ?thesis by (simp add: blocked_ok_def)
      next
        case False
        then have "r \<in> set (workflow_runs db)" if "r \<in> set (workflow_runs db')" "this_run repo k r" for r
          using that by (auto simp: runs set_update_where this_run_def split: if_splits)
        with ok show ?thesis using fewer [of repo k] unfolding blocked_ok_def by (meson less_le_trans)
      qed
      have drained: "pending_signals repo wid db' = 0" if "wid \<in> set bs"
      proof (cases "0 < pending_signals repo wid db")
        case True
        from require_run_mem [OF load_inputE(1) [OF decided(1)]] obtain r where r: "r \<in> set (workflow_runs db)"
          "run_repository r = repo" "input_run d = run_record r" "workflow_id r = wid"
          using tickets by (auto simp: plain_tickets_def)
        have "resolve_persisted_machine (input_run d) \<noteq> Inl WorkflowDefinitionUnavailableError"
          using decided(3) by (auto simp: compute_plan_def)
        with bs [OF that] r True decided(2) have False by (auto simp: blocked_ok_def this_run_def)
        then show ?thesis ..
      qed (use fewer [of repo wid] in simp)
      have "pending_signals repo wid db' = 0" if keep: "before \<le> pending_signals repo wid db'"
      proof (rule ccontr)
        assume "pending_signals repo wid db' \<noteq> 0"
        with fewer [of repo wid] have "0 < pending_signals repo wid db" by (metis bot_nat_0.not_eq_extremum less_le_trans)
        from static_round_progress [OF decided(3,1,4) this] keep rows [OF assms(4)] show False by simp
      qed
      then have new: "blocked_ok repo wid db'" if "before \<le> pending_signals repo wid db'"
        using that by (simp add: blocked_ok_def)
      have "blocked_ok repo k db'" if "k \<in> set bs" for k
        by (rule stays [OF bs [OF that]]) (use drained that in simp)
      with new inv' tickets' rows' woken(2) show ?thesis by (auto simp: recovery_ok_def)
    qed
  qed
qed

lemma recover_loop_ok:
  assumes "recover_loop resolve_persisted_machine validate retries repo limit now st = Inr (recovered, bs, db)"
    and "plain_validate validate" and "recovery_ok repo [] st" and "1 \<le> limit"
  shows "recovery_ok repo [] (recovered, bs, db)" and "pending_page repo limit bs db = []"
proof -
  have "recovery_ok repo [] (recovered, bs, db) \<and> pending_page repo limit bs db = []"
    if "resolver = resolve_persisted_machine" "recover_loop resolver validate retries repo limit now st = Inr (recovered, bs, db)"
      "plain_validate validate" "recovery_ok repo [] st" "1 \<le> limit" for resolver
    using that
  proof (induction resolver validate retries repo limit now st rule: recover_loop.induct)
    case (1 resolver validate retries repo limit now recovered0 bs0 db0)
    show ?case
    proof (cases "pending_page repo limit bs0 db0")
      case Nil
      with "1.prems" show ?thesis by (simp add: recover_loop.simps)
    next
      case (Cons row rows)
      with "1.prems"(2) have "bindE (foldE (recover_row resolver validate retries repo now) (row # rows) (recovered0, bs0, db0))
          (recover_loop resolver validate retries repo limit now) = Inr (recovered, bs, db)"
        by (subst (asm) recover_loop.simps) (simp only: list.case)
      then obtain st1 where page: "foldE (recover_row resolver validate retries repo now)
          (row # rows) (recovered0, bs0, db0) = Inr st1"
        and rest: "recover_loop resolver validate retries repo limit now st1 = Inr (recovered, bs, db)"
        by (rule bindE_InrE)
      have "recovery_ok repo (row # rows) (recovered0, bs0, db0)"
        using "1.prems"(4) unfolding Cons [symmetric] by (auto simp: recovery_ok_def pending_page_def)
      from page this have "recovery_ok repo (row # rows) st1"
        by (rule foldE_invariant)
          (metis "1.prems"(1,3) recover_row_ok surj_pair)
      then have "recovery_ok repo [] st1" by (auto simp: recovery_ok_def)
      with "1.IH" [OF Cons page "1.prems"(1) rest "1.prems"(3) _ "1.prems"(5)] show ?thesis by blast
    qed
  qed
  with assms show "recovery_ok repo [] (recovered, bs, db)" and "pending_page repo limit bs db = []" by blast+
qed

text \<open>
  C31: recovery drains the inbox. The loop always ends, and when it returns, no run of the repository that is
  running or waiting has a pending signal, except runs whose machine is not available in this process.
\<close>

theorem recovery_drains:
  assumes "recover_pending_signals resolve_persisted_machine validate retries repo limit now db = Inr (recovered, db')"
    and "plain_validate validate" and "workflow_inv db" and "plain_tickets db"
  shows "workflow_inv db' \<and>
    (\<forall>r \<in> set (workflow_runs db'). run_repository r = repo \<and> (run_status r = WfRunning \<or> run_status r = WfWaiting) \<and>
       0 < pending_signals repo (workflow_id r) db' \<longrightarrow>
       resolve_persisted_machine (run_record r) = Inl WorkflowDefinitionUnavailableError)"
proof -
  from assms(1) obtain recs bs where limit: "1 \<le> limit"
    and loop: "recover_loop resolve_persisted_machine validate retries repo limit now ([], [], db) = Inr (recs, bs, db')"
    by (auto simp: recover_pending_signals_def bindE_eq_Inr split: if_splits)
  have start: "recovery_ok repo [] ([], [], db)" using assms(3,4) by (simp add: recovery_ok_def)
  note final = recover_loop_ok [OF loop assms(2) start limit]
  have "resolve_persisted_machine (run_record r) = Inl WorkflowDefinitionUnavailableError"
    if r: "r \<in> set (workflow_runs db')" "run_repository r = repo" "run_status r = WfRunning \<or> run_status r = WfWaiting"
      "0 < pending_signals repo (workflow_id r) db'" for r
  proof -
    have "length (filter (wakeable repo bs db') (workflow_runs db')) = 0"
      using final(2) limit by (cases "filter (wakeable repo bs db') (workflow_runs db')") (auto simp: pending_page_def dest: arg_cong [of _ _ length])
    with r have "List.member bs (workflow_id r)" by (auto simp: filter_empty_conv wakeable_def)
    with final(1) have "blocked_ok repo (workflow_id r) db'" by (simp add: recovery_ok_def)
    moreover have "\<not> terminal_workflow (run_status r)" using r(3) by (auto simp: terminal_workflow_def)
    ultimately show ?thesis using r by (auto simp: blocked_ok_def this_run_def)
  qed
  with final(1) show ?thesis by (simp add: recovery_ok_def)
qed

subsection \<open>A store to run them on\<close>

definition sample_dag_run :: workflow_run where
  "sample_dag_run = (sample_run (UUID 1) WfWaiting)\<lparr>
     definition_snapshot := Some (DefinitionDoc (machine_definition sample_machine)),
     run_definition_version := definition_version (machine_definition sample_machine),
     stage_map := ticket_map sample_machine,
     run_state := make_versioned_state (StaticDagDoc (initialize sample_machine [])) ''static_dag'' 1\<rparr>"

definition sample_dag_store :: activity_db where
  "sample_dag_store = sample_signal_store\<lparr>workflow_runs := [run_row_of ''r'' sample_dag_run],
     workflow_signals := [sample_signal\<lparr>signal_payload :=
       ExternalWorkflowSignal ''ticket.finished'' (Some ''t001'') [(''status'', JStr ''done'')]\<rparr>]\<rparr>"

lemma sample_dag_run_sel [simp]:
  "workflow_id sample_dag_run = UUID 1" "run_status sample_dag_run = WfWaiting" "revision sample_dag_run = 3"
  "parent_ticket_id sample_dag_run = None"
  by (simp_all add: sample_dag_run_def sample_run_def)

lemma sample_dag_store_sel [simp]:
  "workflow_runs sample_dag_store = [run_row_of ''r'' sample_dag_run]"
  "workflow_waits sample_dag_store = workflow_waits sample_store" "retained_facts sample_dag_store = []"
  "map signal_id (workflow_signals sample_dag_store) = [UUID 21]"
  by (simp_all add: sample_dag_store_def sample_signal_def)

lemma sample_dag_store_inv: "workflow_inv sample_dag_store"
  by (simp add: workflow_inv_def run_ok_def wait_ok_def waits_of_def terminal_workflow_def signal_ok_def
      sample_dag_store_def sample_signal_def sample_signal_store_sel(2))

lemma run_row_of_back [simp]:
  "run_record (run_row_of repo r) = r" "definition_snapshot (run_row_of repo r) = definition_snapshot r"
  "run_definition_version (run_row_of repo r) = run_definition_version r" "stage_map (run_row_of repo r) = stage_map r"
  by (simp_all add: run_row_of_def run_record_def workflow_run.defs run_row.defs)

lemma sample_dag_machine: "static_machine_of sample_dag_run (machine_definition sample_machine) = sample_machine"
  by (simp add: static_machine_of_def sample_dag_run_def)

lemma sample_dag_run_doc [simp]:
  "definition_snapshot sample_dag_run = Some (DefinitionDoc (machine_definition sample_machine))"
  "run_definition_version sample_dag_run = definition_version (machine_definition sample_machine)"
  "run_state sample_dag_run = make_versioned_state (StaticDagDoc (initialize sample_machine [])) ''static_dag'' 1"
  by (simp_all add: sample_dag_run_def)

lemma sample_dag_row:
  "run_row_of ''r'' sample_dag_run \<in> set (workflow_runs sample_dag_store)" "this_run ''r'' (UUID 1) (run_row_of ''r'' sample_dag_run)"
  "static_run_ok (run_row_of ''r'' sample_dag_run)"
  "\<forall>r \<in> set (workflow_runs sample_dag_store). parent_ticket_id r \<noteq> Some (uuid_text (UUID 1))"
  "\<not> terminal_workflow (run_status (run_row_of ''r'' sample_dag_run))"
  "\<forall>f \<in> set (retained_facts sample_dag_store). \<forall>suffix.
     fact_id f \<noteq> workflow_fact_id (UUID 1) (revision (run_row_of ''r'' sample_dag_run) + 1) suffix"
  using sample_machine_ok initialize_ok [OF sample_machine_ok, of "[]"]
  by (simp_all add: this_run_def terminal_workflow_def static_run_ok_def sample_dag_machine make_versioned_state_def)

lemma sample_dag_pending: "pending_signals ''r'' (UUID 1) sample_dag_store = 1"
  by (simp add: pending_signals_def count_where_def sample_dag_store_def sample_signal_def signals_of_def)

lemmas sample_dag_round = static_round_ok [OF sample_dag_store_inv sample_dag_row]

lemma plain_sample: "plain_validate (\<lambda>_. Inl ValidationError)" "plain_tickets sample_dag_store"
  by (simp_all add: plain_validate_def plain_tickets_def)

theorem decision_never_stale_witness:
  "\<exists>run db' d plan. decide_once resolve_persisted_machine (\<lambda>_. Inl ValidationError) 3 ''r'' undisturbed (UUID 1) 9
       sample_dag_store = Inr (run, db') \<and> workflow_step\<^sup>*\<^sup>* sample_dag_store db'"
proof -
  obtain run db' where round: "decide_once resolve_persisted_machine (\<lambda>_. Inl ValidationError) 3 ''r'' undisturbed (UUID 1) 9
       sample_dag_store = Inr (run, db')" using sample_dag_round by blast
  have env: "workflow_step\<^sup>*\<^sup>* s (undisturbed n s)" for n and s :: activity_db by (simp add: undisturbed_def)
  from decision_never_stale [OF round env sample_dag_store_inv] round show ?thesis by blast
qed

theorem static_run_stays_ok_witness:
  "\<exists>d plan. load_workflow_decision_input ''r'' (UUID 1) 9 100 sample_dag_store = Inr d \<and>
     compute_plan resolve_persisted_machine d = Inr plan"
  using static_run_stays_ok [OF sample_dag_store_inv sample_dag_row(1-4)] by blast

theorem static_round_returns_witness:
  "\<exists>run db'. decide_once resolve_persisted_machine (\<lambda>_. Inl ValidationError) 3 ''r'' undisturbed (UUID 1) 9
       sample_dag_store = Inr (run, db') \<and> pending_signals ''r'' (UUID 1) db' = 0 \<and>
     (\<exists>r \<in> set (workflow_runs db'). workflow_id r = UUID 1 \<and> revision r = 4)"
  using static_round_returns [OF sample_dag_store_inv sample_dag_row, of "\<lambda>_. Inl ValidationError" 3 9]
  by (simp add: sample_dag_pending this_run_def del: One_nat_def) blast

lemma sample_recovery:
  "\<exists>recovered db'. recover_pending_signals resolve_persisted_machine (\<lambda>_. Inl ValidationError) 3 ''r'' 10 9 sample_dag_store
     = Inr (recovered, db') \<and> pending_signals ''r'' (UUID 1) db' = 0"
proof -
  obtain run db' where round: "decide_once resolve_persisted_machine (\<lambda>_. Inl ValidationError) 3 ''r'' undisturbed (UUID 1) 9
       sample_dag_store = Inr (run, db')" "pending_signals ''r'' (UUID 1) db' = 0"
    using sample_dag_round [of "\<lambda>_. Inl ValidationError" 3 9] by (auto simp: sample_dag_pending simp del: One_nat_def)
  have page: "pending_page ''r'' 10 [] sample_dag_store = [(UUID 1, 1)]"
    by (simp add: pending_page_def wakeable_def sample_dag_pending del: One_nat_def)
  have "map workflow_id (workflow_runs db') = [UUID 1]" using decide_once_signals(2) [OF round(1)] by simp
  then obtain r where "workflow_runs db' = [r]" "workflow_id r = UUID 1" by (auto simp del: One_nat_def)
  with round(2) have page': "pending_page ''r'' 10 [] db' = []" by (simp add: pending_page_def wakeable_def del: One_nat_def)
  have "recover_loop resolve_persisted_machine (\<lambda>_. Inl ValidationError) 3 ''r'' 10 9 ([], [], sample_dag_store) =
      Inr ([(UUID 1, run)], [], db')"
    using page page' round by (subst recover_loop.simps) (simp add: recover_row_def put_run_def, subst recover_loop.simps, simp)
  with round(2) show ?thesis by (simp add: recover_pending_signals_def)
qed

theorem recovery_drains_witness:
  "\<exists>recovered db'. recover_pending_signals resolve_persisted_machine (\<lambda>_. Inl ValidationError) 3 ''r'' 10 9 sample_dag_store
     = Inr (recovered, db') \<and> pending_signals ''r'' (UUID 1) db' = 0 \<and> workflow_inv db'"
  using sample_recovery recovery_drains [OF _ plain_sample(1) sample_dag_store_inv plain_sample(2)] by blast

end
