(* ===== verification/LineRanges.thy ===== *)
theory LineRanges
  imports Contracts
begin

text \<open>
  Line ranges, \<open>murder/context_compiler/ranges.py\<close> and the \<open>LineRange\<close> of \<open>models.py\<close>: one-based
  ranges, inclusive at both ends, that are normalised, subtracted and clamped. The specification is the set of lines a
  list of ranges covers: normalising keeps it and has one result for it, subtracting is the difference of
  sets, and clamping the intersection with the file.
\<close>

section \<open>Ranges\<close>

record line_range =
  start_line :: int
  end_line :: int

definition valid_range :: "line_range \<Rightarrow> bool" where
  "valid_range r \<longleftrightarrow> 0 < start_line r \<and> start_line r \<le> end_line r"

text \<open>The constructor validates its arguments. The operations below build valid ranges from valid ones (lemmas
  \<open>normalize_ok\<close>, \<open>subtract_ok\<close>, \<open>clamp_rangeE\<close>), so they use the record directly.\<close>

definition make_range :: "int \<Rightarrow> int \<Rightarrow> exn + line_range" where
  "make_range s e =
     (if s \<le> 0 \<or> e \<le> 0 then Inl (ValueError ''LineRange endpoints must be positive'')
      else if e < s then Inl (ValueError ''LineRange end_line must be >= start_line'')
      else Inr \<lparr>start_line = s, end_line = e\<rparr>)"

section \<open>Normalising\<close>

text \<open>\<open>merge_ranges p rs\<close> is the loop with \<open>p\<close> as the last range of the result so far.\<close>

fun merge_ranges :: "line_range \<Rightarrow> line_range list \<Rightarrow> line_range list" where
  "merge_ranges p [] = [p]"
| "merge_ranges p (c # cs) =
     (if start_line c \<le> end_line p + 1
      then merge_ranges (if end_line p < end_line c then \<lparr>start_line = start_line p, end_line = end_line c\<rparr> else p) cs
      else p # merge_ranges c cs)"

definition normalize_ranges :: "line_range list \<Rightarrow> line_range list" where
  "normalize_ranges rs = (case sort_key (\<lambda>r. (start_line r, end_line r)) rs of [] \<Rightarrow> [] | r # rs \<Rightarrow> merge_ranges r rs)"

section \<open>Subtracting\<close>

definition subtract_one :: "line_range \<Rightarrow> line_range \<Rightarrow> line_range list" where
  "subtract_one requested known =
     (if end_line known < start_line requested \<or> end_line requested < start_line known then [requested]
      else
        (if start_line requested < start_line known
         then [\<lparr>start_line = start_line requested, end_line = start_line known - 1\<rparr>] else []) @
        (if end_line known < end_line requested
         then [\<lparr>start_line = end_line known + 1, end_line = end_line requested\<rparr>] else []))"

fun subtract_known :: "line_range list \<Rightarrow> line_range list \<Rightarrow> line_range list" where
  "subtract_known pieces [] = pieces"
| "subtract_known pieces (k # ks) =
     (let next_pieces = concat (map (\<lambda>p. subtract_one p k) pieces) in
      if next_pieces = [] then [] else subtract_known next_pieces ks)"

definition subtract_ranges :: "line_range list \<Rightarrow> line_range list \<Rightarrow> line_range list" where
  "subtract_ranges requested known =
     (if requested = [] then []
      else let known_normalized = normalize_ranges known in
        if known_normalized = [] then normalize_ranges requested
        else normalize_ranges (concat (map (\<lambda>r. subtract_known [r] known_normalized) (normalize_ranges requested))))"

section \<open>Clamping\<close>

definition clamp_range :: "line_range \<Rightarrow> int \<Rightarrow> exn + line_range" where
  "clamp_range r line_count =
     (if line_count \<le> 0 then Inl (ValueError ''cannot select lines from an empty file'')
      else if line_count < start_line r then Inl (ValueError ''range starts beyond file end'')
      else let e = min (end_line r) line_count in
        if e = end_line r \<and> start_line r \<le> e then Inr r else Inr \<lparr>start_line = start_line r, end_line = e\<rparr>)"

section \<open>The lines covered\<close>

definition lines_of :: "line_range \<Rightarrow> int set" where
  "lines_of r = {start_line r..end_line r}"

definition covered :: "line_range list \<Rightarrow> int set" where
  "covered rs = (\<Union>r \<in> set rs. lines_of r)"

definition canonical_ranges :: "line_range list \<Rightarrow> bool" where
  "canonical_ranges rs \<longleftrightarrow> list_all valid_range rs \<and> sorted_wrt (\<lambda>a b. end_line a + 1 < start_line b) rs"

lemma covered_simps [simp]:
  "covered [] = {}" "covered (r # rs) = lines_of r \<union> covered rs" "covered (rs @ ss) = covered rs \<union> covered ss"
  "covered (concat rss) = (\<Union>rs \<in> set rss. covered rs)" "covered (sort_key k rs) = covered rs"
  by (auto simp: covered_def)

lemma canonical_Cons:
  "canonical_ranges (r # rs) \<longleftrightarrow> valid_range r \<and> (\<forall>q \<in> set rs. end_line r + 1 < start_line q) \<and> canonical_ranges rs"
  by (auto simp: canonical_ranges_def)

lemma merge_ranges_spec:
  assumes "valid_range p" and "list_all valid_range cs" and "sorted (map start_line (p # cs))"
  shows "covered (merge_ranges p cs) = lines_of p \<union> covered cs \<and> canonical_ranges (merge_ranges p cs) \<and>
    (\<forall>q \<in> set (merge_ranges p cs). start_line p \<le> start_line q)"
  using assms
proof (induction p cs rule: merge_ranges.induct)
  case (1 p)
  then show ?case by (simp add: canonical_ranges_def)
next
  case (2 p c cs)
  define m where "m = (if end_line p < end_line c then \<lparr>start_line = start_line p, end_line = end_line c\<rparr> else p)"
  show ?case
  proof (cases "start_line c \<le> end_line p + 1")
    case True
    have "lines_of m = lines_of p \<union> lines_of c" "valid_range m" "start_line m = start_line p"
      using 2(3-5) True by (auto simp: m_def lines_of_def valid_range_def)
    with 2(1) [OF True] 2(3-5) True show ?thesis by (auto simp: m_def [symmetric])
  next
    case False
    with 2(2) [OF False] 2(3-5) show ?thesis by (force simp: canonical_Cons)
  qed
qed

lemma normalize_ok:
  assumes "list_all valid_range rs"
  shows "covered (normalize_ranges rs) = covered rs" "canonical_ranges (normalize_ranges rs)"
proof -
  let ?s = "sort_key (\<lambda>r. (start_line r, end_line r)) rs"
  have "sorted_wrt (\<lambda>a b. (start_line a, end_line a) \<le> (start_line b, end_line b)) ?s"
    using sorted_sort_key [of "\<lambda>r. (start_line r, end_line r)" rs] by (simp only: sorted_map)
  then have "sorted_wrt (\<lambda>a b. start_line a \<le> start_line b) ?s" by (rule sorted_wrt_mono_rel [rotated]) auto
  then have s: "list_all valid_range ?s" "sorted (map start_line ?s)" "covered ?s = covered rs"
    using assms by (simp_all add: list_all_iff sorted_map)
  have "covered (normalize_ranges rs) = covered rs \<and> canonical_ranges (normalize_ranges rs)"
  proof (cases ?s)
    case Nil
    with s show ?thesis by (simp add: normalize_ranges_def canonical_ranges_def)
  next
    case (Cons p cs)
    with s merge_ranges_spec [of p cs] show ?thesis by (simp add: normalize_ranges_def)
  qed
  then show "covered (normalize_ranges rs) = covered rs" "canonical_ranges (normalize_ranges rs)" by simp_all
qed

text \<open>A set of lines has only one canonical list of ranges.\<close>

lemma canonical_above: "canonical_ranges (r # rs) \<Longrightarrow> l \<in> covered rs \<Longrightarrow> end_line r + 1 < l"
  by (fastforce simp: canonical_Cons covered_def lines_of_def)

lemma canonical_hd_eq:
  assumes "canonical_ranges (r # rs)" and "canonical_ranges (q # qs)" and "covered (r # rs) = covered (q # qs)"
  shows "start_line r \<le> start_line q" "end_line r \<le> end_line q"
proof -
  have v: "valid_range r" "valid_range q" using assms(1,2) by (simp_all add: canonical_Cons)
  have "start_line q \<in> covered (r # rs)" using assms(3) v by (auto simp: lines_of_def valid_range_def)
  then show st: "start_line r \<le> start_line q"
    using canonical_above [OF assms(1)] v by (fastforce simp: lines_of_def valid_range_def)
  show "end_line r \<le> end_line q"
  proof (rule ccontr)
    assume "\<not> end_line r \<le> end_line q"
    then have "end_line q + 1 \<in> lines_of r" using st v by (auto simp: lines_of_def valid_range_def)
    then have "end_line q + 1 \<in> covered (q # qs)" using assms(3) by auto
    with canonical_above [OF assms(2), of "end_line q + 1"] show False by (auto simp: lines_of_def)
  qed
qed

lemma canonical_unique:
  "canonical_ranges rs \<Longrightarrow> canonical_ranges qs \<Longrightarrow> covered rs = covered qs \<Longrightarrow> rs = qs"
proof (induction rs arbitrary: qs)
  case Nil
  then show ?case by (cases qs) (auto simp: canonical_Cons lines_of_def valid_range_def)
next
  case (Cons r rs)
  then obtain q qs' where qs: "qs = q # qs'" by (cases qs) (auto simp: canonical_Cons lines_of_def valid_range_def)
  have rq: "r = q"
    using canonical_hd_eq [of r rs q qs'] canonical_hd_eq [of q qs' r rs] Cons.prems qs by (intro line_range.equality) auto
  have "covered rs = covered qs'"
  proof -
    have "covered rs = covered (r # rs) - lines_of r" if "canonical_ranges (r # rs)" for r rs
      using canonical_above [OF that] by (fastforce simp: lines_of_def)
    with Cons.prems qs rq show ?thesis by metis
  qed
  with Cons qs rq show ?case by (simp add: canonical_Cons)
qed

lemma subtract_one_spec:
  assumes "valid_range r" and "valid_range k"
  shows "covered (subtract_one r k) = lines_of r - lines_of k" "list_all valid_range (subtract_one r k)"
  using assms by (auto simp: subtract_one_def lines_of_def valid_range_def)

lemma subtract_known_spec:
  assumes "list_all valid_range ps" and "list_all valid_range ks"
  shows "covered (subtract_known ps ks) = covered ps - covered ks \<and> list_all valid_range (subtract_known ps ks)"
  using assms
proof (induction ps ks rule: subtract_known.induct)
  case (2 ps k ks)
  let ?n = "concat (map (\<lambda>p. subtract_one p k) ps)"
  have each: "covered (subtract_one p k) = lines_of p - lines_of k" "list_all valid_range (subtract_one p k)" if "p \<in> set ps" for p
    using 2(2,3) that subtract_one_spec [of p k] by (simp_all add: list_all_iff)
  have "covered ?n = (\<Union>p \<in> set ps. lines_of p - lines_of k)" using each(1) by simp
  then have n: "covered ?n = covered ps - lines_of k" by (simp add: covered_def)
  have nv: "list_all valid_range ?n" using each(2) by (simp add: list_all_iff)
  show ?case
  proof (cases "?n = []")
    case True
    then have "covered ps - lines_of k = {}" using n by simp
    with True show ?thesis by auto
  next
    case False
    with 2 nv n have "covered (subtract_known ?n ks) = covered ?n - covered ks \<and> list_all valid_range (subtract_known ?n ks)"
      by (simp del: covered_simps)
    with False n show ?thesis by (simp add: Let_def Diff_Un [symmetric] Diff_Diff_Int) blast
  qed
qed simp

lemma subtract_ok:
  assumes "list_all valid_range rs" and "list_all valid_range ks"
  shows "covered (subtract_ranges rs ks) = covered rs - covered ks" "canonical_ranges (subtract_ranges rs ks)"
proof -
  note ks = normalize_ok [OF assms(2)] and rs = normalize_ok [OF assms(1)]
  have v: "list_all valid_range (normalize_ranges ks)" "list_all valid_range (normalize_ranges rs)"
    using ks(2) rs(2) by (simp_all add: canonical_ranges_def)
  let ?m = "concat (map (\<lambda>r. subtract_known [r] (normalize_ranges ks)) (normalize_ranges rs))"
  have one: "covered (subtract_known [r] (normalize_ranges ks)) = lines_of r - covered ks \<and>
      list_all valid_range (subtract_known [r] (normalize_ranges ks))" if "r \<in> set (normalize_ranges rs)" for r
    using subtract_known_spec [OF _ v(1), of "[r]"] v(2) that ks(1) by (auto simp: list_all_iff)
  then have m: "covered ?m = covered rs - covered ks" "list_all valid_range ?m"
    using rs(1) by (auto simp: covered_def [of "normalize_ranges rs"] list_all_iff)
  show "covered (subtract_ranges rs ks) = covered rs - covered ks" "canonical_ranges (subtract_ranges rs ks)"
    using ks rs m normalize_ok [OF m(2)] by (auto simp: subtract_ranges_def Let_def canonical_ranges_def)
qed

lemma clamp_rangeE:
  assumes "clamp_range r n = Inr q" and "valid_range r"
  shows "lines_of q = lines_of r \<inter> {1..n}" "valid_range q" "0 < n"
  using assms by (auto simp: clamp_range_def lines_of_def valid_range_def Let_def split: if_splits)

lemma clamp_range_refused:
  assumes "valid_range r"
  shows "(\<exists>e. clamp_range r n = Inl e) \<longleftrightarrow> lines_of r \<inter> {1..n} = {}"
  using assms by (auto simp: clamp_range_def lines_of_def valid_range_def Let_def)

section \<open>Properties\<close>

text \<open>normalising is exact and canonical. Two lists of valid ranges have the same normal form just when they
  cover the same lines, and the normal form of a list covers what the list does, with valid ranges in
  ascending order that neither overlap nor touch; so normalising twice changes nothing.
\<close>

theorem normalize_ranges_exact:
  assumes "list_all valid_range rs" and "list_all valid_range qs"
  shows "(normalize_ranges rs = normalize_ranges qs \<longleftrightarrow> covered rs = covered qs) \<and>
    covered (normalize_ranges rs) = covered rs \<and> canonical_ranges (normalize_ranges rs) \<and>
    normalize_ranges (normalize_ranges rs) = normalize_ranges rs"
proof -
  note rs = normalize_ok [OF assms(1)] and qs = normalize_ok [OF assms(2)]
  have v: "list_all valid_range (normalize_ranges rs)" using rs(2) by (simp add: canonical_ranges_def)
  have "normalize_ranges (normalize_ranges rs) = normalize_ranges rs"
    using normalize_ok [OF v] rs by (intro canonical_unique) simp_all
  moreover have "normalize_ranges rs = normalize_ranges qs" if "covered rs = covered qs"
    using rs qs that by (intro canonical_unique) simp_all
  moreover have "covered rs = covered qs" if "normalize_ranges rs = normalize_ranges qs" using rs(1) qs(1) that by simp
  ultimately show ?thesis using rs by blast
qed

definition rg :: "int \<Rightarrow> int \<Rightarrow> line_range" where
  "rg s e = \<lparr>start_line = s, end_line = e\<rparr>"

theorem normalize_ranges_exact_witness:
  "normalize_ranges [rg 23 40, rg 35 55, rg 56 60, rg 80 90] = normalize_ranges [rg 23 60, rg 80 90]"
proof -
  have "list_all valid_range [rg 23 40, rg 35 55, rg 56 60, rg 80 90]" "list_all valid_range [rg 23 60, rg 80 90]"
    by (simp_all add: valid_range_def rg_def)
  moreover have "covered [rg 23 40, rg 35 55, rg 56 60, rg 80 90] = covered [rg 23 60, rg 80 90]"
    by (auto simp: lines_of_def rg_def)
  ultimately show ?thesis using normalize_ranges_exact by blast
qed

text \<open>
  C38: subtracting ranges is the difference of the lines they cover, in canonical form, whatever the order, nesting and
  overlap of the requested and the known ranges.
\<close>

theorem subtract_ranges_exact:
  assumes "list_all valid_range rs" and "list_all valid_range ks"
  shows "covered (subtract_ranges rs ks) = covered rs - covered ks \<and> canonical_ranges (subtract_ranges rs ks)"
  using subtract_ok [OF assms] by blast

theorem subtract_ranges_exact_witness:
  "subtract_ranges [rg 23 97] [rg 54 90] = [rg 23 53, rg 91 97]"
proof -
  have v: "list_all valid_range [rg 23 97]" "list_all valid_range [rg 54 90]" by (simp_all add: valid_range_def rg_def)
  have "covered [rg 23 97] - covered [rg 54 90] = covered [rg 23 53, rg 91 97]" by (auto simp: lines_of_def rg_def)
  moreover have "canonical_ranges [rg 23 53, rg 91 97]" by (simp add: canonical_ranges_def valid_range_def rg_def)
  ultimately show ?thesis using subtract_ranges_exact [OF v] canonical_unique by auto
qed

end
