(* ===== verification/SourceText.thy ===== *)
theory SourceText
  imports Operations LineRanges
begin

text \<open>
  Source text: the reader of \<open>murder/context_compiler/source.py\<close> and the rendering of
  \<open>rendering.py\<close>. Text is ASCII, so every file decodes. A file is read by its path below the worktree root; what the
  file system holds, and where its symbolic links lead, is the argument \<open>worktree\<close>. Lemmas: splitting
  and joining lines, and when a slice of a file renders again.
\<close>

section \<open>Lines\<close>

text \<open>\<open>str.splitlines\<close>: line feed, carriage return (with a line feed after it), vertical tab, form feed and the three
  separators end a line.\<close>

definition line_break :: "char \<Rightarrow> bool" where
  "line_break c \<longleftrightarrow> List.member [CHR 0x0A, CHR 0x0D, CHR 0x0B, CHR 0x0C, CHR 0x1C, CHR 0x1D, CHR 0x1E] c"

definition after_break :: "char \<Rightarrow> string \<Rightarrow> string" where
  "after_break c s = (case s of [] \<Rightarrow> [] | d # ds \<Rightarrow> if c = CHR 0x0D \<and> d = CHR 0x0A then ds else s)"

lemma length_after_break [termination_simp]: "length (after_break c s) \<le> length s"
  by (cases s) (simp_all add: after_break_def)

fun split_lines :: "string \<Rightarrow> string list" where
  "split_lines [] = []"
| "split_lines (c # s) =
     (if line_break c then [] # split_lines (after_break c s)
      else (case split_lines s of [] \<Rightarrow> [[c]] | l # ls \<Rightarrow> (c # l) # ls))"

definition newline :: string where
  "newline = [CHR 0x0A]"

definition count_source_lines :: "string \<Rightarrow> int" where
  "count_source_lines text = (if text = [] then 0 else int (length (split_lines text)))"

section \<open>Reading\<close>

record source_snapshot =
  snap_text :: string
  snap_hash :: string
  snap_line_count :: int

datatype file_lookup = EscapesRoot | NotAFile | ReadFails | FileText string

definition read_source :: "(string \<Rightarrow> string) \<Rightarrow> (string \<Rightarrow> file_lookup) \<Rightarrow> string \<Rightarrow> exn + source_snapshot" where
  "read_source sha worktree path =
     (if path = [] then Inl (ValueError ''path must be a non-empty relative path'')
      else if hd path = CHR ''/'' then Inl (ValueError ''reject absolute paths'')
      else if List.member (path_parts path) ''..'' then Inl (ValueError ''reject path traversal'')
      else case worktree path of
        EscapesRoot \<Rightarrow> Inl (ValueError ''path escapes worktree root'')
      | NotAFile \<Rightarrow> Inl (ValueError ''source path is not a file'')
      | ReadFails \<Rightarrow> Inl (ValueError ''failed to read'')
      | FileText text \<Rightarrow> Inr \<lparr>snap_text = text, snap_hash = sha text, snap_line_count = count_source_lines text\<rparr>)"

definition extract_source_slice :: "string \<Rightarrow> int \<Rightarrow> int \<Rightarrow> exn + string" where
  "extract_source_slice text s e =
     (let lines = split_lines text in
      if s < 1 \<or> e < s \<or> int (length lines) < e then Inl (ValueError ''cannot extract lines'')
      else Inr (join_text newline (take (nat (e - s + 1)) (drop (nat (s - 1)) lines))))"

section \<open>Segments\<close>

datatype evidence_category = EditTarget | ContractEvidence | SupportingContext | TestEvidence | VerificationEvidence
  | CurrentDiff | OtherEvidence

definition category_order :: "evidence_category \<Rightarrow> nat" where
  "category_order c = (case c of EditTarget \<Rightarrow> 0 | ContractEvidence \<Rightarrow> 1 | SupportingContext \<Rightarrow> 2 | TestEvidence \<Rightarrow> 3
     | VerificationEvidence \<Rightarrow> 4 | CurrentDiff \<Rightarrow> 5 | OtherEvidence \<Rightarrow> 6)"

datatype payload_kind = SourcePayload | DiffPayload

definition payload_kind_value :: "payload_kind \<Rightarrow> string" where
  "payload_kind_value k = (case k of SourcePayload \<Rightarrow> ''source'' | DiffPayload \<Rightarrow> ''diff'')"

record evidence_segment =
  seg_path :: string
  seg_start :: int
  seg_end :: int
  seg_hash :: string
  seg_kind :: payload_kind
  seg_text :: string
  seg_symbols :: "string list"
  seg_category :: evidence_category
  seg_reason :: string
  seg_provenance :: "string option"

definition range_text :: "string \<Rightarrow> int \<Rightarrow> int \<Rightarrow> string" where
  "range_text path s e = path @ '':'' @ int_text s @ ''-'' @ int_text e"

fun numbered_lines :: "int \<Rightarrow> string list \<Rightarrow> string list" where
  "numbered_lines n [] = []"
| "numbered_lines n (l # ls) = (int_text n @ '' '' @ l) # numbered_lines (n + 1) ls"

definition render_source_segment :: "evidence_segment \<Rightarrow> exn + string" where
  "render_source_segment g =
     (if seg_kind g \<noteq> SourcePayload then Inl (ValueError ''source renderer does not support payload kind'')
      else let lines = split_lines (seg_text g) in
        if int (length lines) \<noteq> seg_end g - seg_start g + 1 then Inl (ValueError ''payload has another number of lines'')
        else Inr (range_text (seg_path g) (seg_start g) (seg_end g) @ newline @
          join_text newline (numbered_lines (seg_start g) lines) @ newline))"

definition render_diff_segment :: "evidence_segment \<Rightarrow> exn + string" where
  "render_diff_segment g =
     (if seg_kind g \<noteq> DiffPayload then Inl (ValueError ''diff renderer does not support payload kind'')
      else if seg_text g = [] then Inl (ValueError ''empty DIFF payload'')
      else Inr (if last (seg_text g) = CHR 0x0A then seg_text g else seg_text g @ newline))"

definition render_evidence_segment :: "evidence_segment \<Rightarrow> exn + string" where
  "render_evidence_segment g =
     (case seg_kind g of SourcePayload \<Rightarrow> render_source_segment g | DiffPayload \<Rightarrow> render_diff_segment g)"

record deletion_notice =
  deleted_path :: string
  deleted_start :: int
  deleted_end :: int
  deleted_hash :: string

definition render_deletion_notice :: "deletion_notice \<Rightarrow> string" where
  "render_deletion_notice n = ''deleted: '' @ range_text (deleted_path n) (deleted_start n) (deleted_end n) @ newline"

section \<open>Splitting and joining\<close>

lemma not_break_after [simp]: "\<not> line_break c \<Longrightarrow> split_lines [c] = [[c]]"
  by simp

lemma split_lines_clean: "l \<in> set (split_lines s) \<Longrightarrow> \<forall>c \<in> set l. \<not> line_break c"
proof (induction s arbitrary: l rule: split_lines.induct)
  case (2 c s)
  show ?case
  proof (cases "line_break c")
    case True
    with 2 show ?thesis by auto
  next
    case False
    then have rest: "\<forall>c \<in> set l. \<not> line_break c" if "l \<in> set (split_lines s)" for l using 2(2) that by blast
    show ?thesis
    proof (cases "split_lines s")
      case Nil
      with 2(3) False show ?thesis by simp
    next
      case (Cons a ls)
      with 2(3) False rest [of a] rest [of l] show ?thesis by auto
    qed
  qed
qed simp

lemma newline_break [simp]: "line_break (CHR 0x0A)"
  by (simp add: line_break_def)

lemma split_lines_plain: "\<forall>c \<in> set l. \<not> line_break c \<Longrightarrow> split_lines l = (if l = [] then [] else [l])"
  by (induction l) (auto split: list.splits)

lemma after_newline [simp]: "after_break (CHR 0x0A) s = s"
  by (simp add: after_break_def split: list.splits)

lemma split_lines_line: "\<forall>c \<in> set l. \<not> line_break c \<Longrightarrow> split_lines (l @ newline @ s) = l # split_lines s"
  by (induction l) (simp_all add: newline_def)

lemma split_join_lines:
  assumes "ls \<noteq> []" and "\<forall>l \<in> set ls. \<forall>c \<in> set l. \<not> line_break c"
  shows "split_lines (join_text newline ls) = (if last ls = [] then butlast ls else ls)"
  using assms
proof (induction "newline" ls rule: join_text.induct)
  case (2 x)
  then show ?case by (simp add: split_lines_plain)
next
  case (3 x y ys)
  then show ?case by (simp add: split_lines_line)
qed simp

lemma extract_source_sliceE:
  assumes "extract_source_slice text s e = Inr t"
  obtains "1 \<le> s" "s \<le> e" "e \<le> int (length (split_lines text))"
    "t = join_text newline (take (nat (e - s + 1)) (drop (nat (s - 1)) (split_lines text)))"
  using assms by (auto simp: extract_source_slice_def Let_def split: if_splits)

lemma slice_lines:
  assumes "1 \<le> s" and "s \<le> e" and "e \<le> int (length (lines :: 'a list))"
  shows "length (take (nat (e - s + 1)) (drop (nat (s - 1)) lines)) = nat (e - s + 1)"
    and "take (nat (e - s + 1)) (drop (nat (s - 1)) lines) \<noteq> []"
    and "last (take (nat (e - s + 1)) (drop (nat (s - 1)) lines)) = lines ! nat (e - 1)"
proof -
  let ?t = "take (nat (e - s + 1)) (drop (nat (s - 1)) lines)"
  show len: "length ?t = nat (e - s + 1)" using assms by simp
  then have "length ?t \<noteq> 0" using assms by linarith
  then show ne: "?t \<noteq> []" by auto
  have "nat (s - 1) + (nat (e - s + 1) - 1) = nat (e - 1)" using assms by linarith
  moreover have "nat (s - 1) + (nat (e - s + 1) - 1) < length lines" using assms by linarith
  ultimately show "last ?t = lines ! nat (e - 1)" using assms len ne by (simp add: last_conv_nth)
qed

lemma excerpt_reads_back:
  assumes "extract_source_slice text s e = Inr t"
  shows "split_lines t = (let ls = take (nat (e - s + 1)) (drop (nat (s - 1)) (split_lines text)) in
      if split_lines text ! nat (e - 1) = [] then butlast ls else ls)"
    and "1 \<le> s" "s \<le> e" "int (length (split_lines t)) = e - s + (if split_lines text ! nat (e - 1) = [] then 0 else 1)"
proof -
  from assms have b: "1 \<le> s" "s \<le> e" "e \<le> int (length (split_lines text))"
    and t: "t = join_text newline (take (nat (e - s + 1)) (drop (nat (s - 1)) (split_lines text)))"
    by (auto elim: extract_source_sliceE)
  let ?ls = "take (nat (e - s + 1)) (drop (nat (s - 1)) (split_lines text))"
  have "\<forall>l \<in> set ?ls. \<forall>c \<in> set l. \<not> line_break c"
    using split_lines_clean [of _ "text"] by (meson in_set_dropD in_set_takeD)
  then have r: "split_lines t = (let ls = ?ls in if split_lines text ! nat (e - 1) = [] then butlast ls else ls)"
    using split_join_lines [of ?ls] slice_lines [OF b] by (simp add: t Let_def)
  then show "split_lines t = (let ls = ?ls in if split_lines text ! nat (e - 1) = [] then butlast ls else ls)" .
  show "1 \<le> s" "s \<le> e" by (rule b)+
  show "int (length (split_lines t)) = e - s + (if split_lines text ! nat (e - 1) = [] then 0 else 1)"
    using slice_lines(1) [OF b] b by (simp add: r Let_def)
qed

text \<open>an extracted excerpt reads back line by line just when its last line is not blank. The excerpt has no newline after
  its last line, so a blank last line is lost when it is split again; then the excerpt has a line less than its range and
  cannot be rendered, and every other excerpt renders with each line under its number.
\<close>

theorem excerpt_renders:
  assumes "extract_source_slice text s e = Inr t"
    and "seg_kind g = SourcePayload" "seg_text g = t" "seg_start g = s" "seg_end g = e"
  shows "if split_lines text ! nat (e - 1) = []
    then render_source_segment g = Inl (ValueError ''payload has another number of lines'')
    else split_lines t = take (nat (e - s + 1)) (drop (nat (s - 1)) (split_lines text)) \<and>
      render_source_segment g = Inr (range_text (seg_path g) s e @ newline @
        join_text newline (numbered_lines s (take (nat (e - s + 1)) (drop (nat (s - 1)) (split_lines text)))) @ newline)"
  using excerpt_reads_back [OF assms(1)] assms(2-5)
  by (cases "split_lines text ! nat (e - 1) = []") (auto simp: render_source_segment_def Let_def)

definition sample_segment :: evidence_segment where
  "sample_segment = \<lparr>seg_path = ''a.py'', seg_start = 1, seg_end = 2, seg_hash = ''h'', seg_kind = SourcePayload,
     seg_text = ''x'' @ newline, seg_symbols = [], seg_category = EditTarget, seg_reason = [], seg_provenance = None\<rparr>"

theorem excerpt_renders_witness:
  "extract_source_slice (''x'' @ newline @ newline @ ''y'') 1 2 = Inr (''x'' @ newline) \<and>
   render_source_segment sample_segment = Inl (ValueError ''payload has another number of lines'')"
proof -
  have lines: "split_lines (''x'' @ newline @ newline @ ''y'') = [''x'', [], ''y'']" by code_simp
  have "extract_source_slice (''x'' @ newline @ newline @ ''y'') 1 2 = Inr (''x'' @ newline)" by code_simp
  from excerpt_renders [OF this, of sample_segment] this lines show ?thesis by (simp add: sample_segment_def)
qed

end
