(* ===== verification/Evidence.thy ===== *)
theory Evidence
  imports SourceText
begin

text \<open>
  What a recipient is sent: \<open>murder/context_compiler/evidence.py\<close> (exact evidence from selected ranges) and
  \<open>ledger/plan.py\<close> with \<open>ledger/diff.py\<close> (the same against the ledger, with focused diffs and deletion
  notices). The reader is an argument; so is \<open>udiff\<close>, the body lines of \<open>difflib.unified_diff\<close> for two lists of
  lines. Lemmas: which lines of a file the segments of a plan cover.
\<close>

section \<open>Selections and prior evidence\<close>

record selected_range =
  sel_path :: string
  sel_range :: line_range
  sel_category :: evidence_category
  sel_reason :: string
  sel_symbols :: "string list"
  sel_provenance :: "string option"

datatype ledger_status = Prepared | Supplied | Abandoned

text \<open>The fields of \<open>EvidenceLedgerEntry\<close> that the kernel or the ledger reads.\<close>

record ledger_entry =
  entry_recipient :: string
  entry_repository :: string
  entry_worktree :: string
  entry_hash :: string
  entry_path :: string
  entry_start :: int
  entry_end :: int
  entry_session :: "string option"
  entry_conversation :: "string option"
  entry_supplied :: bool
  entry_content :: "string option"
  entry_category :: "evidence_category option"
  entry_kind :: payload_kind
  entry_status :: "ledger_status option"
  entry_delivery :: "uuid option"
  entry_id :: "int option"
  entry_text :: "string option"

definition is_known :: "ledger_entry \<Rightarrow> bool" where
  "is_known e = (case entry_status e of None \<Rightarrow> entry_supplied e | Some s \<Rightarrow> s = Supplied)"

definition entry_range :: "ledger_entry \<Rightarrow> line_range" where
  "entry_range e = \<lparr>start_line = entry_start e, end_line = entry_end e\<rparr>"

record changed_notice =
  changed_path :: string
  prior_hash :: string
  current_hash :: string
  overlapping :: line_range
  notice_message :: string

definition refresh_message :: string where
  "refresh_message = ''changed evidence requires refresh/diff''"

definition unmappable_message :: string where
  "unmappable_message = ''changed_evidence_unmappable''"

definition overlap :: "line_range \<Rightarrow> line_range \<Rightarrow> line_range option" where
  "overlap a b =
     (let s = max (start_line a) (start_line b); e = min (end_line a) (end_line b) in
      if e < s then None else Some \<lparr>start_line = s, end_line = e\<rparr>)"

text \<open>\<open>dict.fromkeys\<close>: the first occurrence of every element, in order.\<close>

definition unique :: "'a list \<Rightarrow> 'a list" where
  "unique xs = rev (remdups (rev xs))"

definition select_key :: "evidence_segment \<Rightarrow> nat \<times> string \<times> int \<times> int" where
  "select_key g = (category_order (seg_category g), seg_path g, seg_start g, seg_end g)"

definition clamp_selection :: "int \<Rightarrow> selected_range \<Rightarrow> exn + selected_range" where
  "clamp_selection n s = bindE (clamp_range (sel_range s) n) (\<lambda>r. Inr (s\<lparr>sel_range := r\<rparr>))"

text \<open>A segment of current source for a range, with the metadata of a selection.\<close>

definition source_segment :: "string \<Rightarrow> source_snapshot \<Rightarrow> evidence_category \<Rightarrow> string \<Rightarrow> string list \<Rightarrow> string option \<Rightarrow>
    line_range \<Rightarrow> exn + evidence_segment" where
  "source_segment path snap cat why syms prov r =
     bindE (extract_source_slice (snap_text snap) (start_line r) (end_line r)) (\<lambda>body.
     Inr \<lparr>seg_path = path, seg_start = start_line r, seg_end = end_line r, seg_hash = snap_hash snap,
       seg_kind = SourcePayload, seg_text = body, seg_symbols = syms, seg_category = cat, seg_reason = why,
       seg_provenance = prov\<rparr>)"

section \<open>Exact evidence\<close>

record selection_group =
  group_category :: evidence_category
  group_reason :: string
  group_symbols :: "string list"
  group_provenance :: "string option"
  group_ranges :: "line_range list"

definition group_key :: "selected_range \<Rightarrow> evidence_category \<times> string \<times> string option" where
  "group_key s = (sel_category s, sel_reason s, sel_provenance s)"

definition group_selections :: "selected_range list \<Rightarrow> selection_group list" where
  "group_selections ss =
     map (\<lambda>(cat, why, prov).
         let items = filter (\<lambda>s. group_key s = (cat, why, prov)) ss in
         \<lparr>group_category = cat, group_reason = why,
          group_symbols = sort (remdups (concat (map sel_symbols items))), group_provenance = prov,
          group_ranges = normalize_ranges (map sel_range items)\<rparr>)
       (sort_key (\<lambda>(cat, why, prov). (category_order cat, why, case prov of None \<Rightarrow> [] | Some p \<Rightarrow> p))
         (unique (map group_key ss)))"

record context_request =
  request_recipient :: string
  request_repository :: string
  request_worktree :: string
  request_session :: "string option"
  request_conversation :: "string option"

definition belongs_to_request :: "ledger_entry \<Rightarrow> context_request \<Rightarrow> bool" where
  "belongs_to_request e r \<longleftrightarrow> is_known e \<and> entry_recipient e = request_recipient r \<and>
     entry_repository e = request_repository r \<and> entry_worktree e = request_worktree r \<and>
     entry_session e = request_session r \<and> entry_conversation e = request_conversation r"

definition stale_overlaps :: "line_range list \<Rightarrow> ledger_entry list \<Rightarrow> (ledger_entry \<times> line_range) list" where
  "stale_overlaps requested stale = concat (map (\<lambda>e. List.map_filter (\<lambda>q. map_option (Pair e) (overlap q (entry_range e))) requested) stale)"

definition assemble_path :: "context_request \<Rightarrow> selected_range list \<Rightarrow> ledger_entry list \<Rightarrow> (string \<Rightarrow> exn + source_snapshot) \<Rightarrow>
    string \<Rightarrow> exn + evidence_segment list \<times> changed_notice list" where
  "assemble_path request ss prior reader path =
     bindE (reader path) (\<lambda>snap.
     let mine = filter (\<lambda>e. entry_path e = path \<and> belongs_to_request e request) prior;
         matching = map entry_range (filter (\<lambda>e. entry_hash e = snap_hash snap) mine);
         stale = filter (\<lambda>e. entry_hash e \<noteq> snap_hash snap) mine
     in
     bindE (mapE (clamp_selection (snap_line_count snap)) (filter (\<lambda>s. sel_path s = path) ss)) (\<lambda>clamped.
     let groups = group_selections clamped;
         requested = normalize_ranges (map sel_range clamped);
         overlaps = stale_overlaps requested stale;
         notices = map (\<lambda>(e, r). \<lparr>changed_path = path, prior_hash = entry_hash e, current_hash = snap_hash snap,
           overlapping = r, notice_message = refresh_message\<rparr>) overlaps;
         known = normalize_ranges matching;
         changed = normalize_ranges (map snd overlaps)
     in
     bindE (mapE (\<lambda>g. mapE (source_segment path snap (group_category g) (group_reason g) (group_symbols g) (group_provenance g))
         (subtract_ranges (group_ranges g) (known @ changed))) groups) (\<lambda>segments.
     Inr (concat segments, notices))))"

definition assemble_exact_evidence :: "context_request \<Rightarrow> selected_range list \<Rightarrow> ledger_entry list \<Rightarrow>
    (string \<Rightarrow> exn + source_snapshot) \<Rightarrow> exn + evidence_segment list \<times> changed_notice list" where
  "assemble_exact_evidence request ss prior reader =
     bindE (mapE (assemble_path request ss prior reader) (sort (unique (map sel_path ss)))) (\<lambda>parts.
     Inr (sort_key select_key (concat (map fst parts)), unique (concat (map snd parts))))"

section \<open>Focused diffs\<close>

definition max_focused_diff_chars :: nat where
  "max_focused_diff_chars = 8000"

definition truncation_marker :: string where
  "truncation_marker = newline @ ''... [focused diff truncated]'' @ newline"

record focused_diff =
  diff_text :: string
  diff_truncated :: bool
  diff_unmappable :: bool

definition rstrip_newlines :: "string \<Rightarrow> string" where
  "rstrip_newlines s = rev (dropWhile (\<lambda>c. c = CHR 0x0A) (rev s))"

definition diff_header :: "string \<Rightarrow> line_range \<Rightarrow> line_range \<Rightarrow> string" where
  "diff_header path old new = range_text path (start_line old) (end_line old) @ '' -> '' @
     range_text path (start_line new) (end_line new)"

definition build_focused_diff :: "(string list \<Rightarrow> string list \<Rightarrow> string list) \<Rightarrow> nat \<Rightarrow> string \<Rightarrow> line_range \<Rightarrow> string \<Rightarrow>
    line_range \<Rightarrow> string \<Rightarrow> focused_diff" where
  "build_focused_diff udiff max_chars path old old_text new new_text =
     (if old_text = [] \<and> new_text = [] then \<lparr>diff_text = [], diff_truncated = False, diff_unmappable = True\<rparr>
      else
        let header = diff_header path old new;
            body = filter (\<lambda>l. \<not> starts_with ''--- '' l \<and> \<not> starts_with ''+++ '' l)
              (udiff (split_lines old_text) (split_lines new_text));
            whole = header @ newline @ join_text newline body @ (if body = [] then [] else newline)
        in
        if length whole \<le> max_chars then \<lparr>diff_text = whole, diff_truncated = False, diff_unmappable = False\<rparr>
        else
          let keep = int max_chars - int (length truncation_marker) in
          \<lparr>diff_text = (if keep < int (length header) + 1 then header @ truncation_marker
             else rstrip_newlines (take (nat keep) whole) @ truncation_marker),
           diff_truncated = True, diff_unmappable = False\<rparr>)"

section \<open>Planning against the ledger\<close>

record path_plan =
  plan_segments :: "evidence_segment list"
  plan_notices :: "changed_notice list"
  plan_deletions :: "deletion_notice list"
  plan_unmappable :: "string list"

definition missing_source_segments :: "string \<Rightarrow> selected_range list \<Rightarrow> ledger_entry list \<Rightarrow> source_snapshot \<Rightarrow>
    exn + evidence_segment list" where
  "missing_source_segments path clamped matching snap =
     (let known = normalize_ranges (map entry_range matching) in
      bindE (mapE (\<lambda>s. mapE (source_segment path snap (sel_category s) (sel_reason s) (sel_symbols s) (sel_provenance s))
          (subtract_ranges [sel_range s] known)) clamped) (\<lambda>parts. Inr (concat parts)))"

definition full_source_segments :: "string \<Rightarrow> selected_range list \<Rightarrow> source_snapshot \<Rightarrow> exn + evidence_segment list" where
  "full_source_segments path clamped snap =
     mapE (\<lambda>s. source_segment path snap (sel_category s) (sel_reason s) (sel_symbols s) (sel_provenance s) (sel_range s)) clamped"

definition best_key :: "ledger_entry \<Rightarrow> int \<times> int \<times> int" where
  "best_key e = (entry_start e, - (entry_end e - entry_start e), case entry_id e of None \<Rightarrow> 0 | Some i \<Rightarrow> i)"

definition best_prior :: "line_range \<Rightarrow> ledger_entry list \<Rightarrow> ledger_entry option" where
  "best_prior r stale =
     (case sort_key best_key (filter (\<lambda>e. overlap r (entry_range e) \<noteq> None) stale) of
        e # _ \<Rightarrow> Some e
      | [] \<Rightarrow> (case stale of [e] \<Rightarrow> Some e | _ \<Rightarrow> None))"

text \<open>The plan of one selection on a path with stale evidence: the whole current source with a notice, or a focused
  diff against the chosen prior.\<close>

definition plan_changed :: "(string list \<Rightarrow> string list \<Rightarrow> string list) \<Rightarrow> string \<Rightarrow> ledger_entry list \<Rightarrow> source_snapshot \<Rightarrow>
    selected_range \<Rightarrow> exn + path_plan \<times> ledger_entry option" where
  "plan_changed udiff path stale snap s =
     bindE (extract_source_slice (snap_text snap) (start_line (sel_range s)) (end_line (sel_range s))) (\<lambda>body.
     let segment = (\<lambda>kind text. \<lparr>seg_path = path, seg_start = start_line (sel_range s), seg_end = end_line (sel_range s),
           seg_hash = snap_hash snap, seg_kind = kind, seg_text = text, seg_symbols = sel_symbols s,
           seg_category = sel_category s, seg_reason = sel_reason s, seg_provenance = sel_provenance s\<rparr>);
         notice = (\<lambda>old r m. \<lparr>changed_path = path, prior_hash = old, current_hash = snap_hash snap, overlapping = r,
           notice_message = m\<rparr>);
         unmapped = (\<lambda>old covered_prior. Inr (\<lparr>plan_segments = [segment SourcePayload body],
           plan_notices = [notice old (sel_range s) unmappable_message], plan_deletions = [], plan_unmappable = [path]\<rparr>,
           covered_prior))
     in
     case best_prior (sel_range s) stale of
       None \<Rightarrow> (case stale of [] \<Rightarrow> Inl IndexError | e # _ \<Rightarrow> unmapped (entry_hash e) None)
     | Some prior \<Rightarrow>
       (case entry_text prior of
          None \<Rightarrow> unmapped (entry_hash prior) None
        | Some old \<Rightarrow>
          let diff = build_focused_diff udiff max_focused_diff_chars path (entry_range prior) old (sel_range s) body in
          if diff_unmappable diff then unmapped (entry_hash prior) (Some prior)
          else Inr (\<lparr>plan_segments = [segment DiffPayload (diff_text diff)],
            plan_notices = [notice (entry_hash prior)
              (case overlap (sel_range s) (entry_range prior) of None \<Rightarrow> sel_range s | Some r \<Rightarrow> r) refresh_message],
            plan_deletions = [], plan_unmappable = []\<rparr>, Some prior)))"

definition entry_deletion :: "ledger_entry \<Rightarrow> deletion_notice" where
  "entry_deletion e = \<lparr>deleted_path = entry_path e, deleted_start = entry_start e, deleted_end = entry_end e,
     deleted_hash = entry_hash e\<rparr>"

text \<open>\<open>covered_priors\<close> holds object identities; entries are told apart by value, which only differs for two
  equal entries, and then neither or both overlap a selection.\<close>

definition plan_changed_path :: "(string list \<Rightarrow> string list \<Rightarrow> string list) \<Rightarrow> string \<Rightarrow> selected_range list \<Rightarrow> ledger_entry list \<Rightarrow>
    source_snapshot \<Rightarrow> exn + path_plan" where
  "plan_changed_path udiff path clamped stale snap =
     bindE (mapE (plan_changed udiff path stale snap) clamped) (\<lambda>parts.
     let covered_priors = List.map_filter snd parts in
     Inr \<lparr>plan_segments = concat (map (plan_segments \<circ> fst) parts), plan_notices = concat (map (plan_notices \<circ> fst) parts),
       plan_deletions = map entry_deletion (filter (\<lambda>e. \<not> List.member covered_priors e \<and>
         \<not> list_ex (\<lambda>s. overlap (sel_range s) (entry_range e) \<noteq> None) clamped) stale),
       plan_unmappable = concat (map (plan_unmappable \<circ> fst) parts)\<rparr>)"

definition plan_path :: "(string list \<Rightarrow> string list \<Rightarrow> string list) \<Rightarrow> (string \<Rightarrow> exn + source_snapshot) \<Rightarrow> selected_range list \<Rightarrow>
    ledger_entry list \<Rightarrow> string \<Rightarrow> exn + path_plan" where
  "plan_path udiff reader ss known_prior path =
     bindE (reader path) (\<lambda>snap.
     let priors = filter (\<lambda>e. entry_path e = path) known_prior;
         matching = filter (\<lambda>e. entry_hash e = snap_hash snap) priors;
         stale = filter (\<lambda>e. entry_hash e \<noteq> snap_hash snap) priors;
         only = (\<lambda>segments. \<lparr>plan_segments = segments, plan_notices = [], plan_deletions = [], plan_unmappable = []\<rparr>)
     in
     bindE (mapE (clamp_selection (snap_line_count snap)) (filter (\<lambda>s. sel_path s = path) ss)) (\<lambda>clamped.
     if stale = [] then
       bindE (if matching = [] then full_source_segments path clamped snap
              else missing_source_segments path clamped matching snap) (\<lambda>segments. Inr (only segments))
     else plan_changed_path udiff path clamped stale snap))"

text \<open>\<open>_file_missing\<close> catches every error of the reader.\<close>

definition deletions_for_missing_files :: "(string \<Rightarrow> exn + source_snapshot) \<Rightarrow> string list \<Rightarrow> ledger_entry list \<Rightarrow>
    deletion_notice list" where
  "deletions_for_missing_files reader selected known_prior =
     concat (map (\<lambda>path. if List.member selected path then []
         else case reader path of Inr _ \<Rightarrow> []
           | Inl _ \<Rightarrow> map entry_deletion (filter (\<lambda>e. entry_path e = path) known_prior))
       (sort (unique (map entry_path known_prior))))"

definition plan_key :: "evidence_segment \<Rightarrow> nat \<times> string \<times> int \<times> int \<times> string" where
  "plan_key g = (category_order (seg_category g), seg_path g, seg_start g, seg_end g, payload_kind_value (seg_kind g))"

definition plan_evidence :: "(string list \<Rightarrow> string list \<Rightarrow> string list) \<Rightarrow> selected_range list \<Rightarrow> ledger_entry list \<Rightarrow>
    (string \<Rightarrow> exn + source_snapshot) \<Rightarrow> exn + path_plan" where
  "plan_evidence udiff ss prior reader =
     (let known_prior = filter is_known prior; paths = sort (unique (map sel_path ss)) in
      bindE (mapE (plan_path udiff reader ss known_prior) paths) (\<lambda>parts.
      Inr \<lparr>plan_segments = sort_key plan_key (concat (map plan_segments parts)),
        plan_notices = unique (concat (map plan_notices parts)),
        plan_deletions = deletions_for_missing_files reader paths known_prior @ concat (map plan_deletions parts),
        plan_unmappable = unique (concat (map plan_unmappable parts))\<rparr>))"

section \<open>The lines a plan covers\<close>

definition segment_lines :: "string \<Rightarrow> evidence_segment list \<Rightarrow> int set" where
  "segment_lines p gs = (\<Union>g \<in> {g \<in> set gs. seg_path g = p}. {seg_start g..seg_end g})"

definition requested_lines :: "int \<Rightarrow> string \<Rightarrow> selected_range list \<Rightarrow> int set" where
  "requested_lines n p ss = (\<Union>s \<in> {s \<in> set ss. sel_path s = p}. lines_of (sel_range s)) \<inter> {1..n}"

definition entry_lines :: "ledger_entry list \<Rightarrow> int set" where
  "entry_lines es = (\<Union>e \<in> set es. lines_of (entry_range e))"

definition faithful_reader :: "(string \<Rightarrow> exn + source_snapshot) \<Rightarrow> bool" where
  "faithful_reader reader \<longleftrightarrow> (\<forall>p snap. reader p = Inr snap \<longrightarrow> snap_line_count snap = count_source_lines (snap_text snap))"

text \<open>A segment says what is in the file now.\<close>

definition exact_segment :: "source_snapshot \<Rightarrow> evidence_segment \<Rightarrow> bool" where
  "exact_segment snap g \<longleftrightarrow> seg_hash g = snap_hash snap \<and> seg_kind g = SourcePayload \<and>
     extract_source_slice (snap_text snap) (seg_start g) (seg_end g) = Inr (seg_text g)"

lemma faithful_read_source: "faithful_reader (read_source sha worktree)"
  by (auto simp: faithful_reader_def read_source_def split: if_splits file_lookup.splits)

lemma set_unique [simp]: "set (unique xs) = set xs"
  by (simp add: unique_def)

lemma mapE_set: "mapE f xs = Inr ys \<Longrightarrow> set ys = {y. \<exists>x \<in> set xs. f x = Inr y}"
  unfolding mapE_eq_Inr by (induction rule: list_all2_induct) auto

lemma clamp_selectionE:
  assumes "clamp_selection n s = Inr t" and "valid_range (sel_range s)"
  shows "t = s\<lparr>sel_range := sel_range t\<rparr>" "lines_of (sel_range t) = lines_of (sel_range s) \<inter> {1..n}"
    "valid_range (sel_range t)" "end_line (sel_range t) \<le> n"
proof -
  obtain r where r: "clamp_range (sel_range s) n = Inr r" "t = s\<lparr>sel_range := r\<rparr>"
    using assms(1) by (auto simp: clamp_selection_def result_simps)
  note c = clamp_rangeE [OF r(1) assms(2)]
  show "t = s\<lparr>sel_range := sel_range t\<rparr>" "lines_of (sel_range t) = lines_of (sel_range s) \<inter> {1..n}" "valid_range (sel_range t)"
    using r(2) c by simp_all
  have "end_line r \<in> lines_of r" using c(2) by (simp add: lines_of_def valid_range_def)
  then show "end_line (sel_range t) \<le> n" using c(1) r(2) by auto
qed

text \<open>The clamped selections of a path.\<close>

lemma clampedE:
  assumes "mapE (clamp_selection n) (filter (\<lambda>s. sel_path s = path) ss) = Inr clamped"
    and "\<forall>s \<in> set ss. valid_range (sel_range s)"
  shows "covered (map sel_range clamped) = requested_lines n path ss" "list_all valid_range (map sel_range clamped)"
    "\<forall>s \<in> set clamped. sel_path s = path \<and> end_line (sel_range s) \<le> n"
proof -
  have "list_all2 (\<lambda>s t. clamp_selection n s = Inr t) (filter (\<lambda>s. sel_path s = path) ss) clamped"
    using assms(1) by (simp add: mapE_eq_Inr)
  then have "list_all2 (\<lambda>s t. sel_path t = path \<and> lines_of (sel_range t) = lines_of (sel_range s) \<inter> {1..n} \<and>
      valid_range (sel_range t) \<and> end_line (sel_range t) \<le> n) (filter (\<lambda>s. sel_path s = path) ss) clamped"
  proof (rule list.rel_mono_strong)
    fix s t
    assume "s \<in> set (filter (\<lambda>s. sel_path s = path) ss)" and clamp: "clamp_selection n s = Inr t"
    with assms(2) have "valid_range (sel_range s)" "sel_path s = path" by simp_all
    with clamp_selectionE [OF clamp this(1)] show "sel_path t = path \<and> lines_of (sel_range t) = lines_of (sel_range s) \<inter> {1..n} \<and>
      valid_range (sel_range t) \<and> end_line (sel_range t) \<le> n" by (metis selected_range.select_convs(1) selected_range.surjective selected_range.update_convs(2))
  qed
  then have "covered (map sel_range clamped) = (\<Union>s \<in> set (filter (\<lambda>s. sel_path s = path) ss). lines_of (sel_range s)) \<inter> {1..n} \<and>
      list_all valid_range (map sel_range clamped) \<and> (\<forall>s \<in> set clamped. sel_path s = path \<and> end_line (sel_range s) \<le> n)"
    by (induction rule: list_all2_induct) auto
  then show "covered (map sel_range clamped) = requested_lines n path ss" "list_all valid_range (map sel_range clamped)"
    "\<forall>s \<in> set clamped. sel_path s = path \<and> end_line (sel_range s) \<le> n" by (simp_all add: requested_lines_def)
qed

lemma segment_lines_simps [simp]:
  "segment_lines p [] = {}"
  "segment_lines p (g # gs) = (if seg_path g = p then {seg_start g..seg_end g} else {}) \<union> segment_lines p gs"
  by (auto simp: segment_lines_def)

lemma exact_segment_order: "exact_segment snap g \<Longrightarrow> seg_hash g = snap_hash snap \<and> seg_start g \<le> seg_end g"
  by (auto simp: exact_segment_def elim: extract_source_sliceE)

lemma source_segmentE:
  assumes "source_segment path snap cat why syms prov r = Inr g"
  shows "seg_path g = path" "seg_start g = start_line r" "seg_end g = end_line r" "exact_segment snap g"
  using assms by (auto simp: source_segment_def exact_segment_def result_simps)

text \<open>The segments of a list of ranges cover the lines of the ranges.\<close>

lemma source_segments_cover:
  assumes "mapE (source_segment path snap cat why syms prov) rs = Inr gs"
  shows "segment_lines path gs = covered rs" "\<forall>g \<in> set gs. seg_path g = path \<and> exact_segment snap g"
proof -
  have "list_all2 (\<lambda>r g. source_segment path snap cat why syms prov r = Inr g) rs gs"
    using assms by (simp add: mapE_eq_Inr)
  then have "list_all2 (\<lambda>r g. seg_path g = path \<and> seg_start g = start_line r \<and> seg_end g = end_line r \<and> exact_segment snap g) rs gs"
    by (rule list.rel_mono_strong) (intro conjI; erule source_segmentE)
  then have "segment_lines path gs = covered rs \<and> (\<forall>g \<in> set gs. seg_path g = path \<and> exact_segment snap g)"
    by (induction rule: list_all2_induct) (auto simp: lines_of_def)
  then show "segment_lines path gs = covered rs" "\<forall>g \<in> set gs. seg_path g = path \<and> exact_segment snap g" by simp_all
qed

lemma segment_lines_concat: "segment_lines p (concat gss) = (\<Union>gs \<in> set gss. segment_lines p gs)"
  by (auto simp: segment_lines_def)

lemma group_selections_cover:
  assumes "list_all valid_range (map sel_range ss)"
  shows "(\<Union>g \<in> set (group_selections ss). covered (group_ranges g)) = covered (map sel_range ss)"
    "\<forall>g \<in> set (group_selections ss). list_all valid_range (group_ranges g)"
proof -
  have v: "list_all valid_range (map sel_range (filter P ss))" for P using assms by (auto simp: list_all_iff)
  have "set (map group_ranges (group_selections ss)) =
      (\<lambda>k. normalize_ranges (map sel_range (filter (\<lambda>s. group_key s = k) ss))) ` group_key ` set ss"
    by (force simp: group_selections_def Let_def)
  then have "(\<Union>rs \<in> set (map group_ranges (group_selections ss)). covered rs) = covered (map sel_range ss)"
    by (simp add: normalize_ok(1) [OF v]) (auto simp: covered_def)
  then show "(\<Union>g \<in> set (group_selections ss). covered (group_ranges g)) = covered (map sel_range ss)" by simp
  show "\<forall>g \<in> set (group_selections ss). list_all valid_range (group_ranges g)"
    using normalize_ok(2) [OF v] by (auto simp: group_selections_def Let_def canonical_ranges_def split: prod.splits)
qed

lemma set_map_filter_opt: "set (List.map_filter f xs) = {y. \<exists>x \<in> set xs. f x = Some y}"
  by (induction xs) (auto simp: List.map_filter_simps split: option.splits)

lemma stale_overlaps_lines:
  assumes "list_all valid_range rs" and "\<forall>e \<in> set es. valid_range (entry_range e)"
  shows "covered (map snd (stale_overlaps rs es)) = covered rs \<inter> entry_lines es"
    "list_all valid_range (map snd (stale_overlaps rs es))"
proof -
  have o: "overlap r q = Some x \<Longrightarrow> lines_of x = lines_of r \<inter> lines_of q \<and> valid_range x" if "valid_range r" "valid_range q" for r q x
    using that by (auto simp: overlap_def lines_of_def valid_range_def Let_def split: if_splits)
  have n: "overlap r q = None \<Longrightarrow> lines_of r \<inter> lines_of q = {}" for r q
    by (auto simp: overlap_def lines_of_def Let_def split: if_splits)
  have set: "set (stale_overlaps rs es) = {(e, x) | e r x. e \<in> set es \<and> r \<in> set rs \<and> overlap r (entry_range e) = Some x}"
    by (auto simp: stale_overlaps_def set_map_filter_opt)
  have "valid_range x" if "x \<in> set (map snd (stale_overlaps rs es))" for x
  proof -
    from that obtain e r where "e \<in> set es" "r \<in> set rs" "overlap r (entry_range e) = Some x" by (auto simp: set)
    with o [of r "entry_range e" x] assms show ?thesis by (simp add: list_all_iff)
  qed
  then show "list_all valid_range (map snd (stale_overlaps rs es))" by (simp add: list_all_iff)
  have "l \<in> covered (map snd (stale_overlaps rs es)) \<longleftrightarrow> l \<in> covered rs \<inter> entry_lines es" for l
  proof
    assume "l \<in> covered (map snd (stale_overlaps rs es))"
    then obtain e r x where "e \<in> set es" "r \<in> set rs" "overlap r (entry_range e) = Some x" "l \<in> lines_of x"
      by (auto simp: covered_def set)
    with o [of r "entry_range e" x] assms show "l \<in> covered rs \<inter> entry_lines es"
      by (auto simp: covered_def entry_lines_def list_all_iff)
  next
    assume "l \<in> covered rs \<inter> entry_lines es"
    then obtain e r where m: "e \<in> set es" "r \<in> set rs" "l \<in> lines_of r \<inter> lines_of (entry_range e)"
      by (auto simp: covered_def entry_lines_def)
    with n obtain x where x: "overlap r (entry_range e) = Some x" by (cases "overlap r (entry_range e)") auto
    with o [of r "entry_range e" x] assms m have "l \<in> lines_of x" by (auto simp: list_all_iff)
    with m x show "l \<in> covered (map snd (stale_overlaps rs es))" by (force simp: covered_def set)
  qed
  then show "covered (map snd (stale_overlaps rs es)) = covered rs \<inter> entry_lines es" by blast
qed

lemma entry_ranges_covered: "covered (map entry_range es) = entry_lines es"
  by (auto simp: covered_def entry_lines_def)

text \<open>The prior evidence of a request for a path.\<close>

definition priors_for :: "context_request \<Rightarrow> string \<Rightarrow> ledger_entry list \<Rightarrow> ledger_entry list" where
  "priors_for request path prior = filter (\<lambda>e. entry_path e = path \<and> belongs_to_request e request) prior"

lemma assemble_path_cover:
  assumes run: "assemble_path request ss prior reader path = Inr (gs, ns)" and read: "reader path = Inr snap"
    and ok: "\<forall>s \<in> set ss. valid_range (sel_range s)" "\<forall>e \<in> set prior. valid_range (entry_range e)"
  shows "segment_lines path gs = requested_lines (snap_line_count snap) path ss - entry_lines (priors_for request path prior)"
    and "\<forall>g \<in> set gs. seg_path g = path \<and> exact_segment snap g"
    and "covered (map overlapping ns) = requested_lines (snap_line_count snap) path ss \<inter>
      entry_lines (filter (\<lambda>e. entry_hash e \<noteq> snap_hash snap) (priors_for request path prior))"
    and "\<forall>n \<in> set ns. changed_path n = path \<and> current_hash n = snap_hash snap"
proof -
  define mine where "mine = priors_for request path prior"
  define stale where "stale = filter (\<lambda>e. entry_hash e \<noteq> snap_hash snap) mine"
  define match where "match = filter (\<lambda>e. entry_hash e = snap_hash snap) mine"
  from run read obtain clamped segments where
    clamped: "mapE (clamp_selection (snap_line_count snap)) (filter (\<lambda>s. sel_path s = path) ss) = Inr clamped"
    and segments: "mapE (\<lambda>g. mapE (source_segment path snap (group_category g) (group_reason g) (group_symbols g) (group_provenance g))
         (subtract_ranges (group_ranges g) (normalize_ranges (map entry_range match) @
            normalize_ranges (map snd (stale_overlaps (normalize_ranges (map sel_range clamped)) stale)))))
         (group_selections clamped) = Inr segments"
    and gs: "gs = concat segments"
    and ns: "ns = map (\<lambda>(e, r). \<lparr>changed_path = path, prior_hash = entry_hash e, current_hash = snap_hash snap,
           overlapping = r, notice_message = refresh_message\<rparr>) (stale_overlaps (normalize_ranges (map sel_range clamped)) stale)"
    by (auto simp: assemble_path_def result_simps Let_def stale_def match_def mine_def priors_for_def)
  note c = clampedE [OF clamped ok(1)]
  note req = normalize_ok [OF c(2)]
  have pv: "\<forall>e \<in> set stale. valid_range (entry_range e)" "list_all valid_range (map entry_range match)"
    using ok(2) by (auto simp: stale_def match_def mine_def priors_for_def list_all_iff)
  have rv: "list_all valid_range (normalize_ranges (map sel_range clamped))" using req(2) by (simp add: canonical_ranges_def)
  note ov = stale_overlaps_lines [OF rv pv(1)]
  let ?known = "normalize_ranges (map entry_range match) @
     normalize_ranges (map snd (stale_overlaps (normalize_ranges (map sel_range clamped)) stale))"
  have kv: "list_all valid_range ?known"
    using normalize_ok(2) [OF pv(2)] normalize_ok(2) [OF ov(2)] by (simp add: canonical_ranges_def)
  have known: "covered ?known = entry_lines match \<union> (covered (map sel_range clamped) \<inter> entry_lines stale)"
    using normalize_ok(1) [OF pv(2)] normalize_ok(1) [OF ov(2)] ov(1) req(1) by (simp add: entry_ranges_covered)
  have each: "list_all2 (\<lambda>g gs. segment_lines path gs = covered (group_ranges g) - covered ?known \<and>
      (\<forall>s \<in> set gs. seg_path s = path \<and> exact_segment snap s)) (group_selections clamped) segments"
  proof (rule list.rel_mono_strong [OF segments [THEN mapE_eq_Inr [THEN iffD1]]])
    fix g gs
    assume "g \<in> set (group_selections clamped)"
    then have "list_all valid_range (group_ranges g)" using group_selections_cover(2) [OF c(2)] by blast
    note sub = subtract_ok(1) [OF this kv]
    assume "mapE (source_segment path snap (group_category g) (group_reason g) (group_symbols g) (group_provenance g))
      (subtract_ranges (group_ranges g) ?known) = Inr gs"
    from source_segments_cover [OF this] sub show "segment_lines path gs = covered (group_ranges g) - covered ?known \<and>
      (\<forall>s \<in> set gs. seg_path s = path \<and> exact_segment snap s)" by simp
  qed
  then have "segment_lines path gs = (\<Union>g \<in> set (group_selections clamped). covered (group_ranges g)) - covered ?known \<and>
      (\<forall>g \<in> set gs. seg_path g = path \<and> exact_segment snap g)"
    unfolding gs segment_lines_concat by (induction rule: list_all2_induct) auto
  moreover have "entry_lines mine = entry_lines match \<union> entry_lines stale" by (auto simp: entry_lines_def match_def stale_def)
  ultimately show "segment_lines path gs = requested_lines (snap_line_count snap) path ss - entry_lines (priors_for request path prior)"
    "\<forall>g \<in> set gs. seg_path g = path \<and> exact_segment snap g"
    unfolding mine_def [symmetric] using known c(1) group_selections_cover(1) [OF c(2)] by auto
  have "map overlapping ns = map snd (stale_overlaps (normalize_ranges (map sel_range clamped)) stale)" by (auto simp: ns)
  then show "covered (map overlapping ns) = requested_lines (snap_line_count snap) path ss \<inter>
      entry_lines (filter (\<lambda>e. entry_hash e \<noteq> snap_hash snap) (priors_for request path prior))"
    using ov(1) req(1) c(1) by (simp add: stale_def mine_def)
  show "\<forall>n \<in> set ns. changed_path n = path \<and> current_hash n = snap_hash snap" by (auto simp: ns)
qed

text \<open>Against the ledger, known lines are left out only when the ledger holds nothing stale of the file.\<close>

definition path_priors :: "string \<Rightarrow> ledger_entry list \<Rightarrow> ledger_entry list" where
  "path_priors path prior = filter (\<lambda>e. entry_path e = path) (filter is_known prior)"

definition subtracted_lines :: "source_snapshot \<Rightarrow> ledger_entry list \<Rightarrow> int set" where
  "subtracted_lines snap es = (if \<forall>e \<in> set es. entry_hash e = snap_hash snap then entry_lines es else {})"

lemma plan_changed_cover:
  assumes "plan_changed udiff path stale snap s = Inr (part, covered_prior)"
  shows "segment_lines path (plan_segments part) = lines_of (sel_range s)"
    "\<forall>g \<in> set (plan_segments part). seg_path g = path \<and> seg_hash g = snap_hash snap \<and> seg_start g \<le> seg_end g"
proof -
  obtain body where body: "extract_source_slice (snap_text snap) (start_line (sel_range s)) (end_line (sel_range s)) = Inr body"
    using assms(1) by (auto simp: plan_changed_def result_simps)
  have order: "start_line (sel_range s) \<le> end_line (sel_range s)" by (rule extract_source_sliceE [OF body])
  have "\<exists>k t. plan_segments part = [\<lparr>seg_path = path, seg_start = start_line (sel_range s), seg_end = end_line (sel_range s),
           seg_hash = snap_hash snap, seg_kind = k, seg_text = t, seg_symbols = sel_symbols s,
           seg_category = sel_category s, seg_reason = sel_reason s, seg_provenance = sel_provenance s\<rparr>]"
  proof (cases "best_prior (sel_range s) stale")
    case None
    with assms(1) body show ?thesis by (cases stale) (auto simp: plan_changed_def Let_def)
  next
    case (Some prior)
    with assms(1) body show ?thesis by (cases "entry_text prior") (auto simp: plan_changed_def Let_def split: if_splits)
  qed
  then show "segment_lines path (plan_segments part) = lines_of (sel_range s)"
    "\<forall>g \<in> set (plan_segments part). seg_path g = path \<and> seg_hash g = snap_hash snap \<and> seg_start g \<le> seg_end g"
    using order by (elim exE; simp add: lines_of_def)+
qed

lemma segments_of_parts:
  assumes "list_all2 (\<lambda>s part. segment_lines path (f part) = lines_of (sel_range s) - known \<and>
      (\<forall>g \<in> set (f part). seg_path g = path \<and> P g)) ss parts"
  shows "segment_lines path (concat (map f parts)) = covered (map sel_range ss) - known"
    "\<forall>g \<in> set (concat (map f parts)). seg_path g = path \<and> P g"
proof -
  have "segment_lines path (concat (map f parts)) = covered (map sel_range ss) - known \<and>
      (\<forall>g \<in> set (concat (map f parts)). seg_path g = path \<and> P g)"
    unfolding segment_lines_concat using assms by (induction rule: list_all2_induct) auto
  then show "segment_lines path (concat (map f parts)) = covered (map sel_range ss) - known"
    "\<forall>g \<in> set (concat (map f parts)). seg_path g = path \<and> P g" by simp_all
qed

lemma missing_source_segments_cover:
  assumes run: "missing_source_segments path clamped match snap = Inr gs"
    and ok: "list_all valid_range (map sel_range clamped)" "\<forall>e \<in> set match. valid_range (entry_range e)"
  shows "segment_lines path gs = covered (map sel_range clamped) - entry_lines match"
    "\<forall>g \<in> set gs. seg_path g = path \<and> exact_segment snap g"
proof -
  from run obtain parts where parts: "mapE (\<lambda>s. mapE (source_segment path snap (sel_category s) (sel_reason s) (sel_symbols s)
      (sel_provenance s)) (subtract_ranges [sel_range s] (normalize_ranges (map entry_range match)))) clamped = Inr parts"
    and gs: "gs = concat parts" by (auto simp: missing_source_segments_def Let_def result_simps)
  have "list_all valid_range (map entry_range match)" using ok(2) by (simp add: list_all_iff)
  note known = normalize_ok [OF this]
  have "list_all2 (\<lambda>s gs. segment_lines path gs = lines_of (sel_range s) - entry_lines match \<and>
      (\<forall>g \<in> set gs. seg_path g = path \<and> exact_segment snap g)) clamped parts"
  proof (rule list.rel_mono_strong [OF parts [THEN mapE_eq_Inr [THEN iffD1]]])
    fix s gs
    assume "s \<in> set clamped"
    then have "list_all valid_range [sel_range s]" using ok(1) by (simp add: list_all_iff)
    moreover have "list_all valid_range (normalize_ranges (map entry_range match))" using known(2) by (simp add: canonical_ranges_def)
    ultimately have sub: "covered (subtract_ranges [sel_range s] (normalize_ranges (map entry_range match))) =
        lines_of (sel_range s) - entry_lines match"
      using subtract_ok(1) known(1) by (simp add: entry_ranges_covered)
    assume "mapE (source_segment path snap (sel_category s) (sel_reason s) (sel_symbols s) (sel_provenance s))
        (subtract_ranges [sel_range s] (normalize_ranges (map entry_range match))) = Inr gs"
    from source_segments_cover [OF this] sub show "segment_lines path gs = lines_of (sel_range s) - entry_lines match \<and>
        (\<forall>g \<in> set gs. seg_path g = path \<and> exact_segment snap g)" by simp
  qed
  from segments_of_parts [where f = "\<lambda>gs. gs", OF this] show "segment_lines path gs = covered (map sel_range clamped) - entry_lines match"
    "\<forall>g \<in> set gs. seg_path g = path \<and> exact_segment snap g" by (simp_all add: gs)
qed

lemma full_source_segments_cover:
  assumes "full_source_segments path clamped snap = Inr gs"
  shows "segment_lines path gs = covered (map sel_range clamped)" "\<forall>g \<in> set gs. seg_path g = path \<and> exact_segment snap g"
proof -
  have "list_all2 (\<lambda>s g. source_segment path snap (sel_category s) (sel_reason s) (sel_symbols s) (sel_provenance s) (sel_range s) = Inr g)
      clamped gs" using assms by (simp add: full_source_segments_def mapE_eq_Inr)
  then have "list_all2 (\<lambda>s g. seg_path g = path \<and> {seg_start g..seg_end g} = lines_of (sel_range s) \<and> exact_segment snap g) clamped gs"
  proof (rule list.rel_mono_strong)
    fix s g
    assume "source_segment path snap (sel_category s) (sel_reason s) (sel_symbols s) (sel_provenance s) (sel_range s) = Inr g"
    note g = source_segmentE [OF this]
    show "seg_path g = path \<and> {seg_start g..seg_end g} = lines_of (sel_range s) \<and> exact_segment snap g"
      by (simp add: g lines_of_def)
  qed
  then have "segment_lines path gs = covered (map sel_range clamped) \<and> (\<forall>g \<in> set gs. seg_path g = path \<and> exact_segment snap g)"
    by (induction rule: list_all2_induct) auto
  then show "segment_lines path gs = covered (map sel_range clamped)" "\<forall>g \<in> set gs. seg_path g = path \<and> exact_segment snap g"
    by simp_all
qed

lemma plan_path_cover:
  assumes run: "plan_path udiff reader ss (filter is_known prior) path = Inr part" and read: "reader path = Inr snap"
    and ok: "\<forall>s \<in> set ss. valid_range (sel_range s)" "\<forall>e \<in> set prior. valid_range (entry_range e)"
  shows "segment_lines path (plan_segments part) = requested_lines (snap_line_count snap) path ss -
      subtracted_lines snap (path_priors path prior) \<and>
    (\<forall>g \<in> set (plan_segments part). seg_path g = path \<and> seg_hash g = snap_hash snap \<and> seg_start g \<le> seg_end g)"
proof -
  define mine where "mine = path_priors path prior"
  define stale where "stale = filter (\<lambda>e. entry_hash e \<noteq> snap_hash snap) mine"
  define match where "match = filter (\<lambda>e. entry_hash e = snap_hash snap) mine"
  have mine: "filter (\<lambda>e. entry_path e = path) (filter is_known prior) = mine" by (simp only: mine_def path_priors_def)
  from run read obtain clamped where
    clamped: "mapE (clamp_selection (snap_line_count snap)) (filter (\<lambda>s. sel_path s = path) ss) = Inr clamped"
    and part: "(if stale = [] then bindE (if match = [] then full_source_segments path clamped snap
          else missing_source_segments path clamped match snap)
          (\<lambda>segments. Inr \<lparr>plan_segments = segments, plan_notices = [], plan_deletions = [], plan_unmappable = []\<rparr>)
        else plan_changed_path udiff path clamped stale snap) = Inr part"
    by (auto simp: plan_path_def result_simps Let_def mine stale_def [symmetric] match_def [symmetric] simp del: filter_filter cong: if_cong)
  note c = clampedE [OF clamped ok(1)]
  have mv: "\<forall>e \<in> set match. valid_range (entry_range e)" using ok(2) by (auto simp: match_def mine_def path_priors_def)
  show ?thesis
  proof (cases "stale = []")
    case True
    then have all: "\<forall>e \<in> set mine. entry_hash e = snap_hash snap" by (simp add: stale_def filter_empty_conv)
    then have "match = mine" by (simp add: match_def)
    moreover from True part obtain gs where "plan_segments part = gs"
      and "(if match = [] then full_source_segments path clamped snap else missing_source_segments path clamped match snap) = Inr gs"
      by (auto simp: result_simps)
    ultimately have "segment_lines path gs = covered (map sel_range clamped) - entry_lines mine \<and>
        (\<forall>g \<in> set gs. seg_path g = path \<and> exact_segment snap g)"
      using full_source_segments_cover [of path clamped snap gs] missing_source_segments_cover [OF _ c(2) mv, of path snap gs]
      by (cases "match = []") (simp_all add: entry_lines_def)
    with exact_segment_order [of snap] all c(1) \<open>plan_segments part = gs\<close> show ?thesis
      by (simp add: mine_def [symmetric] subtracted_lines_def)
  next
    case False
    then have not_all: "\<not> (\<forall>e \<in> set mine. entry_hash e = snap_hash snap)" by (auto simp: stale_def filter_empty_conv)
    from False part obtain parts where parts: "mapE (plan_changed udiff path stale snap) clamped = Inr parts"
      and segs: "plan_segments part = concat (map (plan_segments \<circ> fst) parts)"
      by (auto simp: plan_changed_path_def Let_def result_simps)
    have "list_all2 (\<lambda>s p. segment_lines path ((plan_segments \<circ> fst) p) = lines_of (sel_range s) - {} \<and>
        (\<forall>g \<in> set ((plan_segments \<circ> fst) p). seg_path g = path \<and> seg_hash g = snap_hash snap \<and> seg_start g \<le> seg_end g)) clamped parts"
    proof (rule list.rel_mono_strong [OF parts [THEN mapE_eq_Inr [THEN iffD1]]])
      fix s p
      assume "plan_changed udiff path stale snap s = Inr p"
      with plan_changed_cover [of udiff path stale snap s "fst p" "snd p"]
      show "segment_lines path ((plan_segments \<circ> fst) p) = lines_of (sel_range s) - {} \<and>
        (\<forall>g \<in> set ((plan_segments \<circ> fst) p). seg_path g = path \<and> seg_hash g = snap_hash snap \<and> seg_start g \<le> seg_end g)" by simp
    qed
    from segments_of_parts [OF this] not_all c(1) show ?thesis
      by (simp add: segs mine_def [symmetric] subtracted_lines_def comp_def) blast
  qed
qed

text \<open>The parts of all paths together: a path's lines come from its own part.\<close>

lemma collect_paths:
  assumes "list_all2 (\<lambda>q part. segment_lines q (f part) = L q \<and> (\<forall>g \<in> set (f part). seg_path g = q \<and> P q g)) paths parts"
  shows "segment_lines p (concat (map f parts)) = (if p \<in> set paths then L p else {})"
    "\<forall>g \<in> set (concat (map f parts)). P (seg_path g) g"
proof -
  have other: "segment_lines p gs = {}" if "\<forall>g \<in> set gs. seg_path g = q \<and> P q g" "q \<noteq> p" for gs q
    using that by (auto simp: segment_lines_def)
  have "segment_lines p (concat (map f parts)) = (if p \<in> set paths then L p else {}) \<and>
      (\<forall>g \<in> set (concat (map f parts)). P (seg_path g) g)"
    unfolding segment_lines_concat using assms
  proof (induction rule: list_all2_induct)
    case (Cons q qs part parts)
    then show ?case using other [of "f part" q] by (cases "q = p") auto
  qed simp
  then show "segment_lines p (concat (map f parts)) = (if p \<in> set paths then L p else {})"
    "\<forall>g \<in> set (concat (map f parts)). P (seg_path g) g" by simp_all
qed

lemma segment_lines_sort [simp]: "segment_lines p (sort_key k gs) = segment_lines p gs"
  by (simp add: segment_lines_def)

lemma requested_lines_none: "p \<notin> sel_path ` set ss \<Longrightarrow> requested_lines n p ss = {}"
  by (auto simp: requested_lines_def)

section \<open>Properties\<close>

lemma assemble_cover:
  assumes run: "assemble_exact_evidence request ss prior reader = Inr (gs, ns)" and read: "reader p = Inr snap"
    and ok: "\<forall>s \<in> set ss. valid_range (sel_range s)" "\<forall>e \<in> set prior. valid_range (entry_range e)"
  shows "segment_lines p gs = requested_lines (snap_line_count snap) p ss - entry_lines (priors_for request p prior)"
    and "\<forall>g \<in> set gs. seg_path g = p \<longrightarrow> exact_segment snap g"
    and "p \<in> sel_path ` set ss \<Longrightarrow> covered (map overlapping (filter (\<lambda>n. changed_path n = p) ns)) =
      requested_lines (snap_line_count snap) p ss \<inter>
      entry_lines (filter (\<lambda>e. entry_hash e \<noteq> snap_hash snap) (priors_for request p prior))"
proof -
  let ?paths = "sort (unique (map sel_path ss))"
  from run obtain parts where parts: "mapE (assemble_path request ss prior reader) ?paths = Inr parts"
    and gs: "gs = sort_key select_key (concat (map fst parts))" and ns: "ns = unique (concat (map snd parts))"
    by (auto simp: assemble_exact_evidence_def result_simps)
  let ?L = "\<lambda>q. case reader q of Inl e \<Rightarrow> {} | Inr snap \<Rightarrow>
    requested_lines (snap_line_count snap) q ss - entry_lines (priors_for request q prior)"
  let ?N = "\<lambda>q. case reader q of Inl e \<Rightarrow> {} | Inr snap \<Rightarrow> requested_lines (snap_line_count snap) q ss \<inter>
    entry_lines (filter (\<lambda>e. entry_hash e \<noteq> snap_hash snap) (priors_for request q prior))"
  have each: "segment_lines q (fst part) = ?L q \<and>
      (\<forall>g \<in> set (fst part). seg_path g = q \<and> (\<forall>snap. reader q = Inr snap \<longrightarrow> exact_segment snap g)) \<and>
      covered (map overlapping (snd part)) = ?N q \<and> (\<forall>n \<in> set (snd part). changed_path n = q)"
    if part: "assemble_path request ss prior reader q = Inr part" for q part
  proof -
    obtain snap where "reader q = Inr snap" using part by (cases "reader q") (simp_all add: assemble_path_def)
    with assemble_path_cover [of request ss prior reader q "fst part" "snd part" snap] part ok show ?thesis by simp
  qed
  have all: "list_all2 (\<lambda>q part. assemble_path request ss prior reader q = Inr part) ?paths parts"
    using parts by (simp add: mapE_eq_Inr)
  have "list_all2 (\<lambda>q part. segment_lines q (fst part) = ?L q \<and>
      (\<forall>g \<in> set (fst part). seg_path g = q \<and> (\<forall>snap. reader q = Inr snap \<longrightarrow> exact_segment snap g))) ?paths parts"
    by (rule list.rel_mono_strong [OF all]) (use each in blast)
  note c = collect_paths(1) [OF this, of p] collect_paths(2) [OF this]
  show "segment_lines p gs = requested_lines (snap_line_count snap) p ss - entry_lines (priors_for request p prior)"
    using c(1) read requested_lines_none [of p ss "snap_line_count snap"] by (auto simp: gs)
  show "\<forall>g \<in> set gs. seg_path g = p \<longrightarrow> exact_segment snap g" using c(2) read by (auto simp: gs)
  assume p: "p \<in> sel_path ` set ss"
  have "list_all2 (\<lambda>q part. covered (map overlapping (filter (\<lambda>n. changed_path n = p) (snd part))) = (if q = p then ?N q else {}))
      ?paths parts"
  proof (rule list.rel_mono_strong [OF all])
    fix q part
    assume "assemble_path request ss prior reader q = Inr part"
    with each have e: "covered (map overlapping (snd part)) = ?N q" "\<forall>n \<in> set (snd part). changed_path n = q" by blast+
    then have "filter (\<lambda>n. changed_path n = p) (snd part) = (if q = p then snd part else [])"
      by (auto simp: filter_empty_conv filter_id_conv)
    with e show "covered (map overlapping (filter (\<lambda>n. changed_path n = p) (snd part))) = (if q = p then ?N q else {})" by simp
  qed
  then have "covered (map overlapping (filter (\<lambda>n. changed_path n = p) (concat (map snd parts)))) = (if p \<in> set ?paths then ?N p else {})"
    by (induction rule: list_all2_induct) auto
  moreover have "covered (map overlapping (filter (\<lambda>n. changed_path n = p) (unique ms))) =
      covered (map overlapping (filter (\<lambda>n. changed_path n = p) ms))"
    for ms :: "changed_notice list" by (simp add: covered_def)
  ultimately show "covered (map overlapping (filter (\<lambda>n. changed_path n = p) ns)) = requested_lines (snap_line_count snap) p ss \<inter>
      entry_lines (filter (\<lambda>e. entry_hash e \<noteq> snap_hash snap) (priors_for request p prior))"
    using p read by (simp add: ns)
qed

text \<open>what the exact-evidence kernel sends. For every selected file it sends exactly the requested lines that exist in the
  file and that no relevant prior evidence holds, as excerpts of the file as it is now; and the lines it leaves out
  although the evidence for them is stale are exactly the ones its notices name. So every requested line is
  sent, known unchanged, or noticed as changed, and no known line is sent again.
\<close>

theorem exact_evidence_covers:
  assumes "assemble_exact_evidence request ss prior reader = Inr (gs, ns)" and "reader p = Inr snap" and "p \<in> sel_path ` set ss"
    and "\<forall>s \<in> set ss. valid_range (sel_range s)" "\<forall>e \<in> set prior. valid_range (entry_range e)"
  shows "segment_lines p gs = requested_lines (snap_line_count snap) p ss - entry_lines (priors_for request p prior) \<and>
    (\<forall>g \<in> set gs. seg_path g = p \<longrightarrow> exact_segment snap g) \<and>
    covered (map overlapping (filter (\<lambda>n. changed_path n = p) ns)) = requested_lines (snap_line_count snap) p ss \<inter>
      entry_lines (filter (\<lambda>e. entry_hash e \<noteq> snap_hash snap) (priors_for request p prior))"
  using assemble_cover [OF assms(1,2,4,5)] assms(3) by blast

lemma plan_cover:
  assumes run: "plan_evidence udiff ss prior reader = Inr plan" and read: "reader p = Inr snap"
    and ok: "\<forall>s \<in> set ss. valid_range (sel_range s)" "\<forall>e \<in> set prior. valid_range (entry_range e)"
  shows "segment_lines p (plan_segments plan) = (if p \<in> sel_path ` set ss
      then requested_lines (snap_line_count snap) p ss - subtracted_lines snap (path_priors p prior) else {}) \<and>
    (\<forall>g \<in> set (plan_segments plan). seg_start g \<le> seg_end g \<and> (seg_path g = p \<longrightarrow> seg_hash g = snap_hash snap))"
proof -
  let ?paths = "sort (unique (map sel_path ss))"
  from run obtain parts where parts: "mapE (plan_path udiff reader ss (filter is_known prior)) ?paths = Inr parts"
    and gs: "plan_segments plan = sort_key plan_key (concat (map plan_segments parts))"
    by (auto simp: plan_evidence_def result_simps Let_def)
  let ?L = "\<lambda>q. case reader q of Inl e \<Rightarrow> {} | Inr snap \<Rightarrow>
    requested_lines (snap_line_count snap) q ss - subtracted_lines snap (path_priors q prior)"
  have each: "segment_lines q (plan_segments part) = ?L q \<and>
      (\<forall>g \<in> set (plan_segments part). seg_path g = q \<and> seg_start g \<le> seg_end g \<and> (\<forall>snap. reader q = Inr snap \<longrightarrow> seg_hash g = snap_hash snap))"
    if part: "plan_path udiff reader ss (filter is_known prior) q = Inr part" for q part
  proof -
    obtain snap where "reader q = Inr snap" using part by (cases "reader q") (simp_all add: plan_path_def)
    with plan_path_cover [OF part this ok] show ?thesis by simp
  qed
  have "list_all2 (\<lambda>q part. plan_path udiff reader ss (filter is_known prior) q = Inr part) ?paths parts"
    using parts by (simp add: mapE_eq_Inr)
  then have "list_all2 (\<lambda>q part. segment_lines q (plan_segments part) = ?L q \<and>
      (\<forall>g \<in> set (plan_segments part). seg_path g = q \<and> seg_start g \<le> seg_end g \<and> (\<forall>snap. reader q = Inr snap \<longrightarrow> seg_hash g = snap_hash snap))) ?paths parts"
    by (rule list.rel_mono_strong) (use each in blast)
  from collect_paths(1) [OF this, of p] collect_paths(2) [OF this] read show ?thesis by (auto simp: gs)
qed

text \<open>
  C34: what the plan against the ledger sends. For every selected file it sends the requested lines that exist; it leaves out
  the lines the ledger knows only when everything the ledger knows of the file is current. One stale entry is enough for
  every selection of the file to be sent again, also the lines that were supplied with the current hash.
\<close>

theorem plan_evidence_covers:
  assumes "plan_evidence udiff ss prior reader = Inr plan" and "reader p = Inr snap" and "p \<in> sel_path ` set ss"
    and "\<forall>s \<in> set ss. valid_range (sel_range s)" "\<forall>e \<in> set prior. valid_range (entry_range e)"
  shows "segment_lines p (plan_segments plan) = requested_lines (snap_line_count snap) p ss -
      (if \<forall>e \<in> set (path_priors p prior). entry_hash e = snap_hash snap then entry_lines (path_priors p prior) else {}) \<and>
    (\<forall>g \<in> set (plan_segments plan). seg_path g = p \<longrightarrow> seg_hash g = snap_hash snap)"
  using plan_cover [OF assms(1,2,4,5)] assms(3) unfolding subtracted_lines_def by auto

section \<open>A file with known and stale lines\<close>

definition sample_reader :: "string \<Rightarrow> exn + source_snapshot" where
  "sample_reader p = (if p = ''a'' then Inr \<lparr>snap_text = ''x'' @ newline @ ''y'' @ newline @ ''z'', snap_hash = ''new'', snap_line_count = 3\<rparr>
     else Inl (ValueError []))"

definition sample_selection :: selected_range where
  "sample_selection = \<lparr>sel_path = ''a'', sel_range = rg 1 3, sel_category = EditTarget, sel_reason = [], sel_symbols = [],
     sel_provenance = None\<rparr>"

definition sample_entry :: "string \<Rightarrow> int \<Rightarrow> ledger_entry" where
  "sample_entry h n = \<lparr>entry_recipient = ''r'', entry_repository = ''/'', entry_worktree = ''/'', entry_hash = h, entry_path = ''a'',
     entry_start = n, entry_end = n, entry_session = None, entry_conversation = None, entry_supplied = True, entry_content = None,
     entry_category = None, entry_kind = SourcePayload, entry_status = Some Supplied, entry_delivery = None, entry_id = None,
     entry_text = Some ''w''\<rparr>"

definition sample_context :: context_request where
  "sample_context = \<lparr>request_recipient = ''r'', request_repository = ''/'', request_worktree = ''/'', request_session = None,
     request_conversation = None\<rparr>"

definition returned :: "exn + 'a \<Rightarrow> bool" where
  "returned m = (case m of Inl _ \<Rightarrow> False | Inr _ \<Rightarrow> True)"

lemma returnedE: "returned m \<Longrightarrow> (\<And>x. m = Inr x \<Longrightarrow> thesis) \<Longrightarrow> thesis"
  by (cases m) (simp_all add: returned_def)

lemma sample_runs:
  "returned (assemble_exact_evidence sample_context [sample_selection] [sample_entry ''new'' 2, sample_entry ''old'' 3] sample_reader)"
  "returned (plan_evidence (\<lambda>_ _. []) [sample_selection] [sample_entry ''new'' 2, sample_entry ''old'' 3] sample_reader)"
  by code_simp+

lemma sample_valid:
  "\<forall>s \<in> set [sample_selection]. valid_range (sel_range s)"
  "\<forall>e \<in> set [sample_entry ''new'' 2, sample_entry ''old'' 3]. valid_range (entry_range e)"
  "sample_reader ''a'' = Inr \<lparr>snap_text = ''x'' @ newline @ ''y'' @ newline @ ''z'', snap_hash = ''new'', snap_line_count = 3\<rparr>"
  by (simp_all add: sample_selection_def sample_entry_def entry_range_def rg_def valid_range_def sample_reader_def)

lemma sample_lines:
  "requested_lines 3 ''a'' [sample_selection] = {1..3}"
  "entry_lines (priors_for sample_context ''a'' [sample_entry ''new'' 2, sample_entry ''old'' 3]) = {2, 3}"
  "entry_lines (filter (\<lambda>e. entry_hash e \<noteq> ''new'') (priors_for sample_context ''a'' [sample_entry ''new'' 2, sample_entry ''old'' 3])) = {3}"
  "path_priors ''a'' [sample_entry ''new'' 2, sample_entry ''old'' 3] = [sample_entry ''new'' 2, sample_entry ''old'' 3]"
  by (auto simp: requested_lines_def sample_selection_def rg_def lines_of_def entry_lines_def priors_for_def belongs_to_request_def
      sample_context_def sample_entry_def is_known_def entry_range_def path_priors_def)

theorem exact_evidence_covers_witness:
  "\<exists>gs ns. assemble_exact_evidence sample_context [sample_selection] [sample_entry ''new'' 2, sample_entry ''old'' 3] sample_reader =
       Inr (gs, ns) \<and> segment_lines ''a'' gs = {1} \<and> covered (map overlapping (filter (\<lambda>n. changed_path n = ''a'') ns)) = {3}"
proof -
  obtain gs ns where run: "assemble_exact_evidence sample_context [sample_selection] [sample_entry ''new'' 2, sample_entry ''old'' 3]
      sample_reader = Inr (gs, ns)" using sample_runs(1) by (auto elim: returnedE)
  have "''a'' \<in> sel_path ` set [sample_selection]" by (simp add: sample_selection_def)
  note e = exact_evidence_covers [OF run sample_valid(3) this sample_valid(1,2)]
  have "{1..3} - {2, 3} = {1 :: int}" "{1..3} \<inter> {3} = {3 :: int}" by auto
  with e sample_lines run show ?thesis by auto
qed

theorem plan_evidence_covers_witness:
  "\<exists>plan. plan_evidence (\<lambda>_ _. []) [sample_selection] [sample_entry ''new'' 2, sample_entry ''old'' 3] sample_reader = Inr plan \<and>
     segment_lines ''a'' (plan_segments plan) = {1..3}"
proof -
  obtain plan where run: "plan_evidence (\<lambda>_ _. []) [sample_selection] [sample_entry ''new'' 2, sample_entry ''old'' 3] sample_reader =
      Inr plan" using sample_runs(2) by (rule returnedE)
  have "''a'' \<in> sel_path ` set [sample_selection]" by (simp add: sample_selection_def)
  note e = plan_evidence_covers [OF run sample_valid(3) this sample_valid(1,2)]
  have "entry_hash (sample_entry ''old'' 3) \<noteq> ''new''" by (simp add: sample_entry_def)
  with e run sample_lines(1,4) show ?thesis by simp
qed

section \<open>Planning again\<close>

lemma mapE_returns: "\<forall>x \<in> set xs. \<exists>y. f x = Inr y \<Longrightarrow> \<exists>ys. mapE f xs = Inr ys"
  by (induction xs) auto

lemma mapE_defined: "mapE f xs = Inr ys \<Longrightarrow> x \<in> set xs \<Longrightarrow> \<exists>y. f x = Inr y"
  by (induction xs arbitrary: ys) (auto simp: result_simps)

lemma source_segment_returns:
  assumes "valid_range r" and "end_line r \<le> count_source_lines (snap_text snap)"
  shows "\<exists>g. source_segment path snap cat why syms prov r = Inr g"
  using assms
  by (auto simp: source_segment_def extract_source_slice_def valid_range_def count_source_lines_def Let_def split: if_splits)

lemma plan_path_returns:
  assumes run: "plan_path udiff reader ss (filter is_known prior) path = Inr part" and reader: "faithful_reader reader"
    and ok: "\<forall>s \<in> set ss. valid_range (sel_range s)" "\<forall>e \<in> set prior'. valid_range (entry_range e)"
    and current: "\<And>snap. reader path = Inr snap \<Longrightarrow> \<forall>e \<in> set (path_priors path prior'). entry_hash e = snap_hash snap"
  shows "\<exists>part'. plan_path udiff reader ss (filter is_known prior') path = Inr part'"
proof -
  obtain snap where read: "reader path = Inr snap" using run by (cases "reader path") (simp_all add: plan_path_def)
  with run obtain clamped where
    clamped: "mapE (clamp_selection (snap_line_count snap)) (filter (\<lambda>s. sel_path s = path) ss) = Inr clamped"
    by (auto simp: plan_path_def result_simps Let_def)
  define match where "match = path_priors path prior'"
  have mine: "filter (\<lambda>e. entry_path e = path) (filter is_known prior') = match" by (simp only: match_def path_priors_def)
  have hashes: "\<forall>e \<in> set match. entry_hash e = snap_hash snap" using current [OF read] by (simp add: match_def)
  then have parts: "filter (\<lambda>e. entry_hash e = snap_hash snap) match = match" "filter (\<lambda>e. entry_hash e \<noteq> snap_hash snap) match = []"
    by (simp_all add: filter_id_conv filter_empty_conv)
  have mv: "list_all valid_range (map entry_range match)" using ok(2) by (auto simp: match_def path_priors_def list_all_iff)
  note c = clampedE [OF clamped ok(1)] and known = normalize_ok [OF mv]
  have count: "snap_line_count snap = count_source_lines (snap_text snap)" using reader read by (simp add: faithful_reader_def)
  have "\<exists>gs. (if match = [] then full_source_segments path clamped snap else missing_source_segments path clamped match snap) = Inr gs"
  proof (cases "match = []")
    case True
    have "\<forall>s \<in> set clamped. \<exists>g. source_segment path snap (sel_category s) (sel_reason s) (sel_symbols s) (sel_provenance s) (sel_range s) = Inr g"
      using c(2,3) count by (auto simp: list_all_iff intro!: source_segment_returns)
    from mapE_returns [OF this] True show ?thesis by (simp add: full_source_segments_def)
  next
    case False
    have "\<exists>gs. mapE (source_segment path snap (sel_category s) (sel_reason s) (sel_symbols s) (sel_provenance s))
        (subtract_ranges [sel_range s] (normalize_ranges (map entry_range match))) = Inr gs" if s: "s \<in> set clamped" for s
    proof (intro mapE_returns ballI)
      fix r
      assume r: "r \<in> set (subtract_ranges [sel_range s] (normalize_ranges (map entry_range match)))"
      have v: "list_all valid_range [sel_range s]" "list_all valid_range (normalize_ranges (map entry_range match))"
        using c(2) s known(2) by (simp_all add: list_all_iff canonical_ranges_def)
      note sub = subtract_ok [OF v]
      have vr: "valid_range r" using r sub(2) by (auto simp: canonical_ranges_def list_all_iff)
      then have "end_line r \<in> covered (subtract_ranges [sel_range s] (normalize_ranges (map entry_range match)))"
        using r by (auto simp: covered_def lines_of_def valid_range_def)
      then have "end_line r \<le> end_line (sel_range s)" by (simp add: sub(1) lines_of_def)
      also have "\<dots> \<le> count_source_lines (snap_text snap)" using c(3) s count by simp
      finally show "\<exists>g. source_segment path snap (sel_category s) (sel_reason s) (sel_symbols s) (sel_provenance s) r = Inr g"
        by (rule source_segment_returns [OF vr])
    qed
    then have "\<forall>s \<in> set clamped. \<exists>gs. mapE (source_segment path snap (sel_category s) (sel_reason s) (sel_symbols s)
        (sel_provenance s)) (subtract_ranges [sel_range s] (normalize_ranges (map entry_range match))) = Inr gs" by simp
    from mapE_returns [OF this] obtain gss where "mapE (\<lambda>s. mapE (source_segment path snap (sel_category s) (sel_reason s)
        (sel_symbols s) (sel_provenance s)) (subtract_ranges [sel_range s] (normalize_ranges (map entry_range match)))) clamped = Inr gss"
      by blast
    with False show ?thesis by (simp add: missing_source_segments_def Let_def)
  qed
  then show ?thesis using read clamped parts by (auto simp: plan_path_def Let_def mine simp del: filter_filter cong: if_cong)
qed

lemma plan_segment_path:
  assumes run: "plan_evidence udiff ss prior reader = Inr plan" and g: "g \<in> set (plan_segments plan)"
    and ok: "\<forall>s \<in> set ss. valid_range (sel_range s)" "\<forall>e \<in> set prior. valid_range (entry_range e)"
  shows "\<exists>snap. seg_path g \<in> sel_path ` set ss \<and> reader (seg_path g) = Inr snap"
proof -
  from run obtain parts where parts: "mapE (plan_path udiff reader ss (filter is_known prior)) (sort (unique (map sel_path ss))) = Inr parts"
    and gs: "plan_segments plan = sort_key plan_key (concat (map plan_segments parts))"
    by (auto simp: plan_evidence_def result_simps Let_def)
  from g gs obtain part where part: "part \<in> set parts" "g \<in> set (plan_segments part)" by auto
  with mapE_set [OF parts] obtain q where q: "q \<in> sel_path ` set ss" "plan_path udiff reader ss (filter is_known prior) q = Inr part" by auto
  obtain snap where "reader q = Inr snap" using q(2) by (cases "reader q") (simp_all add: plan_path_def)
  with plan_path_cover [OF q(2) this ok] part(2) q(1) show ?thesis by auto
qed

text \<open>Once the recipient holds every requested line of every selected file in its current version, planning returns
  and has nothing left to send.\<close>

lemma plan_nothing_left:
  assumes run: "plan_evidence udiff ss prior reader = Inr plan" and reader: "faithful_reader reader"
    and ok: "\<forall>s \<in> set ss. valid_range (sel_range s)" "\<forall>e \<in> set prior'. valid_range (entry_range e)"
    and current: "\<And>p snap. p \<in> sel_path ` set ss \<Longrightarrow> reader p = Inr snap \<Longrightarrow>
      (\<forall>e \<in> set (path_priors p prior'). entry_hash e = snap_hash snap) \<and>
      requested_lines (snap_line_count snap) p ss \<subseteq> entry_lines (path_priors p prior')"
  shows "\<exists>plan'. plan_evidence udiff ss prior' reader = Inr plan' \<and> plan_segments plan' = []"
proof -
  let ?paths = "sort (unique (map sel_path ss))"
  from run obtain parts where parts: "mapE (plan_path udiff reader ss (filter is_known prior)) ?paths = Inr parts"
    by (auto simp: plan_evidence_def result_simps Let_def)
  have "\<forall>p \<in> set ?paths. \<exists>part. plan_path udiff reader ss (filter is_known prior') p = Inr part"
  proof
    fix p
    assume p: "p \<in> set ?paths"
    with mapE_defined [OF parts] obtain part where part: "plan_path udiff reader ss (filter is_known prior) p = Inr part" by blast
    show "\<exists>part. plan_path udiff reader ss (filter is_known prior') p = Inr part"
      using plan_path_returns [OF part reader ok] current p by simp
  qed
  from mapE_returns [OF this] obtain plan' where plan': "plan_evidence udiff ss prior' reader = Inr plan'"
    by (auto simp: plan_evidence_def Let_def)
  have "g \<notin> set (plan_segments plan')" for g
  proof
    assume g: "g \<in> set (plan_segments plan')"
    from plan_segment_path [OF plan' g ok] obtain snap where p: "seg_path g \<in> sel_path ` set ss" and read: "reader (seg_path g) = Inr snap"
      by blast
    note now = current [OF p read]
    note cover = plan_cover [OF plan' read ok]
    have "segment_lines (seg_path g) (plan_segments plan') = {}" using cover p now by (auto simp: subtracted_lines_def)
    moreover have "seg_start g \<in> segment_lines (seg_path g) (plan_segments plan')"
      using conjunct2 [OF cover] g unfolding segment_lines_def by auto
    ultimately show False by simp
  qed
  then show ?thesis using plan' by (metis list.set_intros(1) neq_Nil_conv)
qed

end
