(* ===== verification/EvidenceLedger.thy ===== *)
theory EvidenceLedger
  imports Evidence "HOL-Library.Multiset"
begin

text \<open>
  The evidence ledger, \<open>murder/context_compiler/persistence/evidence_ledger.py\<close>: entries are prepared, and become known
  only when their delivery is confirmed. Times have the resolution of a second and are an argument;
  the delivery identifier is the \<open>uuid4\<close> behind its constant prefix. The foreign keys are
  enforced (\<open>open_context_index\<close> switches them on): an invariant. Lemmas: two-phase delivery, and that what was
  delivered is what a plan leaves out.
\<close>

section \<open>Tables\<close>

record evidence_scope =
  es_repository :: string
  es_worktree :: string
  es_recipient :: string
  es_session :: "string option"
  es_conversation :: "string option"

type_synonym scope_identity = "string \<times> string \<times> string \<times> string \<times> string"

record scope_row =
  sr_id :: nat
  sr_identity :: scope_identity
  sr_created :: time
  sr_seen :: time

record blob_row =
  blob_hash :: string
  blob_text :: string
  blob_lines :: int
  blob_created :: time

record ledger_row =
  lr_id :: nat
  lr_scope :: nat
  lr_delivery :: uuid
  lr_path :: string
  lr_start :: int
  lr_end :: int
  lr_source :: string
  lr_content :: string
  lr_category :: evidence_category
  lr_kind :: payload_kind
  lr_status :: ledger_status
  lr_prepared :: time
  lr_supplied :: "time option"

record ledger_db =
  evidence_scopes :: "scope_row list"
  evidence_blobs :: "blob_row list"
  ledger_rows :: "ledger_row list"
  next_scope_id :: nat
  next_entry_id :: nat
  ledger_draws :: nat

record ledger_draft =
  ld_path :: string
  ld_start :: int
  ld_end :: int
  ld_source :: string
  ld_text :: string
  ld_category :: evidence_category
  ld_kind :: payload_kind

definition max_evidence_blob_chars :: nat where
  "max_evidence_blob_chars = 64000"

section \<open>Scopes and blobs\<close>

definition norm_nullable :: "string option \<Rightarrow> string" where
  "norm_nullable v = (case v of None \<Rightarrow> [] | Some s \<Rightarrow> s)"

definition scope_identity_of :: "evidence_scope \<Rightarrow> scope_identity" where
  "scope_identity_of s = (es_repository s, es_worktree s, es_recipient s, norm_nullable (es_session s),
     norm_nullable (es_conversation s))"

definition find_scope_id :: "evidence_scope \<Rightarrow> ledger_db \<Rightarrow> nat option" where
  "find_scope_id s db = map_option sr_id (find (\<lambda>r. sr_identity r = scope_identity_of s) (evidence_scopes db))"

definition touch_scope :: "nat \<Rightarrow> time \<Rightarrow> ledger_db \<Rightarrow> ledger_db" where
  "touch_scope i now db = db\<lparr>evidence_scopes := update_where (\<lambda>r. sr_id r = i) (\<lambda>r. r\<lparr>sr_seen := now\<rparr>) (evidence_scopes db)\<rparr>"

definition get_or_create_scope :: "evidence_scope \<Rightarrow> time \<Rightarrow> ledger_db \<Rightarrow> nat \<times> ledger_db" where
  "get_or_create_scope s now db =
     (case find_scope_id s db of
        Some i \<Rightarrow> (i, touch_scope i now db)
      | None \<Rightarrow> (next_scope_id db, db\<lparr>evidence_scopes := evidence_scopes db @
          [\<lparr>sr_id = next_scope_id db, sr_identity = scope_identity_of s, sr_created = now, sr_seen = now\<rparr>],
          next_scope_id := Suc (next_scope_id db)\<rparr>))"

definition upsert_blob :: "string \<Rightarrow> string \<Rightarrow> time \<Rightarrow> ledger_db \<Rightarrow> ledger_db" where
  "upsert_blob h body now db =
     (if list_ex (\<lambda>b. blob_hash b = h) (evidence_blobs db) then db
      else db\<lparr>evidence_blobs := evidence_blobs db @
        [\<lparr>blob_hash = h, blob_text = body, blob_lines = count_source_lines body, blob_created = now\<rparr>]\<rparr>)"

definition gc_orphaned_blobs :: "ledger_db \<Rightarrow> ledger_db" where
  "gc_orphaned_blobs db = db\<lparr>evidence_blobs :=
     delete_where (\<lambda>b. \<not> list_ex (\<lambda>r. lr_content r = blob_hash b) (ledger_rows db)) (evidence_blobs db)\<rparr>"

section \<open>Deliveries\<close>

definition prepare_draft :: "(string \<Rightarrow> string) \<Rightarrow> nat \<Rightarrow> uuid \<Rightarrow> time \<Rightarrow> ledger_draft \<Rightarrow> ledger_db \<Rightarrow> exn + ledger_db" where
  "prepare_draft sha sid delivery now d db =
     (if max_evidence_blob_chars < length (ld_text d) then Inl (ValueError ''evidence blob exceeds MAX_EVIDENCE_BLOB_CHARS'')
      else
        let h = sha (ld_text d); db = upsert_blob h (ld_text d) now db in
        if ld_start d < 1 \<or> ld_end d < ld_start d then Inl IntegrityError
        else Inr (db\<lparr>ledger_rows := ledger_rows db @
          [\<lparr>lr_id = next_entry_id db, lr_scope = sid, lr_delivery = delivery, lr_path = ld_path d, lr_start = ld_start d,
            lr_end = ld_end d, lr_source = ld_source d, lr_content = h, lr_category = ld_category d, lr_kind = ld_kind d,
            lr_status = Prepared, lr_prepared = now, lr_supplied = None\<rparr>],
          next_entry_id := Suc (next_entry_id db)\<rparr>))"

definition prepare_entries :: "(string \<Rightarrow> string) \<Rightarrow> evidence_scope \<Rightarrow> ledger_draft list \<Rightarrow> time \<Rightarrow> ledger_db \<Rightarrow>
    exn + uuid \<times> ledger_db" where
  "prepare_entries sha s drafts now db =
     (if drafts = [] then Inl (ValueError ''prepare_entries requires at least one draft'')
      else
        let delivery = UUID4 (ledger_draws db); db = db\<lparr>ledger_draws := Suc (ledger_draws db)\<rparr>;
            (sid, db) = get_or_create_scope s now db
        in bindE (foldE (prepare_draft sha sid delivery now) drafts db) (\<lambda>db. Inr (delivery, db)))"

definition mark_supplied :: "uuid \<Rightarrow> time \<Rightarrow> ledger_db \<Rightarrow> ledger_db" where
  "mark_supplied d now db = db\<lparr>ledger_rows := update_where (\<lambda>r. lr_delivery r = d \<and> lr_status r = Prepared)
     (\<lambda>r. r\<lparr>lr_status := Supplied, lr_supplied := Some now\<rparr>) (ledger_rows db)\<rparr>"

definition mark_abandoned :: "uuid \<Rightarrow> ledger_db \<Rightarrow> ledger_db" where
  "mark_abandoned d db = gc_orphaned_blobs (db\<lparr>ledger_rows := update_where (\<lambda>r. lr_delivery r = d \<and> lr_status r = Prepared)
     (\<lambda>r. r\<lparr>lr_status := Abandoned\<rparr>) (ledger_rows db)\<rparr>)"

definition nullable :: "string \<Rightarrow> string option" where
  "nullable s = (if s = [] then None else Some s)"

definition row_to_entry :: "ledger_row \<Rightarrow> string \<Rightarrow> scope_identity \<Rightarrow> ledger_entry" where
  "row_to_entry r body identity = (case identity of (repo, worktree, recipient, session, conversation) \<Rightarrow>
     \<lparr>entry_recipient = recipient, entry_repository = repo, entry_worktree = worktree, entry_hash = lr_source r,
      entry_path = lr_path r, entry_start = lr_start r, entry_end = lr_end r, entry_session = nullable session,
      entry_conversation = nullable conversation, entry_supplied = (lr_status r = Supplied), entry_content = Some (lr_content r),
      entry_category = Some (lr_category r), entry_kind = lr_kind r, entry_status = Some (lr_status r),
      entry_delivery = Some (lr_delivery r), entry_id = Some (int (lr_id r)), entry_text = Some body\<rparr>)"

text \<open>The join with the blob and the scope of a row.\<close>

definition join_entry :: "ledger_db \<Rightarrow> ledger_row \<Rightarrow> ledger_entry option" where
  "join_entry db r =
     (case find (\<lambda>b. blob_hash b = lr_content r) (evidence_blobs db) of None \<Rightarrow> None
      | Some b \<Rightarrow> (case find (\<lambda>s. sr_id s = lr_scope r) (evidence_scopes db) of None \<Rightarrow> None
        | Some s \<Rightarrow> Some (row_to_entry r (blob_text b) (sr_identity s))))"

definition load_supplied :: "evidence_scope \<Rightarrow> time \<Rightarrow> ledger_db \<Rightarrow> ledger_entry list \<times> ledger_db" where
  "load_supplied s now db =
     (case find_scope_id s db of
        None \<Rightarrow> ([], db)
      | Some i \<Rightarrow> let db = touch_scope i now db in
          (List.map_filter (join_entry db) (sort_key (\<lambda>r. (lr_path r, lr_start r, lr_id r))
             (filter (\<lambda>r. lr_scope r = i \<and> lr_status r = Supplied) (ledger_rows db))), db))"

section \<open>Cleaning up\<close>

definition delete_scope :: "nat \<Rightarrow> int \<times> ledger_db \<Rightarrow> int \<times> ledger_db" where
  "delete_scope i = (\<lambda>(n, db).
     (n + int (count_where (\<lambda>r. lr_scope r = i) (ledger_rows db)),
      db\<lparr>ledger_rows := delete_where (\<lambda>r. lr_scope r = i) (ledger_rows db),
         evidence_scopes := delete_where (\<lambda>s. sr_id s = i) (evidence_scopes db)\<rparr>))"

definition delete_scopes :: "nat list \<Rightarrow> ledger_db \<Rightarrow> int \<times> ledger_db" where
  "delete_scopes is db = (case fold delete_scope is (0, db) of (n, db) \<Rightarrow> (n, gc_orphaned_blobs db))"

definition cleanup_scope :: "evidence_scope \<Rightarrow> ledger_db \<Rightarrow> int \<times> ledger_db" where
  "cleanup_scope s db = (case find_scope_id s db of None \<Rightarrow> (0, db) | Some i \<Rightarrow> delete_scopes [i] db)"

definition cleanup_session :: "string \<Rightarrow> ledger_db \<Rightarrow> int \<times> ledger_db" where
  "cleanup_session session db = delete_scopes (map sr_id
     (filter (\<lambda>s. case sr_identity s of (_, _, _, t, _) \<Rightarrow> t = session) (evidence_scopes db))) db"

definition cleanup_repository :: "string \<Rightarrow> ledger_db \<Rightarrow> int \<times> ledger_db" where
  "cleanup_repository root db = delete_scopes (map sr_id
     (filter (\<lambda>s. case sr_identity s of (r, _) \<Rightarrow> r = root) (evidence_scopes db))) db"

definition cleanup_abandoned_deliveries :: "ledger_db \<Rightarrow> int \<times> ledger_db" where
  "cleanup_abandoned_deliveries db =
     (int (count_where (\<lambda>r. lr_status r = Abandoned) (ledger_rows db)),
      gc_orphaned_blobs (db\<lparr>ledger_rows := delete_where (\<lambda>r. lr_status r = Abandoned) (ledger_rows db)\<rparr>))"

definition drafts_from_segments :: "evidence_segment list \<Rightarrow> ledger_draft list" where
  "drafts_from_segments gs = map (\<lambda>g. \<lparr>ld_path = seg_path g, ld_start = seg_start g, ld_end = seg_end g, ld_source = seg_hash g,
     ld_text = seg_text g, ld_category = seg_category g, ld_kind = seg_kind g\<rparr>) gs"

section \<open>The invariant of the ledger\<close>

definition ledger_inv :: "(string \<Rightarrow> string) \<Rightarrow> ledger_db \<Rightarrow> bool" where
  "ledger_inv sha db \<longleftrightarrow>
     distinct (map sr_id (evidence_scopes db)) \<and> distinct (map sr_identity (evidence_scopes db)) \<and>
     (\<forall>i \<in> set (map sr_id (evidence_scopes db)). i < next_scope_id db) \<and>
     distinct (map blob_hash (evidence_blobs db)) \<and>
     (\<forall>b \<in> set (evidence_blobs db). blob_hash b = sha (blob_text b)) \<and>
     distinct (map lr_id (ledger_rows db)) \<and>
     (\<forall>r \<in> set (ledger_rows db). lr_id r < next_entry_id db \<and> 1 \<le> lr_start r \<and> lr_start r \<le> lr_end r \<and>
        (lr_status r = Supplied \<longrightarrow> lr_supplied r \<noteq> None) \<and>
        (\<exists>n < ledger_draws db. lr_delivery r = UUID4 n) \<and>
        lr_content r \<in> set (map blob_hash (evidence_blobs db)) \<and> lr_scope r \<in> set (map sr_id (evidence_scopes db)))"

inductive ledger_step :: "(string \<Rightarrow> string) \<Rightarrow> ledger_db \<Rightarrow> ledger_db \<Rightarrow> bool" for sha where
  prepared: "prepare_entries sha s drafts now db = Inr (d, db') \<Longrightarrow> ledger_step sha db db'"
| supplied: "ledger_step sha db (mark_supplied d now db)"
| given_up: "ledger_step sha db (mark_abandoned d db)"
| loaded: "ledger_step sha db (snd (load_supplied s now db))"
| scope_gone: "ledger_step sha db (snd (cleanup_scope s db))"
| session_gone: "ledger_step sha db (snd (cleanup_session t db))"
| repository_gone: "ledger_step sha db (snd (cleanup_repository t db))"
| swept: "ledger_step sha db (snd (cleanup_abandoned_deliveries db))"

lemma ledger_inv_cong:
  assumes "ledger_inv sha db" and "map sr_id (evidence_scopes db') = map sr_id (evidence_scopes db)"
    "map sr_identity (evidence_scopes db') = map sr_identity (evidence_scopes db)" "next_scope_id db' = next_scope_id db"
    "evidence_blobs db' = evidence_blobs db" "ledger_rows db' = ledger_rows db" "next_entry_id db' = next_entry_id db"
    "ledger_draws db \<le> ledger_draws db'"
  shows "ledger_inv sha db'"
  using assms(1,8) unfolding ledger_inv_def assms(2-7) by (meson less_le_trans)

lemma touch_scope_frame [simp]:
  "map sr_id (evidence_scopes (touch_scope i now db)) = map sr_id (evidence_scopes db)"
  "map sr_identity (evidence_scopes (touch_scope i now db)) = map sr_identity (evidence_scopes db)"
  "next_scope_id (touch_scope i now db) = next_scope_id db" "evidence_blobs (touch_scope i now db) = evidence_blobs db"
  "ledger_rows (touch_scope i now db) = ledger_rows db" "next_entry_id (touch_scope i now db) = next_entry_id db"
  "ledger_draws (touch_scope i now db) = ledger_draws db"
  by (simp_all add: touch_scope_def map_update_where)

lemma find_scope_id_mem: "find_scope_id s db = Some i \<Longrightarrow> i \<in> set (map sr_id (evidence_scopes db))"
  by (auto simp: find_scope_id_def dest: find_Some_mem)

lemma find_scope_id_touch [simp]: "find_scope_id s (touch_scope i now db) = find_scope_id s db"
proof -
  have "map_option sr_id (find (\<lambda>r. sr_identity r = k) (update_where (\<lambda>r. sr_id r = i) (\<lambda>r. r\<lparr>sr_seen := now\<rparr>) rs)) =
      map_option sr_id (find (\<lambda>r. sr_identity r = k) rs)" for k rs by (induction rs) auto
  then show ?thesis by (simp add: find_scope_id_def touch_scope_def)
qed

lemma get_or_create_scopeE:
  assumes "get_or_create_scope s now db = (sid, db')" and "ledger_inv sha db"
  shows "ledger_inv sha db'" "find_scope_id s db' = Some sid" "ledger_rows db' = ledger_rows db"
    "evidence_blobs db' = evidence_blobs db" "ledger_draws db' = ledger_draws db" "next_entry_id db' = next_entry_id db"
    "\<exists>new. map sr_id (evidence_scopes db') = map sr_id (evidence_scopes db) @ new \<and> (\<forall>i \<in> set new. i \<notin> set (map sr_id (evidence_scopes db)))"
    "\<And>t. find_scope_id t db' = find_scope_id t db \<or> find_scope_id t db = None \<and>
      (\<exists>i. find_scope_id t db' = Some i \<and> i \<notin> set (map sr_id (evidence_scopes db)))"
proof -
  have "ledger_inv sha db' \<and> find_scope_id s db' = Some sid \<and> ledger_rows db' = ledger_rows db \<and>
    evidence_blobs db' = evidence_blobs db \<and> ledger_draws db' = ledger_draws db \<and> next_entry_id db' = next_entry_id db \<and>
    (\<exists>new. map sr_id (evidence_scopes db') = map sr_id (evidence_scopes db) @ new \<and> (\<forall>i \<in> set new. i \<notin> set (map sr_id (evidence_scopes db)))) \<and>
    (\<forall>t. find_scope_id t db' = find_scope_id t db \<or> find_scope_id t db = None \<and>
      (\<exists>i. find_scope_id t db' = Some i \<and> i \<notin> set (map sr_id (evidence_scopes db))))"
  proof (cases "find_scope_id s db")
    case (Some i)
    with assms(1) have db': "db' = touch_scope i now db" "sid = i" by (auto simp: get_or_create_scope_def)
    have "ledger_inv sha db'" by (rule ledger_inv_cong [OF assms(2)]) (simp_all add: db')
    with Some db' find_scope_id_mem [OF Some] show ?thesis by simp
  next
    case None
    with assms(1) have db': "db' = db\<lparr>evidence_scopes := evidence_scopes db @
          [\<lparr>sr_id = next_scope_id db, sr_identity = scope_identity_of s, sr_created = now, sr_seen = now\<rparr>],
          next_scope_id := Suc (next_scope_id db)\<rparr>" and sid: "sid = next_scope_id db"
      by (auto simp: get_or_create_scope_def)
    have new: "scope_identity_of s \<notin> sr_identity ` set (evidence_scopes db)"
      using None by (auto simp: find_scope_id_def find_eq_None)
    have fresh: "next_scope_id db \<notin> sr_id ` set (evidence_scopes db)" using assms(2) by (auto simp: ledger_inv_def)
    have "ledger_inv sha db'" using assms(2) new fresh by (auto simp: ledger_inv_def db' less_Suc_eq)
    have found: "find_scope_id t db' = (case find_scope_id t db of Some i \<Rightarrow> Some i
        | None \<Rightarrow> if scope_identity_of s = scope_identity_of t then Some sid else None)" for t
      by (cases "find (\<lambda>r. sr_identity r = scope_identity_of t) (evidence_scopes db)")
        (simp_all add: find_scope_id_def db' table_simps sid)
    have ids: "map sr_id (evidence_scopes db') = map sr_id (evidence_scopes db) @ [sid]" by (simp add: db' sid)
    have "find_scope_id t db' = find_scope_id t db \<or> find_scope_id t db = None \<and>
        (\<exists>i. find_scope_id t db' = Some i \<and> i \<notin> set (map sr_id (evidence_scopes db)))" for t
      using found [of t] fresh sid by (cases "find_scope_id t db") simp_all
    moreover have "find_scope_id s db' = Some sid" using found [of s] None by simp
    moreover have "ledger_rows db' = ledger_rows db" "evidence_blobs db' = evidence_blobs db" "ledger_draws db' = ledger_draws db"
      "next_entry_id db' = next_entry_id db" by (simp_all add: db')
    ultimately show ?thesis using \<open>ledger_inv sha db'\<close> ids fresh sid by simp
  qed
  then show "ledger_inv sha db'" "find_scope_id s db' = Some sid" "ledger_rows db' = ledger_rows db"
    "evidence_blobs db' = evidence_blobs db" "ledger_draws db' = ledger_draws db" "next_entry_id db' = next_entry_id db"
    "\<exists>new. map sr_id (evidence_scopes db') = map sr_id (evidence_scopes db) @ new \<and> (\<forall>i \<in> set new. i \<notin> set (map sr_id (evidence_scopes db)))"
    "\<And>t. find_scope_id t db' = find_scope_id t db \<or> find_scope_id t db = None \<and>
      (\<exists>i. find_scope_id t db' = Some i \<and> i \<notin> set (map sr_id (evidence_scopes db)))" by blast+
qed

text \<open>The row of a draft, and what preparing drafts does to the tables.\<close>

definition drafted :: "(string \<Rightarrow> string) \<Rightarrow> nat \<Rightarrow> uuid \<Rightarrow> ledger_draft \<Rightarrow> ledger_row \<Rightarrow> bool" where
  "drafted sha sid d draft r \<longleftrightarrow> lr_scope r = sid \<and> lr_delivery r = d \<and> lr_path r = ld_path draft \<and> lr_start r = ld_start draft \<and>
     lr_end r = ld_end draft \<and> lr_source r = ld_source draft \<and> lr_content r = sha (ld_text draft) \<and>
     lr_category r = ld_category draft \<and> lr_kind r = ld_kind draft \<and> lr_status r = Prepared"

lemma upsert_blobE:
  obtains new where "upsert_blob h body now db = db\<lparr>evidence_blobs := evidence_blobs db @ new\<rparr>"
    "h \<in> blob_hash ` set (evidence_blobs db @ new)" "\<forall>b \<in> set new. blob_hash b = h \<and> blob_text b = body"
    "distinct (map blob_hash (evidence_blobs db)) \<longrightarrow> distinct (map blob_hash (evidence_blobs db @ new))"
proof (cases "list_ex (\<lambda>b. blob_hash b = h) (evidence_blobs db)")
  case True
  then show thesis by (intro that [of "[]"]) (auto simp: upsert_blob_def list_ex_iff)
next
  case False
  then show thesis
    by (intro that [of "[\<lparr>blob_hash = h, blob_text = body, blob_lines = count_source_lines body, blob_created = now\<rparr>]"])
      (auto simp: upsert_blob_def list_ex_iff)
qed

lemma prepare_draftE:
  assumes "prepare_draft sha sid d now draft db = Inr db'" and "ledger_inv sha db" and "sid \<in> set (map sr_id (evidence_scopes db))"
    and "\<exists>n < ledger_draws db. d = UUID4 n"
  obtains r new where "ledger_rows db' = ledger_rows db @ [r]" "drafted sha sid d draft r" "evidence_scopes db' = evidence_scopes db"
    "ledger_draws db' = ledger_draws db" "evidence_blobs db' = evidence_blobs db @ new"
    "\<forall>b \<in> set new. blob_text b = ld_text draft" "ledger_inv sha db'"
proof -
  obtain new where up: "upsert_blob (sha (ld_text draft)) (ld_text draft) now db = db\<lparr>evidence_blobs := evidence_blobs db @ new\<rparr>"
    "sha (ld_text draft) \<in> blob_hash ` set (evidence_blobs db @ new)"
    "\<forall>b \<in> set new. blob_hash b = sha (ld_text draft) \<and> blob_text b = ld_text draft"
    "distinct (map blob_hash (evidence_blobs db)) \<longrightarrow> distinct (map blob_hash (evidence_blobs db @ new))"
    by (rule upsert_blobE)
  let ?r = "\<lparr>lr_id = next_entry_id db, lr_scope = sid, lr_delivery = d, lr_path = ld_path draft, lr_start = ld_start draft,
            lr_end = ld_end draft, lr_source = ld_source draft, lr_content = sha (ld_text draft), lr_category = ld_category draft,
            lr_kind = ld_kind draft, lr_status = Prepared, lr_prepared = now, lr_supplied = None\<rparr>"
  have ok: "1 \<le> ld_start draft" "ld_start draft \<le> ld_end draft"
    and db': "db' = db\<lparr>evidence_blobs := evidence_blobs db @ new, ledger_rows := ledger_rows db @ [?r],
      next_entry_id := Suc (next_entry_id db)\<rparr>"
    using assms(1) up(1) by (auto simp: prepare_draft_def Let_def split: if_splits)
  note I = assms(2) [unfolded ledger_inv_def]
  have "distinct (map lr_id (ledger_rows db @ [?r]))" using I by auto
  moreover have "distinct (map blob_hash (evidence_blobs db @ new))" "\<forall>b \<in> set (evidence_blobs db @ new). blob_hash b = sha (blob_text b)"
    using I up(3,4) by auto
  moreover have "\<forall>r \<in> set (ledger_rows db @ [?r]). lr_id r < Suc (next_entry_id db) \<and> 1 \<le> lr_start r \<and> lr_start r \<le> lr_end r \<and>
        (lr_status r = Supplied \<longrightarrow> lr_supplied r \<noteq> None) \<and> (\<exists>n < ledger_draws db. lr_delivery r = UUID4 n) \<and>
        lr_content r \<in> set (map blob_hash (evidence_blobs db @ new)) \<and> lr_scope r \<in> set (map sr_id (evidence_scopes db))"
  proof
    fix r
    assume "r \<in> set (ledger_rows db @ [?r])"
    then consider "r \<in> set (ledger_rows db)" | "r = ?r" by auto
    then show "lr_id r < Suc (next_entry_id db) \<and> 1 \<le> lr_start r \<and> lr_start r \<le> lr_end r \<and>
        (lr_status r = Supplied \<longrightarrow> lr_supplied r \<noteq> None) \<and> (\<exists>n < ledger_draws db. lr_delivery r = UUID4 n) \<and>
        lr_content r \<in> set (map blob_hash (evidence_blobs db @ new)) \<and> lr_scope r \<in> set (map sr_id (evidence_scopes db))"
    proof cases
      case 1
      with I show ?thesis by (auto intro: less_SucI)
    next
      case 2
      with assms(3,4) up(2) ok show ?thesis by auto
    qed
  qed
  ultimately have inv: "ledger_inv sha db'" using I unfolding ledger_inv_def db' by simp
  show thesis by (rule that [of ?r new]) (use inv up(3) in \<open>simp_all add: db' drafted_def\<close>)
qed

lemma prepare_draftsE:
  assumes "foldE (prepare_draft sha sid d now) drafts db = Inr db'" and "ledger_inv sha db"
    and "sid \<in> set (map sr_id (evidence_scopes db))" and "\<exists>n < ledger_draws db. d = UUID4 n"
  shows "\<exists>rs new. ledger_rows db' = ledger_rows db @ rs \<and> list_all2 (drafted sha sid d) drafts rs \<and>
    evidence_scopes db' = evidence_scopes db \<and> ledger_draws db' = ledger_draws db \<and> evidence_blobs db' = evidence_blobs db @ new \<and>
    (\<forall>b \<in> set new. blob_text b \<in> ld_text ` set drafts) \<and> ledger_inv sha db'"
  using assms
proof (induction drafts arbitrary: db)
  case (Cons draft drafts)
  from Cons.prems(1) obtain db1 where one: "prepare_draft sha sid d now draft db = Inr db1"
    and rest: "foldE (prepare_draft sha sid d now) drafts db1 = Inr db'" by (auto simp: result_simps)
  obtain r n1 where r: "ledger_rows db1 = ledger_rows db @ [r]" "drafted sha sid d draft r" "evidence_scopes db1 = evidence_scopes db"
    "ledger_draws db1 = ledger_draws db" "evidence_blobs db1 = evidence_blobs db @ n1"
    "\<forall>b \<in> set n1. blob_text b = ld_text draft" "ledger_inv sha db1"
    by (rule prepare_draftE [OF one Cons.prems(2-4)])
  have "sid \<in> set (map sr_id (evidence_scopes db1))" "\<exists>n < ledger_draws db1. d = UUID4 n" using Cons.prems(3,4) r(3,4) by simp_all
  from Cons.IH [OF rest r(7) this] obtain rs n2 where rs: "ledger_rows db' = ledger_rows db1 @ rs" "list_all2 (drafted sha sid d) drafts rs"
    "evidence_scopes db' = evidence_scopes db1" "ledger_draws db' = ledger_draws db1" "evidence_blobs db' = evidence_blobs db1 @ n2"
    "\<forall>b \<in> set n2. blob_text b \<in> ld_text ` set drafts" "ledger_inv sha db'" by blast
  show ?case by (intro exI [of _ "r # rs"] exI [of _ "n1 @ n2"]) (use r rs in auto)
qed simp

lemma prepare_entriesE:
  assumes "prepare_entries sha s drafts now db = Inr (d, db')" and "ledger_inv sha db"
  obtains sid rs new where "d = UUID4 (ledger_draws db)" "find_scope_id s db' = Some sid" "ledger_rows db' = ledger_rows db @ rs"
    "list_all2 (drafted sha sid d) drafts rs" "evidence_blobs db' = evidence_blobs db @ new"
    "\<forall>b \<in> set new. blob_text b \<in> ld_text ` set drafts" "ledger_inv sha db'" "ledger_draws db' = Suc (ledger_draws db)"
    "\<forall>t. find_scope_id t db' = find_scope_id t db \<or> find_scope_id t db = None \<and>
      (\<exists>i. find_scope_id t db' = Some i \<and> i \<notin> set (map sr_id (evidence_scopes db)))"
    "\<exists>ids. map sr_id (evidence_scopes db') = map sr_id (evidence_scopes db) @ ids"
proof -
  define db0 where "db0 = db\<lparr>ledger_draws := Suc (ledger_draws db)\<rparr>"
  obtain sid db1 where sc: "get_or_create_scope s now db0 = (sid, db1)" by fastforce
  have d: "d = UUID4 (ledger_draws db)" and rest: "foldE (prepare_draft sha sid d now) drafts db1 = Inr db'"
    using assms(1) sc by (auto simp: prepare_entries_def Let_def db0_def [symmetric] result_simps split: if_splits)
  have inv0: "ledger_inv sha db0" by (rule ledger_inv_cong [OF assms(2)]) (simp_all add: db0_def)
  note c = get_or_create_scopeE [OF sc inv0]
  have "\<exists>n < ledger_draws db1. d = UUID4 n" using c(5) d by (auto simp: db0_def)
  from prepare_draftsE [OF rest c(1) find_scope_id_mem [OF c(2)] this] obtain rs new where
    rs: "ledger_rows db' = ledger_rows db1 @ rs" "list_all2 (drafted sha sid d) drafts rs" "evidence_scopes db' = evidence_scopes db1"
    "ledger_draws db' = ledger_draws db1" "evidence_blobs db' = evidence_blobs db1 @ new"
    "\<forall>b \<in> set new. blob_text b \<in> ld_text ` set drafts" "ledger_inv sha db'" by blast
  have f: "find_scope_id t db' = find_scope_id t db1" "find_scope_id t db0 = find_scope_id t db" for t
    using rs(3) by (simp_all add: find_scope_id_def db0_def)
  have ids: "map sr_id (evidence_scopes db0) = map sr_id (evidence_scopes db)" by (simp add: db0_def)
  show thesis
  proof (rule that [OF d _ _ rs(2) _ rs(6,7)])
    show "find_scope_id s db' = Some sid" using c(2) f by simp
    show "ledger_rows db' = ledger_rows db @ rs" "evidence_blobs db' = evidence_blobs db @ new" "ledger_draws db' = Suc (ledger_draws db)"
      using rs(1,4,5) c(3-5) by (simp_all add: db0_def)
    show "\<forall>t. find_scope_id t db' = find_scope_id t db \<or> find_scope_id t db = None \<and>
      (\<exists>i. find_scope_id t db' = Some i \<and> i \<notin> set (map sr_id (evidence_scopes db)))"
      using c(8) by (simp add: f ids)
    show "\<exists>ids. map sr_id (evidence_scopes db') = map sr_id (evidence_scopes db) @ ids" using c(7) rs(3) ids by auto
  qed
qed

lemma ledger_inv_rows:
  assumes "ledger_inv sha db" and "\<And>r. r \<in> set (ledger_rows db) \<Longrightarrow> P r \<Longrightarrow>
      lr_id (f r) = lr_id r \<and> lr_start (f r) = lr_start r \<and> lr_end (f r) = lr_end r \<and> lr_delivery (f r) = lr_delivery r \<and>
      lr_content (f r) = lr_content r \<and> lr_scope (f r) = lr_scope r \<and> (lr_status (f r) = Supplied \<longrightarrow> lr_supplied (f r) \<noteq> None)"
  shows "ledger_inv sha (db\<lparr>ledger_rows := update_where P f (ledger_rows db)\<rparr>)"
proof -
  have "map lr_id (update_where P f (ledger_rows db)) = map lr_id (ledger_rows db)" using assms(2) by (intro map_update_where) blast
  with assms show ?thesis by (auto simp: ledger_inv_def table_simps)
qed

lemma mark_supplied_inv: "ledger_inv sha db \<Longrightarrow> ledger_inv sha (mark_supplied d now db)"
  unfolding mark_supplied_def by (erule ledger_inv_rows) simp

lemma distinct_map_delete: "distinct (map k rs) \<Longrightarrow> distinct (map k (delete_where P rs))"
  by (auto simp: delete_where_def intro: distinct_map_filter)

lemma gc_inv: "ledger_inv sha db \<Longrightarrow> ledger_inv sha (gc_orphaned_blobs db)"
proof -
  assume inv: "ledger_inv sha db"
  have kept: "lr_content r \<in> blob_hash ` {b \<in> set (evidence_blobs db). \<exists>q \<in> set (ledger_rows db). lr_content q = blob_hash b}"
    if r: "r \<in> set (ledger_rows db)" for r
  proof -
    from inv r obtain b where "b \<in> set (evidence_blobs db)" "blob_hash b = lr_content r" by (fastforce simp: ledger_inv_def)
    with r show ?thesis by (metis (mono_tags, lifting) imageI mem_Collect_eq)
  qed
  show ?thesis unfolding ledger_inv_def
    using inv kept by (simp add: gc_orphaned_blobs_def table_simps list_ex_iff) (simp add: ledger_inv_def distinct_map_delete)
qed

lemma mark_abandoned_inv: "ledger_inv sha db \<Longrightarrow> ledger_inv sha (mark_abandoned d db)"
  unfolding mark_abandoned_def by (intro gc_inv, erule ledger_inv_rows) simp

lemma delete_scope_inv: "ledger_inv sha (snd p) \<Longrightarrow> ledger_inv sha (snd (delete_scope i p))"
  by (cases p) (auto simp: delete_scope_def ledger_inv_def table_simps distinct_map_delete)

lemma delete_scopes_inv: "ledger_inv sha db \<Longrightarrow> ledger_inv sha (snd (delete_scopes is db))"
proof -
  assume "ledger_inv sha db"
  then have "ledger_inv sha (snd (n, db))" for n :: int by simp
  then have "ledger_inv sha (snd (fold delete_scope is (0, db)))" by (induction "is" rule: rev_induct) (simp_all add: delete_scope_inv)
  then show ?thesis by (auto simp: delete_scopes_def gc_inv split: prod.splits)
qed

lemma ledger_step_inv: "ledger_step sha db db' \<Longrightarrow> ledger_inv sha db \<Longrightarrow> ledger_inv sha db'"
proof (induction rule: ledger_step.induct)
  case (prepared s drafts now db d db')
  then show ?case by (elim prepare_entriesE)
next
  case (loaded db s now)
  then show ?case by (auto simp: load_supplied_def Let_def intro: ledger_inv_cong split: option.splits)
next
  case (swept db)
  have "ledger_inv sha (db\<lparr>ledger_rows := delete_where (\<lambda>r. lr_status r = Abandoned) (ledger_rows db)\<rparr>)"
    using swept by (auto simp: ledger_inv_def table_simps distinct_map_delete)
  then show ?case by (simp add: cleanup_abandoned_deliveries_def gc_inv)
qed (auto simp: mark_supplied_inv mark_abandoned_inv cleanup_scope_def cleanup_session_def cleanup_repository_def delete_scopes_inv
    split: option.splits)

section \<open>What is loaded\<close>

lemma join_entry_inv:
  assumes "ledger_inv sha db" and "r \<in> set (ledger_rows db)"
  obtains b s where "join_entry db r = Some (row_to_entry r (blob_text b) (sr_identity s))" "b \<in> set (evidence_blobs db)"
    "blob_hash b = lr_content r" "sha (blob_text b) = lr_content r" "s \<in> set (evidence_scopes db)" "sr_id s = lr_scope r"
proof -
  from assms obtain b0 s0 where "b0 \<in> set (evidence_blobs db)" "blob_hash b0 = lr_content r" "s0 \<in> set (evidence_scopes db)"
    "sr_id s0 = lr_scope r" by (auto simp: ledger_inv_def)
  then obtain b s where f: "find (\<lambda>b. blob_hash b = lr_content r) (evidence_blobs db) = Some b"
    "find (\<lambda>s. sr_id s = lr_scope r) (evidence_scopes db) = Some s"
    by (metis (mono_tags, lifting) find_eq_None option.exhaust)
  then have "b \<in> set (evidence_blobs db)" "blob_hash b = lr_content r" "s \<in> set (evidence_scopes db)" "sr_id s = lr_scope r"
    by (auto dest: find_Some_mem)
  with f assms(1) show thesis by (intro that [of b s]) (auto simp: join_entry_def ledger_inv_def)
qed

lemma row_to_entry_simps [simp]:
  "entry_path (row_to_entry r t k) = lr_path r" "entry_start (row_to_entry r t k) = lr_start r" "entry_end (row_to_entry r t k) = lr_end r"
  "entry_hash (row_to_entry r t k) = lr_source r" "entry_text (row_to_entry r t k) = Some t" "entry_kind (row_to_entry r t k) = lr_kind r"
  "entry_category (row_to_entry r t k) = Some (lr_category r)" "entry_delivery (row_to_entry r t k) = Some (lr_delivery r)"
  "entry_status (row_to_entry r t k) = Some (lr_status r)"
  by (cases k; simp add: row_to_entry_def)+

lemma map_filter_total: "\<forall>x \<in> set xs. f x \<noteq> None \<Longrightarrow> List.map_filter f xs = map (\<lambda>x. the (f x)) xs"
  by (induction xs) (auto simp: List.map_filter_simps)

text \<open>The rows a scope loads.\<close>

definition supplied_rows :: "evidence_scope \<Rightarrow> ledger_db \<Rightarrow> ledger_row list" where
  "supplied_rows s db = (case find_scope_id s db of None \<Rightarrow> []
     | Some i \<Rightarrow> sort_key (\<lambda>r. (lr_path r, lr_start r, lr_id r)) (filter (\<lambda>r. lr_scope r = i \<and> lr_status r = Supplied) (ledger_rows db)))"

lemma load_suppliedE:
  assumes "ledger_inv sha db"
  shows "list_all2 (\<lambda>r e. \<exists>b k. e = row_to_entry r (blob_text b) k \<and> b \<in> set (evidence_blobs db) \<and>
      sha (blob_text b) = lr_content r) (supplied_rows scope db) (fst (load_supplied scope now db))"
proof (cases "find_scope_id scope db")
  case None
  then show ?thesis by (simp add: load_supplied_def supplied_rows_def)
next
  case (Some i)
  let ?db = "touch_scope i now db"
  have inv: "ledger_inv sha ?db" by (rule ledger_inv_cong [OF assms]) simp_all
  have join: "\<exists>b k. join_entry ?db r = Some (row_to_entry r (blob_text b) k) \<and> b \<in> set (evidence_blobs db) \<and>
      sha (blob_text b) = lr_content r" if "r \<in> set (supplied_rows scope db)" for r
  proof -
    have "r \<in> set (ledger_rows ?db)" using that Some by (simp add: supplied_rows_def)
    then obtain b s where "join_entry ?db r = Some (row_to_entry r (blob_text b) (sr_identity s))"
      "b \<in> set (evidence_blobs ?db)" "blob_hash b = lr_content r" "sha (blob_text b) = lr_content r"
      "s \<in> set (evidence_scopes ?db)" "sr_id s = lr_scope r" by (rule join_entry_inv [OF inv])
    then show ?thesis by (intro exI [of _ b] exI [of _ "sr_identity s"]) simp
  qed
  then have "List.map_filter (join_entry ?db) (supplied_rows scope db) = map (\<lambda>r. the (join_entry ?db r)) (supplied_rows scope db)"
    by (intro map_filter_total) fastforce
  then have "fst (load_supplied scope now db) = map (\<lambda>r. the (join_entry ?db r)) (supplied_rows scope db)"
    using Some by (simp add: load_supplied_def supplied_rows_def Let_def)
  moreover have "\<exists>b k. the (join_entry ?db r) = row_to_entry r (blob_text b) k \<and> b \<in> set (evidence_blobs db) \<and>
      sha (blob_text b) = lr_content r" if "r \<in> set (supplied_rows scope db)" for r using join [OF that] by fastforce
  ultimately show ?thesis by (simp add: list_all2_map2 list_all2_same)
qed

section \<open>Delivery\<close>

definition entry_key :: "ledger_entry \<Rightarrow> string \<times> int \<times> int \<times> string" where
  "entry_key e = (entry_path e, entry_start e, entry_end e, entry_hash e)"

definition row_key :: "ledger_row \<Rightarrow> string \<times> int \<times> int \<times> string" where
  "row_key r = (lr_path r, lr_start r, lr_end r, lr_source r)"

definition draft_lines :: "ledger_draft \<Rightarrow> string \<times> int \<times> int \<times> string" where
  "draft_lines d = (ld_path d, ld_start d, ld_end d, ld_source d)"

lemma loaded_keys:
  assumes "ledger_inv sha db"
  shows "entry_key ` set (fst (load_supplied scope now db)) = row_key ` set (supplied_rows scope db)"
    "\<forall>e \<in> set (fst (load_supplied scope now db)). is_known e \<and> valid_range (entry_range e)"
proof -
  have rows: "\<forall>r \<in> set (supplied_rows scope db). r \<in> set (ledger_rows db) \<and> lr_status r = Supplied"
    by (auto simp: supplied_rows_def split: option.splits)
  note all = load_suppliedE [OF assms, of scope now]
  have "list_all2 (\<lambda>r e. entry_key e = row_key r \<and> is_known e \<and> valid_range (entry_range e))
      (supplied_rows scope db) (fst (load_supplied scope now db))"
  proof (rule list.rel_mono_strong [OF all])
    fix r e
    assume r: "r \<in> set (supplied_rows scope db)" and "\<exists>b k. e = row_to_entry r (blob_text b) k \<and>
      b \<in> set (evidence_blobs db) \<and> sha (blob_text b) = lr_content r"
    then obtain t k where "e = row_to_entry r t k" by blast
    moreover have "1 \<le> lr_start r \<and> lr_start r \<le> lr_end r" "lr_status r = Supplied" using rows r assms by (auto simp: ledger_inv_def)
    ultimately show "entry_key e = row_key r \<and> is_known e \<and> valid_range (entry_range e)"
      by (simp add: entry_key_def row_key_def is_known_def valid_range_def entry_range_def)
  qed
  then have "entry_key ` set (fst (load_supplied scope now db)) = row_key ` set (supplied_rows scope db) \<and>
      (\<forall>e \<in> set (fst (load_supplied scope now db)). is_known e \<and> valid_range (entry_range e))"
    by (induction rule: list_all2_induct) auto
  then show "entry_key ` set (fst (load_supplied scope now db)) = row_key ` set (supplied_rows scope db)"
    "\<forall>e \<in> set (fst (load_supplied scope now db)). is_known e \<and> valid_range (entry_range e)" by simp_all
qed

definition confirm :: "time \<Rightarrow> ledger_row \<Rightarrow> ledger_row" where
  "confirm now r = r\<lparr>lr_status := Supplied, lr_supplied := Some now\<rparr>"

text \<open>The tables after a delivery was prepared and confirmed.\<close>

lemma deliveredE:
  assumes prep: "prepare_entries sha s drafts now db = Inr (d, db')" and inv: "ledger_inv sha db"
  obtains sid rs new where "ledger_inv sha (mark_supplied d later db')" "find_scope_id s (mark_supplied d later db') = Some sid"
    "ledger_rows (mark_supplied d later db') = ledger_rows db @ map (confirm later) rs" "list_all2 (drafted sha sid d) drafts rs"
    "evidence_blobs (mark_supplied d later db') = evidence_blobs db @ new" "\<forall>b \<in> set new. blob_text b \<in> ld_text ` set drafts"
    "\<forall>r \<in> set (ledger_rows db). lr_delivery r \<noteq> d" "find_scope_id s db = Some sid \<or> (\<forall>r \<in> set (ledger_rows db). lr_scope r \<noteq> sid)"
    "ledger_rows db' = ledger_rows db @ rs" "ledger_inv sha db'"
    "find_scope_id s db = None \<or> find_scope_id s db = Some sid"
proof -
  obtain sid rs new where p: "d = UUID4 (ledger_draws db)" "find_scope_id s db' = Some sid" "ledger_rows db' = ledger_rows db @ rs"
    "list_all2 (drafted sha sid d) drafts rs" "evidence_blobs db' = evidence_blobs db @ new"
    "\<forall>b \<in> set new. blob_text b \<in> ld_text ` set drafts" "ledger_inv sha db'" "ledger_draws db' = Suc (ledger_draws db)"
    "\<forall>t. find_scope_id t db' = find_scope_id t db \<or> find_scope_id t db = None \<and>
      (\<exists>i. find_scope_id t db' = Some i \<and> i \<notin> set (map sr_id (evidence_scopes db)))"
    "\<exists>ids. map sr_id (evidence_scopes db') = map sr_id (evidence_scopes db) @ ids"
    by (rule prepare_entriesE [OF prep inv])
  have fresh: "\<forall>r \<in> set (ledger_rows db). lr_delivery r \<noteq> d" using inv p(1) by (fastforce simp: ledger_inv_def)
  have old: "\<forall>r \<in> set (ledger_rows db). lr_scope r \<in> set (map sr_id (evidence_scopes db))" using inv by (simp add: ledger_inv_def)
  have rs: "\<forall>r \<in> set rs. lr_delivery r = d \<and> lr_status r = Prepared"
    using p(4) by (induction rule: list_all2_induct) (auto simp: drafted_def)
  have "update_where (\<lambda>r. lr_delivery r = d \<and> lr_status r = Prepared) (confirm later) (ledger_rows db @ rs) =
      ledger_rows db @ map (confirm later) rs"
    using fresh rs by (simp add: update_where_def map_idI)
  then have rows: "ledger_rows (mark_supplied d later db') = ledger_rows db @ map (confirm later) rs"
    by (simp add: mark_supplied_def p(3) confirm_def [abs_def])
  have "find_scope_id s (mark_supplied d later db') = Some sid" using p(2) by (simp add: find_scope_id_def mark_supplied_def)
  moreover have "evidence_blobs (mark_supplied d later db') = evidence_blobs db @ new" using p(5) by (simp add: mark_supplied_def)
  moreover have "find_scope_id s db = Some sid \<or> (\<forall>r \<in> set (ledger_rows db). lr_scope r \<noteq> sid)" using p(2) p(9) [rule_format, of s] old by auto
  moreover have "find_scope_id s db = None \<or> find_scope_id s db = Some sid" using p(2) p(9) [rule_format, of s] by auto
  ultimately show thesis using that [OF mark_supplied_inv [OF p(7)] _ rows p(4) _ p(6) fresh _ p(3,7)] by blast
qed

lemma delivered_keys:
  assumes prep: "prepare_entries sha s drafts now db = Inr (d, db')" and inv: "ledger_inv sha db"
  shows "entry_key ` set (fst (load_supplied s later' (mark_supplied d later db'))) =
    row_key ` set (supplied_rows s db) \<union> draft_lines ` set drafts"
proof -
  obtain sid rs new where p: "ledger_inv sha (mark_supplied d later db')" "find_scope_id s (mark_supplied d later db') = Some sid"
    "ledger_rows (mark_supplied d later db') = ledger_rows db @ map (confirm later) rs" "list_all2 (drafted sha sid d) drafts rs"
    "evidence_blobs (mark_supplied d later db') = evidence_blobs db @ new" "\<forall>b \<in> set new. blob_text b \<in> ld_text ` set drafts"
    "\<forall>r \<in> set (ledger_rows db). lr_delivery r \<noteq> d" "find_scope_id s db = Some sid \<or> (\<forall>r \<in> set (ledger_rows db). lr_scope r \<noteq> sid)"
    "ledger_rows db' = ledger_rows db @ rs" "ledger_inv sha db'" "find_scope_id s db = None \<or> find_scope_id s db = Some sid"
    by (rule deliveredE [OF prep inv])
  have rs: "row_key ` set rs = draft_lines ` set drafts \<and> (\<forall>r \<in> set rs. lr_scope r = sid)"
    using p(4) by (induction rule: list_all2_induct) (auto simp: drafted_def row_key_def draft_lines_def)
  have "set (supplied_rows s (mark_supplied d later db')) =
      {r \<in> set (ledger_rows db). lr_scope r = sid \<and> lr_status r = Supplied} \<union> confirm later ` set rs"
    using p(2,3) rs by (auto simp: supplied_rows_def confirm_def)
  moreover have "row_key ` confirm later ` set rs = row_key ` set rs" by (simp add: image_image confirm_def row_key_def)
  ultimately have "row_key ` set (supplied_rows s (mark_supplied d later db')) =
      row_key ` {r \<in> set (ledger_rows db). lr_scope r = sid \<and> lr_status r = Supplied} \<union> row_key ` set rs"
    by (simp add: image_Un)
  moreover have "set (supplied_rows s db) = {r \<in> set (ledger_rows db). lr_scope r = sid \<and> lr_status r = Supplied}"
    using p(8,11) by (auto simp: supplied_rows_def)
  ultimately show ?thesis using loaded_keys(1) [OF p(1)] rs by simp
qed

section \<open>Properties\<close>

text \<open>
  C37: the ledger keeps its invariant: identifiers are unique, every entry has its scope and the blob its content hash
  names, a blob hashes to its key, and a supplied entry says when. Every operation preserves it, so that no
  cleanup ever leaves a dangling entry and every entry can be loaded with its text.
\<close>

theorem ledger_inv_reachable:
  assumes "(ledger_step sha)\<^sup>*\<^sup>* db db'" and "ledger_inv sha db"
  shows "ledger_inv sha db'"
  using assms by (induction rule: rtranclp_induct) (auto intro: ledger_step_inv)

definition empty_ledger :: ledger_db where
  "empty_ledger = \<lparr>evidence_scopes = [], evidence_blobs = [], ledger_rows = [], next_scope_id = 1, next_entry_id = 1, ledger_draws = 0\<rparr>"

lemma empty_ledger_inv: "ledger_inv sha empty_ledger"
  by (simp add: ledger_inv_def empty_ledger_def)

text \<open>
  C36: what was delivered is what is loaded. After a delivery was prepared and confirmed, the entries loaded for it carry
  exactly the drafts, text included, as often as they were drafted; before the confirmation nothing of it is
  loaded for any scope. The hash only has to tell apart the texts that occur.
\<close>

definition loaded_draft :: "ledger_entry \<Rightarrow> (string \<times> int \<times> int \<times> string) \<times> string option \<times> evidence_category option \<times> payload_kind" where
  "loaded_draft e = (entry_key e, entry_text e, entry_category e, entry_kind e)"

definition draft_content :: "ledger_draft \<Rightarrow> (string \<times> int \<times> int \<times> string) \<times> string option \<times> evidence_category option \<times> payload_kind" where
  "draft_content d = (draft_lines d, Some (ld_text d), Some (ld_category d), ld_kind d)"

lemma mset_filter_map_all2:
  assumes "list_all2 (\<lambda>r e. Q e = P r \<and> (P r \<longrightarrow> g e = f r)) rs es"
  shows "map g (filter Q es) = map f (filter P rs)"
  using assms by (induction rule: list_all2_induct) auto

theorem delivery_roundtrip:
  assumes prep: "prepare_entries sha s drafts now db = Inr (d, db')" and inv: "ledger_inv sha db"
    and inj: "inj_on sha (ld_text ` set drafts \<union> blob_text ` set (evidence_blobs db))"
  shows "mset (map loaded_draft (filter (\<lambda>e. entry_delivery e = Some d) (fst (load_supplied s later' (mark_supplied d later db'))))) =
      mset (map draft_content drafts) \<and>
    (\<forall>t. \<forall>e \<in> set (fst (load_supplied t later' db')). entry_delivery e \<noteq> Some d)"
proof -
  obtain sid rs new where p: "ledger_inv sha (mark_supplied d later db')" "find_scope_id s (mark_supplied d later db') = Some sid"
    "ledger_rows (mark_supplied d later db') = ledger_rows db @ map (confirm later) rs" "list_all2 (drafted sha sid d) drafts rs"
    "evidence_blobs (mark_supplied d later db') = evidence_blobs db @ new" "\<forall>b \<in> set new. blob_text b \<in> ld_text ` set drafts"
    "\<forall>r \<in> set (ledger_rows db). lr_delivery r \<noteq> d" "find_scope_id s db = Some sid \<or> (\<forall>r \<in> set (ledger_rows db). lr_scope r \<noteq> sid)"
    "ledger_rows db' = ledger_rows db @ rs" "ledger_inv sha db'" "find_scope_id s db = None \<or> find_scope_id s db = Some sid"
    by (rule deliveredE [OF prep inv])
  let ?db = "mark_supplied d later db'"
  let ?T = "ld_text ` set drafts \<union> blob_text ` set (evidence_blobs db)"
  define row where "row r = (row_key r, Some (inv_into ?T sha (lr_content r)), Some (lr_category r), lr_kind r)" for r :: ledger_row
  have texts: "inv_into ?T sha (sha t) = t" if "t \<in> ?T" for t using inj that by (rule inv_into_f_f)
  have drafts: "map row (map (confirm later) rs) = map draft_content drafts \<and> (\<forall>r \<in> set rs. lr_scope r = sid \<and> lr_delivery r = d)"
    using p(4)
  proof -
    have "list_all2 (\<lambda>x r. row (confirm later r) = draft_content x \<and> lr_scope r = sid \<and> lr_delivery r = d) drafts rs"
    proof (rule list.rel_mono_strong [OF p(4)])
      fix x r
      assume "x \<in> set drafts" and "drafted sha sid d x r"
      with texts [of "ld_text x"] show "row (confirm later r) = draft_content x \<and> lr_scope r = sid \<and> lr_delivery r = d"
        by (simp add: drafted_def row_def draft_content_def row_key_def draft_lines_def confirm_def)
    qed
    then show ?thesis by (induction rule: list_all2_induct) auto
  qed
  have "list_all2 (\<lambda>r e. (entry_delivery e = Some d) = (lr_delivery r = d) \<and> (lr_delivery r = d \<longrightarrow> loaded_draft e = row r))
      (supplied_rows s ?db) (fst (load_supplied s later' ?db))"
  proof (rule list.rel_mono_strong [OF load_suppliedE [OF p(1)]])
    fix r e
    assume "\<exists>b k. e = row_to_entry r (blob_text b) k \<and> b \<in> set (evidence_blobs ?db) \<and> sha (blob_text b) = lr_content r"
    then obtain b k where e: "e = row_to_entry r (blob_text b) k" "b \<in> set (evidence_blobs ?db)" "sha (blob_text b) = lr_content r" by blast
    then have "blob_text b \<in> ?T" using p(5,6) by auto
    with texts e show "(entry_delivery e = Some d) = (lr_delivery r = d) \<and> (lr_delivery r = d \<longrightarrow> loaded_draft e = row r)"
      by (auto simp: loaded_draft_def row_def entry_key_def row_key_def simp flip: e(3))
  qed
  from mset_filter_map_all2 [OF this]
  have "map loaded_draft (filter (\<lambda>e. entry_delivery e = Some d) (fst (load_supplied s later' ?db))) =
      map row (filter (\<lambda>r. lr_delivery r = d) (supplied_rows s ?db))" .
  then have "mset (map loaded_draft (filter (\<lambda>e. entry_delivery e = Some d) (fst (load_supplied s later' ?db)))) =
      image_mset row (filter_mset (\<lambda>r. lr_delivery r = d) (mset (supplied_rows s ?db)))" by (metis mset_filter mset_map)
  also have "mset (supplied_rows s ?db) = mset (filter (\<lambda>r. lr_scope r = sid \<and> lr_status r = Supplied) (ledger_rows db @ map (confirm later) rs))"
    using p(2,3) by (simp add: supplied_rows_def)
  also have "filter_mset (\<lambda>r. lr_delivery r = d) \<dots> = mset (map (confirm later) rs)"
  proof -
    have "filter (\<lambda>r. lr_delivery r = d) (filter (\<lambda>r. lr_scope r = sid \<and> lr_status r = Supplied) (ledger_rows db @ map (confirm later) rs)) =
        map (confirm later) rs"
      using p(7) drafts by (auto simp: filter_empty_conv filter_id_conv confirm_def)
    then show ?thesis by (metis mset_filter)
  qed
  finally have "mset (map loaded_draft (filter (\<lambda>e. entry_delivery e = Some d) (fst (load_supplied s later' ?db)))) =
      mset (map draft_content drafts)" using drafts by (metis mset_map)
  moreover have "entry_delivery e \<noteq> Some d" if e: "e \<in> set (fst (load_supplied t later' db'))" for t e
  proof -
    have prepared: "\<forall>r \<in> set rs. lr_status r = Prepared" using p(4) by (induction rule: list_all2_induct) (auto simp: drafted_def)
    have "\<forall>r \<in> set (supplied_rows t db'). lr_delivery r \<noteq> d"
      using p(7,9) prepared by (auto simp: supplied_rows_def split: option.splits)
    moreover have "list_all2 (\<lambda>r e. entry_delivery e = Some (lr_delivery r)) (supplied_rows t db') (fst (load_supplied t later' db'))"
      by (rule list.rel_mono_strong [OF load_suppliedE [OF p(10)]]) auto
    ultimately show ?thesis using e by (fastforce simp: list_all2_conv_all_nth in_set_conv_nth)
  qed
  ultimately show ?thesis by blast
qed

text \<open>
  A delivery that was abandoned is never known. Whatever the ledger does after it, no scope ever loads an
  entry of the delivery, unless it had been confirmed before.
\<close>

definition never_known :: "uuid \<Rightarrow> ledger_db \<Rightarrow> bool" where
  "never_known d db \<longleftrightarrow> (\<forall>r \<in> set (ledger_rows db). lr_delivery r = d \<longrightarrow> lr_status r = Abandoned)"

lemma delete_scope_rows: "set (ledger_rows (snd (delete_scope i p))) \<subseteq> set (ledger_rows (snd p))"
  by (cases p) (auto simp: delete_scope_def table_simps)

lemma delete_scopes_rows: "set (ledger_rows (snd (delete_scopes is db))) \<subseteq> set (ledger_rows db)"
proof -
  have "set (ledger_rows (snd (fold delete_scope is p))) \<subseteq> set (ledger_rows (snd p))" for p
    by (induction "is" arbitrary: p) (use delete_scope_rows in fastforce)+
  from this [of "(0, db)"] show ?thesis
    by (cases "fold delete_scope is (0, db)") (simp add: delete_scopes_def gc_orphaned_blobs_def)
qed

lemma never_known_step:
  assumes "ledger_step sha db db'" and "ledger_inv sha db" and "never_known d db" and "d = UUID4 n" "n < ledger_draws db"
  shows "never_known d db'" "n < ledger_draws db'"
proof -
  have draws: "ledger_draws (snd (delete_scopes is db)) = ledger_draws db" for "is"
  proof -
    have "ledger_draws (snd (fold delete_scope is p)) = ledger_draws (snd p)" for p
      by (induction "is" arbitrary: p) (auto simp: delete_scope_def split: prod.splits)
    from this [of "(0, db)"] show ?thesis
      by (cases "fold delete_scope is (0, db)") (simp add: delete_scopes_def gc_orphaned_blobs_def)
  qed
  have sub: "set (ledger_rows db'') \<subseteq> set (ledger_rows db) \<Longrightarrow> never_known d db''" for db''
    using assms(3) by (auto simp: never_known_def)
  have "never_known d db' \<and> n < ledger_draws db'"
    using assms(1)
  proof cases
    case (prepared s drafts now e)
    obtain sid rs new where p: "e = UUID4 (ledger_draws db)" "find_scope_id s db' = Some sid" "ledger_rows db' = ledger_rows db @ rs"
      "list_all2 (drafted sha sid e) drafts rs" "evidence_blobs db' = evidence_blobs db @ new"
      "\<forall>b \<in> set new. blob_text b \<in> ld_text ` set drafts" "ledger_inv sha db'" "ledger_draws db' = Suc (ledger_draws db)"
      "\<forall>t. find_scope_id t db' = find_scope_id t db \<or> find_scope_id t db = None \<and>
        (\<exists>i. find_scope_id t db' = Some i \<and> i \<notin> set (map sr_id (evidence_scopes db)))"
      "\<exists>ids. map sr_id (evidence_scopes db') = map sr_id (evidence_scopes db) @ ids"
      by (rule prepare_entriesE [OF prepared assms(2)])
    have "\<forall>r \<in> set rs. lr_delivery r = e" using p(4) by (induction rule: list_all2_induct) (auto simp: drafted_def)
    with p(1,3,8) assms(3-5) show ?thesis by (auto simp: never_known_def)
  next
    case (loaded s now)
    then show ?thesis using assms(3,5) by (auto simp: load_supplied_def never_known_def Let_def split: option.splits)
  qed (use assms(3,5) draws sub [OF delete_scopes_rows] in \<open>auto simp: mark_supplied_def mark_abandoned_def gc_orphaned_blobs_def
      never_known_def table_simps cleanup_scope_def cleanup_session_def cleanup_repository_def cleanup_abandoned_deliveries_def
      split: option.splits\<close>)
  then show "never_known d db'" "n < ledger_draws db'" by simp_all
qed

theorem abandoned_never_known:
  assumes "ledger_inv sha db" and "\<forall>r \<in> set (ledger_rows db). lr_delivery r = d \<longrightarrow> lr_status r \<noteq> Supplied"
    and "d = UUID4 n" "n < ledger_draws db" and "(ledger_step sha)\<^sup>*\<^sup>* (mark_abandoned d db) db'"
  shows "\<forall>e \<in> set (fst (load_supplied s now db')). entry_delivery e \<noteq> Some d"
proof -
  have "lr_status r' = Abandoned" if r': "r' \<in> set (ledger_rows (mark_abandoned d db))" "lr_delivery r' = d" for r'
  proof -
    obtain r where r: "r \<in> set (ledger_rows db)" "r' = (if lr_delivery r = d \<and> lr_status r = Prepared then r\<lparr>lr_status := Abandoned\<rparr> else r)"
      using r'(1) by (auto simp: mark_abandoned_def gc_orphaned_blobs_def table_simps)
    with r'(2) assms(2) show ?thesis by (cases "lr_status r") (auto split: if_splits)
  qed
  moreover have "n < ledger_draws (mark_abandoned d db)" using assms(4) by (simp add: mark_abandoned_def gc_orphaned_blobs_def)
  ultimately have start: "never_known d (mark_abandoned d db) \<and> ledger_inv sha (mark_abandoned d db) \<and> n < ledger_draws (mark_abandoned d db)"
    using mark_abandoned_inv [OF assms(1)] by (simp add: never_known_def)
  from assms(5) have final: "never_known d db' \<and> ledger_inv sha db' \<and> n < ledger_draws db'"
  proof (induction rule: rtranclp_induct)
    case (step db1 db2)
    then show ?case using never_known_step [OF step(2) _ _ assms(3)] ledger_step_inv [OF step(2)] by blast
  qed (rule start)
  have "\<forall>r \<in> set (supplied_rows s db'). lr_delivery r \<noteq> d"
    using final by (auto simp: supplied_rows_def never_known_def split: option.splits)
  moreover have "list_all2 (\<lambda>r e. entry_delivery e = Some (lr_delivery r)) (supplied_rows s db') (fst (load_supplied s now db'))"
    by (rule list.rel_mono_strong [OF load_suppliedE]) (use final in auto)
  ultimately show ?thesis by (fastforce simp: list_all2_conv_all_nth in_set_conv_nth)
qed

lemma entry_lines_keys: "entry_lines es = (\<Union>(p, s, e, h) \<in> entry_key ` set es. {s..e})"
  by (auto simp: entry_lines_def entry_key_def entry_range_def lines_of_def)

text \<open>
  C35: once the plan is delivered there is nothing left to send. If nothing the ledger knows of the selected files is stale,
  then after the planned segments were prepared and confirmed, planning the same selections against the reloaded
  ledger returns, and has no segment.
\<close>

theorem delivered_then_nothing_left:
  assumes inv: "ledger_inv sha db" and load: "load_supplied s t0 db = (prior, db1)"
    and plan: "plan_evidence udiff ss prior reader = Inr plan" and reader: "faithful_reader reader"
    and ok: "\<forall>s \<in> set ss. valid_range (sel_range s)"
    and current: "\<forall>p \<in> sel_path ` set ss. \<forall>snap. reader p = Inr snap \<longrightarrow> (\<forall>e \<in> set (path_priors p prior). entry_hash e = snap_hash snap)"
    and prep: "prepare_entries sha s (drafts_from_segments (plan_segments plan)) t1 db1 = Inr (d, db2)"
  shows "\<exists>plan'. plan_evidence udiff ss (fst (load_supplied s t3 (mark_supplied d t2 db2))) reader = Inr plan' \<and> plan_segments plan' = []"
proof -
  let ?after = "fst (load_supplied s t3 (mark_supplied d t2 db2))"
  have db1: "db1 = snd (load_supplied s t0 db)" and prior: "prior = fst (load_supplied s t0 db)" using load by simp_all
  have inv1: "ledger_inv sha db1" unfolding db1 by (rule ledger_step_inv [OF ledger_step.loaded inv])
  have rows1: "supplied_rows s db1 = supplied_rows s db"
    by (auto simp: db1 load_supplied_def supplied_rows_def Let_def split: option.splits)
  obtain sid rs new where p: "ledger_inv sha (mark_supplied d t2 db2)" "find_scope_id s (mark_supplied d t2 db2) = Some sid"
    "ledger_rows (mark_supplied d t2 db2) = ledger_rows db1 @ map (confirm t2) rs"
    "list_all2 (drafted sha sid d) (drafts_from_segments (plan_segments plan)) rs"
    "evidence_blobs (mark_supplied d t2 db2) = evidence_blobs db1 @ new"
    "\<forall>b \<in> set new. blob_text b \<in> ld_text ` set (drafts_from_segments (plan_segments plan))"
    "\<forall>r \<in> set (ledger_rows db1). lr_delivery r \<noteq> d" "find_scope_id s db1 = Some sid \<or> (\<forall>r \<in> set (ledger_rows db1). lr_scope r \<noteq> sid)"
    "ledger_rows db2 = ledger_rows db1 @ rs" "ledger_inv sha db2" "find_scope_id s db1 = None \<or> find_scope_id s db1 = Some sid"
    by (rule deliveredE [OF prep inv1])
  note known = loaded_keys [OF p(1), of s t3] and before = loaded_keys [OF inv, of s t0]
  have "draft_lines ` set (drafts_from_segments gs) = (\<lambda>g. (seg_path g, seg_start g, seg_end g, seg_hash g)) ` set gs" for gs
    by (auto simp: drafts_from_segments_def draft_lines_def image_iff)
  then have keys: "entry_key ` set ?after = entry_key ` set prior \<union>
      (\<lambda>g. (seg_path g, seg_start g, seg_end g, seg_hash g)) ` set (plan_segments plan)"
    using delivered_keys [OF prep inv1, of t3 t2] before(1) rows1 by (simp add: prior)
  have valid: "\<forall>e \<in> set ?after. valid_range (entry_range e)" "\<forall>e \<in> set prior. valid_range (entry_range e)"
    using known(2) before(2) prior by auto
  have path: "entry_key ` set (path_priors q es) = {k \<in> entry_key ` set es. fst k = q}" if "\<forall>e \<in> set es. is_known e" for q es
    using that by (force simp: path_priors_def entry_key_def)
  have pk: "entry_key ` set (path_priors q ?after) = entry_key ` set (path_priors q prior) \<union>
      (\<lambda>g. (seg_path g, seg_start g, seg_end g, seg_hash g)) ` {g \<in> set (plan_segments plan). seg_path g = q}" for q
    using path [of ?after q] path [of prior q] known(2) before(2) keys prior by auto
  have "(\<forall>e \<in> set (path_priors q ?after). entry_hash e = snap_hash snap) \<and>
      requested_lines (snap_line_count snap) q ss \<subseteq> entry_lines (path_priors q ?after)"
    if q: "q \<in> sel_path ` set ss" and read: "reader q = Inr snap" for q snap
  proof -
    have all: "\<forall>e \<in> set (path_priors q prior). entry_hash e = snap_hash snap" using current q read by blast
    note cover = plan_cover [OF plan read ok valid(2)]
    have lines: "segment_lines q (plan_segments plan) = requested_lines (snap_line_count snap) q ss - entry_lines (path_priors q prior)"
      using cover q all by (simp add: subtracted_lines_def)
    have "entry_lines (path_priors q ?after) = entry_lines (path_priors q prior) \<union> segment_lines q (plan_segments plan)"
      unfolding entry_lines_keys pk segment_lines_def by auto
    moreover have "entry_hash e = snap_hash snap" if "e \<in> set (path_priors q ?after)" for e
    proof -
      have "entry_key e \<in> entry_key ` set (path_priors q ?after)" using that by blast
      then show ?thesis using all cover unfolding pk by (auto simp: entry_key_def)
    qed
    ultimately show ?thesis using lines by auto
  qed
  from plan_nothing_left [OF plan reader ok valid(1) this] show ?thesis .
qed

section \<open>A first delivery\<close>

definition sample_scope_id :: evidence_scope where
  "sample_scope_id = \<lparr>es_repository = ''/'', es_worktree = ''/'', es_recipient = ''r'', es_session = None, es_conversation = None\<rparr>"

definition sample_ledger_draft :: ledger_draft where
  "sample_ledger_draft = \<lparr>ld_path = ''a'', ld_start = 1, ld_end = 2, ld_source = ''h'', ld_text = ''xy'', ld_category = EditTarget,
     ld_kind = SourcePayload\<rparr>"

lemma prepare_entries_returns:
  assumes "drafts \<noteq> []" and "\<forall>d \<in> set drafts. length (ld_text d) \<le> max_evidence_blob_chars \<and> 1 \<le> ld_start d \<and> ld_start d \<le> ld_end d"
  shows "\<exists>d db'. prepare_entries sha s drafts now db = Inr (d, db')"
proof -
  have "\<exists>db'. foldE (prepare_draft sha sid d now) ds db = Inr db'" if "set ds \<subseteq> set drafts" for sid d ds db
    using that assms(2) by (induction ds arbitrary: db) (auto simp: prepare_draft_def Let_def)
  from this [of drafts] assms(1) show ?thesis by (auto simp: prepare_entries_def Let_def split: prod.splits) (metis bindE.simps(2))
qed

definition small_segment :: "evidence_segment \<Rightarrow> bool" where
  "small_segment g \<longleftrightarrow> length (seg_text g) \<le> 9 \<and> 1 \<le> seg_start g \<and> seg_start g \<le> seg_end g"

lemma sample_plan:
  "(case plan_evidence (\<lambda>_ _. []) [sample_selection] [] sample_reader of Inl _ \<Rightarrow> False
     | Inr plan \<Rightarrow> plan_segments plan \<noteq> [] \<and> list_all small_segment (plan_segments plan))"
  by code_simp

lemma sample_prepare:
  obtains d db' where "prepare_entries (\<lambda>t. t) sample_scope_id [sample_ledger_draft] 1 empty_ledger = Inr (d, db')"
proof -
  have "\<forall>d \<in> set [sample_ledger_draft]. length (ld_text d) \<le> max_evidence_blob_chars \<and> 1 \<le> ld_start d \<and> ld_start d \<le> ld_end d"
    by (simp add: sample_ledger_draft_def max_evidence_blob_chars_def)
  from prepare_entries_returns [OF _ this] show thesis using that by blast
qed

lemma sample_first_delivery:
  obtains plan d db' where "plan_evidence (\<lambda>_ _. []) [sample_selection] [] sample_reader = Inr plan"
    "prepare_entries (\<lambda>t. t) sample_scope_id (drafts_from_segments (plan_segments plan)) 1 empty_ledger = Inr (d, db')"
proof -
  obtain plan where plan: "plan_evidence (\<lambda>_ _. []) [sample_selection] [] sample_reader = Inr plan"
    and segs: "plan_segments plan \<noteq> []" "list_all small_segment (plan_segments plan)"
    using sample_plan by (auto split: sum.splits)
  have "\<forall>d \<in> set (drafts_from_segments (plan_segments plan)).
      length (ld_text d) \<le> max_evidence_blob_chars \<and> 1 \<le> ld_start d \<and> ld_start d \<le> ld_end d"
    using segs(2) by (auto simp: drafts_from_segments_def small_segment_def list_all_iff max_evidence_blob_chars_def)
  moreover have "drafts_from_segments (plan_segments plan) \<noteq> []" using segs(1) by (simp add: drafts_from_segments_def)
  ultimately obtain d db' where
    "prepare_entries (\<lambda>t. t) sample_scope_id (drafts_from_segments (plan_segments plan)) 1 empty_ledger = Inr (d, db')"
    using prepare_entries_returns by blast
  then show thesis by (rule that [OF plan])
qed

lemma sample_sweep:
  "(case prepare_entries (\<lambda>t. t) sample_scope_id [sample_ledger_draft] 1 empty_ledger of Inl _ \<Rightarrow> False
     | Inr (d, db1) \<Rightarrow> (case prepare_entries (\<lambda>t. t) sample_scope_id [sample_ledger_draft] 3 (mark_supplied d 2 db1) of Inl _ \<Rightarrow> False
     | Inr (e, db2) \<Rightarrow> length (ledger_rows db2) = 2 \<and>
         map lr_delivery (ledger_rows (snd (cleanup_abandoned_deliveries (mark_abandoned e db2)))) = [d] \<and>
         length (evidence_blobs (snd (cleanup_abandoned_deliveries (mark_abandoned e db2)))) = 1))"
  by (simp add: prepare_entries_def prepare_draft_def get_or_create_scope_def find_scope_id_def empty_ledger_def upsert_blob_def
      max_evidence_blob_chars_def sample_ledger_draft_def sample_scope_id_def mark_supplied_def mark_abandoned_def
      cleanup_abandoned_deliveries_def gc_orphaned_blobs_def table_simps delete_where_def Let_def result_simps touch_scope_def)

theorem ledger_inv_reachable_witness:
  "\<exists>d db1 e db2. prepare_entries (\<lambda>t. t) sample_scope_id [sample_ledger_draft] 1 empty_ledger = Inr (d, db1) \<and>
     prepare_entries (\<lambda>t. t) sample_scope_id [sample_ledger_draft] 3 (mark_supplied d 2 db1) = Inr (e, db2) \<and>
     ledger_inv (\<lambda>t. t) (snd (cleanup_abandoned_deliveries (mark_abandoned e db2))) \<and>
     length (ledger_rows db2) = 2 \<and>
     map lr_delivery (ledger_rows (snd (cleanup_abandoned_deliveries (mark_abandoned e db2)))) = [d] \<and>
     length (evidence_blobs (snd (cleanup_abandoned_deliveries (mark_abandoned e db2)))) = 1"
proof -
  obtain d db1 where first: "prepare_entries (\<lambda>t. t) sample_scope_id [sample_ledger_draft] 1 empty_ledger = Inr (d, db1)"
    by (rule sample_prepare)
  from sample_sweep obtain e db2 where second: "prepare_entries (\<lambda>t. t) sample_scope_id [sample_ledger_draft] 3 (mark_supplied d 2 db1) = Inr (e, db2)"
    by (cases "prepare_entries (\<lambda>t. t) sample_scope_id [sample_ledger_draft] 3 (mark_supplied d 2 db1)") (auto simp: first)
  from sample_sweep have left: "length (ledger_rows db2) = 2"
    "map lr_delivery (ledger_rows (snd (cleanup_abandoned_deliveries (mark_abandoned e db2)))) = [d]"
    "length (evidence_blobs (snd (cleanup_abandoned_deliveries (mark_abandoned e db2)))) = 1" by (simp_all add: first second)
  note step = rtranclp.rtrancl_into_rtrancl [where r = "ledger_step (\<lambda>t. t)"]
  have "(ledger_step (\<lambda>t. t))\<^sup>*\<^sup>* empty_ledger (snd (cleanup_abandoned_deliveries (mark_abandoned e db2)))"
    by (rule step [OF step [OF step [OF step [OF step [OF rtranclp.rtrancl_refl ledger_step.prepared [OF first]] ledger_step.supplied]
      ledger_step.prepared [OF second]] ledger_step.given_up] ledger_step.swept])
  note inv = ledger_inv_reachable [OF this empty_ledger_inv]
  show ?thesis by (intro exI conjI) (rule first second inv left)+
qed

theorem delivery_roundtrip_witness:
  "\<exists>d db'. prepare_entries (\<lambda>t. t) sample_scope_id [sample_ledger_draft] 1 empty_ledger = Inr (d, db') \<and>
     length (filter (\<lambda>e. entry_delivery e = Some d) (fst (load_supplied sample_scope_id 3 (mark_supplied d 2 db')))) = 1"
proof -
  obtain d db' where run: "prepare_entries (\<lambda>t. t) sample_scope_id [sample_ledger_draft] 1 empty_ledger = Inr (d, db')"
    by (rule sample_prepare)
  have "mset (map loaded_draft (filter (\<lambda>e. entry_delivery e = Some d) (fst (load_supplied sample_scope_id 3 (mark_supplied d 2 db'))))) =
      mset (map draft_content [sample_ledger_draft])"
    using delivery_roundtrip [OF run empty_ledger_inv, of 3 2] by simp
  from arg_cong [OF this, of size] run show ?thesis by (auto simp del: mset_filter mset_map)
qed

theorem abandoned_never_known_witness:
  "\<exists>d db'. prepare_entries (\<lambda>t. t) sample_scope_id [sample_ledger_draft] 1 empty_ledger = Inr (d, db') \<and>
     (\<forall>e \<in> set (fst (load_supplied sample_scope_id 3 (mark_supplied d 2 (mark_abandoned d db')))). entry_delivery e \<noteq> Some d)"
proof -
  obtain d db' where run: "prepare_entries (\<lambda>t. t) sample_scope_id [sample_ledger_draft] 1 empty_ledger = Inr (d, db')"
    by (rule sample_prepare)
  have inv: "ledger_inv (\<lambda>t. t) db'" by (rule ledger_step_inv [OF ledger_step.prepared [OF run] empty_ledger_inv])
  have new: "d = UUID4 0" "0 < ledger_draws db'" "\<forall>r \<in> set (ledger_rows db'). lr_status r \<noteq> Supplied"
    using run by (auto simp: prepare_entries_def prepare_draft_def get_or_create_scope_def find_scope_id_def empty_ledger_def
        upsert_blob_def Let_def result_simps split: if_splits)
  have "\<forall>r \<in> set (ledger_rows db'). lr_delivery r = d \<longrightarrow> lr_status r \<noteq> Supplied" using new(3) by blast
  moreover have "(ledger_step (\<lambda>t. t))\<^sup>*\<^sup>* (mark_abandoned d db') (mark_supplied d 2 (mark_abandoned d db'))"
    by (rule r_into_rtranclp [of "ledger_step (\<lambda>t. t)", OF ledger_step.supplied])
  ultimately show ?thesis using abandoned_never_known [OF inv _ new(1,2)] run by blast
qed

theorem delivered_then_nothing_left_witness:
  "\<exists>plan d db2 plan'. plan_evidence (\<lambda>_ _. []) [sample_selection] [] sample_reader = Inr plan \<and>
     prepare_entries (\<lambda>t. t) sample_scope_id (drafts_from_segments (plan_segments plan)) 1 empty_ledger = Inr (d, db2) \<and>
     plan_evidence (\<lambda>_ _. []) [sample_selection] (fst (load_supplied sample_scope_id 3 (mark_supplied d 2 db2))) sample_reader = Inr plan' \<and>
     plan_segments plan' = []"
proof -
  obtain plan d db2 where plan: "plan_evidence (\<lambda>_ _. []) [sample_selection] [] sample_reader = Inr plan"
    and prep: "prepare_entries (\<lambda>t. t) sample_scope_id (drafts_from_segments (plan_segments plan)) 1 empty_ledger = Inr (d, db2)"
    by (rule sample_first_delivery)
  have load: "load_supplied sample_scope_id 0 empty_ledger = ([], empty_ledger)"
    by (simp add: load_supplied_def find_scope_id_def empty_ledger_def)
  have "count_source_lines (''x'' @ newline @ ''y'' @ newline @ ''z'') = 3" by code_simp
  then have "faithful_reader sample_reader" by (simp add: faithful_reader_def sample_reader_def)
  from delivered_then_nothing_left [OF empty_ledger_inv load plan this sample_valid(1) _ prep] plan prep show ?thesis
    by (auto simp: path_priors_def)
qed

end
