(* ===== verification/Tickets.thy ===== *)
theory Tickets
  imports WorkflowRounds
begin

text \<open>
  Tickets: the tables of \<open>murder/state/persistence/tickets.py\<close> and \<open>escalations.py\<close>, the status machine of
  \<open>murder/work/tickets/lifecycle.py\<close>, carving (\<open>work/tickets/carve.py\<close>), and the outcomes of
  \<open>murder/runtime/orchestration/outcome.py\<close>. A change of status reports terminal outcomes to the
  workflow runs of the ticket in the same transaction, so the tables extend those of the workflow world.

  The connection is in autocommit mode: an operation that owns its transaction either returns the new state
  or an error without one; an operation of several transactions returns its answer or error next to the
  state it left. \<open>_now\<close> is the argument \<open>now\<close>, stored as text with seconds. The events and the Git worktrees
  are not part of the state.
\<close>

section \<open>Tables\<close>

datatype ticket_status = TkDraft | TkPlanned | TkReady | TkInProgress | TkBlocked | TkDone | TkFailed | TkArchived

definition ticket_status_value :: "ticket_status \<Rightarrow> string" where
  "ticket_status_value s = (case s of TkDraft \<Rightarrow> ''draft'' | TkPlanned \<Rightarrow> ''planned'' | TkReady \<Rightarrow> ''ready''
     | TkInProgress \<Rightarrow> ''in_progress'' | TkBlocked \<Rightarrow> ''blocked'' | TkDone \<Rightarrow> ''done'' | TkFailed \<Rightarrow> ''failed''
     | TkArchived \<Rightarrow> ''archived'')"

text \<open>The columns of the Markdown synchronisation.\<close>

record sync_columns =
  metadata_hash :: "string option"
  metadata_file_hash :: "string option"
  last_materialized_hash :: "string option"
  materialized_path :: "string option"
  sync_state :: string
  sync_parse_error :: "string option"
  conflict_reason :: "string option"

definition new_sync :: sync_columns where
  "new_sync = \<lparr>metadata_hash = None, metadata_file_hash = None, last_materialized_hash = None, materialized_path = None,
     sync_state = ''synced'', sync_parse_error = None, conflict_reason = None\<rparr>"

record ticket_row =
  ticket_repository :: string
  ticket_key_id :: string
  ticket_title :: string
  ticket_state :: ticket_status
  ticket_harness :: "string option"
  ticket_model :: "string option"
  ticket_worktree :: "string option"
  ticket_schedule_at :: "string option"
  ticket_parent :: "string option"
  ticket_sync :: sync_columns
  ticket_attempts :: int
  ticket_last_error :: "string option"
  ticket_created_at :: string
  ticket_updated_at :: string

record dep_row =
  dep_repository :: string
  dep_ticket :: string
  dep_on :: string

record checklist_row =
  item_id :: nat
  item_repository :: string
  item_ticket :: string
  item_ord :: int
  item_text :: string
  item_done :: bool
  item_done_at :: "string option"

record escalation_row =
  esc_id :: nat
  esc_repository :: string
  esc_at :: string
  esc_ticket :: "string option"
  esc_severity :: int
  esc_reason :: string
  esc_recipient :: string
  esc_resolved_at :: "string option"

record ticket_db = activity_db +
  ticket_rows :: "ticket_row list"
  dep_rows :: "dep_row list"
  checklist_rows :: "checklist_row list"
  escalation_rows :: "escalation_row list"
  next_item :: nat
  next_escalation :: nat

text \<open>The value a caller passes to \<open>insert_ticket\<close>.\<close>

record new_ticket =
  nt_id :: string
  nt_title :: string
  nt_status :: ticket_status
  nt_deps :: "string list"
  nt_parent :: "string option"
  nt_harness :: "string option"
  nt_model :: "string option"
  nt_attempts :: int
  nt_created_at :: time
  nt_checklist :: "(int \<times> string \<times> bool) list"

section \<open>Invalidations\<close>

definition next_generation :: "string \<Rightarrow> string \<Rightarrow> string \<Rightarrow> 'z fact_db_scheme \<Rightarrow> int" where
  "next_generation repo proj subject db =
     fold max (map generation (filter (\<lambda>r. input_repository r = repo \<and> projection r = proj \<and> subject_key r = subject)
       (projection_inputs db))) (-1) + 1"

definition schedule_namespace :: uuid where
  "schedule_namespace = UUID 0xa8c3e1f05b2d4e9a9c1f7d6e4b3a2f10"

definition roster_namespace :: uuid where
  "roster_namespace = UUID 0xd56cf25f4a1b4e34a3c23f73893a4d7d"

definition invalidate_ticket_schedule :: "string \<Rightarrow> string \<Rightarrow> string \<Rightarrow> time \<Rightarrow> 'z fact_db_scheme \<Rightarrow>
    exn + 'z fact_db_scheme" where
  "invalidate_ticket_schedule repo tid operation now db =
     (let n = next_generation repo ''schedule'' tid db in
      bindE (append_projection_input repo
          \<lparr>input_id = UUID5 schedule_namespace (tid @ '':'' @ int_text n @ '':'' @ operation),
           projection = ''schedule'', subject_key = tid, generation = n\<rparr> now db) (\<lambda>(_, db). Inr db))"

definition invalidate_roster :: "string \<Rightarrow> string \<Rightarrow> time \<Rightarrow> 'z fact_db_scheme \<Rightarrow> exn + 'z fact_db_scheme" where
  "invalidate_roster repo subject now db =
     (let n = next_generation repo ''roster'' subject db in
      bindE (append_projection_input repo
          \<lparr>input_id = UUID5 roster_namespace (subject @ '':'' @ int_text n),
           projection = ''roster'', subject_key = subject, generation = n\<rparr> now db) (\<lambda>(_, db). Inr db))"

section \<open>The store\<close>

definition this_ticket :: "string \<Rightarrow> string \<Rightarrow> ticket_row \<Rightarrow> bool" where
  "this_ticket repo tid r \<longleftrightarrow> ticket_repository r = repo \<and> ticket_key_id r = tid"

definition find_ticket :: "string \<Rightarrow> string \<Rightarrow> 'z ticket_db_scheme \<Rightarrow> ticket_row option" where
  "find_ticket repo tid db = find (this_ticket repo tid) (ticket_rows db)"

definition get_ticket_status :: "string \<Rightarrow> string \<Rightarrow> 'z ticket_db_scheme \<Rightarrow> ticket_status option" where
  "get_ticket_status repo tid db = map_option ticket_state (find_ticket repo tid db)"

definition insert_ticket_row :: "ticket_row \<Rightarrow> 'z ticket_db_scheme \<Rightarrow> exn + 'z ticket_db_scheme" where
  "insert_ticket_row r db =
     (if find_ticket (ticket_repository r) (ticket_key_id r) db \<noteq> None then Inl IntegrityError
      else if (case ticket_parent r of None \<Rightarrow> False | Some p \<Rightarrow> find_ticket (ticket_repository r) p db = None \<and> p \<noteq> ticket_key_id r)
      then Inl IntegrityError
      else Inr (db\<lparr>ticket_rows := ticket_rows db @ [r]\<rparr>))"

definition insert_dep :: "string \<Rightarrow> string \<Rightarrow> string \<Rightarrow> 'z ticket_db_scheme \<Rightarrow> exn + 'z ticket_db_scheme" where
  "insert_dep repo tid dep db =
     (let r = \<lparr>dep_repository = repo, dep_ticket = tid, dep_on = dep\<rparr> in
      if tid = dep \<or> List.member (dep_rows db) r \<or> find_ticket repo tid db = None \<or> find_ticket repo dep db = None
      then Inl IntegrityError
      else Inr (db\<lparr>dep_rows := dep_rows db @ [r]\<rparr>))"

definition insert_item :: "string \<Rightarrow> string \<Rightarrow> int \<times> string \<times> bool \<Rightarrow> 'z ticket_db_scheme \<Rightarrow> exn + 'z ticket_db_scheme" where
  "insert_item repo tid = (\<lambda>(n, text, finished) db.
     if find_ticket repo tid db = None then Inl IntegrityError
     else Inr (db\<lparr>checklist_rows := checklist_rows db @ [\<lparr>item_id = next_item db, item_repository = repo, item_ticket = tid,
            item_ord = n, item_text = text, item_done = finished, item_done_at = None\<rparr>],
          next_item := Suc (next_item db)\<rparr>))"

definition open_items :: "string list \<Rightarrow> (int \<times> string \<times> bool) list" where
  "open_items items = map (\<lambda>(n, text). (int n, text, False)) (enumerate 0 items)"

definition ticket_subject :: "string \<Rightarrow> string" where
  "ticket_subject tid = ''ticket:'' @ tid"

definition insert_ticket :: "string \<Rightarrow> new_ticket \<Rightarrow> time \<Rightarrow> 'z ticket_db_scheme \<Rightarrow> exn + 'z ticket_db_scheme" where
  "insert_ticket repo t now db =
     bindE (insert_ticket_row \<lparr>ticket_repository = repo, ticket_key_id = nt_id t, ticket_title = nt_title t,
         ticket_state = nt_status t, ticket_harness = nt_harness t, ticket_model = nt_model t, ticket_worktree = None,
         ticket_schedule_at = None, ticket_parent = nt_parent t, ticket_sync = new_sync, ticket_attempts = nt_attempts t,
         ticket_last_error = None,
         ticket_created_at = iso_seconds (nt_created_at t), ticket_updated_at = iso_seconds now\<rparr> db) (\<lambda>db.
     bindE (foldE (insert_dep repo (nt_id t)) (nt_deps t) db) (\<lambda>db.
     bindE (foldE (insert_item repo (nt_id t)) (nt_checklist t) db) (\<lambda>db.
     bindE (invalidate_ticket_schedule repo (nt_id t) ''insert'' now db) (\<lambda>db.
     invalidate_roster repo (ticket_subject (nt_id t)) now db))))"

definition update_ticket :: "string \<Rightarrow> string \<Rightarrow> (ticket_row \<Rightarrow> ticket_row) \<Rightarrow> 'z ticket_db_scheme \<Rightarrow> 'z ticket_db_scheme" where
  "update_ticket repo tid f db = db\<lparr>ticket_rows := update_where (this_ticket repo tid) f (ticket_rows db)\<rparr>"

definition apply_ticket_carve_payload :: "string \<Rightarrow> string \<Rightarrow> string \<Rightarrow> string option \<Rightarrow> string option \<Rightarrow> string list \<Rightarrow>
    string list \<Rightarrow> time \<Rightarrow> 'z ticket_db_scheme \<Rightarrow> exn + 'z ticket_db_scheme" where
  "apply_ticket_carve_payload repo tid title harness model deps checklist now db =
     (let db = update_ticket repo tid (\<lambda>r. r\<lparr>ticket_title := title, ticket_harness := harness, ticket_model := model,
          ticket_updated_at := iso_seconds now\<rparr>) db;
          db = db\<lparr>dep_rows := delete_where (\<lambda>d. dep_repository d = repo \<and> dep_ticket d = tid) (dep_rows db)\<rparr>
      in
      bindE (foldE (insert_dep repo tid) deps db) (\<lambda>db.
      bindE (foldE (insert_item repo tid) (open_items checklist)
          (db\<lparr>checklist_rows := delete_where (\<lambda>i. item_repository i = repo \<and> item_ticket i = tid) (checklist_rows db)\<rparr>)) (\<lambda>db.
      bindE (invalidate_ticket_schedule repo tid ''carve'' now db) (\<lambda>db.
      invalidate_roster repo (ticket_subject tid) now db))))"

definition update_ticket_status :: "(json_object \<Rightarrow> exn + fact_payload) \<Rightarrow> string \<Rightarrow> string \<Rightarrow> ticket_status \<Rightarrow> time \<Rightarrow>
    'z ticket_db_scheme \<Rightarrow> exn + 'z ticket_db_scheme" where
  "update_ticket_status validate repo tid s now db =
     bindE (notify_ticket_status validate repo tid (ticket_status_value s) now
         (update_ticket repo tid (\<lambda>r. r\<lparr>ticket_state := s, ticket_updated_at := iso_seconds now\<rparr>) db)) (\<lambda>(_, db).
     bindE (invalidate_ticket_schedule repo tid (''status:'' @ ticket_status_value s) now db) (\<lambda>db.
     invalidate_roster repo (ticket_subject tid) now db))"

definition update_ticket_schedule_at :: "string \<Rightarrow> string \<Rightarrow> string option \<Rightarrow> time \<Rightarrow> 'z ticket_db_scheme \<Rightarrow>
    exn + 'z ticket_db_scheme" where
  "update_ticket_schedule_at repo tid at now db =
     invalidate_ticket_schedule repo tid ''schedule_at'' now
       (update_ticket repo tid (\<lambda>r. r\<lparr>ticket_schedule_at := at, ticket_updated_at := iso_seconds now\<rparr>) db)"

text \<open>A dependency that is not finished: \<open>JOIN tickets AS dep ... dep.status NOT IN ('done', 'archived')\<close>.\<close>

definition finished_status :: "ticket_status \<Rightarrow> bool" where
  "finished_status s \<longleftrightarrow> s = TkDone \<or> s = TkArchived"

definition open_dependency :: "'z ticket_db_scheme \<Rightarrow> ticket_row \<Rightarrow> dep_row \<Rightarrow> bool" where
  "open_dependency db t d \<longleftrightarrow> dep_repository d = ticket_repository t \<and> dep_ticket d = ticket_key_id t \<and>
     list_ex (\<lambda>u. this_ticket (dep_repository d) (dep_on d) u \<and> \<not> finished_status (ticket_state u)) (ticket_rows db)"

definition compute_ready :: "string \<Rightarrow> 'z ticket_db_scheme \<Rightarrow> string list" where
  "compute_ready repo db = sort (map ticket_key_id (filter (\<lambda>t. ticket_repository t = repo \<and> ticket_state t = TkReady \<and>
     \<not> list_ex (open_dependency db t) (dep_rows db)) (ticket_rows db)))"

definition dependents_of :: "string \<Rightarrow> string \<Rightarrow> 'z ticket_db_scheme \<Rightarrow> string list" where
  "dependents_of repo tid db = map dep_ticket (filter (\<lambda>d. dep_repository d = repo \<and> dep_on d = tid) (dep_rows db))"

definition list_tickets_by_status :: "string \<Rightarrow> ticket_status \<Rightarrow> 'z ticket_db_scheme \<Rightarrow> ticket_row list" where
  "list_tickets_by_status repo s db = sort_key ticket_key_id
     (filter (\<lambda>t. ticket_repository t = repo \<and> ticket_state t = s) (ticket_rows db))"

subsection \<open>Checklists\<close>

definition items_of :: "string \<Rightarrow> string \<Rightarrow> checklist_row \<Rightarrow> bool" where
  "items_of repo tid i \<longleftrightarrow> item_repository i = repo \<and> item_ticket i = tid"

definition set_checklist :: "string \<Rightarrow> string \<Rightarrow> string list \<Rightarrow> 'z ticket_db_scheme \<Rightarrow> exn + 'z ticket_db_scheme" where
  "set_checklist repo tid items db = foldE (insert_item repo tid) (open_items items)
     (db\<lparr>checklist_rows := delete_where (items_of repo tid) (checklist_rows db)\<rparr>)"

definition check_off_item :: "string \<Rightarrow> string \<Rightarrow> string \<Rightarrow> time \<Rightarrow> 'z ticket_db_scheme \<Rightarrow> bool \<times> 'z ticket_db_scheme" where
  "check_off_item repo tid text now db =
     (case sort_key item_ord (filter (\<lambda>i. items_of repo tid i \<and> \<not> item_done i \<and> item_text i = text) (checklist_rows db)) of
        [] \<Rightarrow> (False, db)
      | i # _ \<Rightarrow> (True, db\<lparr>checklist_rows := update_where (\<lambda>j. item_repository j = repo \<and> item_id j = item_id i)
          (\<lambda>j. j\<lparr>item_done := True, item_done_at := Some (iso_seconds now)\<rparr>) (checklist_rows db)\<rparr>))"

definition all_checked :: "string \<Rightarrow> string \<Rightarrow> 'z ticket_db_scheme \<Rightarrow> bool" where
  "all_checked repo tid db \<longleftrightarrow> count_where (\<lambda>i. items_of repo tid i \<and> \<not> item_done i) (checklist_rows db) = 0"

definition checklist_progress :: "string \<Rightarrow> string \<Rightarrow> 'z ticket_db_scheme \<Rightarrow> nat \<times> nat" where
  "checklist_progress repo tid db =
     (count_where (\<lambda>i. items_of repo tid i \<and> item_done i) (checklist_rows db), count_where (items_of repo tid) (checklist_rows db))"

section \<open>Escalations\<close>

text \<open>The table checks the severity and the recipient (\<open>state/persistence/schema.py\<close>), and the ticket is a foreign key.\<close>

definition insert_escalation :: "string \<Rightarrow> string option \<Rightarrow> int \<Rightarrow> string \<Rightarrow> string \<Rightarrow> time \<Rightarrow> 'z ticket_db_scheme \<Rightarrow>
    exn + nat \<times> 'z ticket_db_scheme" where
  "insert_escalation repo tid severity reason recipient now db =
     (let n = next_escalation db in
      if severity < 1 \<or> 3 < severity \<or> \<not> List.member [''user'', ''collaborator''] recipient \<or>
         (case tid of None \<Rightarrow> False | Some t \<Rightarrow> find_ticket repo t db = None) then Inl IntegrityError
      else bindE (invalidate_roster repo (''escalation:'' @ nat_text n) now
        (db\<lparr>escalation_rows := escalation_rows db @ [\<lparr>esc_id = n, esc_repository = repo, esc_at = iso_seconds now,
            esc_ticket = tid, esc_severity = severity, esc_reason = reason, esc_recipient = recipient,
            esc_resolved_at = None\<rparr>], next_escalation := Suc n\<rparr>)) (\<lambda>db. Inr (n, db)))"

definition resolve_escalation :: "string \<Rightarrow> nat \<Rightarrow> time \<Rightarrow> 'z ticket_db_scheme \<Rightarrow> exn + 'z ticket_db_scheme" where
  "resolve_escalation repo n now db =
     invalidate_roster repo (''escalation:'' @ nat_text n) now
       (db\<lparr>escalation_rows := update_where (\<lambda>e. esc_repository e = repo \<and> esc_id e = n)
          (\<lambda>e. e\<lparr>esc_resolved_at := Some (iso_seconds now)\<rparr>) (escalation_rows db)\<rparr>)"

definition list_pending_escalations :: "string \<Rightarrow> string option \<Rightarrow> 'z ticket_db_scheme \<Rightarrow> escalation_row list" where
  "list_pending_escalations repo recipient db = rev (sort_key esc_at (rev
     (filter (\<lambda>e. esc_repository e = repo \<and> esc_resolved_at e = None \<and>
        (case recipient of None \<Rightarrow> True | Some r \<Rightarrow> esc_recipient e = r)) (escalation_rows db))))"

definition clamp_severity :: "int \<Rightarrow> int" where
  "clamp_severity n = max 1 (min 3 n)"

definition escalate_to_user :: "string \<Rightarrow> string \<Rightarrow> int \<Rightarrow> string option \<Rightarrow> time \<Rightarrow> 'z ticket_db_scheme \<Rightarrow>
    exn + nat \<times> 'z ticket_db_scheme" where
  "escalate_to_user repo reason severity tid now db =
     insert_escalation repo tid (clamp_severity severity) reason ''user'' now db"

definition record_ticket_failure :: "string \<Rightarrow> string \<Rightarrow> string \<Rightarrow> time \<Rightarrow> 'z ticket_db_scheme \<Rightarrow> exn + nat \<times> 'z ticket_db_scheme" where
  "record_ticket_failure repo tid reason now db = escalate_to_user repo reason 2 (Some tid) now db"

section \<open>The status machine\<close>

definition valid_transitions :: "ticket_status \<Rightarrow> ticket_status list" where
  "valid_transitions s = (case s of
     TkDraft \<Rightarrow> [TkPlanned, TkArchived]
   | TkPlanned \<Rightarrow> [TkReady, TkArchived]
   | TkReady \<Rightarrow> [TkInProgress, TkPlanned, TkArchived]
   | TkInProgress \<Rightarrow> [TkDone, TkBlocked, TkFailed, TkArchived]
   | TkBlocked \<Rightarrow> [TkInProgress, TkFailed, TkArchived]
   | TkFailed \<Rightarrow> [TkPlanned, TkReady, TkArchived]
   | TkDone \<Rightarrow> [TkPlanned, TkArchived]
   | TkArchived \<Rightarrow> [TkPlanned])"

definition transition :: "(json_object \<Rightarrow> exn + fact_payload) \<Rightarrow> string \<Rightarrow> string \<Rightarrow> ticket_status \<Rightarrow> time \<Rightarrow>
    'z ticket_db_scheme \<Rightarrow> exn + ticket_status \<times> 'z ticket_db_scheme" where
  "transition validate repo tid new now db =
     (case get_ticket_status repo tid db of
        None \<Rightarrow> Inl (KeyError tid)
      | Some prev \<Rightarrow>
          if prev = new then Inr (prev, db)
          else if \<not> List.member (valid_transitions prev) new then Inl (InvalidTransition tid)
          else bindE (update_ticket_status validate repo tid new now db) (\<lambda>db. Inr (prev, db)))"

definition clear_last_error :: "string \<Rightarrow> string \<Rightarrow> time \<Rightarrow> 'z ticket_db_scheme \<Rightarrow> 'z ticket_db_scheme" where
  "clear_last_error repo tid now db =
     update_ticket repo tid (\<lambda>r. r\<lparr>ticket_last_error := None, ticket_updated_at := iso_seconds now\<rparr>) db"

definition set_last_error :: "string \<Rightarrow> string \<Rightarrow> string \<Rightarrow> time \<Rightarrow> 'z ticket_db_scheme \<Rightarrow> 'z ticket_db_scheme" where
  "set_last_error repo tid why now db =
     update_ticket repo tid (\<lambda>r. r\<lparr>ticket_last_error := Some why, ticket_updated_at := iso_seconds now\<rparr>) db"

text \<open>Every transition of a cascade commits on its own, so an error leaves the earlier ones in place.\<close>

fun reopen_dependents :: "(json_object \<Rightarrow> exn + fact_payload) \<Rightarrow> string \<Rightarrow> time \<Rightarrow> string list \<Rightarrow> string list \<Rightarrow>
    'z ticket_db_scheme \<Rightarrow> (exn + string list) \<times> 'z ticket_db_scheme" where
  "reopen_dependents validate repo now [] cascaded db = (Inr cascaded, db)"
| "reopen_dependents validate repo now (d # ds) cascaded db =
     (if (case get_ticket_status repo d db of None \<Rightarrow> False | Some s \<Rightarrow> List.member [TkReady, TkInProgress, TkBlocked] s) then
        (case transition validate repo d TkPlanned now db of
           Inr (_, db') \<Rightarrow> reopen_dependents validate repo now ds (cascaded @ [d]) db'
         | Inl (InvalidTransition _) \<Rightarrow> reopen_dependents validate repo now ds cascaded db
         | Inl e \<Rightarrow> (Inl e, db))
      else reopen_dependents validate repo now ds cascaded db)"

definition reopen :: "(json_object \<Rightarrow> exn + fact_payload) \<Rightarrow> string \<Rightarrow> string \<Rightarrow> time \<Rightarrow> 'z ticket_db_scheme \<Rightarrow>
    (exn + string list) \<times> 'z ticket_db_scheme" where
  "reopen validate repo tid now db =
     (case transition validate repo tid TkPlanned now db of
        Inl e \<Rightarrow> (Inl e, db)
      | Inr (_, db) \<Rightarrow> reopen_dependents validate repo now (dependents_of repo tid db) [] db)"

section \<open>Outcomes\<close>

fun advance_ticket :: "(json_object \<Rightarrow> exn + fact_payload) \<Rightarrow> string \<Rightarrow> string \<Rightarrow> time \<Rightarrow> ticket_status list \<Rightarrow>
    'z ticket_db_scheme \<Rightarrow> (exn + unit) \<times> 'z ticket_db_scheme" where
  "advance_ticket validate repo tid now [] db = (Inr (), db)"
| "advance_ticket validate repo tid now (s # ss) db =
     (case transition validate repo tid s now db of
        Inl e \<Rightarrow> (Inl e, db) | Inr (_, db) \<Rightarrow> advance_ticket validate repo tid now ss db)"

definition steps_to_done :: "ticket_status \<Rightarrow> ticket_status list" where
  "steps_to_done s = (if s = TkPlanned then [TkReady] else []) @
     (if List.member [TkPlanned, TkReady, TkBlocked] s then [TkInProgress] else []) @ [TkDone]"

definition complete_ticket :: "(json_object \<Rightarrow> exn + fact_payload) \<Rightarrow> string \<Rightarrow> string \<Rightarrow> time \<Rightarrow> 'z ticket_db_scheme \<Rightarrow>
    (exn + unit) \<times> 'z ticket_db_scheme" where
  "complete_ticket validate repo tid now db =
     (case get_ticket_status repo tid db of
        None \<Rightarrow> (Inr (), db)
      | Some s \<Rightarrow>
          if \<not> List.member [TkReady, TkInProgress, TkBlocked, TkPlanned] s then (Inr (), db)
          else advance_ticket validate repo tid now (steps_to_done s) db)"

definition report_failure :: "string \<Rightarrow> string \<Rightarrow> string \<Rightarrow> time \<Rightarrow> 'z ticket_db_scheme \<Rightarrow> (exn + unit) \<times> 'z ticket_db_scheme" where
  "report_failure repo tid reason now db =
     (case record_ticket_failure repo tid reason now db of Inl e \<Rightarrow> (Inl e, db) | Inr (_, db) \<Rightarrow> (Inr (), db))"

definition fail_ticket :: "(json_object \<Rightarrow> exn + fact_payload) \<Rightarrow> string \<Rightarrow> string \<Rightarrow> string \<Rightarrow> time \<Rightarrow> 'z ticket_db_scheme \<Rightarrow>
    (exn + unit) \<times> 'z ticket_db_scheme" where
  "fail_ticket validate repo tid reason now db =
     (let failed = (\<lambda>db. report_failure repo tid reason now (set_last_error repo tid reason now db)) in
      case transition validate repo tid TkFailed now db of
        Inr (_, db) \<Rightarrow> failed db
      | Inl _ \<Rightarrow> (case update_ticket_status validate repo tid TkFailed now db of
           Inl e \<Rightarrow> (Inl e, db) | Inr db \<Rightarrow> failed db))"

definition block_ticket :: "(json_object \<Rightarrow> exn + fact_payload) \<Rightarrow> string \<Rightarrow> string \<Rightarrow> string \<Rightarrow> time \<Rightarrow> 'z ticket_db_scheme \<Rightarrow>
    (exn + unit) \<times> 'z ticket_db_scheme" where
  "block_ticket validate repo tid reason now db =
     (case update_ticket_status validate repo tid TkBlocked now db of
        Inl e \<Rightarrow> (Inl e, db) | Inr db \<Rightarrow> report_failure repo tid reason now db)"

section \<open>Carving\<close>

definition truthy :: "json \<Rightarrow> bool" where
  "truthy v = (case v of JNull \<Rightarrow> False | JBool b \<Rightarrow> b | JInt n \<Rightarrow> n \<noteq> 0 | JStr s \<Rightarrow> s \<noteq> [] | JList js \<Rightarrow> js \<noteq> []
     | JObj kvs \<Rightarrow> kvs \<noteq> [])"

text \<open>\<open>dict.get\<close>: a missing key is null.\<close>

definition json_get :: "json_object \<Rightarrow> string \<Rightarrow> json" where
  "json_get d k = (case map_of d k of None \<Rightarrow> JNull | Some v \<Rightarrow> v)"

definition require_str_list :: "json_object \<Rightarrow> string \<Rightarrow> exn + string list" where
  "require_str_list spec k = (case json_get spec k of JNull \<Rightarrow> Inr [] | JList js \<Rightarrow> Inr (map json_str js)
     | _ \<Rightarrow> Inl (ValueError (k @ '' must be a list'')))"

definition blank_to_none :: "string \<Rightarrow> string option" where
  "blank_to_none s = (if s = [] then None else Some s)"

definition normalize_model :: "json_object \<Rightarrow> string option" where
  "normalize_model spec = (case json_get spec ''model'' of JNull \<Rightarrow> None | m \<Rightarrow> blank_to_none (strip (json_str m)))"

record carve_form =
  carve_title :: string
  carve_harness :: string
  carve_model :: "string option"
  carve_deps :: "string list"
  carve_checklist :: "string list"

definition stripped_text :: "json \<Rightarrow> string option" where
  "stripped_text v = (if truthy v then blank_to_none (strip (json_str v)) else None)"

definition read_carve_spec :: "string \<Rightarrow> json_object \<Rightarrow> exn + carve_form" where
  "read_carve_spec tid spec =
     (if json_get spec ''id'' \<noteq> JStr tid then Inl (ValueError ''payload id does not match target ticket'')
      else case stripped_text (json_get spec ''title'') of
        None \<Rightarrow> Inl (ValueError ''title is required in carving payload'')
      | Some title \<Rightarrow>
        (case stripped_text (case json_get spec ''harness_override'' of JNull \<Rightarrow> json_get spec ''harness'' | h \<Rightarrow> h) of
           None \<Rightarrow> Inl (ValueError ''harness_override (or harness) is required'')
         | Some harness \<Rightarrow>
             bindE (require_str_list spec ''deps'') (\<lambda>deps.
             bindE (require_str_list spec ''checklist'') (\<lambda>checklist.
             Inr \<lparr>carve_title = title, carve_harness = harness, carve_model = normalize_model spec, carve_deps = deps,
               carve_checklist = checklist\<rparr>))))"

definition carvable :: "ticket_status option \<Rightarrow> bool" where
  "carvable s = (case s of None \<Rightarrow> True | Some s \<Rightarrow> s = TkPlanned \<or> s = TkReady)"

definition apply_carve_ready_spec :: "(json_object \<Rightarrow> exn + fact_payload) \<Rightarrow> string \<Rightarrow> string \<Rightarrow> json_object \<Rightarrow> time \<Rightarrow>
    'z ticket_db_scheme \<Rightarrow> exn + ticket_status \<times> 'z ticket_db_scheme" where
  "apply_carve_ready_spec validate repo tid spec now db =
     bindE (read_carve_spec tid spec) (\<lambda>c.
     if \<not> carvable (get_ticket_status repo tid db) then Inl (ValueError ''ticket must be planned or ready'')
     else
       bindE (if get_ticket_status repo tid db \<noteq> None then Inr db
         else insert_ticket_row \<lparr>ticket_repository = repo, ticket_key_id = tid, ticket_title = carve_title c,
           ticket_state = TkPlanned, ticket_harness = Some (carve_harness c), ticket_model = carve_model c,
           ticket_worktree = None, ticket_schedule_at = None, ticket_parent = None, ticket_sync = new_sync,
           ticket_attempts = 0, ticket_last_error = None, ticket_created_at = iso_seconds now, ticket_updated_at = iso_seconds now\<rparr> db) (\<lambda>db.
       bindE (apply_ticket_carve_payload repo tid (carve_title c) (Some (carve_harness c)) (carve_model c) (carve_deps c)
         (carve_checklist c) now db) (\<lambda>db.
       transition validate repo tid TkReady now db)))"

section \<open>Operator commands\<close>

datatype op_answer = Handled | Refused string

definition ticket_status_of :: "string \<Rightarrow> ticket_status option" where
  "ticket_status_of text = find (\<lambda>s. ticket_status_value s = text)
     [TkDraft, TkPlanned, TkReady, TkInProgress, TkBlocked, TkDone, TkFailed, TkArchived]"

definition retry_failed_ticket :: "(json_object \<Rightarrow> exn + fact_payload) \<Rightarrow> string \<Rightarrow> string \<Rightarrow> time \<Rightarrow> 'z ticket_db_scheme \<Rightarrow>
    exn + ticket_status \<times> 'z ticket_db_scheme" where
  "retry_failed_ticket validate repo tid now db =
     bindE (transition validate repo tid TkReady now db) (\<lambda>(prev, db). Inr (prev, clear_last_error repo tid now db))"

definition force_ticket_status :: "(json_object \<Rightarrow> exn + fact_payload) \<Rightarrow> string \<Rightarrow> string \<Rightarrow> string \<Rightarrow> time \<Rightarrow>
    'z ticket_db_scheme \<Rightarrow> exn + op_answer \<times> 'z ticket_db_scheme" where
  "force_ticket_status validate repo tid status now db =
     (case ticket_status_of status of
        None \<Rightarrow> Inr (Refused ''invalid status'', db)
      | Some s \<Rightarrow>
        if s = TkDraft then Inr (Refused ''invalid status'', db)
        else case get_ticket_status repo tid db of
          None \<Rightarrow> Inr (Refused ''ticket not found'', db)
        | Some prev \<Rightarrow>
            bindE (update_ticket_status validate repo tid s now db) (\<lambda>db.
            Inr (Handled, if prev = TkFailed \<and> s \<noteq> TkFailed then clear_last_error repo tid now db else db)))"

text \<open>Iterating a JSON value: the characters of a text, the keys of an object; a number or a truth value raises.\<close>

definition json_iter :: "json \<Rightarrow> exn + json list" where
  "json_iter v = (case v of JList js \<Rightarrow> Inr js | JStr s \<Rightarrow> Inr (map (\<lambda>c. JStr [c]) s) | JObj kvs \<Rightarrow> Inr (map (JStr \<circ> fst) kvs)
     | _ \<Rightarrow> Inl TypeError)"

definition str_items :: "json_object \<Rightarrow> string \<Rightarrow> exn + string list" where
  "str_items body k = (if \<not> truthy (json_get body k) then Inr []
     else bindE (json_iter (json_get body k)) (\<lambda>js. Inr (map json_str js)))"

definition update_ticket_metadata :: "string \<Rightarrow> string \<Rightarrow> json_object \<Rightarrow> time \<Rightarrow> 'z ticket_db_scheme \<Rightarrow>
    (exn + op_answer) \<times> 'z ticket_db_scheme" where
  "update_ticket_metadata repo tid body now db =
     (case find_ticket repo tid db of
        None \<Rightarrow> (Inr (Refused ''ticket not found''), db)
      | Some row \<Rightarrow>
        let title = strip (if truthy (json_get body ''title'') then json_str (json_get body ''title'') else ticket_title row);
            harness = strip (if truthy (json_get body ''harness'') then json_str (json_get body ''harness'')
              else case ticket_harness row of None \<Rightarrow> ''cursor'' | Some h \<Rightarrow> if h = [] then ''cursor'' else h);
            model = stripped_text (json_get body ''model'');
            schedule = (case json_get body ''schedule_at'' of JNull \<Rightarrow> None | v \<Rightarrow> blank_to_none (strip (json_str v)))
        in
        if title = [] then (Inr (Refused ''title is required''), db)
        else case bindE (str_items body ''deps'') (\<lambda>deps. bindE (str_items body ''checklist'') (\<lambda>items. Inr (deps, items))) of
          Inl e \<Rightarrow> (Inl e, db)
        | Inr (deps, items) \<Rightarrow>
          let db = update_ticket repo tid (\<lambda>r. r\<lparr>ticket_schedule_at := schedule\<rparr>) db in
          case apply_ticket_carve_payload repo tid title (Some harness) model deps items now db of
            Inl e \<Rightarrow> (Inl e, db)
          | Inr db \<Rightarrow> (Inr Handled, db))"

definition apply_ticket_carve_ready :: "(json_object \<Rightarrow> exn + fact_payload) \<Rightarrow> string \<Rightarrow> string \<Rightarrow> json_object \<Rightarrow> time \<Rightarrow>
    'z ticket_db_scheme \<Rightarrow> exn + op_answer \<times> 'z ticket_db_scheme" where
  "apply_ticket_carve_ready validate repo tid body now db =
     (case json_get body ''carve'' of
        JObj (kv # kvs) \<Rightarrow>
          let spec = (if json_get (kv # kvs) ''id'' = JNull
            then filter (\<lambda>(k, v). k \<noteq> ''id'') (kv # kvs) @ [(''id'', JStr tid)] else kv # kvs)
          in
          (case read_carve_spec tid spec of
             Inl _ \<Rightarrow> Inr (Refused ''carve error'', db)
           | Inr _ \<Rightarrow>
             if \<not> carvable (get_ticket_status repo tid db) then Inr (Refused ''carve error'', db)
             else bindE (apply_carve_ready_spec validate repo tid spec now db) (\<lambda>(_, db). Inr (Handled, db)))
      | _ \<Rightarrow> Inr (Refused ''payload must include non-empty carve object'', db))"

section \<open>What each operation leaves alone\<close>

lemma ticket_tables_cong:
  assumes "activity_db.more db' = activity_db.more (db :: 'z ticket_db_scheme)"
  shows "ticket_rows db' = ticket_rows db" "dep_rows db' = dep_rows db" "checklist_rows db' = checklist_rows db"
    "escalation_rows db' = escalation_rows db" "next_item db' = next_item db" "next_escalation db' = next_escalation db"
    "ticket_db.more db' = ticket_db.more db"
  using assms by (cases db; cases db'; simp)+

lemma facts_only_rest: "facts_only db db' \<Longrightarrow> activity_db.more db' = activity_db.more db"
  by (rule activity_tables_cong(5) [OF facts_only_workflow(5)])

lemma insert_activity_requests_rest:
  assumes "insert_activity_requests repo wid wrev drafts ts db = Inr db'"
  shows "activity_db.more db' = activity_db.more db"
proof -
  have one: "activity_db.more v = activity_db.more u" if "insert_activity_request repo wid wrev ts x u = Inr v" for x u v
  proof -
    obtain n draft where x: "x = (n, draft)" by fastforce
    from that obtain a where "record_change repo (activity_id draft) ''created'' ts
        (u\<lparr>activities := activities u @ [activity_row_of repo wid wrev n draft ts]\<rparr>) = Inr (a, v)"
      unfolding x insert_activity_request_def by (auto simp: bindE_eq_Inr split: if_splits)
    from facts_only_rest [OF record_changeE(2) [OF this]] show ?thesis by simp
  qed
  from assms show ?thesis unfolding insert_activity_requests_def by (rule foldE_frame) (rule one)
qed

lemma apply_transition_plan_rest:
  assumes "apply_transition_plan validate repo wid plan ts db = Inr (run, db')"
  shows "activity_db.more db' = activity_db.more db"
proof -
  have approvals: "activity_db.more v = activity_db.more u"
    if "insert_approval_requests repo wid wrev ds t u = Inr v" for wrev ds t and u v :: "'z world"
    by (rule activity_tables_cong(5) [OF workflow_tables_cong(5) [OF insert_approval_requests_more [OF that]]])
  have waits: "activity_db.more (replace_all_waits repo wid plan ts u) = activity_db.more u" for u :: "'z world"
    by (rule activity_tables_cong(5)) (simp add: replace_all_waits_def insert_waits_tables)
  show ?thesis using assms
    by (auto simp: apply_transition_plan_def Let_def bindE_eq_Inr waits
        dest!: consume_signalsE(1) replace_stateE insert_activity_requests_rest approvals
          facts_only_rest [OF append_transition_facts_only]
        split: option.splits if_splits)
qed

lemma decide_once_rest:
  assumes "decide_once resolver validate retries repo undisturbed wid now db = Inr (run, db')"
  shows "activity_db.more db' = activity_db.more db"
  using assms by (cases rule: decide_once_undisturbedE) (auto dest: apply_transition_plan_rest)

lemma signal_run_frame:
  assumes "signal_run resolver validate retries repo tid status ts run (updated, db) = Inr (updated', db')"
  shows "activity_db.more db' = activity_db.more db" and "workflow_step\<^sup>*\<^sup>* db db'"
proof -
  consider "db' = db" | g mid where "enqueue_workflow_signal repo (workflow_id run) (ticket_key tid status)
      (ticket_signal tid status) ts None db = Inr (g, mid)" "mid = db' \<or> (\<exists>r. decide_once resolver validate retries repo
      undisturbed (workflow_id run) ts mid = Inr (r, db'))"
    using assms by (auto simp: signal_run_def bindE_eq_Inr split: if_splits)
  then have "activity_db.more db' = activity_db.more db \<and> workflow_step\<^sup>*\<^sup>* db db'"
  proof cases
    case (2 g mid)
    then have "activity_db.more db' = activity_db.more mid" "workflow_step\<^sup>*\<^sup>* mid db'"
      by (auto dest: decide_once_rest decide_once_more(2))
    with enqueue_activity(5) [OF 2(1)] workflow_step.enqueued [OF 2(1)] show ?thesis by (auto intro: converse_rtranclp_into_rtranclp)
  qed simp
  then show "activity_db.more db' = activity_db.more db" "workflow_step\<^sup>*\<^sup>* db db'" by simp_all
qed

lemma notify_frame:
  assumes "notify_ticket_status validate repo tid status ts db = Inr (runs, db')"
  shows "activity_db.more db' = activity_db.more db" and "workflow_step\<^sup>*\<^sup>* db db'"
proof -
  have "activity_db.more (snd s') = activity_db.more db \<and> workflow_step\<^sup>*\<^sup>* db (snd s')"
    if "foldE (signal_run resolver validate retries repo tid status ts) xs ([], db) = Inr s'" for xs s' resolver retries
    using that
    by (rule foldE_invariant [where P = "\<lambda>s. activity_db.more (snd s) = activity_db.more db \<and> workflow_step\<^sup>*\<^sup>* db (snd s)"])
      (auto dest: signal_run_frame intro: rtranclp_trans)
  from this assms show "activity_db.more db' = activity_db.more db" "workflow_step\<^sup>*\<^sup>* db db'"
    by (fastforce simp: notify_ticket_status_def signal_ticket_finished_def split: if_splits)+
qed

lemma append_input_rest:
  assumes "append_projection_input repo draft ts db = Inr (r, db')"
  shows "activity_db.more db' = activity_db.more db" and "workflow_runs db' = workflow_runs db"
    and "workflow_waits db' = workflow_waits db" and "workflow_signals db' = workflow_signals db"
  using assms by (auto simp: append_projection_input_def Let_def split: if_splits option.splits)

lemma invalidate_rest:
  fixes db :: "'z ticket_db_scheme"
  shows "invalidate_ticket_schedule repo tid operation now db = Inr db' \<Longrightarrow> activity_db.more db' = activity_db.more db"
    and "invalidate_roster repo subject now db = Inr db' \<Longrightarrow> activity_db.more db' = activity_db.more db"
  by (auto simp: invalidate_ticket_schedule_def invalidate_roster_def Let_def bindE_eq_Inr dest: append_input_rest(1))

lemma invalidate_step:
  fixes db :: "'z ticket_db_scheme"
  shows "invalidate_ticket_schedule repo tid operation now db = Inr db' \<Longrightarrow> workflow_step db db'"
    and "invalidate_roster repo subject now db = Inr db' \<Longrightarrow> workflow_step db db'"
  by (auto simp: invalidate_ticket_schedule_def invalidate_roster_def Let_def bindE_eq_Inr dest: append_input_rest
      intro!: workflow_step.elsewhere)

section \<open>The tables stay intact\<close>

definition ticket_ident :: "ticket_row \<Rightarrow> string \<times> string" where
  "ticket_ident r = (ticket_repository r, ticket_key_id r)"

definition ticket_keys :: "'z ticket_db_scheme \<Rightarrow> (string \<times> string) set" where
  "ticket_keys db = ticket_ident ` set (ticket_rows db)"

definition parent_ok :: "(string \<times> string) set \<Rightarrow> ticket_row \<Rightarrow> bool" where
  "parent_ok K r \<longleftrightarrow> (\<forall>p. ticket_parent r = Some p \<longrightarrow> (ticket_repository r, p) \<in> K)"

definition dep_ok :: "(string \<times> string) set \<Rightarrow> dep_row \<Rightarrow> bool" where
  "dep_ok K d \<longleftrightarrow> dep_ticket d \<noteq> dep_on d \<and> (dep_repository d, dep_ticket d) \<in> K \<and> (dep_repository d, dep_on d) \<in> K"

definition item_ok :: "(string \<times> string) set \<Rightarrow> nat \<Rightarrow> checklist_row \<Rightarrow> bool" where
  "item_ok K n i \<longleftrightarrow> item_id i < n \<and> (item_repository i, item_ticket i) \<in> K"

definition escalation_ok :: "(string \<times> string) set \<Rightarrow> nat \<Rightarrow> escalation_row \<Rightarrow> bool" where
  "escalation_ok K n e \<longleftrightarrow> esc_id e < n \<and> 1 \<le> esc_severity e \<and> esc_severity e \<le> 3 \<and>
     (\<forall>t. esc_ticket e = Some t \<longrightarrow> (esc_repository e, t) \<in> K)"

definition ticket_inv :: "'z ticket_db_scheme \<Rightarrow> bool" where
  "ticket_inv db \<longleftrightarrow> distinct (map ticket_ident (ticket_rows db)) \<and> Ball (set (ticket_rows db)) (parent_ok (ticket_keys db)) \<and>
     distinct (dep_rows db) \<and> Ball (set (dep_rows db)) (dep_ok (ticket_keys db)) \<and>
     distinct (map item_id (checklist_rows db)) \<and> Ball (set (checklist_rows db)) (item_ok (ticket_keys db) (next_item db)) \<and>
     distinct (map esc_id (escalation_rows db)) \<and>
     Ball (set (escalation_rows db)) (escalation_ok (ticket_keys db) (next_escalation db))"

definition ticket_more :: "'z ticket_db_scheme \<Rightarrow> 'z ticket_db_scheme \<Rightarrow> bool" where
  "ticket_more db db' \<longleftrightarrow> (ticket_inv db \<longrightarrow> ticket_inv db' \<and> ticket_keys db \<subseteq> ticket_keys db')"

lemma rows_ok_mono:
  "K \<subseteq> K' \<Longrightarrow> parent_ok K r \<Longrightarrow> parent_ok K' r" "K \<subseteq> K' \<Longrightarrow> dep_ok K d \<Longrightarrow> dep_ok K' d"
  "K \<subseteq> K' \<Longrightarrow> n \<le> n' \<Longrightarrow> item_ok K n i \<Longrightarrow> item_ok K' n' i"
  "K \<subseteq> K' \<Longrightarrow> n \<le> n' \<Longrightarrow> escalation_ok K n e \<Longrightarrow> escalation_ok K' n' e"
  by (auto simp: parent_ok_def dep_ok_def item_ok_def escalation_ok_def)

lemma ticket_more_refl [simp]: "ticket_more db db"
  by (simp add: ticket_more_def)

lemma ticket_more_trans [trans]: "ticket_more a b \<Longrightarrow> ticket_more b c \<Longrightarrow> ticket_more a c"
  by (auto simp: ticket_more_def)

lemma ticket_more_same:
  assumes "ticket_rows db' = ticket_rows db" "dep_rows db' = dep_rows db" "checklist_rows db' = checklist_rows db"
    "escalation_rows db' = escalation_rows db" "next_item db' = next_item db" "next_escalation db' = next_escalation db"
  shows "ticket_more db db'"
  using assms by (simp add: ticket_more_def ticket_inv_def ticket_keys_def)

lemma ticket_more_rest: "activity_db.more db' = activity_db.more (db :: 'z ticket_db_scheme) \<Longrightarrow> ticket_more db db'"
  by (rule ticket_more_same; rule ticket_tables_cong; assumption)

lemma this_ticket_ident: "this_ticket repo tid r \<longleftrightarrow> ticket_ident r = (repo, tid)"
  by (simp add: this_ticket_def ticket_ident_def)

lemma find_ticket_None: "find_ticket repo tid db = None \<longleftrightarrow> (repo, tid) \<notin> ticket_keys db"
  unfolding find_ticket_def find_eq_None this_ticket_ident ticket_keys_def image_iff by metis

definition keeps_key :: "(ticket_row \<Rightarrow> ticket_row) \<Rightarrow> bool" where
  "keeps_key f \<longleftrightarrow> (\<forall>r. ticket_ident (f r) = ticket_ident r \<and> ticket_parent (f r) = ticket_parent r)"

lemma keeps_key_intros [simp]:
  "keeps_key (\<lambda>r. r\<lparr>ticket_state := s, ticket_updated_at := t\<rparr>)"
  "keeps_key (\<lambda>r. r\<lparr>ticket_schedule_at := a, ticket_updated_at := t\<rparr>)" "keeps_key (\<lambda>r. r\<lparr>ticket_schedule_at := a\<rparr>)"
  "keeps_key (\<lambda>r. r\<lparr>ticket_last_error := e, ticket_updated_at := t\<rparr>)"
  "keeps_key (\<lambda>r. r\<lparr>ticket_title := n, ticket_harness := h, ticket_model := m, ticket_updated_at := t\<rparr>)"
  by (simp_all add: keeps_key_def ticket_ident_def)

lemma update_ticket_sel [simp]:
  "ticket_rows (update_ticket repo tid f db) = update_where (this_ticket repo tid) f (ticket_rows db)"
  "dep_rows (update_ticket repo tid f db) = dep_rows db" "checklist_rows (update_ticket repo tid f db) = checklist_rows db"
  "escalation_rows (update_ticket repo tid f db) = escalation_rows db" "next_item (update_ticket repo tid f db) = next_item db"
  "next_escalation (update_ticket repo tid f db) = next_escalation db"
  "workflow_runs (update_ticket repo tid f db) = workflow_runs db" "workflow_waits (update_ticket repo tid f db) = workflow_waits db"
  "workflow_signals (update_ticket repo tid f db) = workflow_signals db"
  "projection_inputs (update_ticket repo tid f db) = projection_inputs db"
  by (simp_all add: update_ticket_def)

lemma update_ticket_idents: "keeps_key f \<Longrightarrow> map ticket_ident (update_where P f rs) = map ticket_ident rs"
  by (rule map_update_where) (simp add: keeps_key_def)

lemma update_ticket_keys: "keeps_key f \<Longrightarrow> ticket_keys (update_ticket repo tid f db) = ticket_keys db"
  using update_ticket_idents [of f "this_ticket repo tid" "ticket_rows db"]
  by (metis set_map ticket_keys_def update_ticket_sel(1))

lemma parent_ok_kept: "keeps_key f \<Longrightarrow> parent_ok K (f r) = parent_ok K r"
  by (simp add: parent_ok_def keeps_key_def ticket_ident_def)

lemma ticket_more_update:
  assumes "keeps_key f"
  shows "ticket_more db (update_ticket repo tid f db)"
  unfolding ticket_more_def ticket_inv_def update_ticket_keys [OF assms] update_ticket_sel update_ticket_idents [OF assms]
  by (auto simp: set_update_where parent_ok_kept [OF assms])

lemma insert_ticket_row_more:
  assumes "insert_ticket_row r db = Inr db'"
  shows "ticket_more db db'"
proof -
  from assms have db': "db' = db\<lparr>ticket_rows := ticket_rows db @ [r]\<rparr>" and new: "ticket_ident r \<notin> ticket_keys db"
    and parent: "parent_ok (insert (ticket_ident r) (ticket_keys db)) r"
    by (auto simp: insert_ticket_row_def find_ticket_None ticket_ident_def parent_ok_def split: if_splits option.splits)
  have keys: "ticket_keys db' = insert (ticket_ident r) (ticket_keys db)" by (auto simp: db' ticket_keys_def)
  then have sub: "ticket_keys db \<subseteq> ticket_keys db'" by blast
  show ?thesis
    unfolding ticket_more_def ticket_inv_def
    using sub new parent keys rows_ok_mono(1,2) [OF sub] rows_ok_mono(3,4) [OF sub order.refl] by (auto simp: db') (auto simp: ticket_keys_def)
qed

lemma insert_dep_more: "insert_dep repo tid dep db = Inr db' \<Longrightarrow> ticket_more db db'"
  by (auto simp: insert_dep_def Let_def find_ticket_None ticket_more_def ticket_inv_def ticket_keys_def dep_ok_def split: if_splits)

lemma insert_item_more:
  assumes "insert_item repo tid x db = Inr db'"
  shows "ticket_more db db'"
proof -
  obtain n body finished where x: "x = (n, body, finished)" by (cases x) auto
  from assms have db': "db' = db\<lparr>checklist_rows := checklist_rows db @ [\<lparr>item_id = next_item db, item_repository = repo,
      item_ticket = tid, item_ord = n, item_text = body, item_done = finished, item_done_at = None\<rparr>],
      next_item := Suc (next_item db)\<rparr>" and key: "(repo, tid) \<in> ticket_keys db"
    by (auto simp: x insert_item_def find_ticket_None split: if_splits)
  have keys: "ticket_keys db' = ticket_keys db" by (simp add: db' ticket_keys_def)
  show ?thesis
    unfolding ticket_more_def ticket_inv_def keys using key by (auto simp: db' item_ok_def)
qed

lemma insert_deps_more: "foldE (insert_dep repo tid) deps db = Inr db' \<Longrightarrow> ticket_more db db'"
  by (rule foldE_invariant [where P = "ticket_more db"]) (auto intro: ticket_more_trans insert_dep_more)

lemma insert_items_more: "foldE (insert_item repo tid) items db = Inr db' \<Longrightarrow> ticket_more db db'"
  by (rule foldE_invariant [where P = "ticket_more db"]) (auto intro: ticket_more_trans insert_item_more)

lemma drop_children_more:
  "ticket_more db (db\<lparr>dep_rows := delete_where P (dep_rows db)\<rparr>)"
  "ticket_more db (db\<lparr>checklist_rows := delete_where Q (checklist_rows db)\<rparr>)"
  by (auto simp: ticket_more_def ticket_inv_def ticket_keys_def delete_where_def distinct_map intro: inj_on_subset)

lemma invalidate_more:
  "invalidate_ticket_schedule repo tid operation now db = Inr db' \<Longrightarrow> ticket_more db db'"
  "invalidate_roster repo subject now db = Inr db' \<Longrightarrow> ticket_more db db'"
  by (auto intro: ticket_more_rest dest: invalidate_rest)

text \<open>What a change of status leaves of the ticket tables: one row differs, and only in its status and time.\<close>

definition set_status :: "ticket_status \<Rightarrow> time \<Rightarrow> ticket_row \<Rightarrow> ticket_row" where
  "set_status s now r = r\<lparr>ticket_state := s, ticket_updated_at := iso_seconds now\<rparr>"

lemma set_status_keeps [simp]: "keeps_key (set_status s now)"
  by (simp add: keeps_key_def ticket_ident_def set_status_def)

lemma update_ticket_statusE:
  assumes "update_ticket_status validate repo tid s now db = Inr db'"
  shows "ticket_rows db' = update_where (this_ticket repo tid) (set_status s now) (ticket_rows db)"
    and "dep_rows db' = dep_rows db" and "checklist_rows db' = checklist_rows db" and "escalation_rows db' = escalation_rows db"
    and "ticket_more db db'" and "workflow_step\<^sup>*\<^sup>* db db'"
proof -
  let ?u = "update_ticket repo tid (\<lambda>r. r\<lparr>ticket_state := s, ticket_updated_at := iso_seconds now\<rparr>) db"
  from assms obtain runs db1 db2 where 1: "notify_ticket_status validate repo tid (ticket_status_value s) now ?u = Inr (runs, db1)"
    and 2: "invalidate_ticket_schedule repo tid (''status:'' @ ticket_status_value s) now db1 = Inr db2"
    and 3: "invalidate_roster repo (ticket_subject tid) now db2 = Inr db'"
    by (auto simp: update_ticket_status_def bindE_eq_Inr)
  have rest: "activity_db.more db' = activity_db.more ?u"
    by (simp only: invalidate_rest(2) [OF 3] invalidate_rest(1) [OF 2] notify_frame(1) [OF 1])
  show "ticket_rows db' = update_where (this_ticket repo tid) (set_status s now) (ticket_rows db)"
    using ticket_tables_cong(1) [OF rest] by (simp add: set_status_def [abs_def])
  show "dep_rows db' = dep_rows db" "checklist_rows db' = checklist_rows db" "escalation_rows db' = escalation_rows db"
    using ticket_tables_cong(2-4) [OF rest] by simp_all
  show "ticket_more db db'"
    by (rule ticket_more_trans [OF ticket_more_update ticket_more_rest [OF rest]]) simp
  have "workflow_step db ?u" by (rule workflow_step.elsewhere) simp_all
  also note notify_frame(2) [OF 1]
  also note invalidate_step(1) [OF 2]
  also note invalidate_step(2) [OF 3]
  finally show "workflow_step\<^sup>*\<^sup>* db db'" by simp
qed

lemma find_updated:
  assumes "ticket_rows db' = update_where (this_ticket repo tid) (set_status s now) (ticket_rows db)"
  shows "find_ticket q t db' = (if q = repo \<and> t = tid then map_option (set_status s now) (find_ticket q t db) else find_ticket q t db)"
proof -
  have *: "find (this_ticket q t) (ticket_rows db') =
      map_option (\<lambda>r. if this_ticket repo tid r then set_status s now r else r) (find (this_ticket q t) (ticket_rows db))"
    unfolding assms by (rule find_update_where) (simp add: this_ticket_def set_status_def)
  show ?thesis
    unfolding find_ticket_def
  proof (cases "find (this_ticket q t) (ticket_rows db)")
    case (Some a)
    from find_Some_mem [OF Some] have "this_ticket repo tid a \<longleftrightarrow> q = repo \<and> t = tid" by (auto simp: this_ticket_def)
    with * Some show "find (this_ticket q t) (ticket_rows db') = (if q = repo \<and> t = tid
        then map_option (set_status s now) (find (this_ticket q t) (ticket_rows db)) else find (this_ticket q t) (ticket_rows db))"
      by (cases "q = repo \<and> t = tid") auto
  qed (use * in auto)
qed

lemma get_status_updated:
  assumes "ticket_rows db' = update_where (this_ticket repo tid) (set_status s now) (ticket_rows db)"
  shows "get_ticket_status q t db' = (if q = repo \<and> t = tid then map_option (\<lambda>_. s) (get_ticket_status q t db) else get_ticket_status q t db)"
  by (simp add: get_ticket_status_def find_updated [OF assms] option.map_comp comp_def set_status_def)

lemma transitionE:
  assumes "transition validate repo tid new now db = Inr (prev, db')"
  obtains (stays) "get_ticket_status repo tid db = Some new" "prev = new" "db' = db"
  | (moves) "get_ticket_status repo tid db = Some prev" "prev \<noteq> new" "List.member (valid_transitions prev) new"
      "update_ticket_status validate repo tid new now db = Inr db'"
  using assms by (auto simp: transition_def bindE_eq_Inr split: option.splits if_splits)

lemma transition_more: "transition validate repo tid new now db = Inr (prev, db') \<Longrightarrow> ticket_more db db'"
  by (erule transitionE) (auto dest: update_ticket_statusE(5))

lemma insert_ticket_more: "insert_ticket repo t now db = Inr db' \<Longrightarrow> ticket_more db db'"
  unfolding insert_ticket_def bindE_eq_Inr
  by (meson insert_deps_more insert_items_more insert_ticket_row_more invalidate_more ticket_more_trans)

lemma carve_payload_more:
  assumes "apply_ticket_carve_payload repo tid title harness model deps checklist now db = Inr db'"
  shows "ticket_more db db'"
proof -
  let ?u = "update_ticket repo tid (\<lambda>r. r\<lparr>ticket_title := title, ticket_harness := harness, ticket_model := model,
          ticket_updated_at := iso_seconds now\<rparr>) db"
  from assms obtain a b c where
    "foldE (insert_dep repo tid) deps (?u\<lparr>dep_rows := delete_where (\<lambda>d. dep_repository d = repo \<and> dep_ticket d = tid) (dep_rows ?u)\<rparr>) = Inr a"
    "foldE (insert_item repo tid) (open_items checklist)
       (a\<lparr>checklist_rows := delete_where (\<lambda>i. item_repository i = repo \<and> item_ticket i = tid) (checklist_rows a)\<rparr>) = Inr b"
    "invalidate_ticket_schedule repo tid ''carve'' now b = Inr c" "invalidate_roster repo (ticket_subject tid) now c = Inr db'"
    by (auto simp: apply_ticket_carve_payload_def Let_def bindE_eq_Inr)
  note steps = this
  have "ticket_more db ?u" by (rule ticket_more_update) simp
  also note drop_children_more(1) [of ?u]
  also note insert_deps_more [OF steps(1)]
  also note drop_children_more(2) [of a]
  also note insert_items_more [OF steps(2)]
  also note invalidate_more(1) [OF steps(3)]
  also note invalidate_more(2) [OF steps(4)]
  finally show ?thesis .
qed

lemma schedule_more: "update_ticket_schedule_at repo tid at now db = Inr db' \<Longrightarrow> ticket_more db db'"
  unfolding update_ticket_schedule_at_def
  by (rule ticket_more_trans [OF ticket_more_update invalidate_more(1)]) simp_all

lemma set_checklist_more: "set_checklist repo tid items db = Inr db' \<Longrightarrow> ticket_more db db'"
  unfolding set_checklist_def by (erule ticket_more_trans [OF drop_children_more(2) insert_items_more])

lemma check_off_more:
  assumes "check_off_item repo tid words now db = (b, db')"
  shows "ticket_more db db'"
proof -
  let ?f = "\<lambda>j. j\<lparr>item_done := True, item_done_at := Some (iso_seconds now)\<rparr>"
  have "db' = db \<or> (\<exists>P. db' = db\<lparr>checklist_rows := update_where P ?f (checklist_rows db)\<rparr>)"
    using assms unfolding check_off_item_def
    by (cases "sort_key item_ord (filter (\<lambda>i. items_of repo tid i \<and> \<not> item_done i \<and> item_text i = words) (checklist_rows db))")
      (simp, simp only: list.case prod.inject, blast)
  then consider "db' = db" | P where "db' = db\<lparr>checklist_rows := update_where P ?f (checklist_rows db)\<rparr>" by blast
  then show ?thesis
  proof cases
    case (2 P)
    have keys: "ticket_keys db' = ticket_keys db" by (simp add: 2 ticket_keys_def)
    have "item_ok K n (?f i) = item_ok K n i" for K n i by (simp add: item_ok_def)
    then show ?thesis
      unfolding ticket_more_def ticket_inv_def keys by (auto simp: 2 set_update_where map_update_where)
  qed simp
qed

lemma insert_escalation_more:
  assumes "insert_escalation repo tid severity reason recipient now db = Inr (n, db')"
  shows "ticket_more db db'"
proof -
  let ?u = "db\<lparr>escalation_rows := escalation_rows db @ [\<lparr>esc_id = next_escalation db, esc_repository = repo, esc_at = iso_seconds now,
            esc_ticket = tid, esc_severity = severity, esc_reason = reason, esc_recipient = recipient,
            esc_resolved_at = None\<rparr>], next_escalation := Suc (next_escalation db)\<rparr>"
  from assms obtain subject where "invalidate_roster repo subject now ?u = Inr db'" and sev: "1 \<le> severity" "severity \<le> 3"
    and key: "\<And>t. tid = Some t \<Longrightarrow> (repo, t) \<in> ticket_keys db"
    by (auto simp: insert_escalation_def Let_def bindE_eq_Inr find_ticket_None split: if_splits option.splits)
  moreover have keys: "ticket_keys ?u = ticket_keys db" by (simp add: ticket_keys_def)
  have "ticket_more db ?u"
    unfolding ticket_more_def ticket_inv_def keys using key sev by (auto simp: escalation_ok_def)
  ultimately show ?thesis by (meson invalidate_more(2) ticket_more_trans)
qed

lemma resolve_escalation_more: "resolve_escalation repo n now db = Inr db' \<Longrightarrow> ticket_more db db'"
proof -
  assume a: "resolve_escalation repo n now db = Inr db'"
  let ?u = "db\<lparr>escalation_rows := update_where (\<lambda>e. esc_repository e = repo \<and> esc_id e = n)
          (\<lambda>e. e\<lparr>esc_resolved_at := Some (iso_seconds now)\<rparr>) (escalation_rows db)\<rparr>"
  have keys: "ticket_keys ?u = ticket_keys db" by (simp add: ticket_keys_def)
  have "ticket_more db ?u"
    unfolding ticket_more_def ticket_inv_def keys by (auto simp: escalation_ok_def set_update_where map_update_where)
  with a show ?thesis unfolding resolve_escalation_def by (meson invalidate_more(2) ticket_more_trans)
qed

lemma report_failure_more: "report_failure repo tid reason now db = (r, db') \<Longrightarrow> ticket_more db db'"
  by (auto simp: report_failure_def record_ticket_failure_def escalate_to_user_def clamp_severity_def
      dest: insert_escalation_more split: sum.splits)

lemma error_field_more: "ticket_more db (clear_last_error repo tid now db)" "ticket_more db (set_last_error repo tid why now db)"
  by (simp_all add: clear_last_error_def set_last_error_def ticket_more_update)

lemma fail_then_more: "ticket_more db mid \<Longrightarrow> ticket_more (set_last_error repo tid why now mid) db' \<Longrightarrow> ticket_more db db'"
  by (meson error_field_more(2) ticket_more_trans)

lemma advance_ticket_more: "advance_ticket validate repo tid now ss db = (r, db') \<Longrightarrow> ticket_more db db'"
proof (induction ss arbitrary: db)
  case (Cons s ss)
  then show ?case by (auto split: sum.splits prod.splits dest: transition_more intro: ticket_more_trans)
qed simp

lemma reopen_dependents_more: "reopen_dependents validate repo now ds acc db = (r, db') \<Longrightarrow> ticket_more db db'"
proof (induction ds arbitrary: acc db)
  case (Cons d ds)
  from Cons.prems show ?case
    by (auto split: if_splits sum.splits exn.splits prod.splits dest: transition_more Cons.IH intro: ticket_more_trans)
qed simp

text \<open>
  The operations on tickets, escalations included, each with whatever it leaves behind when it fails midway. Reading
  documents (\<open>TicketSync\<close>) and the clean-up of a failed launch (\<open>Launch\<close>), the only one that deletes tickets, have
  theorems of their own.
\<close>

inductive ticket_op :: "'z ticket_db_scheme \<Rightarrow> 'z ticket_db_scheme \<Rightarrow> bool" where
  inserted: "insert_ticket repo t now db = Inr db' \<Longrightarrow> ticket_op db db'"
| carved: "apply_carve_ready_spec validate repo tid spec now db = Inr (prev, db') \<Longrightarrow> ticket_op db db'"
| moved: "transition validate repo tid new now db = Inr (prev, db') \<Longrightarrow> ticket_op db db'"
| reopened: "reopen validate repo tid now db = (r, db') \<Longrightarrow> ticket_op db db'"
| completed: "complete_ticket validate repo tid now db = (done, db') \<Longrightarrow> ticket_op db db'"
| failed: "fail_ticket validate repo tid reason now db = (done, db') \<Longrightarrow> ticket_op db db'"
| blocked: "block_ticket validate repo tid reason now db = (done, db') \<Longrightarrow> ticket_op db db'"
| retried: "retry_failed_ticket validate repo tid now db = Inr (prev, db') \<Longrightarrow> ticket_op db db'"
| forced: "force_ticket_status validate repo tid status now db = Inr (ans, db') \<Longrightarrow> ticket_op db db'"
| edited: "update_ticket_metadata repo tid body now db = (res, db') \<Longrightarrow> ticket_op db db'"
| scheduled: "update_ticket_schedule_at repo tid at now db = Inr db' \<Longrightarrow> ticket_op db db'"
| listed: "set_checklist repo tid items db = Inr db' \<Longrightarrow> ticket_op db db'"
| checked: "check_off_item repo tid words now db = (found, db') \<Longrightarrow> ticket_op db db'"
| escalated: "insert_escalation repo tid severity reason recipient now db = Inr (n, db') \<Longrightarrow> ticket_op db db'"
| raised: "escalate_to_user repo reason severity tid now db = Inr (n, db') \<Longrightarrow> ticket_op db db'"
| resolved: "resolve_escalation repo n now db = Inr db' \<Longrightarrow> ticket_op db db'"

lemma ticket_op_more: "ticket_op db db' \<Longrightarrow> ticket_more db db'"
proof (induction rule: ticket_op.induct)
  case (carved validate repo tid spec now db prev db')
  then show ?case
    by (auto simp: apply_carve_ready_spec_def bindE_eq_Inr split: if_splits
        dest!: transition_more carve_payload_more insert_ticket_row_more intro: ticket_more_trans)
next
  case (reopened validate repo tid now db r db')
  then show ?case
    by (auto simp: reopen_def split: sum.splits prod.splits dest: transition_more reopen_dependents_more intro: ticket_more_trans)
next
  case (completed validate repo tid now db u db')
  then show ?case by (auto simp: complete_ticket_def split: option.splits if_splits dest: advance_ticket_more)
next
  case (failed validate repo tid reason now db u db')
  then show ?case
    by (auto simp: fail_ticket_def Let_def split: sum.splits prod.splits
        dest!: report_failure_more transition_more update_ticket_statusE(5) intro: fail_then_more)
next
  case (blocked validate repo tid reason now db u db')
  then show ?case
    by (auto simp: block_ticket_def split: sum.splits dest!: report_failure_more update_ticket_statusE(5) intro: ticket_more_trans)
next
  case (retried validate repo tid now db prev db')
  then show ?case
    by (auto simp: retry_failed_ticket_def bindE_eq_Inr dest!: transition_more intro: ticket_more_trans error_field_more)
next
  case (forced validate repo tid status now db ans db')
  then show ?case
    by (auto simp: force_ticket_status_def bindE_eq_Inr split: option.splits if_splits
        dest!: update_ticket_statusE(5) intro: ticket_more_trans error_field_more)
next
  case (edited repo tid body now db res db')
  have "ticket_more db (update_ticket repo tid (\<lambda>r. r\<lparr>ticket_schedule_at := a\<rparr>) db)" for a by (rule ticket_more_update) simp
  with edited show ?case
    by (auto simp: update_ticket_metadata_def Let_def split: option.splits if_splits sum.splits prod.splits
        dest!: carve_payload_more intro: ticket_more_trans)
qed (auto simp: escalate_to_user_def dest: insert_ticket_more transition_more schedule_more set_checklist_more check_off_more
    insert_escalation_more resolve_escalation_more)

section \<open>What completing a ticket does\<close>

definition only_ticket :: "string \<Rightarrow> string \<Rightarrow> 'z ticket_db_scheme \<Rightarrow> 'z ticket_db_scheme \<Rightarrow> bool" where
  "only_ticket repo tid db db' \<longleftrightarrow> (\<forall>q t. (q, t) \<noteq> (repo, tid) \<longrightarrow> find_ticket q t db' = find_ticket q t db) \<and>
     dep_rows db' = dep_rows db \<and> checklist_rows db' = checklist_rows db \<and> escalation_rows db' = escalation_rows db"

lemma only_ticket_refl [simp]: "only_ticket repo tid db db"
  by (simp add: only_ticket_def)

lemma only_ticket_trans: "only_ticket repo tid a b \<Longrightarrow> only_ticket repo tid b c \<Longrightarrow> only_ticket repo tid a c"
  by (simp add: only_ticket_def)

lemma status_update_only:
  assumes "update_ticket_status validate repo tid s now db = Inr db'"
  shows "only_ticket repo tid db db'"
  by (simp add: only_ticket_def find_updated [OF update_ticket_statusE(1) [OF assms]] update_ticket_statusE(2-4) [OF assms])

fun legal_path :: "ticket_status \<Rightarrow> ticket_status list \<Rightarrow> bool" where
  "legal_path s [] = True"
| "legal_path s (t # ts) = (s \<noteq> t \<and> List.member (valid_transitions s) t \<and> legal_path t ts)"

text \<open>A ticket goes through a list of statuses: each step is one stored change, which the status machine allows from where the ticket is.\<close>

inductive legal_walk :: "(json_object \<Rightarrow> exn + fact_payload) \<Rightarrow> string \<Rightarrow> string \<Rightarrow> time \<Rightarrow>
    'z ticket_db_scheme \<Rightarrow> ticket_status list \<Rightarrow> 'z ticket_db_scheme \<Rightarrow> bool"
  for validate :: "json_object \<Rightarrow> exn + fact_payload" and repo tid :: string and now :: time where
  stay: "legal_walk validate repo tid now db [] db"
| walk: "get_ticket_status repo tid db = Some s \<Longrightarrow> s \<noteq> t \<Longrightarrow> List.member (valid_transitions s) t \<Longrightarrow>
    update_ticket_status validate repo tid t now db = Inr mid \<Longrightarrow> legal_walk validate repo tid now mid ts db' \<Longrightarrow>
    legal_walk validate repo tid now db (t # ts) db'"

inductive_simps legal_walk_simps [simp]:
  "legal_walk validate repo tid now db [] db'" "legal_walk validate repo tid now db (t # ts) db'"

lemma advance_path:
  fixes db :: "'z ticket_db_scheme"
  assumes "advance_ticket validate repo tid now ss db = (r, db')" and "get_ticket_status repo tid db = Some s"
    and "legal_path s ss"
  shows "only_ticket repo tid db db' \<and>
    (case r of Inr _ \<Rightarrow> legal_walk validate repo tid now db ss db' \<and> get_ticket_status repo tid db' = Some (last (s # ss))
     | Inl e \<Rightarrow> \<exists>before new after. ss = before @ new # after \<and> legal_walk validate repo tid now db before db' \<and>
         get_ticket_status repo tid db' = Some (last (s # before)) \<and> update_ticket_status validate repo tid new now db' = Inl e)"
  using assms
proof (induction ss arbitrary: db s)
  case (Cons t ts)
  have trans: "transition validate repo tid t now db = bindE (update_ticket_status validate repo tid t now db) (\<lambda>db. Inr (s, db))"
    using Cons.prems by (simp add: transition_def)
  show ?case
  proof (cases "update_ticket_status validate repo tid t now db")
    case (Inl e)
    with Cons.prems trans have "r = Inl e" "db' = db" by simp_all
    with Inl Cons.prems(2) show ?thesis by (auto intro!: exI [of _ "[]"])
  next
    case (Inr mid)
    then have rest: "advance_ticket validate repo tid now ts mid = (r, db')" using Cons.prems trans by simp
    have "get_ticket_status repo tid mid = Some t"
      using get_status_updated [OF update_ticket_statusE(1) [OF Inr]] Cons.prems(2) by simp
    note IH = Cons.IH [OF rest this]
    have first: "legal_walk validate repo tid now db (t # us) db'" if "legal_walk validate repo tid now mid us db'" for us
      by (rule legal_walk.walk [OF Cons.prems(2) _ _ Inr that]) (use Cons.prems(3) in simp_all)
    have only: "only_ticket repo tid db db'" using IH Cons.prems(3) only_ticket_trans [OF status_update_only [OF Inr]] by simp
    show ?thesis
    proof (cases r)
      case (Inl e)
      with IH Cons.prems(3) obtain before new after where w: "ts = before @ new # after" "legal_walk validate repo tid now mid before db'"
        "get_ticket_status repo tid db' = Some (last (t # before))" "update_ticket_status validate repo tid new now db' = Inl e" by auto
      from w(1,3,4) first [OF w(2)] Inl only show ?thesis by (simp only: sum.case) (intro conjI exI [of _ "t # before"] exI [of _ new] exI [of _ after]; simp)
    next
      case (Inr x)
      with IH Cons.prems(3) first only show ?thesis by (simp del: legal_walk_simps)
    qed
  qed
qed auto

definition completable :: "ticket_status \<Rightarrow> bool" where
  "completable s \<longleftrightarrow> List.member [TkReady, TkInProgress, TkBlocked, TkPlanned] s"

lemma steps_legal: "completable s \<Longrightarrow> legal_path s (steps_to_done s) \<and> steps_to_done s \<noteq> [] \<and> last (steps_to_done s) = TkDone"
  by (auto simp: completable_def steps_to_done_def valid_transitions_def)

text \<open>
  C11: completing a ticket walks it to done and touches nothing else. A ticket that is planned, ready, running or blocked goes
  through \<open>steps_to_done\<close>, one stored change after the other, each of which the status machine allows from the
  status the ticket then has, and ends done; in particular nothing jumps to done except from in progress. The status machine
  never refuses the walk: it only stops where storing the next change fails (a workflow that cannot take
  the outcome), with that error and the changes made so far. Any other ticket, done ones included, and an unknown one are
  left alone, and so is every other ticket.
\<close>

theorem complete_ticket_exact:
  fixes db :: "'z ticket_db_scheme"
  assumes "complete_ticket validate repo tid now db = (r, db')"
  shows "case get_ticket_status repo tid db of
      None \<Rightarrow> r = Inr () \<and> db' = db
    | Some s \<Rightarrow>
        if completable s then only_ticket repo tid db db' \<and>
          (case r of Inr _ \<Rightarrow> legal_walk validate repo tid now db (steps_to_done s) db' \<and> get_ticket_status repo tid db' = Some TkDone
           | Inl e \<Rightarrow> \<exists>before new after. steps_to_done s = before @ new # after \<and> legal_walk validate repo tid now db before db' \<and>
               get_ticket_status repo tid db' = Some (last (s # before)) \<and> update_ticket_status validate repo tid new now db' = Inl e)
        else r = Inr () \<and> db' = db"
proof (cases "get_ticket_status repo tid db")
  case (Some s)
  show ?thesis
  proof (cases "completable s")
    case True
    with assms Some have run: "advance_ticket validate repo tid now (steps_to_done s) db = (r, db')"
      by (auto simp: complete_ticket_def completable_def split: if_splits)
    have steps: "legal_path s (steps_to_done s)" "last (s # steps_to_done s) = TkDone" using steps_legal [OF True] by simp_all
    show ?thesis
      unfolding Some option.case if_P [OF True] using advance_path [OF run Some steps(1)] unfolding steps(2) .
  qed (use assms Some in \<open>auto simp: complete_ticket_def completable_def split: if_splits\<close>)
qed (use assms in \<open>simp add: complete_ticket_def\<close>)

text \<open>
  C12: the ticket tables stay intact. Over any sequence of operations, successful or failing midway, tickets are
  named apart and never lost, every parent, dependency, checklist item and escalation refers to a
  ticket that exists, no ticket depends on itself, and no dependency is stored twice.
\<close>

theorem ticket_store_sound:
  assumes "ticket_op\<^sup>*\<^sup>* db db'" and "ticket_inv db"
  shows "ticket_inv db' \<and> ticket_keys db \<subseteq> ticket_keys db'"
  using assms
proof (induction rule: rtranclp_induct)
  case (step y z)
  then show ?case using ticket_op_more by (auto simp: ticket_more_def)
qed simp

section \<open>What is ready\<close>

definition depends :: "string \<Rightarrow> 'z ticket_db_scheme \<Rightarrow> string \<Rightarrow> string \<Rightarrow> bool" where
  "depends repo db t u \<longleftrightarrow> List.member (dep_rows db) \<lparr>dep_repository = repo, dep_ticket = t, dep_on = u\<rparr>"

lemma find_ticket_unique:
  assumes "ticket_inv db" and "r \<in> set (ticket_rows db)"
  shows "find_ticket (ticket_repository r) (ticket_key_id r) db = Some r"
proof -
  from assms have "distinct (map ticket_ident (ticket_rows db))" by (simp add: ticket_inv_def)
  from find_key [OF this assms(2)] show ?thesis by (simp add: find_ticket_def this_ticket_def [abs_def] ticket_ident_def)
qed

lemma find_ticket_mem: "find_ticket repo tid db = Some r \<Longrightarrow> r \<in> set (ticket_rows db) \<and> this_ticket repo tid r"
  by (simp add: find_ticket_def find_Some_mem)

lemma dependency_exists: "ticket_inv db \<Longrightarrow> depends repo db t u \<Longrightarrow> \<exists>s. get_ticket_status repo u db = Some s"
  using find_ticket_None [of repo u db] by (auto simp: depends_def ticket_inv_def dep_ok_def get_ticket_status_def)

lemma status_mem:
  assumes "ticket_inv db"
  shows "get_ticket_status q u db = Some s \<longleftrightarrow> (\<exists>x \<in> set (ticket_rows db). this_ticket q u x \<and> ticket_state x = s)"
proof
  assume "get_ticket_status q u db = Some s"
  then show "\<exists>x \<in> set (ticket_rows db). this_ticket q u x \<and> ticket_state x = s"
    by (auto simp: get_ticket_status_def dest: find_ticket_mem)
next
  assume "\<exists>x \<in> set (ticket_rows db). this_ticket q u x \<and> ticket_state x = s"
  then obtain x where x: "x \<in> set (ticket_rows db)" "ticket_repository x = q" "ticket_key_id x = u" "ticket_state x = s"
    by (auto simp: this_ticket_def)
  with find_ticket_unique [OF assms x(1)] show "get_ticket_status q u db = Some s" by (simp add: get_ticket_status_def)
qed

lemma open_dependency_iff:
  assumes "ticket_inv db" and "r \<in> set (ticket_rows db)"
  shows "list_ex (open_dependency db r) (dep_rows db) \<longleftrightarrow>
    (\<exists>u s. depends (ticket_repository r) db (ticket_key_id r) u \<and> get_ticket_status (ticket_repository r) u db = Some s \<and> \<not> finished_status s)"
    (is "?l \<longleftrightarrow> ?r")
proof
  assume ?l
  then obtain d x where d: "d \<in> set (dep_rows db)" "dep_repository d = ticket_repository r" "dep_ticket d = ticket_key_id r"
    and x: "x \<in> set (ticket_rows db)" "this_ticket (dep_repository d) (dep_on d) x" "\<not> finished_status (ticket_state x)"
    unfolding list_ex_iff open_dependency_def by blast
  have "d = \<lparr>dep_repository = ticket_repository r, dep_ticket = ticket_key_id r, dep_on = dep_on d\<rparr>" using d(2,3) by simp
  with d(1) have "depends (ticket_repository r) db (ticket_key_id r) (dep_on d)" by (simp add: depends_def)
  with x d(2) show ?r unfolding status_mem [OF assms(1)] by auto
next
  assume ?r
  then obtain u x where "depends (ticket_repository r) db (ticket_key_id r) u" "x \<in> set (ticket_rows db)"
    "this_ticket (ticket_repository r) u x" "\<not> finished_status (ticket_state x)" unfolding status_mem [OF assms(1)] by blast
  then show ?l by (force simp: list_ex_iff depends_def open_dependency_def)
qed

lemma compute_ready_mem:
  assumes "ticket_inv db"
  shows "t \<in> set (compute_ready repo db) \<longleftrightarrow> get_ticket_status repo t db = Some TkReady \<and>
    (\<forall>u. depends repo db t u \<longrightarrow> (\<exists>s. get_ticket_status repo u db = Some s \<and> finished_status s))" (is "_ \<longleftrightarrow> ?ready")
proof -
  have "t \<in> set (compute_ready repo db) \<longleftrightarrow> (\<exists>r \<in> set (ticket_rows db). this_ticket repo t r \<and> ticket_state r = TkReady \<and>
      \<not> list_ex (open_dependency db r) (dep_rows db))"
    by (auto simp: compute_ready_def this_ticket_def)
  also have "\<dots> \<longleftrightarrow> (\<exists>r \<in> set (ticket_rows db). this_ticket repo t r \<and> ticket_state r = TkReady) \<and>
      (\<forall>u s. depends repo db t u \<longrightarrow> get_ticket_status repo u db = Some s \<longrightarrow> finished_status s)"
    using open_dependency_iff [OF assms] by (auto simp: this_ticket_def)
  also have "\<dots> \<longleftrightarrow> ?ready" unfolding status_mem [OF assms, symmetric] using dependency_exists [OF assms] by fastforce
  finally show ?thesis .
qed

lemma compute_ready_distinct: "ticket_inv db \<Longrightarrow> distinct (compute_ready repo db) \<and> sorted (compute_ready repo db)"
  by (auto simp: compute_ready_def ticket_inv_def distinct_map ticket_ident_def inj_on_def)

definition waits_for :: "string \<Rightarrow> 'z ticket_db_scheme \<Rightarrow> (string \<times> string) set" where
  "waits_for repo db = {(u, t). depends repo db t u}"

lemma waits_for_finite: "finite (waits_for repo db)"
proof -
  have "waits_for repo db \<subseteq> (\<lambda>d. (dep_on d, dep_ticket d)) ` set (dep_rows db)"
    by (force simp: waits_for_def depends_def)
  then show ?thesis by (rule finite_subset) simp
qed

lemma ready_below:
  assumes inv: "ticket_inv db" and "acyclic (waits_for repo db)"
    and "get_ticket_status repo t db = Some TkReady"
    and "\<And>u s. (u, t) \<in> (waits_for repo db)\<^sup>+ \<Longrightarrow> get_ticket_status repo u db = Some s \<Longrightarrow> s = TkReady \<or> finished_status s"
  shows "\<exists>u \<in> set (compute_ready repo db). (u, t) \<in> (waits_for repo db)\<^sup>*"
proof -
  have "wf (waits_for repo db)" using waits_for_finite assms(2) by (rule finite_acyclic_wf)
  then show ?thesis using assms(3,4)
  proof (induction t rule: wf_induct_rule)
    case (less t)
    show ?case
    proof (cases "t \<in> set (compute_ready repo db)")
      case False
      with less.prems(1) compute_ready_mem [OF inv] dependency_exists [OF inv] obtain u s where
        u: "depends repo db t u" "get_ticket_status repo u db = Some s" "\<not> finished_status s" by blast
      then have ut: "(u, t) \<in> waits_for repo db" by (simp add: waits_for_def)
      with u(2,3) less.prems(2) have "s = TkReady" by blast
      with u(2) less.IH [OF ut] less.prems(2) ut obtain v where "v \<in> set (compute_ready repo db)" "(v, u) \<in> (waits_for repo db)\<^sup>*"
        by (meson trancl.trancl_into_trancl)
      with ut show ?thesis by (meson rtrancl.rtrancl_into_rtrancl)
    qed blast
  qed
qed

text \<open>
  C25: the scheduler sees exactly the tickets that may run, and a ready ticket is never stuck on ready ones. The list is
  sorted, has no duplicates, and holds the ready tickets all of whose dependencies are done or archived;
  and if the dependencies of a repository have no cycle and everything a ready ticket waits for is
  itself ready or finished, then the list holds that ticket or one it waits for.
\<close>

theorem ready_exact_and_live:
  assumes "ticket_inv db"
  shows "distinct (compute_ready repo db) \<and> sorted (compute_ready repo db) \<and>
    (\<forall>t. t \<in> set (compute_ready repo db) \<longleftrightarrow> get_ticket_status repo t db = Some TkReady \<and>
      (\<forall>u. depends repo db t u \<longrightarrow> (\<exists>s. get_ticket_status repo u db = Some s \<and> finished_status s))) \<and>
    (\<forall>t. acyclic (waits_for repo db) \<longrightarrow> get_ticket_status repo t db = Some TkReady \<longrightarrow>
      (\<forall>u s. (u, t) \<in> (waits_for repo db)\<^sup>+ \<longrightarrow> get_ticket_status repo u db = Some s \<longrightarrow> s = TkReady \<or> finished_status s) \<longrightarrow>
      (\<exists>u \<in> set (compute_ready repo db). (u, t) \<in> (waits_for repo db)\<^sup>*))"
  using compute_ready_distinct [OF assms] compute_ready_mem [OF assms] ready_below [OF assms] by blast

section \<open>Reopening\<close>

lemma append_input_error: "append_projection_input repo d ts db = Inl e \<Longrightarrow> e \<noteq> InvalidTransition x"
  by (auto simp: append_projection_input_def Let_def split: option.splits if_splits)

text \<open>Going back to planned reports nothing to the workflows, so only the invalidations can fail.\<close>

lemma replanning_error:
  fixes db :: "'z ticket_db_scheme"
  shows "update_ticket_status validate repo d TkPlanned now db = Inl e \<Longrightarrow> e \<noteq> InvalidTransition x"
  by (auto simp: update_ticket_status_def notify_ticket_status_def ticket_status_value_def invalidate_ticket_schedule_def
      invalidate_roster_def Let_def bindE_eq_Inl dest: append_input_error)

lemma reopen_dependentsE:
  assumes "reopen_dependents validate repo now ds acc db = (Inr cascaded, db')" and "distinct ds"
  shows "cascaded = acc @ filter (\<lambda>d. get_ticket_status repo d db = Some TkReady) ds \<and>
    (\<forall>q t. find_ticket q t db' = (if q = repo \<and> t \<in> set ds \<and> get_ticket_status repo t db = Some TkReady
       then map_option (set_status TkPlanned now) (find_ticket q t db) else find_ticket q t db)) \<and>
    dep_rows db' = dep_rows db"
  using assms
proof (induction ds arbitrary: acc db)
  case (Cons d ds)
  let ?s = "get_ticket_status repo d db"
  show ?case
  proof (cases "?s = Some TkReady")
    case True
    then have t: "transition validate repo d TkPlanned now db =
        bindE (update_ticket_status validate repo d TkPlanned now db) (\<lambda>db. Inr (TkReady, db))"
      by (simp add: transition_def valid_transitions_def)
    with Cons.prems(1) True obtain mid where mid: "update_ticket_status validate repo d TkPlanned now db = Inr mid"
      and rest: "reopen_dependents validate repo now ds (acc @ [d]) mid = (Inr cascaded, db')"
      by (cases "update_ticket_status validate repo d TkPlanned now db") (auto split: exn.splits dest: replanning_error)
    note found = find_updated [OF update_ticket_statusE(1) [OF mid]] and st = get_status_updated [OF update_ticket_statusE(1) [OF mid]]
    have "filter (\<lambda>x. get_ticket_status repo x mid = Some TkReady) ds = filter (\<lambda>x. get_ticket_status repo x db = Some TkReady) ds"
      using Cons.prems(2) by (intro filter_cong) (auto simp: st)
    with Cons.IH [OF rest] Cons.prems(2) True update_ticket_statusE(2) [OF mid] show ?thesis by (auto simp: found st)
  next
    case False
    then have "reopen_dependents validate repo now ds acc db = (Inr cascaded, db')"
      using Cons.prems(1)
      by (auto simp: transition_def valid_transitions_def split: option.splits if_splits)
    from Cons.IH [OF this] Cons.prems(2) False show ?thesis by (auto simp: fun_eq_iff)
  qed
qed simp

text \<open>
  C30: what reopening a ticket does. The ticket is planned again, and of the tickets that depend on it exactly the ready
  ones go back to planned with it. A dependent that is running or blocked keeps its status, although the
  cascade looks at it: the status machine has no such transition and the refusal is ignored.
\<close>

theorem reopen_exact:
  assumes "reopen validate repo tid now db = (Inr cascaded, db')" and "ticket_inv db"
  shows "get_ticket_status repo tid db' = Some TkPlanned \<and>
    set cascaded = {t. depends repo db t tid \<and> get_ticket_status repo t db = Some TkReady} \<and>
    (\<forall>t \<in> set cascaded. get_ticket_status repo t db' = Some TkPlanned) \<and>
    (\<forall>q t. (q, t) \<noteq> (repo, tid) \<longrightarrow> (q \<noteq> repo \<or> t \<notin> set cascaded) \<longrightarrow> find_ticket q t db' = find_ticket q t db) \<and>
    (\<forall>t s. depends repo db t tid \<longrightarrow> get_ticket_status repo t db = Some s \<longrightarrow> s \<in> {TkInProgress, TkBlocked} \<longrightarrow>
      get_ticket_status repo t db' = Some s)"
proof -
  from assms(1) obtain prev mid where t: "transition validate repo tid TkPlanned now db = Inr (prev, mid)"
    and rest: "reopen_dependents validate repo now (dependents_of repo tid mid) [] mid = (Inr cascaded, db')"
    by (auto simp: reopen_def split: sum.splits)
  have mid: "get_ticket_status repo tid mid = Some TkPlanned" "only_ticket repo tid db mid"
    using t by (cases rule: transitionE; simp add: status_update_only get_status_updated [OF update_ticket_statusE(1)])+
  have deps: "set (dependents_of repo tid mid) = {t. depends repo db t tid}" "distinct (dependents_of repo tid mid)"
    "\<not> depends repo db tid tid"
  proof -
    have rows: "dep_rows mid = dep_rows db" using mid(2) by (simp add: only_ticket_def)
    have inj: "inj_on dep_ticket {d :: dep_row. dep_repository d = repo \<and> dep_on d = tid}"
      by (auto simp: inj_on_def intro: dep_row.equality)
    show "distinct (dependents_of repo tid mid)"
      using assms(2) unfolding dependents_of_def rows by (auto simp: ticket_inv_def distinct_map intro: inj_on_subset [OF inj])
    have rec: "(\<exists>d \<in> set (dep_rows db). dep_repository d = repo \<and> dep_on d = tid \<and> dep_ticket d = t) \<longleftrightarrow>
        \<lparr>dep_repository = repo, dep_ticket = t, dep_on = tid\<rparr> \<in> set (dep_rows db)" for t
    proof (rule iffI, elim bexE conjE)
      fix d assume "d \<in> set (dep_rows db)" "dep_repository d = repo" "dep_on d = tid" "dep_ticket d = t"
      moreover from this have "d = \<lparr>dep_repository = repo, dep_ticket = t, dep_on = tid\<rparr>" by simp
      ultimately show "\<lparr>dep_repository = repo, dep_ticket = t, dep_on = tid\<rparr> \<in> set (dep_rows db)" by simp
    qed (rule bexI, simp_all)
    have "t \<in> set (dependents_of repo tid mid) \<longleftrightarrow> depends repo db t tid" for t
    proof -
      have "t \<in> set (dependents_of repo tid mid) \<longleftrightarrow> (\<exists>d \<in> set (dep_rows db). dep_repository d = repo \<and> dep_on d = tid \<and> dep_ticket d = t)"
        unfolding dependents_of_def rows by auto
      then show ?thesis unfolding rec by (simp add: depends_def)
    qed
    then show "set (dependents_of repo tid mid) = {t. depends repo db t tid}" by blast
    show "\<not> depends repo db tid tid" using assms(2) by (auto simp: depends_def ticket_inv_def dep_ok_def)
  qed
  note cascade = reopen_dependentsE [OF rest deps(2)]
  have st: "get_ticket_status q t mid = get_ticket_status q t db" if "(q, t) \<noteq> (repo, tid)" for q t
    using mid(2) that by (simp add: only_ticket_def get_ticket_status_def)
  have casc: "set cascaded = {t. depends repo db t tid \<and> get_ticket_status repo t db = Some TkReady}"
  proof -
    have "t \<in> set cascaded \<longleftrightarrow> depends repo db t tid \<and> get_ticket_status repo t mid = Some TkReady" for t
      using cascade deps(1) by auto
    moreover have "get_ticket_status repo t mid = get_ticket_status repo t db" if "depends repo db t tid" for t
      using st [of repo t] deps(3) that by (cases "t = tid") auto
    ultimately show ?thesis by auto
  qed
  have found: "find_ticket q t db' = (if q = repo \<and> t \<in> set cascaded then map_option (set_status TkPlanned now) (find_ticket q t mid)
      else find_ticket q t mid)" for q t using cascade by auto
  have tid: "tid \<notin> set cascaded" using casc deps(3) by simp
  have other: "find_ticket q t mid = find_ticket q t db" if "(q, t) \<noteq> (repo, tid)" for q t
    using mid(2) that by (simp add: only_ticket_def)
  have now: "get_ticket_status q t db' = (if q = repo \<and> t \<in> set cascaded
      then map_option (\<lambda>_. TkPlanned) (get_ticket_status q t mid) else get_ticket_status q t mid)" for q t
    by (simp add: get_ticket_status_def found option.map_comp comp_def set_status_def)
  have dep: "get_ticket_status repo t mid = get_ticket_status repo t db" if "depends repo db t tid" for t
    using st [of repo t] deps(3) that by (cases "t = tid") auto
  have "get_ticket_status repo tid db' = Some TkPlanned" by (simp add: now tid mid(1))
  moreover have "\<forall>t \<in> set cascaded. get_ticket_status repo t db' = Some TkPlanned" by (simp add: now casc dep)
  moreover have "\<forall>t s. depends repo db t tid \<longrightarrow> get_ticket_status repo t db = Some s \<longrightarrow> s \<in> {TkInProgress, TkBlocked} \<longrightarrow>
      get_ticket_status repo t db' = Some s" by (auto simp: now casc dep)
  ultimately show ?thesis using casc other by (simp add: found)
qed

lemma insert_deps_exist:
  "foldE (insert_dep repo tid) ds db = Inr db' \<Longrightarrow> u \<in> set ds \<Longrightarrow> (repo, u) \<in> ticket_keys db"
proof (induction ds arbitrary: db)
  case (Cons d ds)
  from Cons.prems(1) obtain mid where mid: "insert_dep repo tid d db = Inr mid" "foldE (insert_dep repo tid) ds mid = Inr db'"
    by (auto simp: bindE_eq_Inr)
  from mid(1) have "ticket_keys mid = ticket_keys db" "(repo, d) \<in> ticket_keys db"
    by (auto simp: insert_dep_def Let_def find_ticket_None ticket_keys_def split: if_splits)
  with Cons.IH [OF mid(2)] Cons.prems(2) show ?case by auto
qed simp

lemma carve_payload_missing:
  assumes "u \<in> set deps" and "find_ticket repo u db = None"
  shows "\<exists>e. apply_ticket_carve_payload repo tid title harness model deps items now db = Inl e"
proof -
  let ?u = "update_ticket repo tid (\<lambda>r. r\<lparr>ticket_title := title, ticket_harness := harness, ticket_model := model,
          ticket_updated_at := iso_seconds now\<rparr>) db"
  let ?d = "?u\<lparr>dep_rows := delete_where (\<lambda>d. dep_repository d = repo \<and> dep_ticket d = tid) (dep_rows ?u)\<rparr>"
  have "ticket_keys ?d = ticket_keys ?u" by (simp add: ticket_keys_def)
  also have "\<dots> = ticket_keys db" by (rule update_ticket_keys) simp
  finally have "(repo, u) \<notin> ticket_keys ?d" using assms(2) by (simp add: find_ticket_None)
  then obtain e where "foldE (insert_dep repo tid) deps ?d = Inl e"
    using insert_deps_exist [OF _ assms(1)] by (cases "foldE (insert_dep repo tid) deps ?d") blast+
  then show ?thesis by (simp add: apply_ticket_carve_payload_def Let_def)
qed

text \<open>an edit of the metadata is not atomic. When the new dependencies or checklist are refused by the tables, the edit
  fails and everything stays, except that the schedule of the ticket has already been replaced.
\<close>

theorem metadata_edit_not_atomic:
  assumes "find_ticket repo tid db = Some row" and "strip (ticket_title row) \<noteq> []"
    and "json_get body ''title'' = JNull" and "json_get body ''deps'' = JList (map JStr deps)"
    and "str_items body ''checklist'' = Inr items" and "u \<in> set deps" and "find_ticket repo u db = None"
  shows "\<exists>e. update_ticket_metadata repo tid body now db = (Inl e,
    update_ticket repo tid (\<lambda>r. r\<lparr>ticket_schedule_at :=
      (case json_get body ''schedule_at'' of JNull \<Rightarrow> None | v \<Rightarrow> blank_to_none (strip (json_str v)))\<rparr>) db)"
proof -
  have items: "str_items body ''deps'' = Inr deps"
    using assms(4,6) by (auto simp: str_items_def truthy_def json_iter_def json_str_def comp_def)
  have title: "(if truthy (json_get body ''title'') then json_str (json_get body ''title'') else ticket_title row) = ticket_title row"
    by (simp add: assms(3) truthy_def)
  let ?a = "case json_get body ''schedule_at'' of JNull \<Rightarrow> None | v \<Rightarrow> blank_to_none (strip (json_str v))"
  let ?h = "Some (strip (if truthy (json_get body ''harness'') then json_str (json_get body ''harness'')
              else case ticket_harness row of None \<Rightarrow> ''cursor'' | Some h \<Rightarrow> if h = [] then ''cursor'' else h))"
  obtain e where "apply_ticket_carve_payload repo tid (strip (ticket_title row)) ?h (stripped_text (json_get body ''model''))
      deps items now (update_ticket repo tid (\<lambda>r. r\<lparr>ticket_schedule_at := ?a\<rparr>) db) = Inl e"
    using carve_payload_missing [OF assms(6), of repo "update_ticket repo tid (\<lambda>r. r\<lparr>ticket_schedule_at := ?a\<rparr>) db"] assms(7)
    by (simp add: find_ticket_None update_ticket_keys) blast
  then have "update_ticket_metadata repo tid body now db = (Inl e, update_ticket repo tid (\<lambda>r. r\<lparr>ticket_schedule_at := ?a\<rparr>) db)"
    unfolding update_ticket_metadata_def assms(1) Let_def option.case title items assms(5) bindE.simps sum.case prod.case
    using assms(2) by (simp only: if_False sum.case)
  then show ?thesis by blast
qed

section \<open>Identities of invalidations\<close>

lemma append_new_input:
  assumes "\<forall>r \<in> set (projection_inputs db). input_repository r = repo \<longrightarrow> input_id r \<noteq> input_id draft"
  shows "append_projection_input repo draft now db = Inr (projection_row (next_input_sequence db) repo None now draft,
    db\<lparr>projection_inputs := projection_inputs db @ [projection_row (next_input_sequence db) repo None now draft],
      next_input_sequence := Suc (next_input_sequence db)\<rparr>)"
proof -
  have "find (\<lambda>r. input_repository r = repo \<and> input_id r = input_id draft) (projection_inputs db) = None"
    using assms by (simp add: find_eq_None)
  moreover have "\<not> list_ex (\<lambda>r. input_repository r = repo \<and> input_id r = input_id draft) (projection_inputs db)"
    using assms by (simp add: list_ex_iff)
  ultimately show ?thesis
    unfolding append_projection_input_def Let_def by (simp add: find_append projection_row_def)
qed

text \<open>
  An input whose identity is that of an invalidation of a ticket is that invalidation. Then an invalidation never
  finds its identity taken, because identities name the generation, and generations grow.
\<close>

definition input_named :: "string \<Rightarrow> projection_input_row \<Rightarrow> bool" where
  "input_named t r \<longleftrightarrow>
     (\<forall>n x. input_id r = UUID5 schedule_namespace (t @ '':'' @ int_text n @ '':'' @ x) \<longrightarrow> projection r = ''schedule'' \<and> subject_key r = t \<and> generation r = n) \<and>
     (\<forall>n. input_id r = UUID5 roster_namespace (ticket_subject t @ '':'' @ int_text n) \<longrightarrow>
        projection r = ''roster'' \<and> subject_key r = ticket_subject t \<and> generation r = n)"

definition inputs_named :: "string set \<Rightarrow> 'z fact_db_scheme \<Rightarrow> bool" where
  "inputs_named ts db \<longleftrightarrow> (\<forall>t \<in> ts. \<forall>r \<in> set (projection_inputs db). input_named t r)"

lemma inputs_named_subset: "inputs_named ts db \<Longrightarrow> set (projection_inputs db') \<subseteq> set (projection_inputs db) \<Longrightarrow> inputs_named ts db'"
  unfolding inputs_named_def by blast

lemma fold_max_bound: "x \<in> set xs \<or> x = a \<Longrightarrow> (x :: int) \<le> fold max xs a"
proof (induction xs arbitrary: a)
  case (Cons y ys)
  have "y \<le> fold max ys (max y a)" "a \<le> fold max ys (max y a)" using Cons.IH [of "max y a"]
    by (metis Max_ge List.finite_set Max.set_eq_fold max.cobounded1 max.cobounded2 max.coboundedI1 order.trans list.set_intros insert_iff set_simps(2))+
  with Cons show ?case by auto
qed simp

lemma next_generation_new:
  "r \<in> set (projection_inputs db) \<Longrightarrow> input_repository r = repo \<Longrightarrow> projection r = proj \<Longrightarrow> subject_key r = subject \<Longrightarrow>
    generation r < next_generation repo proj subject db"
  unfolding next_generation_def by (rule zle_add1_eq_le [THEN iffD2]) (rule fold_max_bound, auto)

text \<open>The two invalidations return, append an input of their own identity, and keep the identities of all tickets apart.\<close>

lemma namespaces_differ: "schedule_namespace \<noteq> roster_namespace"
  by (simp add: schedule_namespace_def roster_namespace_def)

lemma schedule_input_named:
  assumes "CHR '':'' \<notin> set t" and "CHR '':'' \<notin> set u"
  shows "input_named u (projection_row k repo src now \<lparr>input_id = UUID5 schedule_namespace (t @ '':'' @ int_text n @ '':'' @ x),
    projection = ''schedule'', subject_key = t, generation = n\<rparr>)"
proof -
  have "t = u \<and> n = m" if e: "t @ '':'' @ int_text n @ '':'' @ x = u @ '':'' @ int_text m @ '':'' @ y" for m y
  proof -
    from colon_split [OF assms e] have "t = u" "int_text n @ '':'' @ x = int_text m @ '':'' @ y" by simp_all
    with colon_split [OF int_text_colon int_text_colon this(2)] show ?thesis using int_text_inj by blast
  qed
  then show ?thesis using namespaces_differ by (auto simp: input_named_def projection_row_def)
qed

lemma roster_input_named:
  assumes "CHR '':'' \<notin> set t" and "CHR '':'' \<notin> set u"
  shows "input_named u (projection_row k repo src now \<lparr>input_id = UUID5 roster_namespace (ticket_subject t @ '':'' @ int_text n),
    projection = ''roster'', subject_key = ticket_subject t, generation = n\<rparr>)"
proof -
  have "t = u \<and> n = m" if e: "t @ '':'' @ int_text n = u @ '':'' @ int_text m" for m
    using colon_split [OF assms e] int_text_inj by blast
  then show ?thesis using namespaces_differ by (auto simp: input_named_def projection_row_def ticket_subject_def)
qed

definition plain_ids :: "string set \<Rightarrow> bool" where
  "plain_ids ts \<longleftrightarrow> (\<forall>t \<in> ts. CHR '':'' \<notin> set t)"

lemma schedule_returns:
  assumes "inputs_named ts db" and "plain_ids ts" and "t \<in> ts"
  obtains db' where "invalidate_ticket_schedule repo t op now db = Inr db'" "inputs_named ts db'" "\<exists>p s. db' = db\<lparr>projection_inputs := p, next_input_sequence := s\<rparr>"
proof -
  let ?n = "next_generation repo ''schedule'' t db"
  let ?d = "\<lparr>input_id = UUID5 schedule_namespace (t @ '':'' @ int_text ?n @ '':'' @ op), projection = ''schedule'', subject_key = t, generation = ?n\<rparr>"
  have "\<forall>r \<in> set (projection_inputs db). input_repository r = repo \<longrightarrow> input_id r \<noteq> input_id ?d"
  proof (intro ballI impI notI)
    fix r assume r: "r \<in> set (projection_inputs db)" "input_repository r = repo" "input_id r = input_id ?d"
    with assms(1,3) have "projection r = ''schedule'' \<and> subject_key r = t \<and> generation r = ?n" by (auto simp: inputs_named_def input_named_def)
    with next_generation_new [OF r(1,2)] show False by auto
  qed
  note new = append_new_input [OF this, of now]
  have "inputs_named ts (db\<lparr>projection_inputs := projection_inputs db @ [projection_row (next_input_sequence db) repo None now ?d],
      next_input_sequence := Suc (next_input_sequence db)\<rparr>)"
    using assms schedule_input_named [of t] by (auto simp: inputs_named_def plain_ids_def)
  with new show thesis by (intro that) (auto simp: invalidate_ticket_schedule_def Let_def)
qed

lemma roster_returns:
  assumes "inputs_named ts db" and "plain_ids ts" and "t \<in> ts"
  obtains db' where "invalidate_roster repo (ticket_subject t) now db = Inr db'" "inputs_named ts db'" "\<exists>p s. db' = db\<lparr>projection_inputs := p, next_input_sequence := s\<rparr>"
proof -
  let ?n = "next_generation repo ''roster'' (ticket_subject t) db"
  let ?d = "\<lparr>input_id = UUID5 roster_namespace (ticket_subject t @ '':'' @ int_text ?n), projection = ''roster'', subject_key = ticket_subject t, generation = ?n\<rparr>"
  have "\<forall>r \<in> set (projection_inputs db). input_repository r = repo \<longrightarrow> input_id r \<noteq> input_id ?d"
  proof (intro ballI impI notI)
    fix r assume r: "r \<in> set (projection_inputs db)" "input_repository r = repo" "input_id r = input_id ?d"
    with assms(1,3) have "projection r = ''roster'' \<and> subject_key r = ticket_subject t \<and> generation r = ?n" by (auto simp: inputs_named_def input_named_def)
    with next_generation_new [OF r(1,2)] show False by auto
  qed
  note new = append_new_input [OF this, of now]
  have "inputs_named ts (db\<lparr>projection_inputs := projection_inputs db @ [projection_row (next_input_sequence db) repo None now ?d],
      next_input_sequence := Suc (next_input_sequence db)\<rparr>)"
    using assms roster_input_named [of t] by (auto simp: inputs_named_def plain_ids_def)
  with new show thesis by (intro that) (auto simp: invalidate_roster_def Let_def)
qed

text \<open>A change of status that no workflow run takes an interest in returns.\<close>

definition unwatched :: "string \<Rightarrow> 'z workflow_db_scheme \<Rightarrow> bool" where
  "unwatched t db \<longleftrightarrow> (\<forall>r \<in> set (workflow_runs db). t \<notin> snd ` set (stage_map r))"

lemma signal_nobody:
  "\<forall>run \<in> set runs. ticket \<notin> snd ` set (stage_map run) \<Longrightarrow> foldE (signal_run resolver validate retries repo ticket status ts) runs (us, db) = Inr (us, db)"
  by (induction runs) (auto simp: signal_run_def)

lemma notify_nobody: "unwatched t db \<Longrightarrow> notify_ticket_status validate repo t status ts db = Inr ([], db)"
  by (simp add: notify_ticket_status_def signal_ticket_finished_def list_workflow_runs_def unwatched_def signal_nobody run_record_def
      workflow_run.defs)

lemma status_returns:
  assumes "inputs_named ts db" and "plain_ids ts" and "t \<in> ts" and "s \<notin> {TkDone, TkFailed, TkArchived} \<or> unwatched t db"
  obtains db' where "update_ticket_status validate repo t s now db = Inr db'" "inputs_named ts db'" "workflow_runs db' = workflow_runs db"
proof -
  let ?u = "update_ticket repo t (\<lambda>r. r\<lparr>ticket_state := s, ticket_updated_at := iso_seconds now\<rparr>) db"
  have "unwatched t ?u = unwatched t db" by (simp add: unwatched_def update_ticket_def)
  with assms(4) have notified: "notify_ticket_status validate repo t (ticket_status_value s) now ?u = Inr ([], ?u)"
    using notify_nobody [of t ?u validate repo "ticket_status_value s" now]
    by (cases s) (auto simp: notify_ticket_status_def ticket_status_value_def)
  have "inputs_named ts ?u" using inputs_named_subset [OF assms(1), of ?u] by (simp add: update_ticket_def)
  from schedule_returns [OF this assms(2,3)] obtain a where a: "invalidate_ticket_schedule repo t (''status:'' @ ticket_status_value s) now ?u = Inr a"
    "inputs_named ts a" "\<exists>p n. a = ?u\<lparr>projection_inputs := p, next_input_sequence := n\<rparr>" by blast
  from roster_returns [OF a(2) assms(2,3)] obtain b where b: "invalidate_roster repo (ticket_subject t) now a = Inr b" "inputs_named ts b"
    "\<exists>p n. b = a\<lparr>projection_inputs := p, next_input_sequence := n\<rparr>" by blast
  show thesis
  proof (rule that [of b])
    show "update_ticket_status validate repo t s now db = Inr b" using notified a(1) b(1) by (simp add: update_ticket_status_def)
    show "workflow_runs b = workflow_runs db" using a(3) b(3) by (auto simp: update_ticket_def)
  qed (rule b(2))
qed

section \<open>A sample\<close>

definition sample_ticket :: "string \<Rightarrow> ticket_status \<Rightarrow> ticket_row" where
  "sample_ticket tid s = \<lparr>ticket_repository = ''r'', ticket_key_id = tid, ticket_title = ''T'', ticket_state = s,
     ticket_harness = None, ticket_model = None, ticket_worktree = None, ticket_schedule_at = Some ''soon'',
     ticket_parent = None, ticket_sync = new_sync, ticket_attempts = 0, ticket_last_error = None,
     ticket_created_at = [], ticket_updated_at = []\<rparr>"

definition sample_dep :: "string \<Rightarrow> string \<Rightarrow> dep_row" where
  "sample_dep t u = \<lparr>dep_repository = ''r'', dep_ticket = t, dep_on = u\<rparr>"

text \<open>Ticket \<open>t1\<close> is done, \<open>t2\<close> waits for it and is ready, \<open>t3\<close> waits for it and runs, \<open>t4\<close> waits for \<open>t2\<close>.\<close>

definition sample_ticket_store :: ticket_db where
  "sample_ticket_store = activity_db.extend sample_dag_store (ticket_db.fields
     [sample_ticket ''t1'' TkDone, sample_ticket ''t2'' TkReady, sample_ticket ''t3'' TkInProgress, sample_ticket ''t4'' TkReady]
     [sample_dep ''t2'' ''t1'', sample_dep ''t3'' ''t1'', sample_dep ''t4'' ''t2''] [] [] 0 0)"

lemma sample_ticket_store_sel [simp]:
  "ticket_rows sample_ticket_store = [sample_ticket ''t1'' TkDone, sample_ticket ''t2'' TkReady,
     sample_ticket ''t3'' TkInProgress, sample_ticket ''t4'' TkReady]"
  "dep_rows sample_ticket_store = [sample_dep ''t2'' ''t1'', sample_dep ''t3'' ''t1'', sample_dep ''t4'' ''t2'']"
  "checklist_rows sample_ticket_store = []" "escalation_rows sample_ticket_store = []"
  by (simp_all add: sample_ticket_store_def activity_db.defs ticket_db.defs)

lemma sample_ticket_store_inv: "ticket_inv sample_ticket_store"
  by (simp add: ticket_inv_def ticket_keys_def sample_ticket_def sample_dep_def ticket_ident_def parent_ok_def dep_ok_def)

lemma sample_status:
  "get_ticket_status ''r'' ''t1'' sample_ticket_store = Some TkDone" "get_ticket_status ''r'' ''t2'' sample_ticket_store = Some TkReady"
  "get_ticket_status ''r'' ''t3'' sample_ticket_store = Some TkInProgress" "get_ticket_status ''r'' ''t4'' sample_ticket_store = Some TkReady"
  by (simp_all add: get_ticket_status_def find_ticket_def this_ticket_def sample_ticket_def)

lemma sample_inputs: "projection_inputs sample_ticket_store = []"
  by (simp add: sample_ticket_store_def activity_db.defs sample_dag_store_def sample_signal_store_def sample_activity_store_def
      workflow_db.defs sample_store_def permission_db.defs sample_permission_simps)

lemma sample_named: "inputs_named {''t1'', ''t2''} sample_ticket_store" "plain_ids {''t1'', ''t2''}"
  by (simp_all add: inputs_named_def sample_inputs plain_ids_def)

lemma sample_reopen: "\<exists>db'. reopen (\<lambda>_. Inl ValidationError) ''r'' ''t1'' 0 sample_ticket_store = (Inr [''t2''], db')"
proof -
  let ?v = "\<lambda>_. Inl ValidationError"
  obtain mid where mid: "update_ticket_status ?v ''r'' ''t1'' TkPlanned 0 sample_ticket_store = Inr mid" "inputs_named {''t1'', ''t2''} mid"
    using status_returns [OF sample_named, of "''t1''" TkPlanned ?v "''r''" 0] by auto
  obtain db' where db': "update_ticket_status ?v ''r'' ''t2'' TkPlanned 0 mid = Inr db'"
    using status_returns [OF mid(2) sample_named(2), of "''t2''" TkPlanned ?v "''r''" 0] by auto
  note st = get_status_updated [OF update_ticket_statusE(1) [OF mid(1)]] and st' = get_status_updated [OF update_ticket_statusE(1) [OF db']]
  have "dependents_of ''r'' ''t1'' mid = [''t2'', ''t3'']"
    by (simp add: dependents_of_def update_ticket_statusE(2) [OF mid(1)] sample_dep_def)
  then show ?thesis
    by (simp add: reopen_def transition_def valid_transitions_def sample_status mid(1) st st' db')
qed

text \<open>The ready ticket is walked through in progress; no run has it as the ticket of a stage.\<close>

lemma sample_complete: "\<exists>db'. complete_ticket (\<lambda>_. Inl ValidationError) ''r'' ''t2'' 0 sample_ticket_store = (Inr (), db')"
proof -
  let ?v = "\<lambda>_. Inl ValidationError"
  have "workflow_runs sample_ticket_store = workflow_runs sample_dag_store" by (simp add: sample_ticket_store_def activity_db.defs)
  then have free: "unwatched ''t2'' sample_ticket_store"
    by (simp add: unwatched_def sample_dag_store_def sample_dag_run_def sample_machine_def run_row_of_def workflow_run.defs run_row.defs)
  obtain mid where mid: "update_ticket_status ?v ''r'' ''t2'' TkInProgress 0 sample_ticket_store = Inr mid" "inputs_named {''t1'', ''t2''} mid"
    "workflow_runs mid = workflow_runs sample_ticket_store"
    using status_returns [OF sample_named, of "''t2''" TkInProgress ?v "''r''" 0] by auto
  obtain db' where db': "update_ticket_status ?v ''r'' ''t2'' TkDone 0 mid = Inr db'"
    by (rule status_returns [OF mid(2) sample_named(2), of "''t2''" TkDone ?v "''r''" 0]) (use free in \<open>simp_all add: unwatched_def mid(3)\<close>)
  note st = get_status_updated [OF update_ticket_statusE(1) [OF mid(1)]]
  show ?thesis
    by (simp add: complete_ticket_def sample_status steps_to_done_def transition_def valid_transitions_def mid(1) st db')
qed

theorem reopen_exact_witness:
  "\<exists>db'. reopen (\<lambda>_. Inl ValidationError) ''r'' ''t1'' 0 sample_ticket_store = (Inr [''t2''], db') \<and>
     get_ticket_status ''r'' ''t2'' db' = Some TkPlanned \<and> get_ticket_status ''r'' ''t3'' db' = Some TkInProgress"
proof -
  obtain db' where run: "reopen (\<lambda>_. Inl ValidationError) ''r'' ''t1'' 0 sample_ticket_store = (Inr [''t2''], db')"
    using sample_reopen by blast
  have "depends ''r'' sample_ticket_store ''t3'' ''t1''" by (simp add: depends_def sample_dep_def)
  with reopen_exact [OF run sample_ticket_store_inv] sample_status run show ?thesis by auto
qed

theorem complete_ticket_exact_witness:
  "\<exists>db'. complete_ticket (\<lambda>_. Inl ValidationError) ''r'' ''t2'' 0 sample_ticket_store = (Inr (), db') \<and>
     only_ticket ''r'' ''t2'' sample_ticket_store db' \<and>
     legal_walk (\<lambda>_. Inl ValidationError) ''r'' ''t2'' 0 sample_ticket_store [TkInProgress, TkDone] db' \<and>
     get_ticket_status ''r'' ''t2'' db' = Some TkDone"
proof -
  obtain db' where run: "complete_ticket (\<lambda>_. Inl ValidationError) ''r'' ''t2'' 0 sample_ticket_store = (Inr (), db')"
    using sample_complete by blast
  have steps: "steps_to_done TkReady = [TkInProgress, TkDone]" by (simp add: steps_to_done_def)
  from complete_ticket_exact [OF run] run show ?thesis
    by (simp add: sample_status completable_def steps del: legal_walk_simps)
qed

theorem ticket_store_sound_witness: "\<exists>db'. ticket_op sample_ticket_store db' \<and> ticket_inv db'"
proof -
  obtain r db' where run: "complete_ticket (\<lambda>_. Inl ValidationError) ''r'' ''t3'' 0 sample_ticket_store = (r, db')"
    by fastforce
  have step: "ticket_op sample_ticket_store db'" by (rule ticket_op.completed [OF run])
  from ticket_store_sound [OF r_into_rtranclp [of ticket_op, OF step] sample_ticket_store_inv] step show ?thesis by blast
qed

theorem ready_exact_and_live_witness:
  "\<exists>u \<in> set (compute_ready ''r'' sample_ticket_store). (u, ''t4'') \<in> (waits_for ''r'' sample_ticket_store)\<^sup>*"
proof -
  have rel: "waits_for ''r'' sample_ticket_store = {(''t1'', ''t2''), (''t1'', ''t3''), (''t2'', ''t4'')}"
    by (auto simp: waits_for_def depends_def sample_dep_def)
  have below: "(u, ''t4'') \<in> (waits_for ''r'' sample_ticket_store)\<^sup>+ \<Longrightarrow> u \<in> {''t1'', ''t2''}" for u
  proof (induction rule: converse_trancl_induct)
    case (base y)
    then show ?case by (simp add: rel)
  next
    case (step y z)
    then show ?case by (auto simp: rel)
  qed
  have "waits_for ''r'' sample_ticket_store \<subseteq> measure (\<lambda>t. if t = ''t1'' then 0 else if t = ''t4'' then 2 else 1)"
    by (simp add: rel)
  then have "acyclic (waits_for ''r'' sample_ticket_store)" by (rule wf_acyclic [OF wf_subset [OF wf_measure]])
  moreover have "\<forall>u s. (u, ''t4'') \<in> (waits_for ''r'' sample_ticket_store)\<^sup>+ \<longrightarrow>
      get_ticket_status ''r'' u sample_ticket_store = Some s \<longrightarrow> s = TkReady \<or> finished_status s"
    by (auto dest!: below simp: sample_status finished_status_def)
  ultimately show ?thesis
    using ready_exact_and_live [OF sample_ticket_store_inv, of "''r''"] sample_status(4) by blast
qed

theorem metadata_edit_not_atomic_witness:
  "\<exists>e db'. update_ticket_metadata ''r'' ''t2'' [(''deps'', JList [JStr ''t9''])] 0 sample_ticket_store = (Inl e, db') \<and>
     map ticket_schedule_at (ticket_rows db') = [Some ''soon'', None, Some ''soon'', Some ''soon'']"
proof -
  have "find_ticket ''r'' ''t2'' sample_ticket_store = Some (sample_ticket ''t2'' TkReady)"
    and "find_ticket ''r'' ''t9'' sample_ticket_store = None"
    by (simp_all add: find_ticket_def this_ticket_def sample_ticket_def)
  from metadata_edit_not_atomic [of "''r''" "''t2''" sample_ticket_store, OF this(1), of "[(''deps'', JList [JStr ''t9''])]" "[''t9'']" "[]" "''t9''" 0] this(2)
  show ?thesis by (auto simp: sample_ticket_def json_get_def str_items_def truthy_def strip_def is_space_def this_ticket_def)
qed

end
