(* ===== verification/TicketDocs.thy ===== *)
theory TicketDocs
  imports Tickets SourceText "HOL-Library.AList"
begin

text \<open>
  Ticket documents: the Markdown of a ticket (\<open>murder/work/tickets/parser.py\<close>, \<open>render.py\<close>). YAML is the
  caller's: \<open>load\<close> is \<open>yaml.safe_load\<close> and \<open>dump\<close> is \<open>yaml.safe_dump\<close>. Text is ASCII, so \<open>\s\<close> and
  \<open>str.strip\<close> agree with \<open>is_space\<close>. The regular expressions are read line by line: none of them
  crosses a line except over the white space that is stripped afterwards.
\<close>

section \<open>Values of YAML\<close>

text \<open>
  What \<open>safe_load\<close> may return: \<open>YOther\<close> is every value that is neither null, text, a list nor a
  mapping, with its truth value. The keys of a mapping are given as the text \<open>str(key)\<close>, which need not be
  distinct. \<open>YError\<close> is a \<open>YAMLError\<close>, \<open>YRaise\<close> any other exception.
\<close>

datatype yaml = YNull | YText string | YSeq "yaml list" | YMap "(string \<times> yaml) list" | YOther bool

datatype yaml_result = YValue yaml | YError string | YRaise string

definition yaml_true :: "yaml \<Rightarrow> bool" where
  "yaml_true v = (case v of YNull \<Rightarrow> False | YText s \<Rightarrow> s \<noteq> [] | YSeq vs \<Rightarrow> vs \<noteq> [] | YMap kvs \<Rightarrow> kvs \<noteq> [] | YOther b \<Rightarrow> b)"

section \<open>Splitting text\<close>

text \<open>\<open>str.split(sep, 1)\<close> for a separator that occurs.\<close>

fun split_once :: "string \<Rightarrow> string \<Rightarrow> (string \<times> string) option" where
  "split_once sep [] = (if sep = [] then Some ([], []) else None)"
| "split_once sep (c # s) =
     (if starts_with sep (c # s) then Some ([], drop (length sep) (c # s))
      else map_option (\<lambda>(a, b). (c # a, b)) (split_once sep s))"

definition split_frontmatter :: "string \<Rightarrow> string option \<times> string \<times> bool" where
  "split_frontmatter md =
     (if \<not> starts_with (''---'' @ newline) md then (None, md, False)
      else case split_once (newline @ ''---'') (drop 4 md) of
        None \<Rightarrow> (None, md, True)
      | Some (front, body) \<Rightarrow> (Some front, if starts_with newline body then drop 1 body else body, False))"

text \<open>\<open>str.split\<close> on line feeds.\<close>

fun nl_lines :: "string \<Rightarrow> string list" where
  "nl_lines [] = [[]]"
| "nl_lines (c # s) = (if c = CHR 0x0A then [] # nl_lines s
     else case nl_lines s of [] \<Rightarrow> [[c]] | l # ls \<Rightarrow> (c # l) # ls)"

section \<open>Headings and the checklist\<close>

definition checklist_header :: "string \<Rightarrow> bool" where
  "checklist_header line \<longleftrightarrow> starts_with ''# Checklist'' line \<and> list_all is_space (drop 11 line)"

definition level_one_header :: "string \<Rightarrow> bool" where
  "level_one_header line \<longleftrightarrow> starts_with ''# '' line \<and> 2 < length line \<and> line ! 2 \<noteq> CHR ''#''"

definition checklist_item :: "string \<Rightarrow> (string \<times> bool) option" where
  "checklist_item s =
     (if starts_with ''['' s \<and> 3 < length s \<and> List.member [CHR '' '', CHR ''x'', CHR ''X''] (s ! 1) \<and> s ! 2 = CHR '']'' \<and>
         is_space (s ! 3) \<and> strip (drop 3 s) \<noteq> []
      then Some (strip (drop 3 s), s ! 1 \<noteq> CHR '' '') else None)"

fun checklist_items :: "string list \<Rightarrow> (string \<times> bool) list" where
  "checklist_items [] = []"
| "checklist_items (l # ls) =
     (if level_one_header (strip l) then []
      else case checklist_item (strip l) of None \<Rightarrow> checklist_items ls | Some i \<Rightarrow> i # checklist_items ls)"

definition parse_checklist :: "string \<Rightarrow> (string \<times> bool) list" where
  "parse_checklist body = checklist_items (tl (dropWhile (\<lambda>l. \<not> checklist_header (strip l)) (split_lines body)))"

definition optional_non_empty :: "yaml \<Rightarrow> string option" where
  "optional_non_empty v = (case v of YText s \<Rightarrow> blank_to_none (strip s) | _ \<Rightarrow> None)"

definition heading_title :: "string \<Rightarrow> string option" where
  "heading_title body =
     (case filter (\<lambda>l. \<not> checklist_header l \<and> level_one_header l) (split_lines body) of
        [] \<Rightarrow> None | l # _ \<Rightarrow> optional_non_empty (YText (drop 1 l)))"

section \<open>Front matter\<close>

definition canonical_keys :: "string list" where
  "canonical_keys = [''title'', ''deps'', ''harness'', ''model'', ''worktree'', ''parent'']"

definition alias_of :: "string \<Rightarrow> string" where
  "alias_of k = (case map_of [(''dependency'', ''deps''), (''dependencies'', ''deps''), (''depends_on'', ''deps''),
     (''harness_override'', ''harness'')] k of None \<Rightarrow> k | Some c \<Rightarrow> c)"

text \<open>A dictionary comprehension: a later value replaces an earlier one in place.\<close>

definition yaml_dict :: "(string \<times> yaml) list \<Rightarrow> (string \<times> yaml) list" where
  "yaml_dict kvs = fold (\<lambda>(k, v). AList.update k v) kvs []"

definition normalize_aliases :: "(string \<times> yaml) list \<Rightarrow> (string \<times> yaml) list" where
  "normalize_aliases raw = fold (\<lambda>(k, v) acc. if List.member (map fst acc) (alias_of k) then acc else acc @ [(alias_of k, v)]) raw []"

definition optional_string_field :: "string \<Rightarrow> yaml \<Rightarrow> string option \<times> string list" where
  "optional_string_field name v = (case v of YNull \<Rightarrow> (None, []) | YText s \<Rightarrow> (blank_to_none (strip s), [])
     | _ \<Rightarrow> (None, [name @ '' must be a string when present'']))"

definition yaml_text :: "yaml \<Rightarrow> string option" where
  "yaml_text v = (case v of YText s \<Rightarrow> Some s | _ \<Rightarrow> None)"

definition coerce_str_list :: "string \<Rightarrow> yaml \<Rightarrow> string list \<times> string list" where
  "coerce_str_list name v =
     (case v of
        YNull \<Rightarrow> ([], [])
      | YText s \<Rightarrow> (if strip s = [] then [] else [strip s], [])
      | YSeq vs \<Rightarrow> (if list_all (\<lambda>v. yaml_text v \<noteq> None) vs
          then (filter (\<lambda>s. s \<noteq> []) (map (strip \<circ> the \<circ> yaml_text) vs), [])
          else ([], [name @ '' must be a list of strings'']))
      | _ \<Rightarrow> ([], [name @ '' must be a list of strings'']))"

record parsed_ticket =
  pt_title :: "string option"
  pt_deps :: "string list"
  pt_harness :: "string option"
  pt_model :: "string option"
  pt_worktree :: "string option"
  pt_parent :: "string option"
  pt_body :: string
  pt_checklist :: "(string \<times> bool) list"
  pt_extras :: "(string \<times> yaml) list"
  pt_error :: "string option"

definition unexpected_error :: "string \<Rightarrow> parsed_ticket" where
  "unexpected_error why = \<lparr>pt_title = None, pt_deps = [], pt_harness = None, pt_model = None, pt_worktree = None, pt_parent = None,
     pt_body = [], pt_checklist = [], pt_extras = [], pt_error = Some (''unexpected ticket parse error: '' @ why)\<rparr>"

text \<open>The mapping of the front matter and the first errors; the exception of a value that cannot be built is kept.\<close>

definition read_frontmatter :: "(string \<Rightarrow> yaml_result) \<Rightarrow> string option \<Rightarrow> bool \<Rightarrow> string + (string \<times> yaml) list \<times> string list" where
  "read_frontmatter load front unclosed =
     (if unclosed then Inr ([], [''ticket markdown is missing closing frontmatter delimiter''])
      else case front of
        None \<Rightarrow> Inr ([], [])
      | Some text \<Rightarrow>
        (case load text of
           YRaise why \<Rightarrow> Inl why
         | YError why \<Rightarrow> Inr ([], [''invalid ticket frontmatter YAML: '' @ why])
         | YValue v \<Rightarrow>
             (case (if yaml_true v then v else YMap []) of
                YMap kvs \<Rightarrow> Inr (yaml_dict kvs, [])
              | _ \<Rightarrow> Inr ([], [''ticket frontmatter must be a mapping'']))))"

definition yaml_get :: "(string \<times> yaml) list \<Rightarrow> string \<Rightarrow> yaml" where
  "yaml_get d k = (case map_of d k of None \<Rightarrow> YNull | Some v \<Rightarrow> v)"

definition ticket_title_of :: "(string \<times> yaml) list \<Rightarrow> bool \<Rightarrow> string \<Rightarrow> string option \<Rightarrow> string option" where
  "ticket_title_of d required body default_title =
     (case optional_non_empty (yaml_get d ''title'') of
        Some t \<Rightarrow> Some t
      | None \<Rightarrow>
        (case (if required then None else heading_title body) of
           Some t \<Rightarrow> Some t
         | None \<Rightarrow> (case default_title of None \<Rightarrow> None | Some t \<Rightarrow> optional_non_empty (YText t))))"

definition parse_ticket :: "(string \<Rightarrow> yaml_result) \<Rightarrow> string \<Rightarrow> string option \<Rightarrow> parsed_ticket" where
  "parse_ticket load md default_title =
     (case split_frontmatter md of (front, body, unclosed) \<Rightarrow>
      case read_frontmatter load front unclosed of
        Inl why \<Rightarrow> unexpected_error why
      | Inr (raw, errors) \<Rightarrow>
        let required = (front \<noteq> None \<or> unclosed);
            d = normalize_aliases raw;
            title = ticket_title_of d required body default_title;
            (deps, e1) = coerce_str_list ''deps'' (yaml_get d ''deps'');
            (harness, e2) = optional_string_field ''harness'' (yaml_get d ''harness'');
            (model, e3) = optional_string_field ''model'' (yaml_get d ''model'');
            (worktree, e4) = optional_string_field ''worktree'' (yaml_get d ''worktree'');
            (parent, e5) = optional_string_field ''parent'' (yaml_get d ''parent'');
            missing = (\<lambda>v name. if v = None \<and> required then [''ticket frontmatter requires a non-empty '' @ name] else [])
        in \<lparr>pt_title = title, pt_deps = deps, pt_harness = harness, pt_model = model, pt_worktree = worktree, pt_parent = parent,
             pt_body = body, pt_checklist = parse_checklist body,
             pt_extras = filter (\<lambda>(k, v). \<not> List.member canonical_keys k) d,
             pt_error = blank_to_none (join_text ''. '' (errors @ missing title ''title'' @ e1 @ e2 @ e3 @ e4 @ e5 @
               missing harness ''harness'' @ missing model ''model''))\<rparr>)"

section \<open>Rendering\<close>

record frontmatter =
  fm_title :: "string option"
  fm_deps :: "string list"
  fm_harness :: "string option"
  fm_model :: "string option"
  fm_worktree :: "string option"
  fm_parent :: "string option"

definition yaml_opt :: "string option \<Rightarrow> yaml" where
  "yaml_opt v = (case v of None \<Rightarrow> YNull | Some s \<Rightarrow> YText s)"

definition frontmatter_yaml :: "frontmatter \<Rightarrow> yaml" where
  "frontmatter_yaml f = YMap [(''title'', yaml_opt (fm_title f)), (''deps'', YSeq (map YText (fm_deps f))),
     (''harness'', yaml_opt (fm_harness f)), (''model'', yaml_opt (fm_model f)), (''worktree'', yaml_opt (fm_worktree f)),
     (''parent'', yaml_opt (fm_parent f))]"

definition render_frontmatter :: "(yaml \<Rightarrow> string) \<Rightarrow> frontmatter \<Rightarrow> string" where
  "render_frontmatter dump f = ''---'' @ newline @ strip (dump (frontmatter_yaml f)) @ newline @ ''---'' @ newline"

definition frontmatter_of :: "parsed_ticket \<Rightarrow> frontmatter" where
  "frontmatter_of p = \<lparr>fm_title = pt_title p, fm_deps = pt_deps p, fm_harness = pt_harness p, fm_model = pt_model p,
     fm_worktree = pt_worktree p, fm_parent = pt_parent p\<rparr>"

definition rstrip :: "string \<Rightarrow> string" where
  "rstrip s = rev (dropWhile is_space (rev s))"

section \<open>Sections\<close>

record sections =
  sec_plan :: string
  sec_notes :: string
  sec_preamble :: string

definition section_name :: "string \<Rightarrow> string option" where
  "section_name line = (if starts_with ''## '' line \<and> 3 < length line then Some (strip (drop 3 line)) else None)"

fun section_blocks :: "string list \<Rightarrow> (string \<times> string list) list" where
  "section_blocks [] = []"
| "section_blocks (l # ls) =
     (case section_name l of
        None \<Rightarrow> section_blocks ls
      | Some n \<Rightarrow> (n, takeWhile (\<lambda>l. section_name l = None) ls) # section_blocks ls)"

definition block_text :: "string list \<Rightarrow> string" where
  "block_text ls = strip (join_text newline ls)"

definition store_section :: "string \<times> string list \<Rightarrow> sections \<Rightarrow> sections" where
  "store_section = (\<lambda>(n, ls) s. if n = ''Plan'' then s\<lparr>sec_plan := block_text ls\<rparr>
     else if n = ''Working notes'' then s\<lparr>sec_notes := block_text ls\<rparr> else s)"

definition parse_sections :: "string \<Rightarrow> sections" where
  "parse_sections text =
     (let ls = nl_lines text in
      fold store_section (section_blocks ls)
        \<lparr>sec_plan = [], sec_notes = [], sec_preamble = block_text (takeWhile (\<lambda>l. section_name l = None) ls)\<rparr>)"

definition render_sections :: "string \<Rightarrow> string \<Rightarrow> string" where
  "render_sections plan notes =
     rstrip (join_text newline [''## Plan'', if strip plan = [] then ''_(empty)_'' else strip plan, '''', ''## Working notes'',
       strip notes, '''']) @ newline"

definition append_to :: "string \<Rightarrow> string \<Rightarrow> string" where
  "append_to existing text = strip (existing @ (if existing = [] then [] else newline @ newline) @ strip text)"

text \<open>The file is its text, or nothing when it does not exist; the answer is the text written.\<close>

definition append_section :: "string option \<Rightarrow> string \<Rightarrow> string \<Rightarrow> exn + string" where
  "append_section file name text =
     (let s = (case file of None \<Rightarrow> \<lparr>sec_plan = [], sec_notes = [], sec_preamble = []\<rparr> | Some t \<Rightarrow> parse_sections t) in
      if name = ''Plan'' then Inr (render_sections (append_to (sec_plan s) text) (sec_notes s))
      else if name = ''Working notes'' then Inr (render_sections (sec_plan s) (append_to (sec_notes s) text))
      else Inl (ValueError ''unknown section''))"

section \<open>Lemmas on text\<close>

lemma nl_lines_not_Nil [simp]: "nl_lines s \<noteq> []"
  by (cases s) (auto split: list.splits)

lemma nl_lines_append_newline: "nl_lines (s @ newline @ t) = nl_lines s @ nl_lines t"
  by (induction s) (auto simp: newline_def split: list.splits)

lemma nl_lines_single: "CHR 0x0A \<notin> set s \<Longrightarrow> nl_lines s = [s]"
  by (induction s) auto

lemma nl_lines_mem: "l \<in> set (nl_lines s) \<Longrightarrow> CHR 0x0A \<notin> set l"
  by (induction s arbitrary: l) (auto split: if_splits list.splits)

lemma join_text_Cons: "ls \<noteq> [] \<Longrightarrow> join_text sep (l # ls) = l @ sep @ join_text sep ls"
  by (cases ls) simp_all

lemma join_text_append: "xs \<noteq> [] \<Longrightarrow> ys \<noteq> [] \<Longrightarrow> join_text sep (xs @ ys) = join_text sep xs @ sep @ join_text sep ys"
  by (induction xs rule: induct_list012) (simp_all add: join_text_Cons)

lemma join_text_push: "join_text sep ((c # l) # ls) = c # join_text sep (l # ls)"
  by (cases ls) simp_all

lemma join_nl_lines [simp]: "join_text newline (nl_lines s) = s"
proof (induction s)
  case (Cons c s)
  then show ?case by (cases "nl_lines s") (auto simp: join_text_Cons join_text_push newline_def split: list.splits)
qed simp

lemma strip_eq: "strip s = rstrip (dropWhile is_space s)"
  by (simp add: strip_def rstrip_def)

lemma rstrip_append: "rstrip t \<noteq> [] \<Longrightarrow> rstrip (s @ t) = s @ rstrip t"
  by (induction t rule: rev_induct) (auto simp: rstrip_def)

lemma rstrip_spaces: "list_all is_space t \<Longrightarrow> rstrip (s @ t) = rstrip s"
  by (induction t rule: rev_induct) (auto simp: rstrip_def)

lemma is_space_newline [simp]: "is_space (CHR 0x0A)"
  by (simp add: is_space_def)

text \<open>A text that \<open>strip\<close> leaves alone starts and ends with other characters.\<close>

definition trimmed :: "string \<Rightarrow> bool" where
  "trimmed s \<longleftrightarrow> s = [] \<or> \<not> is_space (hd s) \<and> \<not> is_space (last s)"

lemma rstrip_last: "rstrip u = [] \<or> \<not> is_space (last (rstrip u))"
proof (cases "dropWhile is_space (rev u) = []")
  case False
  then show ?thesis using hd_dropWhile [OF False] by (simp add: rstrip_def last_rev)
qed (simp add: rstrip_def)

lemma rstrip_prefix: "\<exists>v. u = rstrip u @ v"
  by (metis rev_append rev_rev_ident rstrip_def takeWhile_dropWhile_id)

lemma trimmed_strip [simp]: "trimmed (strip s)"
proof (cases "strip s = []")
  case False
  let ?t = "dropWhile is_space s"
  obtain v where v: "?t = rstrip ?t @ v" using rstrip_prefix by blast
  have ne: "rstrip ?t \<noteq> []" using False by (simp add: strip_eq)
  then have "hd (rstrip ?t) = hd ?t" by (metis v hd_append2)
  moreover have "\<not> is_space (hd ?t)" using ne v by (metis append_is_Nil_conv hd_dropWhile)
  ultimately show ?thesis using rstrip_last [of ?t] by (auto simp: trimmed_def strip_eq)
qed (simp add: trimmed_def)

lemma trimmed_drop: "trimmed s \<Longrightarrow> dropWhile is_space (s @ t) = (if s = [] then dropWhile is_space t else s @ t)"
  by (cases s) (auto simp: trimmed_def)

lemma trimmed_rstrip: "trimmed s \<Longrightarrow> rstrip s = s"
  by (cases s rule: rev_cases) (auto simp: trimmed_def rstrip_def)

lemma strip_trimmed: "trimmed s \<Longrightarrow> strip s = s"
  using trimmed_drop [of s "[]"] by (auto simp: strip_eq trimmed_rstrip)

lemma strip_strip [simp]: "strip (strip s) = strip s"
  by (simp add: strip_trimmed)

lemma strip_between: "trimmed s \<Longrightarrow> s \<noteq> [] \<Longrightarrow> list_all is_space t \<Longrightarrow> strip (s @ t) = s"
  by (simp add: strip_eq trimmed_drop rstrip_spaces trimmed_rstrip)

lemma strip_spaces:
  assumes "list_all is_space t"
  shows "strip t = []"
proof -
  from assms have "dropWhile is_space t = []" unfolding list_all_iff dropWhile_eq_Nil_conv by blast
  then show ?thesis by (metis dropWhile.simps(1) rev.simps(1) strip_def)
qed
lemma newline_spaces [simp]: "list_all is_space newline"
  by (simp add: newline_def)

lemma blank_to_none_trimmed: "trimmed s \<Longrightarrow> s \<noteq> [] \<Longrightarrow> blank_to_none (strip s) = Some s"
  by (simp add: strip_trimmed blank_to_none_def)

section \<open>Reading back the sections\<close>

definition plain_text :: "string \<Rightarrow> bool" where
  "plain_text s \<longleftrightarrow> list_all (\<lambda>l. section_name l = None) (nl_lines s)"

lemma section_blocks_plain: "list_all (\<lambda>l. section_name l = None) ls \<Longrightarrow> section_blocks (ls @ ms) = section_blocks ms"
  by (induction ls) auto

lemma takeWhile_plain:
  "list_all (\<lambda>l. section_name l = None) ls \<Longrightarrow> section_name m = Some n \<Longrightarrow> takeWhile (\<lambda>l. section_name l = None) (ls @ m # ms) = ls"
  by (induction ls) auto

lemma takeWhile_all_plain: "list_all (\<lambda>l. section_name l = None) ls \<Longrightarrow> takeWhile (\<lambda>l. section_name l = None) ls = ls"
  by (induction ls) auto

lemma header_names [simp]:
  "section_name ''## Plan'' = Some ''Plan''" "section_name ''## Working notes'' = Some ''Working notes''" "section_name [] = None"
  by code_simp+

definition shown_plan :: "string \<Rightarrow> string" where
  "shown_plan p = (if strip p = [] then ''_(empty)_'' else strip p)"

lemma placeholder_trimmed: "trimmed ''_(empty)_''"
  by (simp add: trimmed_def is_space_def)

lemma shown_plan_trimmed [simp]: "trimmed (shown_plan p)" "shown_plan p \<noteq> []"
  by (simp_all add: shown_plan_def placeholder_trimmed)
lemma rstrip_lines:
  assumes "trimmed t" and "t \<noteq> []" and "list_all is_space u"
  shows "rstrip (s @ t @ u) = s @ t"
  using rstrip_spaces [OF assms(3), of "s @ t"] rstrip_append [of t s] trimmed_rstrip [OF assms(1)] assms(2) by simp

lemma notes_header_trimmed: "trimmed ''## Working notes''"
  by (simp add: trimmed_def is_space_def)

lemma render_sections_eq:
  "render_sections p n = join_text newline ([''## Plan''] @ nl_lines (shown_plan p) @ ['''', ''## Working notes''] @
     (if strip n = [] then [] else nl_lines (strip n)) @ [''''])"
proof -
  obtain a b where h: "a = ''## Plan''" "b = ''## Working notes''" "trimmed b" "b \<noteq> []" using notes_header_trimmed by blast
  let ?s = "a @ newline @ shown_plan p @ newline @ newline"
  have nl: "list_all is_space newline" "list_all is_space (newline @ newline)" by simp_all
  have "rstrip (join_text newline [a, shown_plan p, '''', b, strip n, '''']) @ newline =
      join_text newline ([a] @ nl_lines (shown_plan p) @ ['''', b] @ (if strip n = [] then [] else nl_lines (strip n)) @ [''''])"
  proof (cases "strip n = []")
    case True
    with rstrip_lines [OF h(3,4) nl(2), of ?s] show ?thesis by (simp add: join_text_Cons join_text_append)
  next
    case False
    with rstrip_lines [OF trimmed_strip False nl(1), of "?s @ b @ newline"] show ?thesis
      by (simp add: join_text_Cons join_text_append)
  qed
  then show ?thesis unfolding render_sections_def shown_plan_def [symmetric] h(1,2) .
qed

lemma nl_lines_join: "ls \<noteq> [] \<Longrightarrow> list_all (\<lambda>l. CHR 0x0A \<notin> set l) ls \<Longrightarrow> nl_lines (join_text newline ls) = ls"
proof (induction ls rule: induct_list012)
  case (3 x y zs)
  then show ?case using nl_lines_append_newline [of x "join_text newline (y # zs)"] by (simp add: nl_lines_single)
qed (simp_all add: nl_lines_single)

lemma nl_lines_no_newline [simp]: "list_all (\<lambda>l. CHR 0x0A \<notin> set l) (nl_lines s)"
  by (auto simp: list_all_iff dest: nl_lines_mem)

lemma block_text_nl:
  assumes "trimmed s" and "s \<noteq> []"
  shows "block_text (nl_lines s @ ['''']) = s"
  using strip_between [OF assms newline_spaces] by (simp add: block_text_def join_text_append)

lemma parse_render:
  assumes "plain_text (shown_plan p)" and "plain_text (strip n)"
  shows "parse_sections (render_sections p n) = \<lparr>sec_plan = shown_plan p, sec_notes = strip n, sec_preamble = []\<rparr>"
proof -
  let ?P = "nl_lines (shown_plan p)" and ?N = "if strip n = [] then [] else nl_lines (strip n)"
  let ?ls = "''## Plan'' # (?P @ ['''']) @ ''## Working notes'' # (?N @ [''''])"
  have plain: "list_all (\<lambda>l. section_name l = None) (?P @ [''''])" "list_all (\<lambda>l. section_name l = None) (?N @ [''''])"
    using assms by (auto simp: plain_text_def)
  have lines: "nl_lines (render_sections p n) = ?ls"
    unfolding render_sections_eq by (subst nl_lines_join) simp_all
  have ns: "block_text (?N @ ['''']) = strip n"
    using block_text_nl [OF trimmed_strip, of n] strip_spaces [of "[]"] by (simp add: block_text_def)
  have blocks: "section_blocks ?ls = [(''Plan'', ?P @ ['''']), (''Working notes'', ?N @ [''''])]"
    using section_blocks_plain [OF plain(2), of "[]"] takeWhile_all_plain [OF plain(2)]
    by (simp del: append_assoc append_Cons add: section_blocks_plain [OF plain(1)] takeWhile_plain [OF plain(1) header_names(2)])
  have pre: "block_text (takeWhile (\<lambda>l. section_name l = None) ?ls) = []" by (simp add: block_text_def strip_def)
  show ?thesis unfolding parse_sections_def lines Let_def blocks pre
    using ns by (simp add: store_section_def block_text_nl)
qed

text \<open>the body of a ticket reads back. Rendering a plan and working notes and reading the document gives the two
  texts back without white space around them, as long as neither holds a line that looks like a section
  heading once stripped; an empty plan comes back as the placeholder that is written for it.
\<close>

theorem sections_roundtrip:
  assumes "plain_text (shown_plan p)" and "plain_text (strip n)"
  shows "parse_sections (render_sections p n) = \<lparr>sec_plan = shown_plan p, sec_notes = strip n, sec_preamble = []\<rparr>"
  using assms by (rule parse_render)

theorem sections_roundtrip_witness:
  "parse_sections (render_sections '' do it '' ''done'') = \<lparr>sec_plan = ''do it'', sec_notes = ''done'', sec_preamble = []\<rparr>"
proof -
  have "plain_text (shown_plan '' do it '')" "plain_text (strip ''done'')" "shown_plan '' do it '' = ''do it''" "strip ''done'' = ''done''"
    by code_simp+
  with sections_roundtrip [of "'' do it ''" "''done''"] show ?thesis by simp
qed

lemma append_section_exact:
  assumes "append_section file ''Working notes'' text = Inr out"
    and "s = (case file of None \<Rightarrow> \<lparr>sec_plan = [], sec_notes = [], sec_preamble = []\<rparr> | Some t \<Rightarrow> parse_sections t)"
    and "plain_text (shown_plan (sec_plan s))" and "plain_text (append_to (sec_notes s) text)"
  shows "parse_sections out = \<lparr>sec_plan = shown_plan (sec_plan s), sec_notes = append_to (sec_notes s) text, sec_preamble = []\<rparr>"
proof -
  have out: "out = render_sections (sec_plan s) (append_to (sec_notes s) text)"
    using assms(1) by (simp add: append_section_def assms(2) [symmetric] Let_def)
  have "strip (append_to (sec_notes s) text) = append_to (sec_notes s) text" by (simp add: append_to_def)
  with parse_render [OF assms(3), of "append_to (sec_notes s) text"] assms(4) show ?thesis by (simp add: out)
qed

section \<open>Reading back the front matter\<close>

lemma starts_with_Nil [simp]: "starts_with [] s"
  by (simp add: starts_with_def)

lemma starts_with_Cons [simp]: "starts_with (c # p) s \<longleftrightarrow> (\<exists>t. s = c # t \<and> starts_with p t)"
  by (cases s) (auto simp: starts_with_def)

lemma split_once_marker:
  assumes "split_once (newline @ ''---'') y = None"
  shows "split_once (newline @ ''---'') (y @ newline @ ''---'' @ rest) = Some (y, rest)"
  using assms
proof (induction y)
  case (Cons c y)
  then have rec: "split_once (newline @ ''---'') (y @ newline @ ''---'' @ rest) = Some (y, rest)"
    and here: "\<not> starts_with (newline @ ''---'') (c # y)" by (auto split: if_splits)
  have "\<not> starts_with (newline @ ''---'') ((c # y) @ newline @ ''---'' @ rest)"
    using here by (cases y rule: remdups_adj.cases; cases "tl (tl y)") (auto simp: newline_def)
  with rec show ?case by simp
qed (simp add: newline_def)

lemma render_frontmatter_split:
  assumes "split_once (newline @ ''---'') (strip (dump (frontmatter_yaml f))) = None"
  shows "split_frontmatter (render_frontmatter dump f @ body) = (Some (strip (dump (frontmatter_yaml f))), body, False)"
proof -
  let ?y = "strip (dump (frontmatter_yaml f))"
  have "drop 4 (render_frontmatter dump f @ body) = ?y @ newline @ ''---'' @ (newline @ body)"
    by (simp add: render_frontmatter_def newline_def)
  moreover have "starts_with (''---'' @ newline) (render_frontmatter dump f @ body)"
    by (simp add: render_frontmatter_def newline_def)
  ultimately show ?thesis
    by (simp only: split_frontmatter_def split_once_marker [OF assms] option.case prod.case not_True_eq_False if_False)
      (simp add: newline_def)
qed

definition field_ok :: "string option \<Rightarrow> bool" where
  "field_ok v \<longleftrightarrow> (case v of None \<Rightarrow> True | Some s \<Rightarrow> trimmed s \<and> s \<noteq> [])"

definition complete_frontmatter :: "frontmatter \<Rightarrow> bool" where
  "complete_frontmatter f \<longleftrightarrow> fm_title f \<noteq> None \<and> fm_harness f \<noteq> None \<and> fm_model f \<noteq> None \<and> field_ok (fm_title f) \<and>
     field_ok (fm_harness f) \<and> field_ok (fm_model f) \<and> field_ok (fm_worktree f) \<and> field_ok (fm_parent f) \<and>
     list_all (\<lambda>d. trimmed d \<and> d \<noteq> []) (fm_deps f)"

text \<open>What YAML guarantees for one document: it loads what it dumped, and no line of the text is a document marker.\<close>

definition yaml_faithful :: "(string \<Rightarrow> yaml_result) \<Rightarrow> (yaml \<Rightarrow> string) \<Rightarrow> yaml \<Rightarrow> bool" where
  "yaml_faithful load dump v \<longleftrightarrow> load (strip (dump v)) = YValue v \<and> split_once (newline @ ''---'') (strip (dump v)) = None"

lemma optional_string_field_opt: "field_ok v \<Longrightarrow> optional_string_field name (yaml_opt v) = (v, [])"
  by (cases v) (auto simp: field_ok_def optional_string_field_def yaml_opt_def blank_to_none_trimmed)

lemma optional_non_empty_opt: "field_ok v \<Longrightarrow> optional_non_empty (yaml_opt v) = v"
  by (cases v) (auto simp: field_ok_def optional_non_empty_def yaml_opt_def blank_to_none_trimmed)

lemma coerce_texts: "list_all (\<lambda>d. trimmed d \<and> d \<noteq> []) ds \<Longrightarrow> coerce_str_list name (YSeq (map YText ds)) = (ds, [])"
proof -
  assume "list_all (\<lambda>d. trimmed d \<and> d \<noteq> []) ds"
  then have "filter (\<lambda>s. s \<noteq> []) (map (strip \<circ> the \<circ> yaml_text) (map YText ds)) = ds"
    by (induction ds) (auto simp: strip_trimmed yaml_text_def)
  moreover have "list_all (\<lambda>v. yaml_text v \<noteq> None) (map YText ds)" by (simp add: list_all_iff yaml_text_def)
  ultimately show ?thesis by (simp add: coerce_str_list_def)
qed

lemma join_text_Nil [simp]: "join_text sep [] = []"
  by simp

lemma frontmatter_fields:
  assumes "fs = normalize_aliases (yaml_dict [(''title'', t), (''deps'', d), (''harness'', h), (''model'', m), (''worktree'', w), (''parent'', p)])"
  shows "yaml_get fs ''title'' = t" "yaml_get fs ''deps'' = d" "yaml_get fs ''harness'' = h" "yaml_get fs ''model'' = m"
    "yaml_get fs ''worktree'' = w" "yaml_get fs ''parent'' = p" "filter (\<lambda>(k, v). \<not> List.member canonical_keys k) fs = []"
  unfolding assms by (simp_all add: yaml_dict_def normalize_aliases_def alias_of_def yaml_get_def canonical_keys_def)

lemma parse_rendered_ticket:
  assumes "complete_frontmatter f" and "yaml_faithful load dump (frontmatter_yaml f)"
  shows "parse_ticket load (render_frontmatter dump f @ body) default_title =
    \<lparr>pt_title = fm_title f, pt_deps = fm_deps f, pt_harness = fm_harness f, pt_model = fm_model f, pt_worktree = fm_worktree f,
     pt_parent = fm_parent f, pt_body = body, pt_checklist = parse_checklist body, pt_extras = [], pt_error = None\<rparr>"
proof -
  obtain t h m where f: "fm_title f = Some t" "fm_harness f = Some h" "fm_model f = Some m"
    using assms(1) by (auto simp: complete_frontmatter_def)
  note front = render_frontmatter_split [of dump f, OF conjunct2 [OF assms(2) [unfolded yaml_faithful_def]], of body]
  note loads = conjunct1 [OF assms(2) [unfolded yaml_faithful_def]]
  define fs where "fs = normalize_aliases (yaml_dict [(''title'', yaml_opt (fm_title f)), (''deps'', YSeq (map YText (fm_deps f))),
     (''harness'', yaml_opt (fm_harness f)), (''model'', yaml_opt (fm_model f)), (''worktree'', yaml_opt (fm_worktree f)),
     (''parent'', yaml_opt (fm_parent f))])"
  note got = frontmatter_fields [OF fs_def]
  have read: "read_frontmatter load (Some (strip (dump (frontmatter_yaml f)))) False =
      Inr (yaml_dict [(''title'', yaml_opt (fm_title f)), (''deps'', YSeq (map YText (fm_deps f))), (''harness'', yaml_opt (fm_harness f)),
        (''model'', yaml_opt (fm_model f)), (''worktree'', yaml_opt (fm_worktree f)), (''parent'', yaml_opt (fm_parent f))], [])"
    by (simp add: read_frontmatter_def loads) (simp add: frontmatter_yaml_def yaml_true_def)
  have ok: "field_ok (fm_title f)" "field_ok (fm_harness f)" "field_ok (fm_model f)" "field_ok (fm_worktree f)" "field_ok (fm_parent f)"
    "list_all (\<lambda>d. trimmed d \<and> d \<noteq> []) (fm_deps f)"
    using assms(1) by (auto simp: complete_frontmatter_def)
  have title: "ticket_title_of fs True body default_title = fm_title f"
    unfolding ticket_title_of_def got optional_non_empty_opt [OF ok(1)] by (simp add: f(1))
  show ?thesis
    unfolding parse_ticket_def front prod.case read sum.case Let_def fs_def [symmetric] got coerce_texts [OF ok(6)]
      optional_string_field_opt [OF ok(2)] optional_string_field_opt [OF ok(3)] optional_string_field_opt [OF ok(4)]
      optional_string_field_opt [OF ok(5)]
    by (simp add: title f blank_to_none_def)
qed

end
