(* ===== verification/TicketSync.thy ===== *)
theory TicketSync
  imports TicketDocs
begin

text \<open>
  The synchronisation of ticket documents with the tables, \<open>murder/work/tickets/sync.py\<close>. The directory
  \<open>.murder/tickets\<close> is the list of its \<open>.md\<close> files, each by its stem, with its text. \<open>sha\<close> is the content
  hash. One transaction either returns the new tables or an error without them; files are written
  atomically and outside of it.
\<close>

type_synonym files = "(string \<times> string) list"

section \<open>Paths and hashes\<close>

definition is_upper_lower_digit :: "char \<Rightarrow> bool" where
  "is_upper_lower_digit c \<longleftrightarrow> (let n = (of_char c :: nat) in (48 \<le> n \<and> n \<le> 57) \<or> (65 \<le> n \<and> n \<le> 90) \<or> (97 \<le> n \<and> n \<le> 122))"

definition is_decimal :: "char \<Rightarrow> bool" where
  "is_decimal c \<longleftrightarrow> (let n = (of_char c :: nat) in 48 \<le> n \<and> n \<le> 57)"

text \<open>\<open>^(?=.*\d)[A-Za-z0-9][A-Za-z0-9_-]*$\<close>\<close>

definition ticket_id_ok :: "string \<Rightarrow> bool" where
  "ticket_id_ok tid \<longleftrightarrow> tid \<noteq> [] \<and> is_upper_lower_digit (hd tid) \<and>
     list_all (\<lambda>c. is_upper_lower_digit c \<or> c = CHR ''_'' \<or> c = CHR ''-'') tid \<and> list_ex is_decimal tid"

definition md_path :: "string \<Rightarrow> string" where
  "md_path tid = ''.murder/tickets/'' @ tid @ ''.md''"

definition scan_paths :: "files \<Rightarrow> string list" where
  "scan_paths files = sort_key (\<lambda>stem. stem @ ''.md'') (map fst files)"

section \<open>From a row to its document\<close>

definition item_line :: "string \<times> bool \<Rightarrow> string" where
  "item_line = (\<lambda>(words, finished). (if finished then ''[x] '' else ''[ ] '') @ words)"

definition stored_deps :: "string \<Rightarrow> string \<Rightarrow> 'z ticket_db_scheme \<Rightarrow> string list" where
  "stored_deps repo tid db = sort (map dep_on (filter (\<lambda>d. dep_repository d = repo \<and> dep_ticket d = tid) (dep_rows db)))"

definition stored_items :: "string \<Rightarrow> string \<Rightarrow> 'z ticket_db_scheme \<Rightarrow> checklist_row list" where
  "stored_items repo tid db = sort_key item_ord (sort_key item_id (filter (items_of repo tid) (checklist_rows db)))"

definition item_content :: "checklist_row \<Rightarrow> string \<times> bool" where
  "item_content i = (item_text i, item_done i)"

definition row_frontmatter :: "string \<Rightarrow> ticket_row \<Rightarrow> 'z ticket_db_scheme \<Rightarrow> frontmatter" where
  "row_frontmatter repo r db = \<lparr>fm_title = Some (ticket_title r), fm_deps = stored_deps repo (ticket_key_id r) db,
     fm_harness = ticket_harness r, fm_model = ticket_model r, fm_worktree = ticket_worktree r, fm_parent = ticket_parent r\<rparr>"

definition render_items :: "(string \<times> bool) list \<Rightarrow> string" where
  "render_items items = rstrip (join_text newline (''# Checklist'' # map item_line items)) @ newline"

definition render_row :: "(yaml \<Rightarrow> string) \<Rightarrow> string \<Rightarrow> ticket_row \<Rightarrow> 'z ticket_db_scheme \<Rightarrow> string" where
  "render_row dump repo r db = render_frontmatter dump (row_frontmatter repo r db) @
     render_items (map item_content (stored_items repo (ticket_key_id r) db))"

definition set_sync :: "string \<Rightarrow> string option \<Rightarrow> string option \<Rightarrow> string option \<Rightarrow> string option \<Rightarrow> sync_columns \<Rightarrow> sync_columns" where
  "set_sync state file_hash meta_hash path parse_error c =
     (let c = c\<lparr>sync_state := state\<rparr>;
          c = (case file_hash of None \<Rightarrow> c | Some h \<Rightarrow> c\<lparr>metadata_file_hash := Some h\<rparr>);
          c = (case meta_hash of None \<Rightarrow> c | Some h \<Rightarrow> c\<lparr>metadata_hash := Some h\<rparr>);
          c = (case path of None \<Rightarrow> c | Some p \<Rightarrow> c\<lparr>materialized_path := Some p\<rparr>)
      in if state = ''synced''
         then c\<lparr>sync_parse_error := None, conflict_reason := None, last_materialized_hash := file_hash\<rparr>
         else c\<lparr>sync_parse_error := parse_error\<rparr>)"

definition mark_sync_state :: "string \<Rightarrow> string \<Rightarrow> string \<Rightarrow> string option \<Rightarrow> string option \<Rightarrow> string option \<Rightarrow> string option \<Rightarrow> time \<Rightarrow>
    'z ticket_db_scheme \<Rightarrow> 'z ticket_db_scheme" where
  "mark_sync_state repo tid state file_hash meta_hash path parse_error now =
     update_ticket repo tid (\<lambda>r. r\<lparr>ticket_sync := set_sync state file_hash meta_hash path parse_error (ticket_sync r),
       ticket_updated_at := iso_seconds now\<rparr>)"

definition materialize_row :: "(yaml \<Rightarrow> string) \<Rightarrow> (string \<Rightarrow> string) \<Rightarrow> string \<Rightarrow> time \<Rightarrow> ticket_row \<Rightarrow>
    files \<times> 'z ticket_db_scheme \<Rightarrow> files \<times> 'z ticket_db_scheme" where
  "materialize_row dump sha repo now r = (\<lambda>(files, db).
     let tid = ticket_key_id r; body = render_row dump repo r db; h = sha body in
     (AList.update tid body files, mark_sync_state repo tid ''synced'' (Some h) (Some h) (Some (md_path tid)) None now db))"

definition materialize_missing_md :: "(yaml \<Rightarrow> string) \<Rightarrow> (string \<Rightarrow> string) \<Rightarrow> string \<Rightarrow> time \<Rightarrow>
    files \<times> 'z ticket_db_scheme \<Rightarrow> files \<times> 'z ticket_db_scheme" where
  "materialize_missing_md dump sha repo now w =
     fold (\<lambda>r w. if ticket_id_ok (ticket_key_id r) \<and> map_of (fst w) (ticket_key_id r) = None
         then materialize_row dump sha repo now r w else w)
       (sort_key ticket_key_id (filter (\<lambda>r. ticket_repository r = repo) (ticket_rows (snd w)))) w"

section \<open>From a document to the tables\<close>

definition insert_ticket_from_parsed :: "string \<Rightarrow> string \<Rightarrow> parsed_ticket \<Rightarrow> time \<Rightarrow> 'z ticket_db_scheme \<Rightarrow> exn + 'z ticket_db_scheme" where
  "insert_ticket_from_parsed repo tid p now =
     insert_ticket_row \<lparr>ticket_repository = repo, ticket_key_id = tid,
       ticket_title = (case pt_title p of None \<Rightarrow> tid | Some t \<Rightarrow> if t = [] then tid else t),
       ticket_state = TkPlanned, ticket_harness = pt_harness p, ticket_model = pt_model p, ticket_worktree = pt_worktree p,
       ticket_schedule_at = None, ticket_parent = pt_parent p, ticket_sync = new_sync, ticket_attempts = 0, ticket_last_error = None,
       ticket_created_at = iso_seconds now, ticket_updated_at = iso_seconds now\<rparr>"

definition parsed_fields :: "string \<Rightarrow> parsed_ticket \<Rightarrow> ticket_row \<Rightarrow> ticket_row" where
  "parsed_fields tid p r = r\<lparr>ticket_title := (case pt_title p of None \<Rightarrow> tid | Some t \<Rightarrow> if t = [] then tid else t),
     ticket_harness := pt_harness p, ticket_model := pt_model p, ticket_worktree := pt_worktree p, ticket_parent := pt_parent p\<rparr>"

definition update_ticket_from_parsed :: "string \<Rightarrow> string \<Rightarrow> parsed_ticket \<Rightarrow> time \<Rightarrow> 'z ticket_db_scheme \<Rightarrow> exn + 'z ticket_db_scheme" where
  "update_ticket_from_parsed repo tid p now db =
     (if (case pt_parent p of None \<Rightarrow> False | Some u \<Rightarrow> find_ticket repo u db = None) then Inl IntegrityError
      else Inr (update_ticket repo tid (\<lambda>r. (parsed_fields tid p r)\<lparr>ticket_updated_at := iso_seconds now\<rparr>) db))"

text \<open>\<open>INSERT OR IGNORE\<close>: a duplicate and a ticket that depends on itself are skipped, a dangling reference raises.\<close>

definition insert_dep_or_ignore :: "string \<Rightarrow> string \<Rightarrow> string \<Rightarrow> 'z ticket_db_scheme \<Rightarrow> exn + 'z ticket_db_scheme" where
  "insert_dep_or_ignore repo tid dep db =
     (let r = \<lparr>dep_repository = repo, dep_ticket = tid, dep_on = dep\<rparr> in
      if tid = dep \<or> List.member (dep_rows db) r then Inr db
      else if find_ticket repo tid db = None \<or> find_ticket repo dep db = None then Inl IntegrityError
      else Inr (db\<lparr>dep_rows := dep_rows db @ [r]\<rparr>))"

definition replace_deps :: "string \<Rightarrow> string \<Rightarrow> string list \<Rightarrow> 'z ticket_db_scheme \<Rightarrow> exn + 'z ticket_db_scheme" where
  "replace_deps repo tid deps db = foldE (insert_dep_or_ignore repo tid) deps
     (db\<lparr>dep_rows := delete_where (\<lambda>d. dep_repository d = repo \<and> dep_ticket d = tid) (dep_rows db)\<rparr>)"

definition done_at_for :: "bool \<Rightarrow> checklist_row option \<Rightarrow> time \<Rightarrow> string option" where
  "done_at_for finished existing now =
     (if \<not> finished then None
      else case (case existing of None \<Rightarrow> None | Some i \<Rightarrow> item_done_at i) of
        Some t \<Rightarrow> if t = [] then Some (iso_seconds now) else Some t
      | None \<Rightarrow> Some (iso_seconds now))"

text \<open>
  The stored items of a ticket by text, each text a queue: an item of the document takes the first stored
  item of its text that is left, or a new row.
\<close>

fun sync_items :: "string \<Rightarrow> string \<Rightarrow> time \<Rightarrow> int \<Rightarrow> (string \<times> bool) list \<Rightarrow> checklist_row list \<Rightarrow> nat list \<Rightarrow>
    'z ticket_db_scheme \<Rightarrow> exn + nat list \<times> 'z ticket_db_scheme" where
  "sync_items repo tid now n [] pool kept db = Inr (kept, db)"
| "sync_items repo tid now n ((words, finished) # items) pool kept db =
     (case find (\<lambda>i. item_text i = words) pool of
        None \<Rightarrow>
          if find_ticket repo tid db = None then Inl IntegrityError
          else sync_items repo tid now (n + 1) items pool (kept @ [next_item db])
            (db\<lparr>checklist_rows := checklist_rows db @ [\<lparr>item_id = next_item db, item_repository = repo, item_ticket = tid,
                item_ord = n, item_text = words, item_done = finished, item_done_at = done_at_for finished None now\<rparr>],
              next_item := Suc (next_item db)\<rparr>)
      | Some e \<Rightarrow>
          sync_items repo tid now (n + 1) items (remove1 e pool) (kept @ [item_id e])
            (db\<lparr>checklist_rows := update_where (\<lambda>i. item_repository i = repo \<and> item_id i = item_id e)
                (\<lambda>i. i\<lparr>item_ord := n, item_text := words, item_done := finished, item_done_at := done_at_for finished (Some e) now\<rparr>)
                (checklist_rows db)\<rparr>))"

definition sync_checklist :: "string \<Rightarrow> string \<Rightarrow> (string \<times> bool) list \<Rightarrow> time \<Rightarrow> 'z ticket_db_scheme \<Rightarrow> exn + 'z ticket_db_scheme" where
  "sync_checklist repo tid items now db =
     bindE (sync_items repo tid now 0 items (stored_items repo tid db) [] db) (\<lambda>(kept, db).
     Inr (db\<lparr>checklist_rows := delete_where (\<lambda>i. items_of repo tid i \<and> \<not> List.member kept (item_id i)) (checklist_rows db)\<rparr>))"

definition ingest :: "(yaml \<Rightarrow> string) \<Rightarrow> (string \<Rightarrow> string) \<Rightarrow> string \<Rightarrow> string \<Rightarrow> parsed_ticket \<Rightarrow> string \<Rightarrow> time \<Rightarrow>
    'z ticket_db_scheme \<Rightarrow> exn + 'z ticket_db_scheme" where
  "ingest dump sha repo tid p file_hash now db =
     bindE (if find_ticket repo tid db \<noteq> None then update_ticket_from_parsed repo tid p now db
            else insert_ticket_from_parsed repo tid p now db) (\<lambda>db.
     bindE (replace_deps repo tid (pt_deps p) db) (\<lambda>db.
     bindE (sync_checklist repo tid (pt_checklist p) now db) (\<lambda>db.
     bindE (invalidate_ticket_schedule repo tid ''markdown'' now db) (\<lambda>db.
     Inr (mark_sync_state repo tid ''synced'' (Some file_hash) (Some (sha (render_frontmatter dump (frontmatter_of p) @ pt_body p)))
       (Some (md_path tid)) None now db)))))"

definition already_synced :: "string \<Rightarrow> string \<Rightarrow> string \<Rightarrow> 'z ticket_db_scheme \<Rightarrow> bool" where
  "already_synced repo tid file_hash db \<longleftrightarrow> (case find_ticket repo tid db of None \<Rightarrow> False
     | Some r \<Rightarrow> metadata_file_hash (ticket_sync r) = Some file_hash \<and> sync_state (ticket_sync r) = ''synced'')"

text \<open>The answer is the parse error of the document, if there is one.\<close>

definition reconcile_path :: "(string \<Rightarrow> yaml_result) \<Rightarrow> (yaml \<Rightarrow> string) \<Rightarrow> (string \<Rightarrow> string) \<Rightarrow> string \<Rightarrow> time \<Rightarrow> string \<Rightarrow>
    files \<times> 'z ticket_db_scheme \<Rightarrow> exn + string option \<times> files \<times> 'z ticket_db_scheme" where
  "reconcile_path load dump sha repo now tid = (\<lambda>(files, db).
     if \<not> ticket_id_ok tid then Inr (None, files, db)
     else case map_of files tid of
       None \<Rightarrow> Inr (None, case find_ticket repo tid db of None \<Rightarrow> (files, db) | Some r \<Rightarrow> materialize_row dump sha repo now r (files, db))
     | Some raw \<Rightarrow>
       if already_synced repo tid (sha raw) db then Inr (None, files, db)
       else let p = parse_ticket load raw (Some tid) in
         (case pt_error p of
            Some why \<Rightarrow> Inr (Some why, files,
              if find_ticket repo tid db \<noteq> None then mark_sync_state repo tid ''parse_error'' (Some (sha raw)) None None (Some why) now db else db)
          | None \<Rightarrow> bindE (ingest dump sha repo tid p (sha raw) now db) (\<lambda>db. Inr (None, files, db))))"

fun reconcile_paths :: "(string \<Rightarrow> yaml_result) \<Rightarrow> (yaml \<Rightarrow> string) \<Rightarrow> (string \<Rightarrow> string) \<Rightarrow> string \<Rightarrow> time \<Rightarrow> string list \<Rightarrow>
    files \<times> 'z ticket_db_scheme \<Rightarrow> (exn + unit) \<times> files \<times> 'z ticket_db_scheme" where
  "reconcile_paths load dump sha repo now [] w = (Inr (), w)"
| "reconcile_paths load dump sha repo now (tid # tids) w =
     (case reconcile_path load dump sha repo now tid w of
        Inl e \<Rightarrow> (Inl e, w) | Inr (_, w') \<Rightarrow> reconcile_paths load dump sha repo now tids w')"

definition reconcile_all :: "(string \<Rightarrow> yaml_result) \<Rightarrow> (yaml \<Rightarrow> string) \<Rightarrow> (string \<Rightarrow> string) \<Rightarrow> string \<Rightarrow> time \<Rightarrow>
    files \<times> 'z ticket_db_scheme \<Rightarrow> (exn + unit) \<times> files \<times> 'z ticket_db_scheme" where
  "reconcile_all load dump sha repo now w =
     (let w = materialize_missing_md dump sha repo now w in reconcile_paths load dump sha repo now (scan_paths (fst w)) w)"

section \<open>The checklist of a document reads back\<close>

definition item_clean :: "string \<times> bool \<Rightarrow> bool" where
  "item_clean i \<longleftrightarrow> trimmed (fst i) \<and> fst i \<noteq> [] \<and> (\<forall>c \<in> set (fst i). \<not> line_break c)"

lemma item_line_facts:
  assumes "item_clean i"
  shows "trimmed (item_line i)" and "item_line i \<noteq> []" and "\<forall>c \<in> set (item_line i). \<not> line_break c"
    and "\<not> level_one_header (item_line i)" and "\<not> checklist_header (item_line i)" and "checklist_item (item_line i) = Some i"
proof -
  obtain w b where i: "i = (w, b)" by (cases i)
  from assms have w: "trimmed w" "w \<noteq> []" "\<forall>c \<in> set w. \<not> line_break c" by (auto simp: item_clean_def i)
  show "trimmed (item_line i)" using w by (auto simp: item_line_def i trimmed_def is_space_def)
  show "item_line i \<noteq> []" "\<not> level_one_header (item_line i)" "\<not> checklist_header (item_line i)"
    by (auto simp: item_line_def i level_one_header_def checklist_header_def)
  show "\<forall>c \<in> set (item_line i). \<not> line_break c" using w(3) by (auto simp: item_line_def i line_break_def)
  have sp: "strip (CHR '' '' # w) = w"
    using strip_trimmed [OF w(1)] by (simp add: strip_def is_space_def)
  show "checklist_item (item_line i) = Some i"
    using w(2) by (auto simp: item_line_def i checklist_item_def sp is_space_def eval_nat_numeral)
qed

lemma checklist_items_lines: "list_all item_clean items \<Longrightarrow> checklist_items (map item_line items) = items"
  by (induction items) (auto simp: item_line_facts strip_trimmed)

lemma checklist_title: "trimmed ''# Checklist''" "checklist_header ''# Checklist''"
  "\<forall>c \<in> set ''# Checklist''. \<not> line_break c"
  by (simp_all add: trimmed_def is_space_def checklist_header_def line_break_def)

lemma render_items_eq:
  assumes "list_all item_clean items"
  shows "render_items items = join_text newline (''# Checklist'' # map item_line items) @ newline"
proof -
  obtain h where h: "h = ''# Checklist''" "trimmed h" "h \<noteq> []" using checklist_title(1) by blast
  have "rstrip (join_text newline (h # map item_line items)) = join_text newline (h # map item_line items)"
  proof (cases items rule: rev_cases)
    case Nil
    then show ?thesis by (simp add: trimmed_rstrip h(2))
  next
    case (snoc js i)
    with assms have i: "item_clean i" by simp
    have "join_text newline ((h # map item_line js) @ [item_line i]) = join_text newline (h # map item_line js) @ newline @ item_line i"
      by (subst join_text_append) simp_all
    with rstrip_lines [OF item_line_facts(1,2) [OF i], of "[]" "join_text newline (h # map item_line js) @ newline"]
    show ?thesis by (simp add: snoc)
  qed
  then show ?thesis unfolding render_items_def h(1) by simp
qed

lemma parse_render_items:
  assumes "list_all item_clean items"
  shows "parse_checklist (render_items items) = items"
proof -
  obtain h where h: "h = ''# Checklist''" "checklist_header (strip h)" "\<forall>c \<in> set h. \<not> line_break c"
    using checklist_title strip_trimmed [OF checklist_title(1)] by metis
  have "render_items items = join_text newline ((h # map item_line items) @ [''''])"
    unfolding render_items_eq [OF assms] h(1) by (subst join_text_append) simp_all
  moreover have "\<forall>l \<in> set ((h # map item_line items) @ ['''']). \<forall>c \<in> set l. \<not> line_break c"
    using assms item_line_facts(3) h(3) by (fastforce simp: list_all_iff)
  ultimately have "split_lines (render_items items) = h # map item_line items"
    using split_join_lines [of "(h # map item_line items) @ ['''']"] by simp
  then show ?thesis by (simp add: parse_checklist_def h(2) checklist_items_lines [OF assms])
qed

definition renderable :: "string \<Rightarrow> ticket_row \<Rightarrow> 'z ticket_db_scheme \<Rightarrow> bool" where
  "renderable repo r db \<longleftrightarrow> complete_frontmatter (row_frontmatter repo r db) \<and>
     list_all (item_clean \<circ> item_content) (stored_items repo (ticket_key_id r) db)"

lemma parse_rendered_row:
  assumes "renderable repo r db" and "yaml_faithful load dump (frontmatter_yaml (row_frontmatter repo r db))"
  shows "parse_ticket load (render_row dump repo r db) default_title =
    \<lparr>pt_title = Some (ticket_title r), pt_deps = stored_deps repo (ticket_key_id r) db, pt_harness = ticket_harness r,
     pt_model = ticket_model r, pt_worktree = ticket_worktree r, pt_parent = ticket_parent r,
     pt_body = render_items (map item_content (stored_items repo (ticket_key_id r) db)),
     pt_checklist = map item_content (stored_items repo (ticket_key_id r) db), pt_extras = [], pt_error = None\<rparr>"
proof -
  have "list_all item_clean (map item_content (stored_items repo (ticket_key_id r) db))"
    using assms(1) by (simp add: renderable_def list_all_iff)
  from parse_render_items [OF this] parse_rendered_ticket [OF _ assms(2)] assms(1) show ?thesis
    unfolding render_row_def by (simp add: renderable_def row_frontmatter_def)
qed

section \<open>The items a document assigns\<close>

text \<open>The rows of the checklist once a document was read, without the table: what \<open>sync_items\<close> has to reach.\<close>

fun assigned :: "string \<Rightarrow> string \<Rightarrow> time \<Rightarrow> int \<Rightarrow> (string \<times> bool) list \<Rightarrow> checklist_row list \<Rightarrow> nat \<Rightarrow> checklist_row list" where
  "assigned repo tid now n [] pool next_id = []"
| "assigned repo tid now n ((words, finished) # items) pool next_id =
     (case find (\<lambda>i. item_text i = words) pool of
        None \<Rightarrow> \<lparr>item_id = next_id, item_repository = repo, item_ticket = tid, item_ord = n, item_text = words,
            item_done = finished, item_done_at = done_at_for finished None now\<rparr>
          # assigned repo tid now (n + 1) items pool (Suc next_id)
      | Some e \<Rightarrow> e\<lparr>item_ord := n, item_text := words, item_done := finished, item_done_at := done_at_for finished (Some e) now\<rparr>
          # assigned repo tid now (n + 1) items (remove1 e pool) next_id)"

lemma assigned_content: "map item_content (assigned repo tid now n items pool next_id) = items"
  by (induction repo tid now n items pool next_id rule: assigned.induct) (auto simp: item_content_def split: option.splits)

lemma assigned_ords: "map item_ord (assigned repo tid now n items pool next_id) = map (\<lambda>k. n + int k) [0..<length items]"
proof (induction repo tid now n items pool next_id rule: assigned.induct)
  case (2 repo tid now n words finished items pool next_id)
  have up: "map (\<lambda>k. n + int k) [0..<Suc m] = n # map (\<lambda>k. n + 1 + int k) [0..<m]" for m
    by (simp add: map_upt_Suc del: upt_Suc)
  from 2 show ?case by (auto simp: up simp del: upt_Suc split: option.splits)
qed simp

lemma assigned_ids:
  assumes "\<forall>i \<in> set pool. item_id i < next_id" and "distinct (map item_id pool)"
  shows "distinct (map item_id (assigned repo tid now n items pool next_id))"
    and "\<forall>r \<in> set (assigned repo tid now n items pool next_id). item_id r \<in> item_id ` set pool \<or> next_id \<le> item_id r"
proof -
  have "distinct (map item_id (assigned repo tid now n items pool next_id)) \<and>
    (\<forall>r \<in> set (assigned repo tid now n items pool next_id). item_id r \<in> item_id ` set pool \<or> next_id \<le> item_id r)"
    using assms
  proof (induction repo tid now n items pool next_id rule: assigned.induct)
    case (2 repo tid now n words finished items pool next_id)
    show ?case
    proof (cases "find (\<lambda>i. item_text i = words) pool")
      case None
      with 2(1) [OF None] 2(3,4) show ?thesis by (force simp: less_Suc_eq)
    next
      case (Some e)
      then have e: "e \<in> set pool" using find_Some_mem by fastforce
      have pool: "distinct pool" using 2(4) by (simp add: distinct_map)
      have rest: "\<forall>i \<in> set (remove1 e pool). item_id i < next_id" "distinct (map item_id (remove1 e pool))"
        using 2(3,4) by (auto simp: distinct_map inj_on_def dest: notin_set_remove1 [rotated] set_remove1_subset [THEN subsetD])
      have gone: "item_id e \<notin> item_id ` set (remove1 e pool)"
        using 2(4) e pool by (auto simp: distinct_map inj_on_def)
      have "item_id ` set (remove1 e pool) \<subseteq> item_id ` set pool" by (meson image_mono set_remove1_subset)
      with 2(2) [OF Some rest] 2(3) e gone Some show ?thesis by (fastforce simp: image_iff)
    qed
  qed simp
  then show "distinct (map item_id (assigned repo tid now n items pool next_id))"
    "\<forall>r \<in> set (assigned repo tid now n items pool next_id). item_id r \<in> item_id ` set pool \<or> next_id \<le> item_id r" by simp_all
qed

text \<open>Items keep their identity: the items of a text take the stored items of that text, in their order, while there are any.\<close>

lemma assigned_identity:
  "take (length (filter (\<lambda>i. item_text i = t) pool)) (map item_id (filter (\<lambda>i. item_text i = t) (assigned repo tid now n items pool next_id))) =
   take (length (filter (\<lambda>i. item_text i = t) (assigned repo tid now n items pool next_id))) (map item_id (filter (\<lambda>i. item_text i = t) pool))"
proof (induction repo tid now n items pool next_id rule: assigned.induct)
  case (2 repo tid now n words finished items pool next_id)
  show ?case
  proof (cases "find (\<lambda>i. item_text i = words) pool")
    case None
    then have "filter (\<lambda>i. item_text i = words) pool = []" by (simp add: find_eq_None filter_empty_conv)
    with 2(1) [OF None] None show ?thesis by (cases "t = words") auto
  next
    case (Some e)
    then have split: "filter (\<lambda>i. item_text i = words) pool = e # filter (\<lambda>i. item_text i = words) (remove1 e pool)"
    proof (induction pool)
      case (Cons i js)
      then show ?case by (cases "item_text i = words") (auto dest: find_Some_mem)
    qed simp
    have other: "t \<noteq> words \<Longrightarrow> filter (\<lambda>i. item_text i = t) (remove1 e pool) = filter (\<lambda>i. item_text i = t) pool"
      using find_Some_mem [OF Some] by (simp add: filter_remove1 remove1_idem)
    from 2(2) [OF Some] Some show ?thesis by (cases "t = words") (auto simp: split other)
  qed
qed simp

section \<open>What the synchronisation of a checklist does\<close>

definition items_inv :: "'z ticket_db_scheme \<Rightarrow> bool" where
  "items_inv db \<longleftrightarrow> distinct (map item_id (checklist_rows db)) \<and> (\<forall>i \<in> set (checklist_rows db). item_id i < next_item db)"

lemma ticket_inv_items: "ticket_inv db \<Longrightarrow> items_inv db"
  by (auto simp: ticket_inv_def items_inv_def item_ok_def)

lemma sync_itemsE:
  assumes "sync_items repo tid now n items pool kept db = Inr (kept', db')"
    and "items_inv db" and "set pool \<subseteq> {i \<in> set (checklist_rows db). items_of repo tid i}" and "distinct (map item_id pool)"
  shows "kept' = kept @ map item_id (assigned repo tid now n items pool (next_item db)) \<and>
    set (checklist_rows db') = {i \<in> set (checklist_rows db). item_id i \<notin> item_id ` set (assigned repo tid now n items pool (next_item db))} \<union>
      set (assigned repo tid now n items pool (next_item db)) \<and>
    ticket_rows db' = ticket_rows db \<and> dep_rows db' = dep_rows db \<and> escalation_rows db' = escalation_rows db \<and> items_inv db'"
  using assms
proof (induction items arbitrary: n pool kept db)
  case (Cons x items)
  obtain words finished where x: "x = (words, finished)" by (cases x)
  show ?case
  proof (cases "find (\<lambda>i. item_text i = words) pool")
    case None
    let ?r = "\<lparr>item_id = next_item db, item_repository = repo, item_ticket = tid, item_ord = n, item_text = words,
        item_done = finished, item_done_at = done_at_for finished None now\<rparr>"
    let ?u = "db\<lparr>checklist_rows := checklist_rows db @ [?r], next_item := Suc (next_item db)\<rparr>"
    from Cons.prems(1) None have run: "sync_items repo tid now (n + 1) items pool (kept @ [next_item db]) ?u = Inr (kept', db')"
      by (simp add: x split: if_splits)
    have inv: "items_inv ?u" using Cons.prems(2) by (auto simp: items_inv_def)
    have pool: "set pool \<subseteq> {i \<in> set (checklist_rows ?u). items_of repo tid i}" using Cons.prems(3) by auto
    have "\<forall>i \<in> set pool. item_id i < next_item db" using Cons.prems(2,3) by (auto simp: items_inv_def)
    then have old: "\<forall>i \<in> set pool. item_id i < Suc (next_item db)" "next_item db \<notin> item_id ` set pool" by auto
    from assigned_ids(2) [OF old(1) Cons.prems(4), of repo tid now "n + 1" items] old(2)
    have fresh: "next_item db \<notin> item_id ` set (assigned repo tid now (n + 1) items pool (Suc (next_item db)))" by force
    from Cons.IH [OF run inv pool Cons.prems(4)] fresh Cons.prems(2) show ?thesis
      by (auto simp: x None items_inv_def)
  next
    case (Some e)
    let ?e = "e\<lparr>item_ord := n, item_text := words, item_done := finished, item_done_at := done_at_for finished (Some e) now\<rparr>"
    let ?u = "db\<lparr>checklist_rows := update_where (\<lambda>i. item_repository i = repo \<and> item_id i = item_id e)
        (\<lambda>i. i\<lparr>item_ord := n, item_text := words, item_done := finished, item_done_at := done_at_for finished (Some e) now\<rparr>) (checklist_rows db)\<rparr>"
    from Cons.prems(1) Some have run: "sync_items repo tid now (n + 1) items (remove1 e pool) (kept @ [item_id e]) ?u = Inr (kept', db')"
      by (simp add: x)
    have e: "e \<in> set pool" using find_Some_mem [OF Some] by simp
    with Cons.prems(3) have row: "e \<in> set (checklist_rows db)" "items_of repo tid e" by auto
    have key: "i \<in> set (checklist_rows db) \<Longrightarrow> item_id i = item_id e \<Longrightarrow> i = e" for i
      using distinct_key_eq [of item_id "checklist_rows db"] Cons.prems(2) row(1) by (auto simp: items_inv_def)
    have set_u: "set (checklist_rows ?u) = {i \<in> set (checklist_rows db). item_id i \<noteq> item_id e} \<union> {?e}"
      using key row by (force simp: set_update_where items_of_def)
    have inv: "items_inv ?u"
      using Cons.prems(2) by (auto simp: items_inv_def map_update_where set_update_where)
    have gone: "item_id e \<notin> item_id ` set (remove1 e pool)" and sub: "set (remove1 e pool) \<subseteq> set pool"
      and dist: "distinct (map item_id (remove1 e pool))"
      using Cons.prems(4) e by (auto simp: distinct_map inj_on_def distinct_remove1 dest: set_remove1_subset [THEN subsetD])
    have pool: "set (remove1 e pool) \<subseteq> {i \<in> set (checklist_rows ?u). items_of repo tid i}"
      using sub gone Cons.prems(3) unfolding set_u by (force simp: image_iff)
    have old: "\<forall>i \<in> set (remove1 e pool). item_id i < next_item db" "item_id e < next_item db"
      using Cons.prems(2,3) sub row(1) by (auto simp: items_inv_def)
    from assigned_ids(2) [OF old(1) dist, of repo tid now "n + 1" items] gone old(2)
    have fresh: "item_id e \<notin> item_id ` set (assigned repo tid now (n + 1) items (remove1 e pool) (next_item db))" by force
    from Cons.IH [OF run inv pool dist] show ?thesis
      using fresh unfolding set_u by (auto simp: x Some)
  qed
qed simp

lemma set_stored_items [simp]: "set (stored_items repo tid db) = {i \<in> set (checklist_rows db). items_of repo tid i}"
  by (auto simp: stored_items_def)

lemma stored_items_distinct: "items_inv db \<Longrightarrow> distinct (map item_id (stored_items repo tid db))"
  by (auto simp: items_inv_def stored_items_def distinct_map intro: inj_on_subset)

lemma assigned_items_of:
  "\<forall>i \<in> set pool. items_of repo tid i \<Longrightarrow> \<forall>r \<in> set (assigned repo tid now n items pool next_id). items_of repo tid r"
proof (induction repo tid now n items pool next_id rule: assigned.induct)
  case (2 repo tid now n words finished items pool next_id)
  show ?case
  proof (cases "find (\<lambda>i. item_text i = words) pool")
    case None
    with 2(1) [OF None 2(3)] show ?thesis by (simp add: items_of_def)
  next
    case (Some e)
    then have e: "items_of repo tid e" using 2(3) find_Some_mem by fastforce
    have "\<forall>i \<in> set (remove1 e pool). items_of repo tid i" using 2(3) set_remove1_subset by fast
    from 2(2) [OF Some this] e Some show ?thesis by (simp add: items_of_def)
  qed
qed simp

lemma sort_key_unique:
  fixes f :: "'a \<Rightarrow> 'b::linorder"
  assumes "distinct xs" and "set xs = set ys" and "sorted (map f ys)" and "distinct (map f ys)"
  shows "sort_key f xs = ys"
proof -
  have inj: "inj_on f (set ys)" using assms(4) by (simp add: distinct_map)
  then have "distinct (map f (sort_key f xs))" using assms(1,2) by (simp add: distinct_map)
  then have "map f (sort_key f xs) = map f ys"
    using assms by (intro sorted_distinct_set_unique) simp_all
  with inj show ?thesis using assms(2) by (simp add: inj_on_map_eq_map)
qed

lemma upt_ords: "sorted (map (\<lambda>k. (n::int) + int k) [0..<m])" "distinct (map (\<lambda>k. n + int k) [0..<m])"
  by (simp add: sorted_iff_nth_mono) (simp add: distinct_map inj_on_def)
lemma sync_checklistE:
  assumes "sync_checklist repo tid items now db = Inr db'" and "items_inv db"
  shows "stored_items repo tid db' = assigned repo tid now 0 items (stored_items repo tid db) (next_item db)"
    and "{i \<in> set (checklist_rows db'). \<not> items_of repo tid i} = {i \<in> set (checklist_rows db). \<not> items_of repo tid i}"
    and "ticket_rows db' = ticket_rows db" and "dep_rows db' = dep_rows db" and "escalation_rows db' = escalation_rows db"
proof -
  let ?pool = "stored_items repo tid db"
  let ?a = "assigned repo tid now 0 items ?pool (next_item db)"
  from assms(1) obtain kept mid where run: "sync_items repo tid now 0 items ?pool [] db = Inr (kept, mid)"
    and db': "db' = mid\<lparr>checklist_rows := delete_where (\<lambda>i. items_of repo tid i \<and> \<not> List.member kept (item_id i)) (checklist_rows mid)\<rparr>"
    by (auto simp: sync_checklist_def bindE_eq_Inr)
  have "set ?pool \<subseteq> {i \<in> set (checklist_rows db). items_of repo tid i}" by simp
  from sync_itemsE [OF run assms(2) this stored_items_distinct [OF assms(2)]]
  have kept: "kept = map item_id ?a" and rows: "set (checklist_rows mid) =
      {i \<in> set (checklist_rows db). item_id i \<notin> item_id ` set ?a} \<union> set ?a"
    and rest: "ticket_rows mid = ticket_rows db" "dep_rows mid = dep_rows db" "escalation_rows mid = escalation_rows db" "items_inv mid"
    by simp_all
  show "ticket_rows db' = ticket_rows db" "dep_rows db' = dep_rows db" "escalation_rows db' = escalation_rows db"
    using rest by (simp_all add: db')
  have mine: "\<And>r. r \<in> set ?a \<Longrightarrow> items_of repo tid r" using assigned_items_of [of ?pool] by simp
  have rows': "set (checklist_rows db') = {i \<in> set (checklist_rows db). \<not> items_of repo tid i \<and> item_id i \<notin> item_id ` set ?a} \<union> set ?a"
    unfolding db' using mine by (auto simp: set_delete_where rows kept)
  have "\<forall>i \<in> set ?pool. item_id i < next_item db" using assms(2) by (auto simp: items_inv_def)
  note ids = assigned_ids [OF this stored_items_distinct [OF assms(2)], of repo tid now 0 items]
  have apart: "item_id i \<notin> item_id ` set ?a" if i: "i \<in> set (checklist_rows db)" "\<not> items_of repo tid i" for i
  proof
    assume "item_id i \<in> item_id ` set ?a"
    then obtain r where r: "r \<in> set ?a" "item_id r = item_id i" by auto
    from ids(2) r consider j where "j \<in> set ?pool" "item_id j = item_id i" | "next_item db \<le> item_id i" by fastforce
    then show False
    proof cases
      case 1
      then have "j = i" using distinct_key_eq [of item_id "checklist_rows db" j i] assms(2) i(1) by (simp add: items_inv_def)
      with 1 i(2) show False by simp
    next
      case 2
      then show False using assms(2) i(1) by (auto simp: items_inv_def)
    qed
  qed
  show "{i \<in> set (checklist_rows db'). \<not> items_of repo tid i} = {i \<in> set (checklist_rows db). \<not> items_of repo tid i}"
    unfolding rows' using apart mine by auto
  have mine': "{i \<in> set (checklist_rows db'). items_of repo tid i} = set ?a" unfolding rows' using mine by auto
  have "items_inv db'" using rest(4) unfolding db' by (auto simp: items_inv_def delete_where_def distinct_map intro: inj_on_subset)
  then have dist: "distinct (map item_id (filter (items_of repo tid) (checklist_rows db')))"
    by (auto simp: items_inv_def distinct_map intro: inj_on_subset)
  have ords: "sorted (map item_ord ?a)" "distinct (map item_ord ?a)"
    unfolding assigned_ords by (rule upt_ords)+
  show "stored_items repo tid db' = ?a"
    unfolding stored_items_def [of repo tid db']
    using mine' dist ords by (intro sort_key_unique) (auto simp: distinct_map)
qed

section \<open>What reading a document does\<close>

lemma find_update_ticket:
  assumes "\<And>r. ticket_ident (f r) = ticket_ident r"
  shows "find_ticket q t (update_ticket repo tid f db) =
    (if q = repo \<and> t = tid then map_option f (find_ticket q t db) else find_ticket q t db)"
proof -
  have "find (this_ticket q t) (update_where (this_ticket repo tid) f (ticket_rows db)) =
      map_option (\<lambda>r. if this_ticket repo tid r then f r else r) (find (this_ticket q t) (ticket_rows db))"
    by (rule find_update_where) (simp add: this_ticket_ident assms)
  moreover have "(if this_ticket repo tid r then f r else r) = (if q = repo \<and> t = tid then f r else r)"
    if "find (this_ticket q t) (ticket_rows db) = Some r" for r
    using find_Some_mem [OF that] by (auto simp: this_ticket_def)
  ultimately show ?thesis
    unfolding find_ticket_def by (cases "find (this_ticket q t) (ticket_rows db)") auto
qed

lemma find_ticket_rows: "ticket_rows db' = ticket_rows db \<Longrightarrow> find_ticket q t db' = find_ticket q t db"
  by (simp add: find_ticket_def)

lemma parsed_fields_ident [simp]: "ticket_ident (parsed_fields tid p r) = ticket_ident r"
  by (simp add: ticket_ident_def parsed_fields_def)

lemma sync_ident [simp]: "ticket_ident (r\<lparr>ticket_sync := c, ticket_updated_at := t\<rparr>) = ticket_ident r"
  "ticket_ident (r\<lparr>ticket_updated_at := t\<rparr>) = ticket_ident r" "ticket_ident (r\<lparr>ticket_sync := c\<rparr>) = ticket_ident r"
  by (simp_all add: ticket_ident_def)

lemma mark_sync_keeps [simp]: "keeps_key (\<lambda>r. r\<lparr>ticket_sync := g r, ticket_updated_at := t\<rparr>)"
  by (simp add: keeps_key_def ticket_ident_def)

lemma mark_sync_more: "ticket_more db (mark_sync_state repo tid state h m path why now db)"
  unfolding mark_sync_state_def by (rule ticket_more_update) simp

lemma find_mark_sync:
  "find_ticket q t (mark_sync_state repo tid state h m path why now db) = (if q = repo \<and> t = tid
     then map_option (\<lambda>r. r\<lparr>ticket_sync := set_sync state h m path why (ticket_sync r), ticket_updated_at := iso_seconds now\<rparr>) (find_ticket q t db)
     else find_ticket q t db)"
  unfolding mark_sync_state_def by (rule find_update_ticket) simp

lemma mark_sync_sel [simp]:
  "dep_rows (mark_sync_state repo tid state h m path why now db) = dep_rows db"
  "checklist_rows (mark_sync_state repo tid state h m path why now db) = checklist_rows db"
  "escalation_rows (mark_sync_state repo tid state h m path why now db) = escalation_rows db"
  "next_item (mark_sync_state repo tid state h m path why now db) = next_item db"
  by (simp_all add: mark_sync_state_def)

lemma stored_items_rows: "checklist_rows db' = checklist_rows db \<Longrightarrow> stored_items repo tid db' = stored_items repo tid db"
  by (simp add: stored_items_def)

text \<open>The row a document is read into: the stored one, or a new planned ticket.\<close>

definition read_into :: "string \<Rightarrow> string \<Rightarrow> time \<Rightarrow> 'z ticket_db_scheme \<Rightarrow> ticket_row" where
  "read_into repo tid now db = (case find_ticket repo tid db of Some r \<Rightarrow> r
     | None \<Rightarrow> \<lparr>ticket_repository = repo, ticket_key_id = tid, ticket_title = tid, ticket_state = TkPlanned, ticket_harness = None,
         ticket_model = None, ticket_worktree = None, ticket_schedule_at = None, ticket_parent = None, ticket_sync = new_sync,
         ticket_attempts = 0, ticket_last_error = None, ticket_created_at = iso_seconds now, ticket_updated_at = iso_seconds now\<rparr>)"

definition store_parsed :: "string \<Rightarrow> string \<Rightarrow> parsed_ticket \<Rightarrow> time \<Rightarrow> 'z ticket_db_scheme \<Rightarrow> exn + 'z ticket_db_scheme" where
  "store_parsed repo tid p now db = (if find_ticket repo tid db \<noteq> None then update_ticket_from_parsed repo tid p now db
     else insert_ticket_from_parsed repo tid p now db)"

lemma update_parsed_more:
  assumes "update_ticket_from_parsed repo tid p now db = Inr db'"
  shows "ticket_more db db'"
proof -
  let ?f = "\<lambda>r. (parsed_fields tid p r)\<lparr>ticket_updated_at := iso_seconds now\<rparr>"
  from assms have db': "db' = update_ticket repo tid ?f db" and parent: "\<And>u. pt_parent p = Some u \<Longrightarrow> (repo, u) \<in> ticket_keys db"
    by (auto simp: update_ticket_from_parsed_def find_ticket_None split: if_splits option.splits)
  have idents: "map ticket_ident (ticket_rows db') = map ticket_ident (ticket_rows db)"
    unfolding db' update_ticket_sel by (rule map_update_where) simp
  then have keys: "ticket_keys db' = ticket_keys db" by (metis set_map ticket_keys_def)
  have "parent_ok K (?f r)" if "this_ticket repo tid r" "\<And>u. pt_parent p = Some u \<Longrightarrow> (repo, u) \<in> K" for K r
    using that by (auto simp: parent_ok_def parsed_fields_def this_ticket_def)
  with parent have "ticket_inv db \<Longrightarrow> Ball (set (ticket_rows db')) (parent_ok (ticket_keys db))"
    by (auto simp: db' set_update_where ticket_inv_def)
  then show ?thesis unfolding ticket_more_def ticket_inv_def idents keys by (simp add: db')
qed

lemma store_parsedE:
  assumes "store_parsed repo tid p now db = Inr db'"
  shows "find_ticket q t db' = (if q = repo \<and> t = tid then Some ((parsed_fields tid p (read_into repo tid now db))\<lparr>ticket_updated_at := iso_seconds now\<rparr>)
      else find_ticket q t db)"
    and "dep_rows db' = dep_rows db" and "checklist_rows db' = checklist_rows db" and "escalation_rows db' = escalation_rows db"
    and "next_item db' = next_item db" and "ticket_more db db'"
proof -
  have *: "find_ticket q t db' = (if q = repo \<and> t = tid then Some ((parsed_fields tid p (read_into repo tid now db))\<lparr>ticket_updated_at := iso_seconds now\<rparr>)
      else find_ticket q t db) \<and> dep_rows db' = dep_rows db \<and> checklist_rows db' = checklist_rows db \<and> escalation_rows db' = escalation_rows db \<and>
      next_item db' = next_item db \<and> ticket_more db db'"
  proof (cases "find_ticket repo tid db")
    case (Some r)
    then have run: "update_ticket_from_parsed repo tid p now db = Inr db'" using assms by (simp add: store_parsed_def)
    then have "db' = update_ticket repo tid (\<lambda>r. (parsed_fields tid p r)\<lparr>ticket_updated_at := iso_seconds now\<rparr>) db"
      by (simp add: update_ticket_from_parsed_def split: if_splits)
    with update_parsed_more [OF run] Some show ?thesis by (simp add: find_update_ticket read_into_def)
  next
    case None
    then have run: "insert_ticket_from_parsed repo tid p now db = Inr db'" using assms by (simp add: store_parsed_def)
    then obtain r where r: "db' = db\<lparr>ticket_rows := ticket_rows db @ [r]\<rparr>" "this_ticket repo tid r"
      "r = (parsed_fields tid p (read_into repo tid now db))\<lparr>ticket_updated_at := iso_seconds now\<rparr>"
      by (auto simp: insert_ticket_from_parsed_def insert_ticket_row_def this_ticket_def parsed_fields_def read_into_def None split: if_splits)
    have "this_ticket q t r \<longleftrightarrow> q = repo \<and> t = tid" using r(2) by (auto simp: this_ticket_def)
    then have "find_ticket q t db' = (case find_ticket q t db of None \<Rightarrow> if q = repo \<and> t = tid then Some r else None | Some x \<Rightarrow> Some x)"
      using r(2) by (simp add: r(1) find_ticket_def find_append split: option.splits)
    with None r insert_ticket_row_more run show ?thesis
      by (auto simp: insert_ticket_from_parsed_def split: option.splits)
  qed
  then show "find_ticket q t db' = (if q = repo \<and> t = tid then Some ((parsed_fields tid p (read_into repo tid now db))\<lparr>ticket_updated_at := iso_seconds now\<rparr>)
      else find_ticket q t db)" "dep_rows db' = dep_rows db" "checklist_rows db' = checklist_rows db" "escalation_rows db' = escalation_rows db"
      "next_item db' = next_item db" "ticket_more db db'" by blast+
qed

lemma insert_or_ignore_more: "insert_dep_or_ignore repo tid dep db = Inr db' \<Longrightarrow> ticket_more db db'"
  by (auto simp: insert_dep_or_ignore_def Let_def find_ticket_None ticket_more_def ticket_inv_def ticket_keys_def dep_ok_def split: if_splits)

lemma insert_or_ignore_fold:
  assumes "foldE (insert_dep_or_ignore repo tid) deps db = Inr db'"
  shows "set (dep_rows db') = set (dep_rows db) \<union> (\<lambda>u. \<lparr>dep_repository = repo, dep_ticket = tid, dep_on = u\<rparr>) ` (set deps - {tid})"
    and "ticket_rows db' = ticket_rows db" and "checklist_rows db' = checklist_rows db" and "escalation_rows db' = escalation_rows db"
    and "next_item db' = next_item db" and "ticket_more db db'"
proof -
  have "set (dep_rows db') = set (dep_rows db) \<union> (\<lambda>u. \<lparr>dep_repository = repo, dep_ticket = tid, dep_on = u\<rparr>) ` (set deps - {tid}) \<and>
    ticket_rows db' = ticket_rows db \<and> checklist_rows db' = checklist_rows db \<and> escalation_rows db' = escalation_rows db \<and>
    next_item db' = next_item db \<and> ticket_more db db'"
    using assms
  proof (induction deps arbitrary: db)
    case (Cons u us)
    then obtain mid where mid: "insert_dep_or_ignore repo tid u db = Inr mid" "foldE (insert_dep_or_ignore repo tid) us mid = Inr db'"
      by (auto simp: bindE_eq_Inr)
    from mid(1) have "set (dep_rows mid) = set (dep_rows db) \<union> (if u = tid then {} else {\<lparr>dep_repository = repo, dep_ticket = tid, dep_on = u\<rparr>}) \<and>
      ticket_rows mid = ticket_rows db \<and> checklist_rows mid = checklist_rows db \<and> escalation_rows mid = escalation_rows db \<and>
      next_item mid = next_item db"
      by (auto simp: insert_dep_or_ignore_def Let_def split: if_splits)
    with Cons.IH [OF mid(2)] insert_or_ignore_more [OF mid(1)] show ?case by (auto intro: ticket_more_trans split: if_splits)
  qed simp
  then show "set (dep_rows db') = set (dep_rows db) \<union> (\<lambda>u. \<lparr>dep_repository = repo, dep_ticket = tid, dep_on = u\<rparr>) ` (set deps - {tid})"
    "ticket_rows db' = ticket_rows db" "checklist_rows db' = checklist_rows db" "escalation_rows db' = escalation_rows db"
    "next_item db' = next_item db" "ticket_more db db'" by blast+
qed

lemma replace_depsE:
  assumes "replace_deps repo tid deps db = Inr db'"
  shows "set (dep_rows db') = {d \<in> set (dep_rows db). \<not> (dep_repository d = repo \<and> dep_ticket d = tid)} \<union>
      (\<lambda>u. \<lparr>dep_repository = repo, dep_ticket = tid, dep_on = u\<rparr>) ` (set deps - {tid})"
    and "ticket_rows db' = ticket_rows db" and "checklist_rows db' = checklist_rows db" and "escalation_rows db' = escalation_rows db"
    and "next_item db' = next_item db" and "ticket_more db db'"
  using insert_or_ignore_fold [OF assms [unfolded replace_deps_def]] drop_children_more(1) [of db]
  by (auto simp: set_delete_where intro: ticket_more_trans)

lemma update_items_more:
  assumes "\<And>i. item_id (f i) = item_id i \<and> item_repository (f i) = item_repository i \<and> item_ticket (f i) = item_ticket i"
  shows "ticket_more db (db\<lparr>checklist_rows := update_where P f (checklist_rows db)\<rparr>)"
proof -
  let ?u = "db\<lparr>checklist_rows := update_where P f (checklist_rows db)\<rparr>"
  have keys: "ticket_keys ?u = ticket_keys db" by (simp add: ticket_keys_def)
  have "item_ok K n (f i) = item_ok K n i" for K n i using assms by (simp add: item_ok_def)
  with assms show ?thesis unfolding ticket_more_def ticket_inv_def keys by (auto simp: set_update_where map_update_where)
qed

lemma add_item_more:
  assumes "find_ticket repo tid db \<noteq> None"
  shows "ticket_more db (db\<lparr>checklist_rows := checklist_rows db @ [\<lparr>item_id = next_item db, item_repository = repo, item_ticket = tid,
    item_ord = n, item_text = words, item_done = finished, item_done_at = at\<rparr>], next_item := Suc (next_item db)\<rparr>)"
  using assms by (auto simp: find_ticket_None ticket_more_def ticket_inv_def ticket_keys_def item_ok_def)

lemma sync_items_more: "sync_items repo tid now n items pool kept db = Inr (kept', db') \<Longrightarrow> ticket_more db db'"
proof (induction items arbitrary: n pool kept db)
  case (Cons x items)
  obtain words finished where x: "x = (words, finished)" by (cases x)
  show ?case
  proof (cases "find (\<lambda>i. item_text i = words) pool")
    case None
    with Cons.prems have "find_ticket repo tid db \<noteq> None" by (simp add: x split: if_splits)
    from ticket_more_trans [OF add_item_more [OF this] Cons.IH] Cons.prems None this show ?thesis by (simp add: x)
  next
    case (Some e)
    let ?f = "\<lambda>i. i\<lparr>item_ord := n, item_text := words, item_done := finished, item_done_at := done_at_for finished (Some e) now\<rparr>"
    have "ticket_more db (db\<lparr>checklist_rows := update_where (\<lambda>i. item_repository i = repo \<and> item_id i = item_id e) ?f (checklist_rows db)\<rparr>)"
      by (rule update_items_more) simp
    from ticket_more_trans [OF this Cons.IH] Cons.prems Some show ?thesis by (simp add: x)
  qed
qed simp

lemma sync_checklist_more: "sync_checklist repo tid items now db = Inr db' \<Longrightarrow> ticket_more db db'"
  by (auto simp: sync_checklist_def bindE_eq_Inr intro: ticket_more_trans [OF sync_items_more drop_children_more(2)])

lemma ingestE:
  assumes "ingest dump sha repo tid p h now db = Inr db'" and "ticket_inv db"
  shows "find_ticket q t db' = (if q = repo \<and> t = tid
      then Some ((parsed_fields tid p (read_into repo tid now db))\<lparr>
        ticket_sync := set_sync ''synced'' (Some h) (Some (sha (render_frontmatter dump (frontmatter_of p) @ pt_body p))) (Some (md_path tid)) None
          (ticket_sync (read_into repo tid now db)), ticket_updated_at := iso_seconds now\<rparr>)
      else find_ticket q t db)"
    and "set (dep_rows db') = {d \<in> set (dep_rows db). \<not> (dep_repository d = repo \<and> dep_ticket d = tid)} \<union>
      (\<lambda>u. \<lparr>dep_repository = repo, dep_ticket = tid, dep_on = u\<rparr>) ` (set (pt_deps p) - {tid})"
    and "stored_items repo tid db' = assigned repo tid now 0 (pt_checklist p) (stored_items repo tid db) (next_item db)"
    and "{i \<in> set (checklist_rows db'). \<not> items_of repo tid i} = {i \<in> set (checklist_rows db). \<not> items_of repo tid i}"
    and "ticket_more db db'"
proof -
  from assms(1) obtain a b c d where a: "store_parsed repo tid p now db = Inr a" and b: "replace_deps repo tid (pt_deps p) a = Inr b"
    and c: "sync_checklist repo tid (pt_checklist p) now b = Inr c" and d: "invalidate_ticket_schedule repo tid ''markdown'' now c = Inr d"
    and db': "db' = mark_sync_state repo tid ''synced'' (Some h) (Some (sha (render_frontmatter dump (frontmatter_of p) @ pt_body p)))
       (Some (md_path tid)) None now d"
    unfolding ingest_def store_parsed_def [symmetric] by (auto simp: bindE_eq_Inr)
  note A = store_parsedE [OF a] and B = replace_depsE [OF b]
  have ab: "ticket_more db b" using A(6) B(6) by (rule ticket_more_trans)
  then have inv: "items_inv b" using assms(2) ticket_inv_items by (auto simp: ticket_more_def)
  note C = sync_checklistE [OF c inv]
  note D = ticket_tables_cong [OF invalidate_rest(1) [OF d]]
  have pool: "stored_items repo tid b = stored_items repo tid db" "next_item b = next_item db"
    using A(3,5) B(3,5) by (simp_all add: stored_items_def)
  have find_d: "find_ticket q t d = find_ticket q t a" for q t
    using C(3) B(2) D(1) by (simp add: find_ticket_def)
  show "find_ticket q t db' = (if q = repo \<and> t = tid
      then Some ((parsed_fields tid p (read_into repo tid now db))\<lparr>
        ticket_sync := set_sync ''synced'' (Some h) (Some (sha (render_frontmatter dump (frontmatter_of p) @ pt_body p))) (Some (md_path tid)) None
          (ticket_sync (read_into repo tid now db)), ticket_updated_at := iso_seconds now\<rparr>)
      else find_ticket q t db)"
    by (simp add: db' find_mark_sync find_d A(1) parsed_fields_def)
  show "set (dep_rows db') = {d \<in> set (dep_rows db). \<not> (dep_repository d = repo \<and> dep_ticket d = tid)} \<union>
      (\<lambda>u. \<lparr>dep_repository = repo, dep_ticket = tid, dep_on = u\<rparr>) ` (set (pt_deps p) - {tid})"
    using B(1) A(2) C(4) D(2) by (simp add: db')
  show "stored_items repo tid db' = assigned repo tid now 0 (pt_checklist p) (stored_items repo tid db) (next_item db)"
    unfolding C(1) [unfolded pool, symmetric] by (rule stored_items_rows) (simp add: db' D(3))
  show "{i \<in> set (checklist_rows db'). \<not> items_of repo tid i} = {i \<in> set (checklist_rows db). \<not> items_of repo tid i}"
    using C(2) D(3) A(3) B(3) by (simp add: db')
  show "ticket_more db db'"
    unfolding db' by (meson ab sync_checklist_more [OF c] invalidate_more(1) [OF d] mark_sync_more ticket_more_trans)
qed

text \<open>The items of a text take over the stored ones of that text in their order.\<close>

definition identity_kept :: "checklist_row list \<Rightarrow> checklist_row list \<Rightarrow> bool" where
  "identity_kept old new \<longleftrightarrow> (\<forall>t. let ids = (\<lambda>items. map item_id (filter (\<lambda>i. item_text i = t) items))
     in take (length (ids old)) (ids new) = take (length (ids new)) (ids old))"

lemma assigned_identity_kept: "identity_kept pool (assigned repo tid now n items pool next_id)"
  by (simp add: identity_kept_def assigned_identity)

text \<open>The two outcomes of a document that is looked at.\<close>

lemma reconcile_documentE:
  fixes db db' :: "'z ticket_db_scheme"
  assumes "reconcile_path load dump sha repo now tid (files, db) = Inr (ans, files', db')"
    and "ticket_id_ok tid" and "map_of files tid = Some raw" and "\<not> already_synced repo tid (sha raw) db"
  obtains (unreadable) why where "pt_error (parse_ticket load raw (Some tid)) = Some why" "files' = files" "ans = Some why"
      "db' = (if find_ticket repo tid db \<noteq> None then mark_sync_state repo tid ''parse_error'' (Some (sha raw)) None None (Some why) now db else db)"
  | (ingested) "pt_error (parse_ticket load raw (Some tid)) = None" "files' = files" "ans = None"
      "ingest dump sha repo tid (parse_ticket load raw (Some tid)) (sha raw) now db = Inr db'"
  using assms by (cases "pt_error (parse_ticket load raw (Some tid))") (auto simp: reconcile_path_def Let_def bindE_eq_Inr)

lemma ingest_synced:
  assumes "ingest dump sha repo tid p h now db = Inr db'" and "ticket_inv db"
  shows "already_synced repo tid h db'"
  by (simp add: already_synced_def ingestE(1) [OF assms] set_sync_def Let_def)

text \<open>
  C13: reading a document does exactly what the document says. A document that cannot be read is reported, and only
  marks its ticket. Otherwise the ticket (a new one is planned) takes the title, harness, model, worktree
  and parent of the document and keeps the rest; its dependencies are the listed ones except itself; its
  checklist is the listed one in order, where an item of a text takes over the stored items of that text
  with their identity while there are any; no other ticket, dependency or item changes, the tables stay
  intact, and reading the file again changes nothing.
\<close>

theorem document_read_exactly:
  fixes db db' :: "'z ticket_db_scheme"
  assumes "reconcile_path load dump sha repo now tid (files, db) = Inr (ans, files', db')"
    and "ticket_id_ok tid" and "map_of files tid = Some raw" and "\<not> already_synced repo tid (sha raw) db" and "ticket_inv db"
    and "p = parse_ticket load raw (Some tid)"
  shows "files' = files \<and> ans = pt_error p \<and> ticket_inv db' \<and> (\<forall>q t. (q, t) \<noteq> (repo, tid) \<longrightarrow> find_ticket q t db' = find_ticket q t db) \<and>
    (case pt_error p of
       Some why \<Rightarrow> dep_rows db' = dep_rows db \<and> checklist_rows db' = checklist_rows db \<and>
         (\<exists>c t. find_ticket repo tid db' = map_option (\<lambda>r. r\<lparr>ticket_sync := c r, ticket_updated_at := t r\<rparr>) (find_ticket repo tid db))
     | None \<Rightarrow>
         (\<exists>c. find_ticket repo tid db' = Some ((parsed_fields tid p (read_into repo tid now db))\<lparr>ticket_sync := c, ticket_updated_at := iso_seconds now\<rparr>)) \<and>
         set (dep_rows db') = {d \<in> set (dep_rows db). \<not> (dep_repository d = repo \<and> dep_ticket d = tid)} \<union>
           (\<lambda>u. \<lparr>dep_repository = repo, dep_ticket = tid, dep_on = u\<rparr>) ` (set (pt_deps p) - {tid}) \<and>
         map item_content (stored_items repo tid db') = pt_checklist p \<and>
         identity_kept (stored_items repo tid db) (stored_items repo tid db') \<and>
         {i \<in> set (checklist_rows db'). \<not> items_of repo tid i} = {i \<in> set (checklist_rows db). \<not> items_of repo tid i} \<and>
         reconcile_path load dump sha repo later tid (files, db') = Inr (None, files, db'))"
proof (cases "pt_error p")
  case None
  with assms have run: "ingest dump sha repo tid p (sha raw) now db = Inr db'" and same: "files' = files" "ans = None"
    by (auto simp: reconcile_path_def Let_def bindE_eq_Inr)
  note I = ingestE [OF run assms(5)]
  have "already_synced repo tid (sha raw) db'"
    by (simp add: already_synced_def I(1) set_sync_def Let_def)
  then have "reconcile_path load dump sha repo later tid (files, db') = Inr (None, files, db')"
    using assms(2,3) by (simp add: reconcile_path_def)
  moreover have "identity_kept (stored_items repo tid db) (stored_items repo tid db')" by (simp add: I(3) assigned_identity_kept)
  moreover have "map item_content (stored_items repo tid db') = pt_checklist p" by (simp add: I(3) assigned_content)
  moreover have "ticket_inv db'" using I(5) assms(5) by (simp add: ticket_more_def)
  moreover have "\<exists>c. find_ticket repo tid db' = Some ((parsed_fields tid p (read_into repo tid now db))\<lparr>ticket_sync := c, ticket_updated_at := iso_seconds now\<rparr>)"
    using I(1) [of repo tid] by (simp only: simp_thms if_True) blast
  ultimately show ?thesis using None same I(2,4) I(1) by simp
next
  case (Some why)
  with assms have db': "db' = (if find_ticket repo tid db \<noteq> None then mark_sync_state repo tid ''parse_error'' (Some (sha raw)) None None (Some why) now db else db)"
    and same: "files' = files" "ans = Some why" by (auto simp: reconcile_path_def Let_def)
  have "ticket_inv db'" using assms(5) mark_sync_more [of db] by (auto simp: db' ticket_more_def)
  moreover have "\<exists>c t. find_ticket repo tid db' = map_option (\<lambda>r. r\<lparr>ticket_sync := c r, ticket_updated_at := t r\<rparr>) (find_ticket repo tid db)"
  proof (cases "find_ticket repo tid db")
    case None
    then show ?thesis by (simp add: db')
  next
    case (Some r)
    then show ?thesis
      by (auto simp: db' find_mark_sync intro!: exI [where x = "\<lambda>r. set_sync ''parse_error'' (Some (sha raw)) None None (Some why) (ticket_sync r)"]
        exI [where x = "\<lambda>_. iso_seconds now"])
  qed
  ultimately show ?thesis using same Some by (simp add: db' find_mark_sync)
qed

section \<open>A document reads back as its ticket\<close>

lemma assigned_texts:
  assumes "map (\<lambda>i. (item_text i, item_done i)) pool = items"
  shows "map (\<lambda>i. (item_id i, item_text i, item_done i)) (assigned repo tid now n items pool next_id) =
    map (\<lambda>i. (item_id i, item_text i, item_done i)) pool"
  using assms
proof (induction pool arbitrary: n items)
  case (Cons e pool)
  then have "items = (item_text e, item_done e) # map (\<lambda>i. (item_text i, item_done i)) pool" by auto
  with Cons.IH [OF refl, of "n + 1"] show ?case by simp
qed simp

lemma assigned_same:
  "map item_content pool = items \<Longrightarrow>
    map (\<lambda>i. (item_id i, item_content i)) (assigned repo tid now n items pool next_id) = map (\<lambda>i. (item_id i, item_content i)) pool"
  unfolding item_content_def [abs_def] by (rule assigned_texts)

lemma stored_deps_set: "set (stored_deps repo tid db) = {dep_on d | d. d \<in> set (dep_rows db) \<and> dep_repository d = repo \<and> dep_ticket d = tid}"
  by (auto simp: stored_deps_def)

lemma document_reads_back:
  assumes "find_ticket repo tid db = Some r" and "renderable repo r db"
    and "yaml_faithful load dump (frontmatter_yaml (row_frontmatter repo r db))" and "ticket_inv db"
    and "ingest dump sha repo tid (parse_ticket load (render_row dump repo r db) (Some tid)) h now db = Inr db'"
  shows "(\<exists>c. find_ticket repo tid db' = Some (r\<lparr>ticket_sync := c, ticket_updated_at := iso_seconds now\<rparr>)) \<and>
    set (dep_rows db') = set (dep_rows db) \<and>
    map (\<lambda>i. (item_id i, item_content i)) (stored_items repo tid db') = map (\<lambda>i. (item_id i, item_content i)) (stored_items repo tid db)"
proof -
  have key: "ticket_key_id r = tid" "ticket_repository r = repo"
    using find_ticket_mem [OF assms(1)] by (auto simp: this_ticket_def)
  note p = parse_rendered_row [OF assms(2,3), of "Some tid"] and I = ingestE [OF assms(5,4)]
  have title: "ticket_title r \<noteq> []"
    using assms(2) by (auto simp: renderable_def complete_frontmatter_def row_frontmatter_def field_ok_def)
  then have "parsed_fields tid (parse_ticket load (render_row dump repo r db) (Some tid)) (read_into repo tid now db) = r"
    by (simp add: p parsed_fields_def read_into_def assms(1))
  then have row: "\<exists>c. find_ticket repo tid db' = Some (r\<lparr>ticket_sync := c, ticket_updated_at := iso_seconds now\<rparr>)"
    using I(1) [of repo tid] by (simp only: simp_thms if_True) blast
  have "\<forall>d \<in> set (dep_rows db). dep_ticket d \<noteq> dep_on d" using assms(4) by (auto simp: ticket_inv_def dep_ok_def)
  then have deps: "set (dep_rows db') = set (dep_rows db)"
  proof -
    assume apart: "\<forall>d \<in> set (dep_rows db). dep_ticket d \<noteq> dep_on d"
    let ?mk = "\<lambda>u. \<lparr>dep_repository = repo, dep_ticket = tid, dep_on = u\<rparr>"
    have mk: "?mk (dep_on d) = d" if "dep_repository d = repo" "dep_ticket d = tid" for d using that by simp
    have "set (stored_deps repo tid db) - {tid} = dep_on ` {d \<in> set (dep_rows db). dep_repository d = repo \<and> dep_ticket d = tid}"
      using apart by (auto simp: stored_deps_set)
    moreover have "?mk ` dep_on ` S = S" if "S = {d \<in> set (dep_rows db). dep_repository d = repo \<and> dep_ticket d = tid}" for S
    proof -
      have "(\<lambda>d. ?mk (dep_on d)) ` S = (\<lambda>d. d) ` S" by (rule image_cong [OF refl], rule mk) (simp_all add: that)
      then show ?thesis by (simp add: image_image)
    qed
    ultimately have "?mk ` (set (stored_deps repo tid db) - {tid}) = {d \<in> set (dep_rows db). dep_repository d = repo \<and> dep_ticket d = tid}"
      by simp
    then show ?thesis unfolding I(2) p by (auto simp: key)
  qed
  have items: "map (\<lambda>i. (item_id i, item_content i)) (stored_items repo tid db') = map (\<lambda>i. (item_id i, item_content i)) (stored_items repo tid db)"
    unfolding I(3) p by (rule assigned_same) (simp add: key)
  from row deps items show ?thesis by blast
qed

section \<open>Reading returns\<close>

text \<open>The invalidation that reading a ticket appends is new.\<close>

definition unused_invalidation :: "string \<Rightarrow> string \<Rightarrow> 'z ticket_db_scheme \<Rightarrow> bool" where
  "unused_invalidation repo tid db \<longleftrightarrow> (\<forall>r \<in> set (projection_inputs db). input_repository r = repo \<longrightarrow> input_id r \<noteq>
     UUID5 schedule_namespace (tid @ '':'' @ int_text (next_generation repo ''schedule'' tid db) @ '':'' @ ''markdown''))"

lemma unused_invalidation_cong: "projection_inputs db' = projection_inputs db \<Longrightarrow> unused_invalidation repo tid db' = unused_invalidation repo tid db"
  by (simp add: unused_invalidation_def next_generation_def)

lemma invalidation_returns:
  assumes "unused_invalidation repo tid db"
  shows "\<exists>db'. invalidate_ticket_schedule repo tid ''markdown'' now db = Inr db'"
  using append_new_input [of db repo "\<lparr>input_id = UUID5 schedule_namespace (tid @ '':'' @ int_text (next_generation repo ''schedule'' tid db) @ '':'' @ ''markdown''),
      projection = ''schedule'', subject_key = tid, generation = next_generation repo ''schedule'' tid db\<rparr>"] assms
  by (simp add: invalidate_ticket_schedule_def Let_def unused_invalidation_def)

lemma insert_or_ignore_returns:
  assumes "find_ticket repo tid db \<noteq> None" and "\<forall>u \<in> set deps - {tid}. find_ticket repo u db \<noteq> None"
  shows "\<exists>db'. foldE (insert_dep_or_ignore repo tid) deps db = Inr db' \<and> projection_inputs db' = projection_inputs db"
  using assms
proof (induction deps arbitrary: db)
  case (Cons u us)
  obtain mid where mid: "insert_dep_or_ignore repo tid u db = Inr mid" "ticket_rows mid = ticket_rows db"
    "projection_inputs mid = projection_inputs db"
  proof (cases "tid = u \<or> List.member (dep_rows db) \<lparr>dep_repository = repo, dep_ticket = tid, dep_on = u\<rparr>")
    case True
    then show ?thesis by (intro that [of db]) (simp_all add: insert_dep_or_ignore_def)
  next
    case False
    with Cons.prems show ?thesis
      by (intro that [of "db\<lparr>dep_rows := dep_rows db @ [\<lparr>dep_repository = repo, dep_ticket = tid, dep_on = u\<rparr>]\<rparr>"])
        (auto simp: insert_dep_or_ignore_def)
  qed
  then have "\<And>q t. find_ticket q t mid = find_ticket q t db" by (simp add: find_ticket_def)
  with Cons.IH [of mid] Cons.prems mid show ?case by auto
qed simp

lemma sync_items_returns:
  assumes "find_ticket repo tid db \<noteq> None"
  shows "\<exists>kept' db'. sync_items repo tid now n items pool kept db = Inr (kept', db') \<and> projection_inputs db' = projection_inputs db"
  using assms
proof (induction items arbitrary: n pool kept db)
  case (Cons x items)
  obtain words finished where x: "x = (words, finished)" by (cases x)
  have find: "find_ticket repo tid (db\<lparr>checklist_rows := cs, next_item := k\<rparr>) \<noteq> None" "find_ticket repo tid (db\<lparr>checklist_rows := cs\<rparr>) \<noteq> None"
    for cs k using Cons.prems by (simp_all add: find_ticket_def)
  show ?case
  proof (cases "find (\<lambda>i. item_text i = words) pool")
    case None
    let ?u = "db\<lparr>checklist_rows := checklist_rows db @ [\<lparr>item_id = next_item db, item_repository = repo, item_ticket = tid, item_ord = n,
        item_text = words, item_done = finished, item_done_at = done_at_for finished None now\<rparr>], next_item := Suc (next_item db)\<rparr>"
    from Cons.IH [OF find(1)] obtain k d where "sync_items repo tid now (n + 1) items pool (kept @ [next_item db]) ?u = Inr (k, d)"
      "projection_inputs d = projection_inputs ?u" by blast
    with None Cons.prems show ?thesis by (auto simp: x)
  next
    case (Some e)
    let ?u = "db\<lparr>checklist_rows := update_where (\<lambda>i. item_repository i = repo \<and> item_id i = item_id e)
        (\<lambda>i. i\<lparr>item_ord := n, item_text := words, item_done := finished, item_done_at := done_at_for finished (Some e) now\<rparr>) (checklist_rows db)\<rparr>"
    from Cons.IH [OF find(2)] obtain k d where "sync_items repo tid now (n + 1) items (remove1 e pool) (kept @ [item_id e]) ?u = Inr (k, d)"
      "projection_inputs d = projection_inputs ?u" by blast
    with Some show ?thesis by (auto simp: x)
  qed
qed simp

lemma store_parsed_returns:
  assumes "\<And>u. pt_parent p = Some u \<Longrightarrow> find_ticket repo u db \<noteq> None"
  shows "\<exists>db'. store_parsed repo tid p now db = Inr db' \<and> projection_inputs db' = projection_inputs db"
  using assms by (auto simp: store_parsed_def update_ticket_from_parsed_def insert_ticket_from_parsed_def insert_ticket_row_def split: option.splits)

lemma ingest_returns:
  assumes "\<And>u. pt_parent p = Some u \<Longrightarrow> find_ticket repo u db \<noteq> None"
    and "\<forall>u \<in> set (pt_deps p) - {tid}. find_ticket repo u db \<noteq> None" and "unused_invalidation repo tid db"
  shows "\<exists>db'. ingest dump sha repo tid p h now db = Inr db'"
proof -
  obtain a where a: "store_parsed repo tid p now db = Inr a" "projection_inputs a = projection_inputs db"
    using store_parsed_returns [OF assms(1)] by blast
  let ?a = "a\<lparr>dep_rows := delete_where (\<lambda>d. dep_repository d = repo \<and> dep_ticket d = tid) (dep_rows a)\<rparr>"
  have find_a: "find_ticket repo u ?a \<noteq> None" if "u = tid \<or> find_ticket repo u db \<noteq> None" for u
    using that store_parsedE(1) [OF a(1)] find_ticket_rows [of ?a a] by auto
  then obtain b where b: "replace_deps repo tid (pt_deps p) a = Inr b" "projection_inputs b = projection_inputs db"
    using insert_or_ignore_returns [of repo tid ?a "pt_deps p"] assms(2) a(2) unfolding replace_deps_def by auto
  have find_b: "find_ticket repo tid b \<noteq> None"
    using find_ticket_rows [OF replace_depsE(2) [OF b(1)]] store_parsedE(1) [OF a(1)] by simp
  then obtain k c where c: "sync_items repo tid now 0 (pt_checklist p) (stored_items repo tid b) [] b = Inr (k, c)"
    "projection_inputs c = projection_inputs db" using sync_items_returns b(2) by metis
  let ?c = "c\<lparr>checklist_rows := delete_where (\<lambda>i. items_of repo tid i \<and> \<not> List.member k (item_id i)) (checklist_rows c)\<rparr>"
  have "unused_invalidation repo tid ?c" using assms(3) unused_invalidation_cong [of ?c db] c(2) by simp
  then obtain d where "invalidate_ticket_schedule repo tid ''markdown'' now ?c = Inr d" using invalidation_returns by blast
  with a b c show ?thesis unfolding ingest_def store_parsed_def [symmetric] sync_checklist_def by simp
qed

lemma document_returns:
  assumes "find_ticket repo tid db = Some r" and "renderable repo r db"
    and "yaml_faithful load dump (frontmatter_yaml (row_frontmatter repo r db))" and "ticket_inv db" and "unused_invalidation repo tid db"
  shows "\<exists>db'. ingest dump sha repo tid (parse_ticket load (render_row dump repo r db) (Some tid)) h now db = Inr db'"
proof (rule ingest_returns [OF _ _ assms(5)])
  have key: "ticket_key_id r = tid" "ticket_repository r = repo" "r \<in> set (ticket_rows db)"
    using find_ticket_mem [OF assms(1)] by (auto simp: this_ticket_def)
  note p = parse_rendered_row [OF assms(2,3), of "Some tid"]
  show "find_ticket repo u db \<noteq> None" if "pt_parent (parse_ticket load (render_row dump repo r db) (Some tid)) = Some u" for u
    using assms(4) key that by (auto simp: p find_ticket_None ticket_inv_def parent_ok_def)
  show "\<forall>u \<in> set (pt_deps (parse_ticket load (render_row dump repo r db) (Some tid))) - {tid}. find_ticket repo u db \<noteq> None"
    using assms(4) by (auto simp: p key stored_deps_set find_ticket_None ticket_inv_def dep_ok_def)
qed

text \<open>
  C26: a document written for a ticket reads back as that ticket. When a row and its checklist can be written (title,
  harness and model are there and no field has white space around it) and YAML loads what it dumps, reading
  the document returns, and leaves every field of the row, the dependencies, and the items with their
  identity as they were; only the synchronisation columns and the time change.
\<close>

theorem ticket_document_roundtrip:
  assumes "find_ticket repo tid db = Some r" and "renderable repo r db"
    and "yaml_faithful load dump (frontmatter_yaml (row_frontmatter repo r db))" and "ticket_inv db" and "unused_invalidation repo tid db"
    and "ticket_id_ok tid" and "map_of files tid = Some (render_row dump repo r db)"
    and "\<not> already_synced repo tid (sha (render_row dump repo r db)) db"
  shows "\<exists>db' c. reconcile_path load dump sha repo now tid (files, db) = Inr (None, files, db') \<and>
    find_ticket repo tid db' = Some (r\<lparr>ticket_sync := c, ticket_updated_at := iso_seconds now\<rparr>) \<and>
    set (dep_rows db') = set (dep_rows db) \<and>
    map (\<lambda>i. (item_id i, item_content i)) (stored_items repo tid db') = map (\<lambda>i. (item_id i, item_content i)) (stored_items repo tid db)"
proof -
  obtain db' where db': "ingest dump sha repo tid (parse_ticket load (render_row dump repo r db) (Some tid)) (sha (render_row dump repo r db)) now db = Inr db'"
    using document_returns [OF assms(1-5)] by blast
  then have "reconcile_path load dump sha repo now tid (files, db) = Inr (None, files, db')"
    using assms(6-8) parse_rendered_row [OF assms(2,3), of "Some tid"] by (simp add: reconcile_path_def Let_def)
  with document_reads_back [OF assms(1-4) db'] show ?thesis by blast
qed

section \<open>A whole pass\<close>

definition document_settled :: "(string \<Rightarrow> yaml_result) \<Rightarrow> (string \<Rightarrow> string) \<Rightarrow> string \<Rightarrow> files \<Rightarrow> 'z ticket_db_scheme \<Rightarrow> string \<Rightarrow> bool" where
  "document_settled load sha repo files db tid \<longleftrightarrow> (case map_of files tid of
     None \<Rightarrow> find_ticket repo tid db = None
   | Some raw \<Rightarrow> already_synced repo tid (sha raw) db \<or> pt_error (parse_ticket load raw (Some tid)) \<noteq> None)"

lemma reconcile_path_frame:
  fixes db db' :: "'z ticket_db_scheme"
  assumes "reconcile_path load dump sha repo now tid (files, db) = Inr (ans, files', db')" and "ticket_inv db"
  shows "ticket_more db db'" and "t \<noteq> tid \<Longrightarrow> find_ticket q t db' = find_ticket q t db" and "map_of files tid \<noteq> None \<Longrightarrow> files' = files"
    and "ticket_id_ok tid \<Longrightarrow> map_of files tid \<noteq> None \<Longrightarrow> document_settled load sha repo files' db' tid"
proof -
  let ?goal = "ticket_more db db' \<and> (t \<noteq> tid \<longrightarrow> find_ticket q t db' = find_ticket q t db) \<and> (map_of files tid \<noteq> None \<longrightarrow> files' = files) \<and>
    (ticket_id_ok tid \<longrightarrow> map_of files tid \<noteq> None \<longrightarrow> document_settled load sha repo files' db' tid)"
  have ?goal
  proof (cases "ticket_id_ok tid")
    case False
    with assms(1) show ?thesis by (simp add: reconcile_path_def)
  next
    case ok: True
    show ?thesis
    proof (cases "map_of files tid")
      case None
      show ?thesis
      proof (cases "find_ticket repo tid db")
        case (Some r)
        with find_ticket_mem [OF Some] have "ticket_key_id r = tid" by (simp add: this_ticket_def)
        with None Some ok assms(1) show ?thesis
          by (auto simp: reconcile_path_def materialize_row_def Let_def mark_sync_more find_mark_sync)
      qed (use None ok assms(1) in \<open>simp add: reconcile_path_def\<close>)
    next
      case (Some raw)
      show ?thesis
      proof (cases "already_synced repo tid (sha raw) db")
        case True
        with Some ok assms(1) show ?thesis by (simp add: reconcile_path_def document_settled_def)
      next
        case False
        from assms(1) ok Some False show ?thesis
        proof (cases rule: reconcile_documentE)
          case (unreadable why)
          with Some show ?thesis by (auto simp: document_settled_def mark_sync_more find_mark_sync)
        next
          case ingested
          with Some ingestE(1,5) [OF ingested(4) assms(2)] ingest_synced [OF ingested(4) assms(2)] show ?thesis
            by (simp add: document_settled_def)
        qed
      qed
    qed
  qed
  then show "ticket_more db db'" "t \<noteq> tid \<Longrightarrow> find_ticket q t db' = find_ticket q t db" "map_of files tid \<noteq> None \<Longrightarrow> files' = files"
    "ticket_id_ok tid \<Longrightarrow> map_of files tid \<noteq> None \<Longrightarrow> document_settled load sha repo files' db' tid" by blast+
qed

lemma settled_cong:
  "files' = files \<Longrightarrow> find_ticket repo t db' = find_ticket repo t db \<Longrightarrow>
    document_settled load sha repo files' db' t = document_settled load sha repo files db t"
  by (simp add: document_settled_def already_synced_def split: option.splits)

lemma reconcile_pathsE:
  fixes db db' :: "'z ticket_db_scheme"
  assumes "reconcile_paths load dump sha repo now tids (files, db) = (r, files', db')" and "ticket_inv db"
    and "\<forall>t \<in> set tids. map_of files t \<noteq> None"
  shows "files' = files \<and> ticket_more db db' \<and> (\<forall>t. t \<notin> set tids \<longrightarrow> find_ticket repo t db' = find_ticket repo t db) \<and>
    (r = Inr () \<longrightarrow> (\<forall>t \<in> set tids. ticket_id_ok t \<longrightarrow> document_settled load sha repo files db' t))"
  using assms
proof (induction tids arbitrary: db)
  case (Cons tid tids)
  show ?case
  proof (cases "reconcile_path load dump sha repo now tid (files, db)")
    case (Inl e)
    with Cons.prems(1) show ?thesis by auto
  next
    case (Inr a)
    obtain ans fs mid where a: "a = (ans, fs, mid)" by (cases a)
    note step = reconcile_path_frame [OF Inr [unfolded a] Cons.prems(2)]
    from step(3) Cons.prems(3) have fs: "fs = files" by simp
    with Cons.prems(1) Inr a have rest: "reconcile_paths load dump sha repo now tids (files, mid) = (r, files', db')" by simp
    from step(1) Cons.prems(2) have "ticket_inv mid" by (simp add: ticket_more_def)
    note IH = Cons.IH [OF rest this]
    have settled: "document_settled load sha repo files db' tid" if "ticket_id_ok tid" "r = Inr ()"
    proof (cases "tid \<in> set tids")
      case True
      with IH that Cons.prems(3) show ?thesis by simp
    next
      case False
      with IH Cons.prems(3) have "find_ticket repo tid db' = find_ticket repo tid mid" by simp
      from settled_cong [OF refl this, of load sha files] step(4) [OF that(1)] Cons.prems(3) fs show ?thesis by simp
    qed
    have "find_ticket repo t db' = find_ticket repo t db" if "t \<notin> set (tid # tids)" for t
      using IH Cons.prems(3) step(2) [of t repo] that by simp
    with IH Cons.prems(3) settled step(1) show ?thesis by (auto intro: ticket_more_trans)
  qed
qed auto

lemma materialize_row_facts:
  fixes db :: "'z ticket_db_scheme"
  assumes "materialize_row dump sha repo now r (files, db) = (files', db')"
  shows "ticket_more db db'" and "map_of files' t = (if t = ticket_key_id r then Some (render_row dump repo r db) else map_of files t)"
    and "find_ticket repo t db' = None \<longleftrightarrow> find_ticket repo t db = None"
  using assms mark_sync_more [of db] by (auto simp: materialize_row_def Let_def find_mark_sync update_conv' split: if_splits)

lemma materialize_missing_fold:
  fixes db :: "'z ticket_db_scheme"
  assumes "fold (\<lambda>r w. if ticket_id_ok (ticket_key_id r) \<and> map_of (fst w) (ticket_key_id r) = None
         then materialize_row dump sha repo now r w else w) rs (files, db) = (files', db')"
  shows "ticket_more db db' \<and> (\<forall>t. map_of files t \<noteq> None \<longrightarrow> map_of files' t = map_of files t) \<and>
    (\<forall>r \<in> set rs. ticket_id_ok (ticket_key_id r) \<longrightarrow> map_of files' (ticket_key_id r) \<noteq> None) \<and>
    (\<forall>t. find_ticket repo t db' = None \<longleftrightarrow> find_ticket repo t db = None)"
  using assms
proof (induction rs arbitrary: files db)
  case (Cons r rs)
  show ?case
  proof (cases "ticket_id_ok (ticket_key_id r) \<and> map_of files (ticket_key_id r) = None")
    case True
    obtain fs mid where m: "materialize_row dump sha repo now r (files, db) = (fs, mid)" by fastforce
    from Cons.prems True m have "fold (\<lambda>r w. if ticket_id_ok (ticket_key_id r) \<and> map_of (fst w) (ticket_key_id r) = None
         then materialize_row dump sha repo now r w else w) rs (fs, mid) = (files', db')" by simp
    note IH = Cons.IH [OF this] and M = materialize_row_facts [OF m]
    have "map_of files' t = map_of files t" if "map_of files t \<noteq> None" for t
    proof -
      from that True have "map_of fs t = map_of files t" using M(2) by auto
      with IH that show ?thesis by simp
    qed
    moreover have "map_of files' (ticket_key_id r) \<noteq> None" using IH M(2) by simp
    ultimately show ?thesis using IH M(1,3) by (auto intro: ticket_more_trans)
  next
    case False
    then have "fold (\<lambda>r w. if ticket_id_ok (ticket_key_id r) \<and> map_of (fst w) (ticket_key_id r) = None
         then materialize_row dump sha repo now r w else w) rs (files, db) = (files', db')" using Cons.prems by auto
    from Cons.IH [OF this] False show ?thesis by auto
  qed
qed simp

text \<open>
  C27: a pass over the documents keeps the tables intact whatever happens, and a pass that ends leaves everything
  in sync. Afterwards every ticket with a file name has its document, every document that can be read
  is synced with exactly the text in its file, and no document that existed was overwritten.
\<close>

theorem sync_pass_settles:
  fixes db db' :: "'z ticket_db_scheme"
  assumes "reconcile_all load dump sha repo now (files, db) = (r, files', db')" and "ticket_inv db"
  shows "ticket_inv db' \<and> ticket_keys db \<subseteq> ticket_keys db' \<and> (\<forall>t. map_of files t \<noteq> None \<longrightarrow> map_of files' t = map_of files t) \<and>
    (r = Inr () \<longrightarrow> (\<forall>t. ticket_id_ok t \<longrightarrow> document_settled load sha repo files' db' t))"
proof -
  obtain fs mid where m: "materialize_missing_md dump sha repo now (files, db) = (fs, mid)" by fastforce
  from assms(1) m have run: "reconcile_paths load dump sha repo now (scan_paths fs) (fs, mid) = (r, files', db')"
    by (simp add: reconcile_all_def)
  note M = materialize_missing_fold [OF m [unfolded materialize_missing_md_def]]
  from M assms(2) have inv: "ticket_inv mid" by (simp add: ticket_more_def)
  have "\<forall>t \<in> set (scan_paths fs). map_of fs t \<noteq> None" by (auto simp: scan_paths_def map_of_eq_None_iff)
  note P = reconcile_pathsE [OF run inv this]
  have more: "ticket_more db db'" using M P by (blast intro: ticket_more_trans)
  have "document_settled load sha repo files' db' t" if ok: "ticket_id_ok t" and r: "r = Inr ()" for t
  proof (cases "t \<in> set (scan_paths fs)")
    case True
    with P ok r show ?thesis by simp
  next
    case False
    then have absent: "map_of fs t = None" by (simp add: scan_paths_def map_of_eq_None_iff)
    have "find_ticket repo t db = None"
    proof (rule ccontr)
      assume "find_ticket repo t db \<noteq> None"
      then obtain x where "x \<in> set (ticket_rows db)" "this_ticket repo t x" using find_ticket_mem by blast
      with M ok have "map_of fs t \<noteq> None" by (auto simp: this_ticket_def)
      with absent show False by simp
    qed
    with M P False have "find_ticket repo t db' = None" by simp
    with absent P show ?thesis by (simp add: document_settled_def)
  qed
  with more assms(2) M P show ?thesis by (auto simp: ticket_more_def)
qed

section \<open>A dependency that is not there yet\<close>

lemma insert_or_ignore_error: "foldE (insert_dep_or_ignore repo tid) deps db = Inl e \<Longrightarrow> e = IntegrityError"
  by (induction deps arbitrary: db) (auto simp: bindE_eq_Inl insert_dep_or_ignore_def Let_def split: if_splits)

lemma ingest_dangling:
  assumes "ticket_inv db" and "u \<in> set (pt_deps p)" and "u \<noteq> tid" and "find_ticket repo u db = None"
  shows "ingest dump sha repo tid p h now db = Inl IntegrityError"
proof (cases "store_parsed repo tid p now db")
  case (Inl e)
  then have "e = IntegrityError"
    by (auto simp: store_parsed_def update_ticket_from_parsed_def insert_ticket_from_parsed_def insert_ticket_row_def split: if_splits)
  with Inl show ?thesis unfolding ingest_def store_parsed_def [symmetric] by simp
next
  case (Inr a)
  note A = store_parsedE [OF Inr]
  have "replace_deps repo tid (pt_deps p) a \<noteq> Inr b" for b
  proof
    assume b: "replace_deps repo tid (pt_deps p) a = Inr b"
    note B = replace_depsE [OF b]
    have "ticket_inv b" using A(6) B(6) assms(1) by (simp add: ticket_more_def)
    moreover have "\<lparr>dep_repository = repo, dep_ticket = tid, dep_on = u\<rparr> \<in> set (dep_rows b)" using B(1) assms(2,3) by simp
    ultimately have "(repo, u) \<in> ticket_keys b" by (auto simp: ticket_inv_def dep_ok_def)
    then have "find_ticket repo u b \<noteq> None" by (simp add: find_ticket_None)
    with A(1) B(2) assms(3,4) show False by (simp add: find_ticket_rows [OF B(2)])
  qed
  then obtain e where e: "replace_deps repo tid (pt_deps p) a = Inl e" by (cases "replace_deps repo tid (pt_deps p) a") auto
  then have "e = IntegrityError" unfolding replace_deps_def by (rule insert_or_ignore_error)
  with e Inr show ?thesis unfolding ingest_def store_parsed_def [symmetric] by simp
qed

text \<open>
  C40: one document that names a ticket the tables do not have stops the synchronisation. When the first file of a pass
  depends on such a ticket the pass raises and leaves everything as it was, so no later file is read, not
  even the one of the missing ticket, and every further pass ends the same way.
\<close>

theorem unknown_dependency_stops_sync:
  assumes "ticket_inv db" and "scan_paths files = tid # rest" and "ticket_id_ok tid" and "map_of files tid = Some raw"
    and "\<not> already_synced repo tid (sha raw) db" and "pt_error (parse_ticket load raw (Some tid)) = None"
    and "u \<in> set (pt_deps (parse_ticket load raw (Some tid)))" and "u \<noteq> tid" and "find_ticket repo u db = None"
    and "\<forall>r \<in> set (ticket_rows db). ticket_repository r = repo \<longrightarrow> map_of files (ticket_key_id r) \<noteq> None"
  shows "reconcile_all load dump sha repo now (files, db) = (Inl IntegrityError, files, db)"
proof -
  have same: "fold (\<lambda>r w. if ticket_id_ok (ticket_key_id r) \<and> map_of (fst w) (ticket_key_id r) = None
         then materialize_row dump sha repo now r w else w) rs (files, db) = (files, db)"
    if "\<forall>r \<in> set rs. map_of files (ticket_key_id r) \<noteq> None" for rs
    using that by (induction rs) auto
  have "materialize_missing_md dump sha repo now (files, db) = (files, db)"
    unfolding materialize_missing_md_def using assms(10) by (auto intro!: same)
  moreover have "reconcile_path load dump sha repo now tid (files, db) = Inl IntegrityError"
    using assms(3-6) ingest_dangling [OF assms(1,7,8,9)] by (simp add: reconcile_path_def Let_def)
  ultimately show ?thesis by (simp add: reconcile_all_def assms(2))
qed

section \<open>A sample\<close>

text \<open>
  Ticket \<open>t2\<close> of the sample store is written by hand: a document whose mapping the YAML of the sample reads as \<open>sample_yaml\<close>.
\<close>

definition sample_yaml :: yaml where
  "sample_yaml = frontmatter_yaml \<lparr>fm_title = Some ''T'', fm_deps = [''t1''], fm_harness = Some ''h'', fm_model = Some ''m'',
     fm_worktree = None, fm_parent = None\<rparr>"

definition dangling_yaml :: yaml where
  "dangling_yaml = frontmatter_yaml \<lparr>fm_title = Some ''T'', fm_deps = [''t9''], fm_harness = Some ''h'', fm_model = Some ''m'',
     fm_worktree = None, fm_parent = None\<rparr>"

definition sample_load :: "string \<Rightarrow> yaml_result" where
  "sample_load s = (if s = ''Y'' then YValue sample_yaml else if s = ''D'' then YValue dangling_yaml else YError ''bad'')"

definition sample_document :: string where
  "sample_document = ''---'' @ newline @ ''Y'' @ newline @ ''---'' @ newline @ ''# Checklist'' @ newline @ ''[x] go'' @ newline"

definition dangling_document :: string where
  "dangling_document = ''---'' @ newline @ ''D'' @ newline @ ''---'' @ newline"

lemma sample_parsed:
  "parse_ticket sample_load sample_document (Some ''t2'') = \<lparr>pt_title = Some ''T'', pt_deps = [''t1''], pt_harness = Some ''h'',
     pt_model = Some ''m'', pt_worktree = None, pt_parent = None, pt_body = ''# Checklist'' @ newline @ ''[x] go'' @ newline,
     pt_checklist = [(''go'', True)], pt_extras = [], pt_error = None\<rparr>"
  by code_simp

lemma dangling_parsed:
  "pt_error (parse_ticket sample_load dangling_document (Some ''t1'')) = None"
  "pt_deps (parse_ticket sample_load dangling_document (Some ''t1'')) = [''t9'']"
  by code_simp+

lemma sample_ids: "ticket_id_ok ''t1''" "ticket_id_ok ''t2''"
  by code_simp+

lemma sample_found: "find_ticket ''r'' t sample_ticket_store = (if t = ''t1'' then Some (sample_ticket ''t1'' TkDone)
    else if t = ''t2'' then Some (sample_ticket ''t2'' TkReady) else if t = ''t3'' then Some (sample_ticket ''t3'' TkInProgress)
    else if t = ''t4'' then Some (sample_ticket ''t4'' TkReady) else None)"
  by (auto simp: find_ticket_def this_ticket_def sample_ticket_def)

lemma sample_unsynced: "\<not> already_synced ''r'' t h sample_ticket_store"
  by (simp add: already_synced_def sample_found sample_ticket_def new_sync_def)

theorem document_read_exactly_witness:
  "\<exists>db'. reconcile_path sample_load (\<lambda>_. []) id ''r'' 0 ''t2'' ([(''t2'', sample_document)], sample_ticket_store) =
      Inr (None, [(''t2'', sample_document)], db') \<and> map item_content (stored_items ''r'' ''t2'' db') = [(''go'', True)]"
proof -
  let ?p = "parse_ticket sample_load sample_document (Some ''t2'')"
  have "\<exists>db'. ingest (\<lambda>_. []) id ''r'' ''t2'' ?p (id sample_document) 0 sample_ticket_store = Inr db'"
    by (rule ingest_returns) (simp_all add: sample_found sample_parsed unused_invalidation_def sample_inputs)
  then obtain db' where "reconcile_path sample_load (\<lambda>_. []) id ''r'' 0 ''t2'' ([(''t2'', sample_document)], sample_ticket_store) =
      Inr (None, [(''t2'', sample_document)], db')"
    using sample_unsynced sample_ids(2) by (auto simp: reconcile_path_def Let_def sample_parsed)
  from document_read_exactly [OF this sample_ids(2) _ sample_unsynced sample_ticket_store_inv refl] this show ?thesis
    by (auto simp: sample_parsed)
qed

definition written_ticket :: ticket_row where
  "written_ticket = (sample_ticket ''t2'' TkReady)\<lparr>ticket_harness := Some ''h'', ticket_model := Some ''m''\<rparr>"

definition written_store :: ticket_db where
  "written_store = sample_ticket_store\<lparr>ticket_rows := [sample_ticket ''t1'' TkDone, written_ticket],
     dep_rows := [sample_dep ''t2'' ''t1''],
     checklist_rows := [\<lparr>item_id = 0, item_repository = ''r'', item_ticket = ''t2'', item_ord = 0, item_text = ''go'', item_done = True,
       item_done_at = None\<rparr>], next_item := 1\<rparr>"

theorem ticket_document_roundtrip_witness:
  "\<exists>db'. reconcile_path sample_load (\<lambda>_. ''Y'') id ''r'' 0 ''t2'' ([(''t2'', sample_document)], written_store) =
      Inr (None, [(''t2'', sample_document)], db') \<and> set (dep_rows db') = {sample_dep ''t2'' ''t1''}"
proof -
  have found: "find_ticket ''r'' ''t2'' written_store = Some written_ticket"
    by (simp add: find_ticket_def written_store_def this_ticket_def sample_ticket_def written_ticket_def)
  have inv: "ticket_inv written_store"
    by (simp add: ticket_inv_def ticket_keys_def written_store_def written_ticket_def sample_ticket_def sample_dep_def ticket_ident_def
        parent_ok_def dep_ok_def item_ok_def)
  have deps: "stored_deps ''r'' ''t2'' written_store = [''t1'']" by (simp add: stored_deps_def written_store_def sample_dep_def)
  have front: "row_frontmatter ''r'' written_ticket written_store = \<lparr>fm_title = Some ''T'', fm_deps = [''t1''], fm_harness = Some ''h'',
      fm_model = Some ''m'', fm_worktree = None, fm_parent = None\<rparr>"
    using deps by (simp add: row_frontmatter_def written_ticket_def sample_ticket_def)
  have items: "map item_content (stored_items ''r'' ''t2'' written_store) = [(''go'', True)]"
    by (simp add: stored_items_def written_store_def items_of_def item_content_def)
  have key: "ticket_key_id written_ticket = ''t2''" by (simp add: written_ticket_def sample_ticket_def)
  have faithful: "yaml_faithful sample_load (\<lambda>_. ''Y'') (frontmatter_yaml (row_frontmatter ''r'' written_ticket written_store))"
    unfolding front by code_simp
  have "complete_frontmatter (row_frontmatter ''r'' written_ticket written_store)" unfolding front by code_simp
  moreover have "list_all item_clean [(''go'', True)]" by (simp add: item_clean_def trimmed_def is_space_def line_break_def)
  ultimately have can: "renderable ''r'' written_ticket written_store"
    using items by (simp add: renderable_def key list.pred_map [symmetric])
  have written: "render_row (\<lambda>_. ''Y'') ''r'' written_ticket written_store = sample_document"
    unfolding render_row_def front key items by code_simp
  have free: "unused_invalidation ''r'' ''t2'' written_store" by (simp add: unused_invalidation_def written_store_def sample_inputs)
  have unsynced: "\<not> already_synced ''r'' ''t2'' (id (render_row (\<lambda>_. ''Y'') ''r'' written_ticket written_store)) written_store"
    by (simp add: already_synced_def found written_ticket_def sample_ticket_def new_sync_def)
  have "map_of [(''t2'', sample_document)] ''t2'' = Some (render_row (\<lambda>_. ''Y'') ''r'' written_ticket written_store)" by (simp add: written)
  from ticket_document_roundtrip [where sha = id, OF found can faithful inv free sample_ids(2) this unsynced, of 0]
  show ?thesis by (auto simp: written_store_def)
qed

theorem unknown_dependency_stops_sync_witness:
  "reconcile_all sample_load (\<lambda>_. []) id ''r'' 0 ([(''t1'', dangling_document), (''t2'', []), (''t3'', []), (''t4'', []), (''t9'', [])], sample_ticket_store) =
    (Inl IntegrityError, [(''t1'', dangling_document), (''t2'', []), (''t3'', []), (''t4'', []), (''t9'', [])], sample_ticket_store)"
proof -
  have "scan_paths [(''t1'', dangling_document), (''t2'', []), (''t3'', []), (''t4'', []), (''t9'', [])] = [''t1'', ''t2'', ''t3'', ''t4'', ''t9'']"
    by (simp add: scan_paths_def)
  then show ?thesis
    by (rule unknown_dependency_stops_sync [OF sample_ticket_store_inv, where u = "''t9''" and raw = dangling_document])
      (use dangling_parsed in \<open>simp_all add: sample_ids sample_unsynced sample_found sample_ticket_def\<close>)
qed

theorem sync_pass_settles_witness:
  "\<exists>r files' db'. reconcile_all sample_load (\<lambda>_. []) id ''r'' 0 ([(''t2'', sample_document)], sample_ticket_store) = (r, files', db') \<and>
     ticket_inv db' \<and> map_of files' ''t2'' = Some sample_document"
proof -
  obtain r files' db' where run: "reconcile_all sample_load (\<lambda>_. []) id ''r'' 0 ([(''t2'', sample_document)], sample_ticket_store) = (r, files', db')"
    by (metis prod.exhaust)
  from sync_pass_settles [OF this sample_ticket_store_inv] run show ?thesis by simp
qed

end
