(* ===== verification/StageOrder.thy ===== *)
theory StageOrder
  imports TicketSync
begin

text \<open>
  What the materialisation of a template rests on: the order in which its stages become tickets
  (\<open>_topo_sorted\<close> of \<open>murder/work/workflows/materialize.py\<close>, Kahn's algorithm), the allocation of ticket ids
  from one scan (\<open>_allocate_ids\<close>, and \<open>next_ticket_id\<close> of \<open>murder/runtime/orchestration/ticket_ops.py\<close>), and
  the placeholders of a template (\<open>_fill\<close>).
\<close>

section \<open>Stages in topological order\<close>

text \<open>\<open>dependents\<close>: one entry for every occurrence of the stage among the dependencies of another.\<close>

definition dependents :: "stage_def list \<Rightarrow> string \<Rightarrow> string list" where
  "dependents stages sid = concat (map (\<lambda>s. map (\<lambda>_. stage_id s) (filter (\<lambda>d. d = sid) (depends_on s))) stages)"

text \<open>A dictionary comprehension over the stages: a later stage with the same id replaces an earlier one.\<close>

definition by_id :: "stage_def list \<Rightarrow> string \<Rightarrow> stage_def option" where
  "by_id stages sid = find (\<lambda>s. stage_id s = sid) (rev stages)"

definition initial_indegree :: "stage_def list \<Rightarrow> string \<Rightarrow> int" where
  "initial_indegree stages sid = (case by_id stages sid of None \<Rightarrow> 0 | Some s \<Rightarrow> int (length (depends_on s)))"

text \<open>The inner loop: every dependent loses one dependency, and one that has lost its last is ready.\<close>

definition relax :: "string list \<Rightarrow> (string \<Rightarrow> int) \<times> string list \<Rightarrow> (string \<Rightarrow> int) \<times> string list" where
  "relax children = fold (\<lambda>c (indegree, ready).
     let n = indegree c - 1 in (indegree(c := n), if n = 0 then ready @ [c] else ready)) children"

definition waiting_stages :: "stage_def list \<Rightarrow> (string \<Rightarrow> int) \<Rightarrow> nat" where
  "waiting_stages stages indegree = length (filter (\<lambda>s. 0 < indegree (stage_id s)) stages)"

lemma length_filter_mono: "(\<And>y. y \<in> set xs \<Longrightarrow> Q y \<Longrightarrow> P y) \<Longrightarrow> length (filter Q xs) \<le> length (filter P xs)"
  by (induction xs) (auto intro: le_SucI)

lemma length_filter_less:
  assumes "x \<in> set xs" and "P x" and "\<not> Q x" and "\<And>y. y \<in> set xs \<Longrightarrow> Q y \<Longrightarrow> P y"
  shows "length (filter Q xs) < length (filter P xs)"
proof -
  obtain as bs where xs: "xs = as @ x # bs" using assms(1) split_list by fast
  from assms(4) have "length (filter Q as) \<le> length (filter P as)" "length (filter Q bs) \<le> length (filter P bs)"
    by (auto simp: xs intro: length_filter_mono)
  with assms(2,3) show ?thesis by (simp add: xs)
qed

lemma relax_measure:
  assumes "\<forall>c \<in> set children. c \<in> stage_id ` set stages" and "relax children (indegree, ready) = (indegree', ready')"
  shows "length ready' + waiting_stages stages indegree' \<le> length ready + waiting_stages stages indegree"
  using assms
proof (induction children arbitrary: indegree ready)
  case (Cons c cs)
  let ?n = "indegree c - 1"
  let ?i = "indegree(c := ?n)" and ?r = "if ?n = 0 then ready @ [c] else ready"
  have "relax cs (?i, ?r) = (indegree', ready')" using Cons.prems(2) by (simp add: relax_def Let_def)
  with Cons.IH Cons.prems(1) have le: "length ready' + waiting_stages stages indegree' \<le> length ?r + waiting_stages stages ?i" by simp
  have mono: "waiting_stages stages ?i \<le> waiting_stages stages indegree"
    unfolding waiting_stages_def by (induction stages) auto
  show ?case
  proof (cases "?n = 0")
    case True
    from Cons.prems(1) obtain s where s: "s \<in> set stages" "stage_id s = c" by auto
    have "waiting_stages stages ?i < waiting_stages stages indegree"
      unfolding waiting_stages_def by (rule length_filter_less [OF s(1)]) (use s(2) True in \<open>auto split: if_splits\<close>)
    with le True show ?thesis by simp
  qed (use le mono in simp)
qed (simp add: relax_def)

lemma dependents_stages: "c \<in> set (dependents stages sid) \<Longrightarrow> c \<in> stage_id ` set stages"
  by (auto simp: dependents_def)

function kahn :: "stage_def list \<Rightarrow> (string \<Rightarrow> int) \<Rightarrow> string list \<Rightarrow> string list \<Rightarrow> string list" where
  "kahn stages indegree [] out = out"
| "kahn stages indegree (sid # ready) out =
     (case relax (dependents stages sid) (indegree, ready) of (indegree, ready) \<Rightarrow> kahn stages indegree ready (out @ [sid]))"
  by pat_completeness auto
termination
  by (relation "measure (\<lambda>(stages, indegree, ready, out). length ready + waiting_stages stages indegree)")
    (auto dest!: sym [of _ "relax _ _"] relax_measure [rotated] dependents_stages simp: less_Suc_eq_le)

definition topo_sorted :: "stage_def list \<Rightarrow> exn + stage_def list" where
  "topo_sorted stages =
     (case find (\<lambda>d. \<not> List.member (map stage_id stages) d) (concat (map depends_on stages)) of
        Some d \<Rightarrow> Inl (KeyError d)
      | None \<Rightarrow>
          let indegree = initial_indegree stages;
              ready = filter (\<lambda>sid. indegree sid = 0) (map stage_id stages)
          in Inr (List.map_filter (by_id stages) (kahn stages indegree ready [])))"

subsection \<open>The order is topological\<close>

lemma relax_distinct:
  assumes "distinct children"
  shows "relax children (indegree, ready) =
    (\<lambda>x. if x \<in> set children then indegree x - 1 else indegree x, ready @ filter (\<lambda>c. indegree c = 1) children)"
  using assms
proof (induction children arbitrary: indegree ready)
  case (Cons c cs)
  have "relax (c # cs) (indegree, ready) = relax cs (indegree(c := indegree c - 1), if indegree c = 1 then ready @ [c] else ready)"
    by (simp add: relax_def Let_def)
  also have "\<dots> = (\<lambda>x. if x \<in> set cs then (indegree(c := indegree c - 1)) x - 1 else (indegree(c := indegree c - 1)) x,
      (if indegree c = 1 then ready @ [c] else ready) @ filter (\<lambda>x. (indegree(c := indegree c - 1)) x = 1) cs)"
    using Cons by simp
  also have "filter (\<lambda>x. (indegree(c := indegree c - 1)) x = 1) cs = filter (\<lambda>x. indegree x = 1) cs"
    using Cons.prems by (intro filter_cong) auto
  finally show ?case using Cons.prems by (auto simp: fun_eq_iff)
qed (simp add: relax_def)

text \<open>The dependencies of a stage by id, in a list of stages with unique ids.\<close>

definition deps_by_id :: "stage_def list \<Rightarrow> string \<Rightarrow> string list" where
  "deps_by_id stages sid = (case by_id stages sid of None \<Rightarrow> [] | Some s \<Rightarrow> depends_on s)"

lemma by_id_unique:
  assumes "distinct (map stage_id stages)" and "s \<in> set stages"
  shows "by_id stages (stage_id s) = Some s"
proof -
  have "distinct (map stage_id (rev stages))" using assms(1) by (simp add: rev_map [symmetric])
  from find_key [OF this] assms(2) show ?thesis by (simp add: by_id_def)
qed

lemma deps_by_id_stage: "distinct (map stage_id stages) \<Longrightarrow> s \<in> set stages \<Longrightarrow> deps_by_id stages (stage_id s) = depends_on s"
  by (simp add: deps_by_id_def by_id_unique)

lemma dependents_exact:
  assumes "distinct (map stage_id stages)" and "\<forall>s \<in> set stages. distinct (depends_on s)"
  shows "distinct (dependents stages sid)" and "c \<in> set (dependents stages sid) \<longleftrightarrow> c \<in> stage_id ` set stages \<and> sid \<in> set (deps_by_id stages c)"
proof -
  have one: "map (\<lambda>_. stage_id s) (filter (\<lambda>d. d = sid) (depends_on s)) = (if sid \<in> set (depends_on s) then [stage_id s] else [])"
    if s: "s \<in> set stages" for s
  proof -
    have "filter (\<lambda>d. d = sid) ds = (if sid \<in> set ds then [sid] else [])" if "distinct ds" for ds
      using that by (induction ds) (auto simp: filter_empty_conv)
    note f = this [of "depends_on s"]
    from assms(2) s have "distinct (depends_on s)" by blast
    then have "filter (\<lambda>d. d = sid) (depends_on s) = (if sid \<in> set (depends_on s) then [sid] else [])" by (rule f)
    then show ?thesis by (cases "sid \<in> set (depends_on s)") (simp_all del: filter_empty_conv)
  qed
  then have eq: "dependents stages sid = concat (map (\<lambda>s. if sid \<in> set (depends_on s) then [stage_id s] else []) stages)"
    unfolding dependents_def by (intro arg_cong [where f = concat] map_cong refl one)
  have "dependents stages sid = map stage_id (filter (\<lambda>s. sid \<in> set (depends_on s)) stages)"
    unfolding eq by (induction stages) auto
  then show "distinct (dependents stages sid)" "c \<in> set (dependents stages sid) \<longleftrightarrow> c \<in> stage_id ` set stages \<and> sid \<in> set (deps_by_id stages c)"
    using assms(1) deps_by_id_stage [OF assms(1)] by (auto simp: distinct_map intro: inj_on_subset)
qed

text \<open>What the loop keeps: the stages out and ready are the ones whose dependencies are out, in a topological order.\<close>

definition kahn_inv :: "stage_def list \<Rightarrow> (string \<Rightarrow> int) \<Rightarrow> string list \<Rightarrow> string list \<Rightarrow> bool" where
  "kahn_inv stages indegree ready out \<longleftrightarrow> distinct (out @ ready) \<and> set (out @ ready) \<subseteq> stage_id ` set stages \<and>
     (\<forall>sid \<in> stage_id ` set stages. indegree sid = int (length (filter (\<lambda>d. d \<notin> set out) (deps_by_id stages sid))) \<and>
        (sid \<in> set (out @ ready) \<longleftrightarrow> set (deps_by_id stages sid) \<subseteq> set out)) \<and>
     (\<forall>i < length out. set (deps_by_id stages (out ! i)) \<subseteq> set (take i out))"

lemma length_filter_remove:
  assumes "distinct ds"
  shows "int (length (filter (\<lambda>d. d \<notin> set (out @ [sid])) ds)) =
    int (length (filter (\<lambda>d. d \<notin> set out) ds)) - (if sid \<in> set ds \<and> sid \<notin> set out then 1 else 0)"
  using assms by (induction ds) auto

lemma kahn_step:
  assumes "well_formed_stages stages" and "kahn_inv stages indegree (sid # ready) out"
    and "relax (dependents stages sid) (indegree, ready) = (indegree', ready')"
  shows "kahn_inv stages indegree' ready' (out @ [sid])"
proof -
  have ids: "distinct (map stage_id stages)" and deps: "\<forall>s \<in> set stages. distinct (depends_on s)"
    using assms(1) by (auto simp: well_formed_stages_def)
  note D = dependents_exact [OF ids deps, where sid = sid]
  from assms(3) have new: "indegree' = (\<lambda>x. if x \<in> set (dependents stages sid) then indegree x - 1 else indegree x)"
    "ready' = ready @ filter (\<lambda>c. indegree c = 1) (dependents stages sid)"
    by (simp_all add: relax_distinct [OF D(1)])
  from assms(2) have dist: "distinct (out @ sid # ready)" and sub: "set (out @ sid # ready) \<subseteq> stage_id ` set stages"
    and deg: "\<And>x. x \<in> stage_id ` set stages \<Longrightarrow> indegree x = int (length (filter (\<lambda>d. d \<notin> set out) (deps_by_id stages x)))"
    and ready: "\<And>x. x \<in> stage_id ` set stages \<Longrightarrow> x \<in> set (out @ sid # ready) \<longleftrightarrow> set (deps_by_id stages x) \<subseteq> set out"
    and topo: "\<And>i. i < length out \<Longrightarrow> set (deps_by_id stages (out ! i)) \<subseteq> set (take i out)"
    unfolding kahn_inv_def by blast+
  have ddist: "distinct (deps_by_id stages x)" for x
    using deps by (auto simp: deps_by_id_def by_id_def dest!: find_Some_mem split: option.splits)
  have deg': "indegree' x = int (length (filter (\<lambda>d. d \<notin> set (out @ [sid])) (deps_by_id stages x)))" if "x \<in> stage_id ` set stages" for x
    unfolding length_filter_remove [OF ddist] using deg [OF that] D(2) [of x] that dist by (auto simp: new)
  have last: "x \<in> set (dependents stages sid) \<and> indegree x = 1 \<longleftrightarrow>
      set (deps_by_id stages x) \<subseteq> set (out @ [sid]) \<and> \<not> set (deps_by_id stages x) \<subseteq> set out" if x: "x \<in> stage_id ` set stages" for x
  proof -
    have "indegree' x = 0 \<longleftrightarrow> set (deps_by_id stages x) \<subseteq> set (out @ [sid])"
      unfolding deg' [OF x] by (auto simp: filter_empty_conv)
    moreover have "indegree x = 0 \<longleftrightarrow> set (deps_by_id stages x) \<subseteq> set out"
      unfolding deg [OF x] by (auto simp: filter_empty_conv)
    moreover have "indegree' x = (if x \<in> set (dependents stages sid) then indegree x - 1 else indegree x)" by (simp add: new(1))
    moreover have "indegree x \<noteq> 0" if "\<not> set (deps_by_id stages x) \<subseteq> set out"
      using that calculation(2) by blast
    ultimately show ?thesis using set_mp [of "set out" "set (out @ [sid])"] by (cases "x \<in> set (dependents stages sid)") auto
  qed
  have mem': "x \<in> set (out @ [sid] @ ready') \<longleftrightarrow> set (deps_by_id stages x) \<subseteq> set (out @ [sid])" if x: "x \<in> stage_id ` set stages" for x
    using ready [OF x] last [OF x] by (auto simp: new(2))
  have fresh: "x \<notin> set (out @ sid # ready)" if "x \<in> set (dependents stages sid)" "indegree x = 1" for x
  proof -
    have x: "x \<in> stage_id ` set stages" using D(2) that(1) by blast
    from last [OF x] ready [OF x] that show ?thesis by blast
  qed
  have "distinct (out @ [sid] @ ready')" using dist D(1) fresh by (auto simp: new(2))
  moreover have "set (out @ [sid] @ ready') \<subseteq> stage_id ` set stages" using sub D(2) by (auto simp: new(2))
  moreover have "set (deps_by_id stages ((out @ [sid]) ! i)) \<subseteq> set (take i (out @ [sid]))" if "i < length (out @ [sid])" for i
  proof (cases "i < length out")
    case True
    with topo show ?thesis by (simp add: nth_append)
  next
    case False
    with that ready [of sid] sub show ?thesis by (simp add: nth_append not_less le_Suc_eq)
  qed
  ultimately show ?thesis using deg' mem' unfolding kahn_inv_def by simp
qed

lemma kahn_invE:
  "kahn_inv stages indegree ready out \<Longrightarrow> well_formed_stages stages \<Longrightarrow> \<exists>indegree'. kahn_inv stages indegree' [] (kahn stages indegree ready out)"
proof (induction stages indegree ready out rule: kahn.induct)
  case (1 stages indegree out)
  then show ?case by auto
next
  case (2 stages indegree sid ready out)
  obtain indegree' ready' where r: "relax (dependents stages sid) (indegree, ready) = (indegree', ready')" by fastforce
  from 2(1) [OF r [symmetric] kahn_step [OF 2(3,2) r] 2(3)] show ?case by (simp add: r)
qed

lemma kahn_complete:
  assumes "well_formed_stages stages" and "kahn_inv stages indegree [] out"
  shows "set out = stage_id ` set stages"
proof (rule ccontr)
  assume "set out \<noteq> stage_id ` set stages"
  with assms(2) obtain x where x: "x \<in> stage_id ` set stages" "x \<notin> set out" by (auto simp: kahn_inv_def)
  have ids: "distinct (map stage_id stages)" using assms(1) by (simp add: well_formed_stages_def)
  let ?R = "(dependency_graph stages)\<inverse>"
  have "finite (dependency_graph stages)"
  proof -
    have "dependency_graph stages = (\<Union>s \<in> set stages. (\<lambda>d. (stage_id s, d)) ` set (depends_on s))"
      by (auto simp: dependency_graph_def)
    then show ?thesis by simp
  qed
  then have "wf ?R" using assms(1) by (intro finite_acyclic_wf_converse) (simp_all add: well_formed_stages_def)
  then have "x \<in> stage_id ` set stages \<longrightarrow> x \<in> set out"
  proof (induction x rule: wf_induct_rule)
    case (less x)
    show ?case
    proof
      assume "x \<in> stage_id ` set stages"
      then obtain s where s: "s \<in> set stages" "x = stage_id s" by auto
      have "d \<in> set out" if "d \<in> set (depends_on s)" for d
      proof -
        have "(d, x) \<in> ?R" using s that by (auto simp: dependency_graph_def)
        moreover have "d \<in> stage_id ` set stages" using assms(1) s(1) that by (auto simp: well_formed_stages_def)
        ultimately show ?thesis using less by blast
      qed
      then have "set (deps_by_id stages x) \<subseteq> set out" using deps_by_id_stage [OF ids s(1)] s(2) by auto
      with assms(2) s show "x \<in> set out" by (auto simp: kahn_inv_def)
    qed
  qed
  with x show False by simp
qed

lemma initial_kahn_inv:
  assumes "well_formed_stages stages"
  shows "kahn_inv stages (initial_indegree stages) (filter (\<lambda>sid. initial_indegree stages sid = 0) (map stage_id stages)) []"
proof -
  have "distinct (map stage_id stages)" using assms by (simp add: well_formed_stages_def)
  then show ?thesis
    unfolding kahn_inv_def
    by (auto simp: initial_indegree_def deps_by_id_def by_id_unique distinct_map intro: inj_on_subset split: option.splits)
qed

lemma topo_sortedE:
  assumes "well_formed_stages stages"
  obtains ss where "topo_sorted stages = Inr ss" "distinct (map stage_id ss)" "set ss = set stages" "length ss = length stages"
    "\<And>i. i < length ss \<Longrightarrow> set (depends_on (ss ! i)) \<subseteq> stage_id ` set (take i ss)"
proof -
  have ids: "distinct (map stage_id stages)" using assms by (simp add: well_formed_stages_def)
  let ?out = "kahn stages (initial_indegree stages) (filter (\<lambda>sid. initial_indegree stages sid = 0) (map stage_id stages)) []"
  obtain indegree where inv: "kahn_inv stages indegree [] ?out" using kahn_invE [OF initial_kahn_inv assms] assms by blast
  note all = kahn_complete [OF assms inv]
  have find: "\<exists>s \<in> set stages. by_id stages sid = Some s \<and> stage_id s = sid" if "sid \<in> set ?out" for sid
    using that by_id_unique [OF ids] unfolding all by auto
  let ?ss = "List.map_filter (by_id stages) ?out"
  have sids: "map stage_id (List.map_filter (by_id stages) xs) = xs" "length (List.map_filter (by_id stages) xs) = length xs"
    if "set xs \<subseteq> set ?out" for xs
    using that find by (induction xs) (fastforce simp: map_filter_simps)+
  have ss: "map stage_id ?ss = ?out" using sids(1) by simp
  have dist: "distinct (map stage_id ?ss)" unfolding ss using inv by (simp add: kahn_inv_def)
  have sub: "set ?ss \<subseteq> set stages" using find by (force simp: map_filter_def)
  have same: "set ?ss = set stages"
  proof
    show "set stages \<subseteq> set ?ss"
    proof
      fix s assume s: "s \<in> set stages"
      have "stage_id ` set ?ss = stage_id ` set stages" using arg_cong [OF ss, of set] all by simp
      then have "stage_id s \<in> stage_id ` set ?ss" using s by simp
      then obtain t where t: "t \<in> set ?ss" "stage_id t = stage_id s" by auto
      then have "t = s" using distinct_key_eq [OF ids _ s] sub by blast
      with t show "s \<in> set ?ss" by simp
    qed
  qed (rule sub)
  have topo: "set (depends_on (?ss ! i)) \<subseteq> stage_id ` set (take i ?ss)" if i: "i < length ?ss" for i
  proof -
    have "stage_id (?ss ! i) = ?out ! i" using arg_cong [OF ss, of "\<lambda>xs. xs ! i"] i by simp
    moreover have "depends_on (?ss ! i) = deps_by_id stages (stage_id (?ss ! i))"
      using deps_by_id_stage [OF ids subsetD [OF sub nth_mem [OF i]]] by simp
    moreover have "set (deps_by_id stages (?out ! i)) \<subseteq> set (take i ?out)" using inv i sids(2) [of ?out] by (simp add: kahn_inv_def)
    moreover have "stage_id ` set (take i ?ss) = set (take i ?out)"
      using arg_cong [OF ss, of "\<lambda>xs. set (take i xs)"] by (simp add: take_map)
    ultimately show ?thesis by simp
  qed
  have "find (\<lambda>d. \<not> List.member (map stage_id stages) d) (concat (map depends_on stages)) = None"
    using assms by (auto simp: find_eq_None well_formed_stages_def)
  then have "topo_sorted stages = Inr ?ss" by (simp add: topo_sorted_def Let_def)
  moreover have "length ?ss = length stages"
    using distinct_card [of ?ss] distinct_card [of stages] dist ids same by (simp add: distinct_map)
  ultimately show thesis using that dist same topo by blast
qed

text \<open>
  C28: the stages of a valid template are put in a topological order. The search ends, returns every stage exactly
  once, and a stage comes after all the stages it depends on, so a ticket never refers to one that does
  not exist yet.
\<close>

theorem topo_sorted_exact:
  assumes "validate_workflow defn = []"
  shows "\<exists>ss. topo_sorted (wf_stages defn) = Inr ss \<and> distinct (map stage_id ss) \<and> set ss = set (wf_stages defn) \<and>
    length ss = length (wf_stages defn) \<and>
    (\<forall>i < length ss. set (depends_on (ss ! i)) \<subseteq> stage_id ` set (take i ss))"
  by (rule topo_sortedE [OF validate_well_formed [OF assms]]) blast

theorem topo_sorted_exact_witness:
  "\<exists>ss. topo_sorted [sample_stage ''b'' [''a''], sample_stage ''a'' []] = Inr ss \<and> length ss = 2"
proof -
  have "validate_workflow (sample_workflow [sample_stage ''b'' [''a''], sample_stage ''a'' []]) = []"
    by (simp add: validate_workflow_def workflow_issues_def name_issues_def stage_issues_def
        sample_workflow_simps find_cycle_def adjacency_def setdefault_def deps_of_def name_re_def
        dollar_def stage_id_re_def ident_char_def blank_def Let_def less_eq_char_def dfs_loop.simps)
  from topo_sorted_exact [OF this] show ?thesis by (auto simp: sample_workflow_def)
qed

section \<open>Allocating ids\<close>

definition digit_value :: "char \<Rightarrow> nat" where
  "digit_value c = of_char c - 48"

definition decimal_value :: "string \<Rightarrow> nat" where
  "decimal_value ds = foldl (\<lambda>n c. 10 * n + digit_value c) 0 ds"

text \<open>\<open>^t(\d+)$\<close>, where \<open>$\<close> also matches before one final line feed.\<close>

definition ticket_number :: "string \<Rightarrow> nat option" where
  "ticket_number s =
     (let body = (if s \<noteq> [] \<and> last s = CHR 0x0A then butlast s else s) in
      case body of [] \<Rightarrow> None
      | c # ds \<Rightarrow> if c = CHR ''t'' \<and> ds \<noteq> [] \<and> list_all is_decimal ds then Some (decimal_value ds) else None)"

definition known_ids :: "string \<Rightarrow> files \<times> 'z ticket_db_scheme \<Rightarrow> string list" where
  "known_ids repo = (\<lambda>(files, db). map ticket_key_id (filter (\<lambda>r. ticket_repository r = repo) (ticket_rows db)) @ map fst files)"

definition highest_number :: "string list \<Rightarrow> nat" where
  "highest_number ids = fold max (List.map_filter ticket_number ids) 0"

definition numbered_id :: "nat \<Rightarrow> string" where
  "numbered_id n = ''t'' @ pad_left 3 (nat_text n)"

definition allocate_ids :: "string \<Rightarrow> nat \<Rightarrow> files \<times> 'z ticket_db_scheme \<Rightarrow> string list" where
  "allocate_ids repo count w = map (\<lambda>i. numbered_id (highest_number (known_ids repo w) + i)) [1..<Suc count]"

definition next_ticket_id :: "string \<Rightarrow> files \<times> 'z ticket_db_scheme \<Rightarrow> string" where
  "next_ticket_id repo w = numbered_id (highest_number (known_ids repo w) + 1)"

lemma digit_char_facts:
  assumes "d < 10"
  shows "is_decimal (digit_char d)" and "digit_value (digit_char d) = d"
  using assms by (simp_all add: is_decimal_def digit_value_def digit_char_def of_char_of)

lemma nat_text_decimal: "list_all is_decimal (nat_text n) \<and> nat_text n \<noteq> [] \<and> decimal_value (nat_text n) = n"
proof (induction n rule: nat_text.induct)
  case (1 n)
  show ?case
  proof (cases "n < 10")
    case True
    then show ?thesis by (simp add: nat_text.simps [of n] digit_char_facts decimal_value_def)
  next
    case False
    with 1 have IH: "list_all is_decimal (nat_text (n div 10))" "nat_text (n div 10) \<noteq> []" "decimal_value (nat_text (n div 10)) = n div 10"
      by blast+
    have "n mod 10 < 10" by simp
    note d = digit_char_facts [OF this]
    have t: "nat_text n = nat_text (n div 10) @ [digit_char (n mod 10)]" using False by (simp add: nat_text.simps [of n])
    have "decimal_value (nat_text n) = 10 * decimal_value (nat_text (n div 10)) + n mod 10"
      by (simp add: t decimal_value_def d)
    with IH d show ?thesis by (simp add: t)
  qed
qed

lemma decimal_value_pad: "decimal_value (replicate k (CHR ''0'') @ ds) = decimal_value ds"
  by (induction k) (simp_all add: decimal_value_def digit_value_def)

lemma ticket_number_numbered [simp]: "ticket_number (numbered_id n) = Some n"
proof -
  let ?ds = "pad_left 3 (nat_text n)"
  have zero: "is_decimal (CHR ''0'')" by (simp add: is_decimal_def)
  have ds: "list_all is_decimal ?ds" "?ds \<noteq> []" "decimal_value ?ds = n"
    using nat_text_decimal [of n] zero by (auto simp: pad_left_def decimal_value_pad list_all_iff)
  have "last ?ds \<in> set ?ds" using ds(2) by simp
  with ds(1) have "is_decimal (last ?ds)" by (simp add: list_all_iff)
  then have "last ?ds \<noteq> CHR 0x0A" by (auto simp: is_decimal_def)
  with ds show ?thesis by (simp add: ticket_number_def numbered_id_def)
qed

lemma numbered_id_inj: "numbered_id m = numbered_id n \<Longrightarrow> m = n"
  by (metis option.inject ticket_number_numbered)

lemma fold_max_ge: "(x::nat) \<in> set xs \<or> x \<le> a \<Longrightarrow> x \<le> fold max xs a"
proof (induction xs arbitrary: a)
  case (Cons y ys)
  from Cons.prems have "x \<in> set ys \<or> x \<le> max y a" by auto
  from Cons.IH [OF this] show ?case by simp
qed simp

lemma highest_number_ge: "s \<in> set ids \<Longrightarrow> ticket_number s = Some n \<Longrightarrow> n \<le> highest_number ids"
  unfolding highest_number_def by (rule fold_max_ge) (force simp: map_filter_def)

lemma allocate_ids_fresh:
  fixes db :: "'z ticket_db_scheme"
  shows "distinct (allocate_ids repo count (files, db))" and "length (allocate_ids repo count (files, db)) = count"
    and "t \<in> set (allocate_ids repo count (files, db)) \<Longrightarrow> find_ticket repo t db = None \<and> map_of files t = None"
proof -
  show "distinct (allocate_ids repo count (files, db))" "length (allocate_ids repo count (files, db)) = count"
    by (auto simp: allocate_ids_def distinct_map inj_on_def dest: numbered_id_inj)
  assume "t \<in> set (allocate_ids repo count (files, db))"
  then obtain i where i: "1 \<le> i" "t = numbered_id (highest_number (known_ids repo (files, db)) + i)"
    by (auto simp: allocate_ids_def)
  have new: "t \<notin> set (known_ids repo (files, db))"
  proof
    assume "t \<in> set (known_ids repo (files, db))"
    from highest_number_ge [OF this, of "highest_number (known_ids repo (files, db)) + i"] i show False by simp
  qed
  then show "find_ticket repo t db = None \<and> map_of files t = None"
    by (auto simp: known_ids_def map_of_eq_None_iff find_ticket_def find_eq_None this_ticket_def)
qed

lemma next_ticket_id_fresh:
  fixes db :: "'z ticket_db_scheme"
  shows "find_ticket repo (next_ticket_id repo (files, db)) db = None \<and> map_of files (next_ticket_id repo (files, db)) = None"
  using allocate_ids_fresh(3) [of "next_ticket_id repo (files, db)" repo 1 files db] by (simp add: allocate_ids_def next_ticket_id_def)

lemma numbered_id_ok: "ticket_id_ok (numbered_id n)"
proof -
  let ?ds = "pad_left 3 (nat_text n)"
  have "list_all is_decimal ?ds" "?ds \<noteq> []" using nat_text_decimal [of n] by (auto simp: pad_left_def list_all_iff is_decimal_def)
  moreover have "is_decimal c \<Longrightarrow> is_upper_lower_digit c" for c by (auto simp: is_decimal_def is_upper_lower_digit_def Let_def)
  moreover have "is_upper_lower_digit (CHR ''t'')" by (simp add: is_upper_lower_digit_def)
  ultimately show ?thesis by (cases ?ds) (auto simp: ticket_id_ok_def numbered_id_def list_all_iff)
qed

section \<open>Placeholders\<close>

text \<open>
  \<open>re.sub\<close> of \<open>\{([A-Za-z0-9_-]+)\}\<close>: a brace is a placeholder when the longest run of name characters after it is not
  empty and a closing brace follows; an unknown name stays as it is. No argument at all leaves the text alone.
\<close>

function substitute :: "(string \<times> string) list \<Rightarrow> string \<Rightarrow> string" where
  "substitute args [] = []"
| "substitute args (c # s) =
     (let name = takeWhile ident_char s; rest = dropWhile ident_char s in
      if c = CHR 0x7B \<and> name \<noteq> [] \<and> rest \<noteq> [] \<and> hd rest = CHR 0x7D
      then (case map_of args name of Some v \<Rightarrow> v | None \<Rightarrow> c # name @ [CHR 0x7D]) @ substitute args (tl rest)
      else c # substitute args s)"
  by pat_completeness auto
termination
  by (relation "measure (\<lambda>(args, s). length s)") (auto simp: less_Suc_eq_le intro: le_trans [OF diff_le_self length_dropWhile_le])

definition fill :: "(string \<times> string) list \<Rightarrow> string \<Rightarrow> string" where
  "fill args text = (if args = [] then text else substitute args text)"

end
