(* ===== verification/Materialize.thy ===== *)
theory Materialize
  imports StageOrder
begin

text \<open>
  The launch of a template, \<open>murder/work/workflows/materialize.py\<close>: the documents of the run and its stages, the
  loop that writes each one, reads it into the tables and marks it ready, the workflow run that is stored
  last, and the clean-up after a failure. Every step is a transaction of its own, so the launch answers
  with a value or an error next to the files and tables it leaves. Arguments are a dictionary; no arguments
  and \<open>None\<close> are treated alike by the code. \<open>at\<close> is the time the caller passes as text, \<open>now\<close> the clock.
\<close>

section \<open>Documents\<close>

definition plan_lines :: "workflow_def \<Rightarrow> (string \<times> string) list \<Rightarrow> string list" where
  "plan_lines defn args = [''Workflow run: '' @ wf_name defn] @
     (if wf_description defn = [] then [] else ['''', wf_description defn]) @
     (if args = [] then [] else ['''', ''Arguments:''] @ map (\<lambda>(k, v). ''- '' @ k @ '': '' @ v) (sort_key fst args))"

definition run_document :: "workflow_def \<Rightarrow> (string \<times> string) list \<Rightarrow> string" where
  "run_document defn args = ''# Workflow: '' @ wf_name defn @ newline @ newline @
     render_sections (join_text newline (plan_lines defn args)) []"

definition stage_frontmatter :: "(string \<times> string) list \<Rightarrow> string \<Rightarrow> string list \<Rightarrow> stage_def \<Rightarrow> frontmatter" where
  "stage_frontmatter args run_ticket deps s = \<lparr>fm_title = Some (fill args (stage_title s)), fm_deps = deps,
     fm_harness = stage_harness s, fm_model = stage_model s, fm_worktree = stage_worktree s, fm_parent = Some run_ticket\<rparr>"

definition stage_document :: "(yaml \<Rightarrow> string) \<Rightarrow> (string \<times> string) list \<Rightarrow> string \<Rightarrow> string list \<Rightarrow> stage_def \<Rightarrow> string" where
  "stage_document dump args run_ticket deps s =
     render_frontmatter dump (stage_frontmatter args run_ticket deps s) @ render_sections (fill args (stage_instructions s)) []"

section \<open>One ticket\<close>

text \<open>The file is written and read into the tables; a parse error is only an answer, which the launch does not look at.\<close>

definition place_ticket :: "(string \<Rightarrow> yaml_result) \<Rightarrow> (yaml \<Rightarrow> string) \<Rightarrow> (string \<Rightarrow> string) \<Rightarrow> string \<Rightarrow> time \<Rightarrow> string \<Rightarrow> string \<Rightarrow>
    files \<times> 'z ticket_db_scheme \<Rightarrow> (exn + unit) \<times> files \<times> 'z ticket_db_scheme" where
  "place_ticket load dump sha repo now tid document = (\<lambda>(files, db).
     let files = AList.update tid document files in
     (case reconcile_path load dump sha repo now tid (files, db) of Inl e \<Rightarrow> (Inl e, files, db) | Inr (_, w) \<Rightarrow> (Inr (), w)))"

definition place_stage :: "(string \<Rightarrow> yaml_result) \<Rightarrow> (yaml \<Rightarrow> string) \<Rightarrow> (string \<Rightarrow> string) \<Rightarrow> (json_object \<Rightarrow> exn + fact_payload) \<Rightarrow>
    string \<Rightarrow> time \<Rightarrow> (string \<times> string) list \<Rightarrow> string \<Rightarrow> (string \<times> string) list \<Rightarrow> stage_def \<Rightarrow>
    files \<times> 'z ticket_db_scheme \<Rightarrow> (exn + string) \<times> files \<times> 'z ticket_db_scheme" where
  "place_stage load dump sha validate repo now args run_ticket tickets s w =
     (case bindE (get_item (map_of tickets) (stage_id s) (stage_id s)) (\<lambda>tid.
           bindE (get_items (map_of tickets) id (depends_on s)) (\<lambda>deps. Inr (tid, deps))) of
        Inl e \<Rightarrow> (Inl e, w)
      | Inr (tid, deps) \<Rightarrow>
          (case place_ticket load dump sha repo now tid (stage_document dump args run_ticket deps s) w of
             (Inl e, w) \<Rightarrow> (Inl e, w)
           | (Inr _, files, db) \<Rightarrow>
               (case transition validate repo tid TkReady now db of
                  Inl e \<Rightarrow> (Inl e, files, db) | Inr (_, db) \<Rightarrow> (Inr tid, files, db))))"

fun place_stages :: "(string \<Rightarrow> yaml_result) \<Rightarrow> (yaml \<Rightarrow> string) \<Rightarrow> (string \<Rightarrow> string) \<Rightarrow> (json_object \<Rightarrow> exn + fact_payload) \<Rightarrow>
    string \<Rightarrow> time \<Rightarrow> (string \<times> string) list \<Rightarrow> string \<Rightarrow> (string \<times> string) list \<Rightarrow> stage_def list \<Rightarrow> string list \<Rightarrow>
    files \<times> 'z ticket_db_scheme \<Rightarrow> (exn + unit) \<times> string list \<times> files \<times> 'z ticket_db_scheme" where
  "place_stages load dump sha validate repo now args run_ticket tickets [] created w = (Inr (), created, w)"
| "place_stages load dump sha validate repo now args run_ticket tickets (s # ss) created w =
     (case place_stage load dump sha validate repo now args run_ticket tickets s w of
        (Inl e, w) \<Rightarrow> (Inl e, created, w)
      | (Inr tid, w) \<Rightarrow> place_stages load dump sha validate repo now args run_ticket tickets ss (created @ [tid]) w)"

section \<open>The run\<close>

definition launch_time :: "time option \<Rightarrow> time \<Rightarrow> time" where
  "launch_time at now = (case at of None \<Rightarrow> now - now mod 1000000 | Some t \<Rightarrow> t)"

definition launched_state :: "workflow_def \<Rightarrow> (string \<times> string) list \<Rightarrow> static_dag_state" where
  "launched_state defn args = \<lparr>dag_inputs = map (\<lambda>(k, v). (k, JStr v)) args,
     dag_stages = map (\<lambda>s. \<lparr>run_stage_id = stage_id s, stage_status = (if depends_on s = [] then StReady else StBlocked),
       stage_activity = None, stage_session = None, attempts = 0, result_ref = None, stage_error = None\<rparr>) (wf_stages defn),
     dag_output = None\<rparr>"

definition launched_run :: "uuid \<Rightarrow> uuid \<Rightarrow> workflow_def \<Rightarrow> (string \<times> string) list \<Rightarrow> string \<Rightarrow> (string \<times> string) list \<Rightarrow> time \<Rightarrow> workflow_run" where
  "launched_run wid cid defn args run_ticket tickets t = \<lparr>workflow_id = wid, definition_name = wf_name defn,
     run_definition_version = definition_version defn, run_status = WfWaiting, revision = 0,
     run_state = make_versioned_state (StaticDagDoc (launched_state defn args)) ''static_dag'' 1,
     run_created_at = t, run_updated_at = t,
     started_by = \<lparr>principal_kind = SERVICE, principal_id = ''ticket-dag-launcher''\<rparr>,
     run_correlation = plain_correlation cid, terminal_reason = None, parent_ticket_id = Some run_ticket,
     definition_snapshot = Some (DefinitionDoc defn), stage_map = tickets\<rparr>"

definition store_run :: "string \<Rightarrow> time \<Rightarrow> workflow_def \<Rightarrow> (string \<times> string) list \<Rightarrow> string \<Rightarrow> (string \<times> string) list \<Rightarrow>
    'z ticket_db_scheme \<Rightarrow> (exn + uuid) \<times> 'z ticket_db_scheme" where
  "store_run repo t defn args run_ticket tickets db =
     (let (wid, db) = uuid4 db in
      case get_items (map_of tickets) id (map stage_id (wf_stages defn)) of
        Inl e \<Rightarrow> (Inl e, db)
      | Inr keys \<Rightarrow>
          let (cid, db) = uuid4 db in
          (case create_workflow_run repo (launched_run wid cid defn args run_ticket tickets t)
               (map (\<lambda>k. ExternalSignalWait ''ticket.finished'' (Some k)) keys) db of
             Inl e \<Rightarrow> (Inl e, db) | Inr db \<Rightarrow> (Inr wid, db)))"

section \<open>Clean-up\<close>

text \<open>
  Deleting a ticket takes its dependencies and items with it. A ticket that another one has as its parent, or that
  an escalation names, cannot be deleted: \<open>ON DELETE SET NULL\<close> of the composite key also nulls the repository,
  which may not be null.
\<close>

definition delete_ticket :: "string \<Rightarrow> string \<Rightarrow> 'z ticket_db_scheme \<Rightarrow> exn + 'z ticket_db_scheme" where
  "delete_ticket repo tid db =
     (if list_ex (\<lambda>r. ticket_repository r = repo \<and> ticket_key_id r \<noteq> tid \<and> ticket_parent r = Some tid) (ticket_rows db) \<or>
         list_ex (\<lambda>e. esc_repository e = repo \<and> esc_ticket e = Some tid) (escalation_rows db)
      then Inl IntegrityError
      else Inr (db\<lparr>ticket_rows := delete_where (this_ticket repo tid) (ticket_rows db),
        dep_rows := delete_where (\<lambda>d. dep_repository d = repo \<and> (dep_ticket d = tid \<or> dep_on d = tid)) (dep_rows db),
        checklist_rows := delete_where (items_of repo tid) (checklist_rows db)\<rparr>))"

text \<open>Deleting the runs of a ticket takes their waits, signals, migrations and activities with it.\<close>

definition delete_runs :: "string \<Rightarrow> string \<Rightarrow> 'z ticket_db_scheme \<Rightarrow> 'z ticket_db_scheme" where
  "delete_runs repo tid db =
     (let this = (\<lambda>r. run_repository r = repo \<and> parent_ticket_id r = Some tid);
          runs = map workflow_id (filter this (workflow_runs db));
          acts = map act_id (filter (\<lambda>a. List.member runs (act_workflow a)) (activities db))
      in db\<lparr>workflow_runs := delete_where this (workflow_runs db),
        workflow_waits := delete_where (\<lambda>w. List.member runs (wait_workflow w)) (workflow_waits db),
        workflow_signals := delete_where (\<lambda>g. List.member runs (signal_workflow g)) (workflow_signals db),
        state_migrations := delete_where (\<lambda>m. List.member runs (migrated_workflow m)) (state_migrations db),
        activities := delete_where (\<lambda>a. List.member runs (act_workflow a)) (activities db),
        reservations := delete_where (\<lambda>r. List.member acts (res_activity r)) (reservations db),
        reservation_locks := delete_where (\<lambda>l. List.member acts (lock_activity l)) (reservation_locks db),
        activity_results := delete_where (\<lambda>r. List.member acts (result_activity r)) (activity_results db)\<rparr>)"

text \<open>The statements commit one by one: what the first ones deleted stays deleted when the last one fails. The file always goes.\<close>

definition cleanup_ticket :: "string \<Rightarrow> string \<Rightarrow> files \<times> 'z ticket_db_scheme \<Rightarrow> files \<times> 'z ticket_db_scheme" where
  "cleanup_ticket repo tid = (\<lambda>(files, db).
     let db = db\<lparr>dep_rows := delete_where (\<lambda>d. dep_repository d = repo \<and> (dep_ticket d = tid \<or> dep_on d = tid)) (dep_rows db)\<rparr>;
         db = delete_runs repo tid db;
         db = (case delete_ticket repo tid db of Inl _ \<Rightarrow> db | Inr db \<Rightarrow> db)
     in (AList.delete tid files, db))"

definition cleanup_partial :: "string \<Rightarrow> string list \<Rightarrow> files \<times> 'z ticket_db_scheme \<Rightarrow> files \<times> 'z ticket_db_scheme" where
  "cleanup_partial repo created w = fold (cleanup_ticket repo) (rev created) w"

section \<open>The launch\<close>

record materialize_result =
  result_workflow :: uuid
  result_run_ticket :: string
  result_stage_tickets :: "(string \<times> string) list"
  result_created :: "string list"

definition build_tree :: "(string \<Rightarrow> yaml_result) \<Rightarrow> (yaml \<Rightarrow> string) \<Rightarrow> (string \<Rightarrow> string) \<Rightarrow> (json_object \<Rightarrow> exn + fact_payload) \<Rightarrow>
    string \<Rightarrow> time \<Rightarrow> workflow_def \<Rightarrow> (string \<times> string) list \<Rightarrow> string \<Rightarrow> (string \<times> string) list \<Rightarrow> stage_def list \<Rightarrow>
    files \<times> 'z ticket_db_scheme \<Rightarrow> (exn + unit) \<times> string list \<times> files \<times> 'z ticket_db_scheme" where
  "build_tree load dump sha validate repo now defn args run_ticket tickets stages w =
     (case place_ticket load dump sha repo now run_ticket (run_document defn args) w of
        (Inl e, w) \<Rightarrow> (Inl e, [], w)
      | (Inr _, w) \<Rightarrow> place_stages load dump sha validate repo now args run_ticket tickets stages [run_ticket] w)"

definition materialize_workflow :: "(string \<Rightarrow> yaml_result) \<Rightarrow> (yaml \<Rightarrow> string) \<Rightarrow> (string \<Rightarrow> string) \<Rightarrow>
    (json_object \<Rightarrow> exn + fact_payload) \<Rightarrow> string \<Rightarrow> time \<Rightarrow> time option \<Rightarrow> workflow_def \<Rightarrow> (string \<times> string) list \<Rightarrow>
    files \<times> 'z ticket_db_scheme \<Rightarrow> (exn + materialize_result) \<times> files \<times> 'z ticket_db_scheme" where
  "materialize_workflow load dump sha validate repo now at defn args w =
     (if validate_workflow (defn\<lparr>builtin := False\<rparr>) \<noteq> [] then (Inl (ValueError ''invalid workflow''), w)
      else case topo_sorted (wf_stages defn) of
        Inl e \<Rightarrow> (Inl e, w)
      | Inr stages \<Rightarrow>
        let ids = allocate_ids repo (1 + length stages) w;
            run_ticket = hd ids;
            tickets = zip (map stage_id stages) (tl ids)
        in (case build_tree load dump sha validate repo now defn args run_ticket tickets stages w of
              (Inl e, created, w) \<Rightarrow> (Inl e, cleanup_partial repo created w)
            | (Inr _, created, files, db) \<Rightarrow>
                (case store_run repo (launch_time at now) defn args run_ticket tickets db of
                   (Inl e, db) \<Rightarrow> (Inl e, cleanup_partial repo created (files, db))
                 | (Inr wid, db) \<Rightarrow>
                     (Inr \<lparr>result_workflow = wid, result_run_ticket = run_ticket, result_stage_tickets = tickets,
                        result_created = created\<rparr>, files, db))))"

section \<open>What a step may change\<close>

text \<open>The tables a launch writes before it stores the run.\<close>

definition ticket_only :: "'z ticket_db_scheme \<Rightarrow> 'z ticket_db_scheme \<Rightarrow> bool" where
  "ticket_only db db' \<longleftrightarrow> (\<exists>p s a b c n. db' = db\<lparr>projection_inputs := p, next_input_sequence := s, ticket_rows := a, dep_rows := b,
     checklist_rows := c, next_item := n\<rparr>)"

lemma ticket_onlyI:
  "db' = db\<lparr>projection_inputs := p, next_input_sequence := s, ticket_rows := a, dep_rows := b, checklist_rows := c, next_item := n\<rparr> \<Longrightarrow>
    ticket_only db db'"
  unfolding ticket_only_def by blast

lemma ticket_only_refl [simp]: "ticket_only db db"
  by (rule ticket_onlyI [where p = "projection_inputs db" and s = "next_input_sequence db" and a = "ticket_rows db" and b = "dep_rows db"
      and c = "checklist_rows db" and n = "next_item db"]) simp

lemma ticket_only_trans: "ticket_only a b \<Longrightarrow> ticket_only b c \<Longrightarrow> ticket_only a c"
  unfolding ticket_only_def by (elim exE) (intro exI, simp)

lemma ticket_only_upd [simp]:
  "ticket_only db (db\<lparr>ticket_rows := a\<rparr>)" "ticket_only db (db\<lparr>dep_rows := b\<rparr>)" "ticket_only db (db\<lparr>checklist_rows := c\<rparr>)"
  "ticket_only db (db\<lparr>checklist_rows := c, next_item := n\<rparr>)" "ticket_only db (db\<lparr>projection_inputs := p, next_input_sequence := s\<rparr>)"
  unfolding ticket_only_def
  by (rule exI [of _ "projection_inputs db"] exI [of _ p], rule exI [of _ "next_input_sequence db"] exI [of _ s], rule exI [of _ a] exI [of _ "ticket_rows db"],
      rule exI [of _ b] exI [of _ "dep_rows db"], rule exI [of _ c] exI [of _ "checklist_rows db"], rule exI [of _ n] exI [of _ "next_item db"], simp; fail)+

lemma ticket_only_sel:
  assumes "ticket_only db db'"
  shows "workflow_runs db' = workflow_runs db" "workflow_waits db' = workflow_waits db" "workflow_signals db' = workflow_signals db"
    "state_migrations db' = state_migrations db" "activities db' = activities db" "reservations db' = reservations db"
    "reservation_locks db' = reservation_locks db" "activity_results db' = activity_results db"
    "retained_facts db' = retained_facts db" "uuid_draws db' = uuid_draws db" "escalation_rows db' = escalation_rows db"
    "next_escalation db' = next_escalation db"
  using assms by (auto simp: ticket_only_def)

text \<open>The invalidations of a ticket are named by it.\<close>

definition own_input :: "string \<Rightarrow> projection_input_row \<Rightarrow> bool" where
  "own_input t r \<longleftrightarrow> (\<exists>s. input_id r = UUID5 schedule_namespace (t @ '':'' @ s) \<or> input_id r = UUID5 roster_namespace (ticket_subject t @ '':'' @ s))"

definition writes_for :: "(projection_input_row \<Rightarrow> bool) \<Rightarrow> 'z ticket_db_scheme \<Rightarrow> 'z ticket_db_scheme \<Rightarrow> bool" where
  "writes_for P db db' \<longleftrightarrow> ticket_only db db' \<and> (\<forall>r \<in> set (projection_inputs db'). r \<in> set (projection_inputs db) \<or> P r)"

lemma writes_for_refl [simp]: "writes_for P db db"
  by (simp add: writes_for_def)

lemma writes_for_trans: "writes_for P a b \<Longrightarrow> writes_for P b c \<Longrightarrow> writes_for P a c"
  unfolding writes_for_def using ticket_only_trans by blast

lemma writes_for_upd [simp]:
  "writes_for P db (db\<lparr>ticket_rows := a\<rparr>)" "writes_for P db (db\<lparr>dep_rows := b\<rparr>)" "writes_for P db (db\<lparr>checklist_rows := c\<rparr>)"
  "writes_for P db (db\<lparr>checklist_rows := c, next_item := n\<rparr>)" "writes_for P db (update_ticket q u f db)"
  "writes_for P db (mark_sync_state q u state h m path why now db)"
  by (simp_all add: writes_for_def update_ticket_def mark_sync_state_def)

lemma append_input_writes:
  assumes "append_projection_input repo d ts db = Inr (row, db')"
  shows "ticket_only db db' \<and> (\<forall>r \<in> set (projection_inputs db'). r \<in> set (projection_inputs db) \<or> input_id r = input_id d)"
  using assms by (auto simp: append_projection_input_def Let_def projection_row_def split: if_splits option.splits)

lemma own_inputI:
  "input_id r = UUID5 schedule_namespace (t @ '':'' @ s) \<Longrightarrow> own_input t r"
  "input_id r = UUID5 roster_namespace (ticket_subject t @ '':'' @ s) \<Longrightarrow> own_input t r"
  unfolding own_input_def by blast+

lemma schedule_writes:
  assumes "invalidate_ticket_schedule repo t operation now db = Inr db'"
  shows "writes_for (\<lambda>r. \<exists>n. input_id r = UUID5 schedule_namespace (t @ '':'' @ n @ '':'' @ operation)) db db'"
proof -
  from assms obtain d row where "append_projection_input repo d now db = Inr (row, db')"
    "input_id d = UUID5 schedule_namespace (t @ '':'' @ int_text (next_generation repo ''schedule'' t db) @ '':'' @ operation)"
    by (auto simp: invalidate_ticket_schedule_def Let_def bindE_eq_Inr)
  from append_input_writes [OF this(1)] this(2) show ?thesis unfolding writes_for_def by metis
qed

lemma roster_writes:
  assumes "invalidate_roster repo (ticket_subject t) now db = Inr db'"
  shows "writes_for (\<lambda>r. \<exists>n. input_id r = UUID5 roster_namespace (ticket_subject t @ '':'' @ n)) db db'"
proof -
  from assms obtain d row where "append_projection_input repo d now db = Inr (row, db')"
    "input_id d = UUID5 roster_namespace (ticket_subject t @ '':'' @ int_text (next_generation repo ''roster'' (ticket_subject t) db))"
    by (auto simp: invalidate_roster_def Let_def bindE_eq_Inr)
  from append_input_writes [OF this(1)] this(2) show ?thesis unfolding writes_for_def by metis
qed

lemma writes_for_mono: "writes_for P db db' \<Longrightarrow> (\<And>r. P r \<Longrightarrow> Q r) \<Longrightarrow> writes_for Q db db'"
  unfolding writes_for_def by blast

lemma fold_deps_writes: "foldE (insert_dep_or_ignore repo tid) deps db = Inr db' \<Longrightarrow> writes_for P db db'"
proof (induction deps arbitrary: db)
  case (Cons d ds)
  then obtain b where b: "insert_dep_or_ignore repo tid d db = Inr b" "writes_for P b db'" by (auto simp: bindE_eq_Inr)
  then have "writes_for P db b" by (auto simp: insert_dep_or_ignore_def Let_def split: if_splits)
  with b(2) show ?case using writes_for_trans by blast
qed simp

lemma sync_items_writes: "sync_items repo tid now n items pool kept db = Inr (kept', db') \<Longrightarrow> writes_for P db db'"
proof (induction items arbitrary: n pool kept db)
  case (Cons i items)
  obtain words finished where i: "i = (words, finished)" by fastforce
  show ?case
  proof (cases "find (\<lambda>e. item_text e = words) pool")
    case None
    with Cons.prems i show ?thesis by (auto split: if_splits dest!: Cons.IH intro: writes_for_trans [OF writes_for_upd(4)])
  next
    case (Some e)
    with Cons.prems i show ?thesis by (auto split: if_splits dest!: Cons.IH intro: writes_for_trans [OF writes_for_upd(3)])
  qed
qed simp

text \<open>Reading a document writes one invalidation.\<close>

definition markdown_input :: "string \<Rightarrow> projection_input_row \<Rightarrow> bool" where
  "markdown_input t r \<longleftrightarrow> (\<exists>n. input_id r = UUID5 schedule_namespace (t @ '':'' @ n @ '':'' @ ''markdown''))"

lemma ingest_writes:
  assumes "ingest dump sha repo tid p h now db = Inr db'"
  shows "writes_for (markdown_input tid) db db'"
proof -
  from assms obtain a b c d where steps: "store_parsed repo tid p now db = Inr a" "replace_deps repo tid (pt_deps p) a = Inr b"
    "sync_checklist repo tid (pt_checklist p) now b = Inr c" "invalidate_ticket_schedule repo tid ''markdown'' now c = Inr d"
    "db' = mark_sync_state repo tid ''synced'' (Some h) (Some (sha (render_frontmatter dump (frontmatter_of p) @ pt_body p))) (Some (md_path tid)) None now d"
    unfolding ingest_def store_parsed_def [symmetric] by (auto simp: bindE_eq_Inr)
  have "writes_for (markdown_input tid) db a"
    using steps(1) by (auto simp: store_parsed_def update_ticket_from_parsed_def insert_ticket_from_parsed_def insert_ticket_row_def split: if_splits)
  then have "writes_for (markdown_input tid) db b"
    using steps(2) fold_deps_writes writes_for_trans writes_for_upd(2) unfolding replace_deps_def by metis
  moreover have "writes_for (markdown_input tid) b c"
  proof -
    from steps(3) obtain kept e where e: "sync_items repo tid now 0 (pt_checklist p) (stored_items repo tid b) [] b = Inr (kept, e)"
      "c = e\<lparr>checklist_rows := delete_where (\<lambda>i. items_of repo tid i \<and> \<not> List.member kept (item_id i)) (checklist_rows e)\<rparr>"
      by (auto simp: sync_checklist_def bindE_eq_Inr)
    show ?thesis unfolding e(2) by (rule writes_for_trans [OF sync_items_writes [OF e(1)] writes_for_upd(3)])
  qed
  ultimately have "writes_for (markdown_input tid) db c" by (rule writes_for_trans)
  moreover have "writes_for (markdown_input tid) c d"
    using schedule_writes [OF steps(4)] by (rule writes_for_mono) (simp add: markdown_input_def)
  ultimately have "writes_for (markdown_input tid) db d" by (rule writes_for_trans)
  then show ?thesis unfolding steps(5) by (rule writes_for_trans) (rule writes_for_upd(6))
qed

lemma ready_writes:
  assumes "update_ticket_status validate repo tid TkReady now db = Inr db'"
  shows "writes_for (own_input tid) db db'"
proof -
  let ?u = "update_ticket repo tid (\<lambda>r. r\<lparr>ticket_state := TkReady, ticket_updated_at := iso_seconds now\<rparr>) db"
  from assms obtain a where a: "invalidate_ticket_schedule repo tid (''status:'' @ ticket_status_value TkReady) now ?u = Inr a"
    "invalidate_roster repo (ticket_subject tid) now a = Inr db'"
    by (auto simp: update_ticket_status_def bindE_eq_Inr notify_ticket_status_def ticket_status_value_def)
  have "writes_for (own_input tid) ?u a" using schedule_writes [OF a(1)] by (rule writes_for_mono) (use own_inputI(1) in blast)
  moreover have "writes_for (own_input tid) a db'" using roster_writes [OF a(2)] by (rule writes_for_mono) (use own_inputI(2) in blast)
  ultimately show ?thesis using writes_for_trans writes_for_upd(5) by blast
qed

lemma markdown_own: "markdown_input t r \<Longrightarrow> own_input t r"
  unfolding markdown_input_def using own_inputI(1) by blast

lemma sync_items_error: "sync_items repo tid now n items pool kept db = Inl e \<Longrightarrow> e = IntegrityError"
proof (induction items arbitrary: n pool kept db)
  case (Cons i items)
  obtain words finished where "i = (words, finished)" by fastforce
  with Cons show ?case by (cases "find (\<lambda>e. item_text e = words) pool") (auto split: if_splits)
qed simp

lemma append_input_conflict: "append_projection_input repo d ts db = Inl e \<Longrightarrow> \<exists>x. e = FactIdentityConflictError x"
  by (auto simp: append_projection_input_def Let_def projection_row_def find_eq_None list_ex_iff split: if_splits option.splits)

lemma ready_error: "update_ticket_status validate repo t TkReady now db = Inl e \<Longrightarrow> \<exists>x. e = FactIdentityConflictError x"
  by (auto simp: update_ticket_status_def bindE_eq_Inl notify_ticket_status_def ticket_status_value_def invalidate_ticket_schedule_def
      invalidate_roster_def Let_def dest!: append_input_conflict)

lemma ingest_error:
  fixes db :: "'z ticket_db_scheme"
  assumes "ingest dump sha repo tid p h now db = Inl e"
  shows "e = IntegrityError \<or> (\<exists>x. e = FactIdentityConflictError x)"
proof -
  from assms consider "store_parsed repo tid p now db = Inl e" | a :: "'z ticket_db_scheme" where "replace_deps repo tid (pt_deps p) a = Inl e"
    | b :: "'z ticket_db_scheme" where "sync_checklist repo tid (pt_checklist p) now b = Inl e" | c :: "'z ticket_db_scheme" where "invalidate_ticket_schedule repo tid ''markdown'' now c = Inl e"
    unfolding ingest_def store_parsed_def [symmetric] by (auto simp: bindE_eq_Inl)
  then show ?thesis
  proof cases
    case 1
    then show ?thesis
      by (auto simp: store_parsed_def update_ticket_from_parsed_def insert_ticket_from_parsed_def insert_ticket_row_def split: if_splits)
  next
    case 2
    then show ?thesis unfolding replace_deps_def by (auto dest: insert_or_ignore_error)
  next
    case 3
    then show ?thesis unfolding sync_checklist_def bindE_eq_Inl by (auto dest: sync_items_error)
  next
    case 4
    then show ?thesis by (auto simp: invalidate_ticket_schedule_def Let_def bindE_eq_Inl dest: append_input_conflict)
  qed
qed

definition one_ticket :: "string \<Rightarrow> string \<Rightarrow> 'z ticket_db_scheme \<Rightarrow> 'z ticket_db_scheme \<Rightarrow> bool" where
  "one_ticket repo t db db' \<longleftrightarrow> writes_for (own_input t) db db' \<and> ticket_more db db' \<and>
     (\<forall>q u. (q, u) \<noteq> (repo, t) \<longrightarrow> find_ticket q u db' = find_ticket q u db) \<and>
     {d \<in> set (dep_rows db'). \<not> (dep_repository d = repo \<and> dep_ticket d = t)} = {d \<in> set (dep_rows db). \<not> (dep_repository d = repo \<and> dep_ticket d = t)} \<and>
     {i \<in> set (checklist_rows db'). \<not> items_of repo t i} = {i \<in> set (checklist_rows db). \<not> items_of repo t i}"

lemma one_ticket_refl [simp]: "one_ticket repo t db db"
  by (simp add: one_ticket_def ticket_more_def)

lemma one_ticket_trans: "one_ticket repo t a b \<Longrightarrow> one_ticket repo t b c \<Longrightarrow> one_ticket repo t a c"
  unfolding one_ticket_def by (auto intro: writes_for_trans ticket_more_trans)

lemma ingest_one: "ingest dump sha repo t p h now db = Inr db' \<Longrightarrow> ticket_inv db \<Longrightarrow> one_ticket repo t db db'"
  using ingestE [of dump sha repo t p h now db db'] writes_for_mono [OF ingest_writes markdown_own] unfolding one_ticket_def by auto

lemma ready_one:
  assumes "update_ticket_status validate repo t TkReady now db = Inr db'"
  shows "one_ticket repo t db db'" and "find_ticket repo t db' = map_option (set_status TkReady now) (find_ticket repo t db)"
  using update_ticket_statusE [OF assms] ready_writes [OF assms] find_updated [OF update_ticket_statusE(1) [OF assms]]
  by (auto simp: one_ticket_def)

lemma place_ticketE:
  assumes "place_ticket load dump sha repo now t doc (files, db) = (r, files', db')" and "ticket_id_ok t"
    and "find_ticket repo t db = None" and "ticket_inv db" and "p = parse_ticket load doc (Some t)"
  shows "files' = AList.update t doc files" and "one_ticket repo t db db'"
    and "case r of Inl e \<Rightarrow> db' = db \<and> pt_error p = None \<and> (\<forall>k. e \<noteq> KeyError k)
       | Inr _ \<Rightarrow> if pt_error p = None then (\<exists>c. find_ticket repo t db' =
             Some ((parsed_fields t p (read_into repo t now db))\<lparr>ticket_sync := c, ticket_updated_at := iso_seconds now\<rparr>)) \<and>
           {u. depends repo db' t u} = set (pt_deps p) - {t}
         else db' = db"
proof -
  have unsynced: "\<not> already_synced repo t h db" for h using assms(3) by (simp add: already_synced_def)
  have path: "reconcile_path load dump sha repo now t (AList.update t doc files, db) =
      (case pt_error p of Some why \<Rightarrow> Inr (Some why, AList.update t doc files, db)
       | None \<Rightarrow> bindE (ingest dump sha repo t p (sha doc) now db) (\<lambda>db. Inr (None, AList.update t doc files, db)))"
    using assms(2,3) unsynced assms(5) [symmetric] by (simp add: reconcile_path_def update_conv Let_def split: option.split)
  have none: "\<not> depends repo db t u" for u
    using assms(3,4) by (auto simp: depends_def ticket_inv_def dep_ok_def find_ticket_None)
  consider (bad) why where "pt_error p = Some why" "r = Inr ()" "files' = AList.update t doc files" "db' = db"
    | (failed) e where "pt_error p = None" "r = Inl e" "files' = AList.update t doc files" "db' = db"
        "ingest dump sha repo t p (sha doc) now db = Inl e"
    | (read) "pt_error p = None" "r = Inr ()" "files' = AList.update t doc files" "ingest dump sha repo t p (sha doc) now db = Inr db'"
    using assms(1) unfolding place_ticket_def prod.case Let_def path
    by (cases "pt_error p"; cases "ingest dump sha repo t p (sha doc) now db") auto
  then have "files' = AList.update t doc files \<and> one_ticket repo t db db' \<and>
      (case r of Inl e \<Rightarrow> db' = db \<and> pt_error p = None \<and> (\<forall>k. e \<noteq> KeyError k)
       | Inr _ \<Rightarrow> if pt_error p = None then (\<exists>c. find_ticket repo t db' =
             Some ((parsed_fields t p (read_into repo t now db))\<lparr>ticket_sync := c, ticket_updated_at := iso_seconds now\<rparr>)) \<and>
           {u. depends repo db' t u} = set (pt_deps p) - {t}
         else db' = db)"
  proof cases
    case read
    note I = ingestE [OF read(4) assms(4)]
    have "{u. depends repo db' t u} = set (pt_deps p) - {t}" using none by (auto simp: depends_def I(2))
    with read I(1) [of repo t] ingest_one [OF read(4) assms(4)] show ?thesis by auto
  next
    case failed
    from ingest_error [OF failed(5)] failed show ?thesis by auto
  qed simp_all
  then show "files' = AList.update t doc files" "one_ticket repo t db db'"
    "case r of Inl e \<Rightarrow> db' = db \<and> pt_error p = None \<and> (\<forall>k. e \<noteq> KeyError k)
       | Inr _ \<Rightarrow> if pt_error p = None then (\<exists>c. find_ticket repo t db' =
             Some ((parsed_fields t p (read_into repo t now db))\<lparr>ticket_sync := c, ticket_updated_at := iso_seconds now\<rparr>)) \<and>
           {u. depends repo db' t u} = set (pt_deps p) - {t}
         else db' = db" by blast+
qed

text \<open>The documents and tickets of the stages, by their ids.\<close>

definition ticket_of :: "(string \<times> string) list \<Rightarrow> string \<Rightarrow> string" where
  "ticket_of tickets sid = the (map_of tickets sid)"

definition launch_document :: "(yaml \<Rightarrow> string) \<Rightarrow> (string \<times> string) list \<Rightarrow> string \<Rightarrow> (string \<times> string) list \<Rightarrow> stage_def \<Rightarrow> string" where
  "launch_document dump args run_ticket tickets s = stage_document dump args run_ticket (map (ticket_of tickets) (depends_on s)) s"

definition launch_parsed :: "(string \<Rightarrow> yaml_result) \<Rightarrow> (yaml \<Rightarrow> string) \<Rightarrow> (string \<times> string) list \<Rightarrow> string \<Rightarrow> (string \<times> string) list \<Rightarrow>
    stage_def \<Rightarrow> parsed_ticket" where
  "launch_parsed load dump args run_ticket tickets s =
     parse_ticket load (launch_document dump args run_ticket tickets s) (Some (ticket_of tickets (stage_id s)))"

definition mapped :: "(string \<times> string) list \<Rightarrow> stage_def \<Rightarrow> bool" where
  "mapped tickets s \<longleftrightarrow> map_of tickets (stage_id s) \<noteq> None \<and> (\<forall>d \<in> set (depends_on s). map_of tickets d \<noteq> None)"

text \<open>A stage whose ticket is stored and ready as its document says.\<close>

definition stage_stored :: "(string \<Rightarrow> yaml_result) \<Rightarrow> (yaml \<Rightarrow> string) \<Rightarrow> string \<Rightarrow> (string \<times> string) list \<Rightarrow> string \<Rightarrow> (string \<times> string) list \<Rightarrow>
    'z ticket_db_scheme \<Rightarrow> stage_def \<Rightarrow> bool" where
  "stage_stored load dump repo args run_ticket tickets db s \<longleftrightarrow>
     (let t = ticket_of tickets (stage_id s); p = launch_parsed load dump args run_ticket tickets s in
      pt_error p = None \<and>
      (\<exists>r. find_ticket repo t db = Some r \<and> ticket_state r = TkReady \<and> ticket_title r = (case pt_title p of None \<Rightarrow> t | Some w \<Rightarrow> if w = [] then t else w) \<and>
         ticket_harness r = pt_harness p \<and> ticket_model r = pt_model p \<and> ticket_worktree r = pt_worktree p \<and> ticket_parent r = pt_parent p) \<and>
      {u. depends repo db t u} = set (pt_deps p) - {t})"

lemma place_stageE:
  assumes run: "place_stage load dump sha validate repo now args run_ticket tickets s (files, db) = (r, files', db')" and m: "mapped tickets s"
    and t: "t = ticket_of tickets (stage_id s)" and new: "ticket_id_ok t" "find_ticket repo t db = None" and inv: "ticket_inv db"
  shows "files' = AList.update t (launch_document dump args run_ticket tickets s) files \<and> one_ticket repo t db db' \<and>
    (case r of Inr t' \<Rightarrow> t' = t \<and> stage_stored load dump repo args run_ticket tickets db' s
     | Inl e \<Rightarrow> (find_ticket repo t db' = None \<or> (\<exists>x. e = FactIdentityConflictError x)) \<and> (\<forall>k. e = KeyError k \<longrightarrow> k = t))"
proof -
  let ?doc = "launch_document dump args run_ticket tickets s" and ?p = "launch_parsed load dump args run_ticket tickets s"
  have "get_items (map_of tickets) id (depends_on s) = Inr (map (ticket_of tickets) (depends_on s))"
    using get_items_eq [of "depends_on s" "map_of tickets" id] m unfolding mapped_def ticket_of_def by simp
  moreover have "get_item (map_of tickets) (stage_id s) (stage_id s) = Inr t"
    using m by (auto simp: get_item_def mapped_def t ticket_of_def)
  ultimately have run: "(case place_ticket load dump sha repo now t ?doc (files, db) of
           (Inl e, w) \<Rightarrow> (Inl e, w)
         | (Inr _, files, db) \<Rightarrow> (case transition validate repo t TkReady now db of
                Inl e \<Rightarrow> (Inl e, files, db) | Inr (_, db) \<Rightarrow> (Inr t, files, db))) = (r, files', db')"
    using run by (simp add: place_stage_def launch_document_def)
  obtain r1 files1 db1 where p: "place_ticket load dump sha repo now t ?doc (files, db) = (r1, files1, db1)" by (metis prod.exhaust)
  have parsed: "?p = parse_ticket load ?doc (Some t)" by (simp add: launch_parsed_def t)
  note P = place_ticketE [OF p new inv parsed]
  show ?thesis
  proof (cases r1)
    case (Inl e)
    with run p have "r = Inl e" "files' = files1" "db' = db1" by simp_all
    with P Inl new(2) show ?thesis by simp
  next
    case (Inr u)
    then have r1: "r1 = Inr ()" by simp
    show ?thesis
    proof (cases "pt_error ?p = None")
      case False
      with P(3) r1 have same: "db1 = db" by simp
      have "transition validate repo t TkReady now db = Inl (KeyError t)"
        using new(2) by (simp add: transition_def get_ticket_status_def)
      with run p r1 same have "r = Inl (KeyError t)" "files' = files1" "db' = db" by simp_all
      then show ?thesis using P(1) new(2) by simp
    next
      case True
      with P(3) r1 new(2) obtain c where row: "find_ticket repo t db1 = Some ((parsed_fields t ?p (read_into repo t now db))\<lparr>ticket_sync := c,
          ticket_updated_at := iso_seconds now\<rparr>)" and deps: "{u. depends repo db1 t u} = set (pt_deps ?p) - {t}" by auto
      have planned: "get_ticket_status repo t db1 = Some TkPlanned"
        using row new(2) by (simp add: get_ticket_status_def read_into_def parsed_fields_def)
      then have trans: "transition validate repo t TkReady now db1 =
          bindE (update_ticket_status validate repo t TkReady now db1) (\<lambda>db. Inr (TkPlanned, db))"
        by (simp add: transition_def valid_transitions_def)
      show ?thesis
      proof (cases "update_ticket_status validate repo t TkReady now db1")
        case (Inl e)
        with run p r1 trans have "r = Inl e" "files' = files1" "db' = db1" by simp_all
        with P(1,2) ready_error [OF Inl] show ?thesis by auto
      next
        case (Inr db2)
        with run p r1 trans P(1) have res: "r = Inr t" "files' = AList.update t ?doc files" "db' = db2" by simp_all
        note R = ready_one [OF Inr] update_ticket_statusE(2) [OF Inr]
        have "stage_stored load dump repo args run_ticket tickets db2 s"
          using R(2,3) row deps new(2) True
          by (simp add: stage_stored_def Let_def t [symmetric] set_status_def read_into_def parsed_fields_def depends_def)
        with res one_ticket_trans [OF P(2) R(1)] show ?thesis by simp
      qed
    qed
  qed
qed

end
