(* ===== verification/Launch.thy ===== *)
theory Launch
  imports Materialize
begin

text \<open>
  What the launch of a template does (\<open>murder/work/workflows/materialize.py\<close>): the tree of tickets and the run it
  leaves when it returns, and what its clean-up leaves when it fails.
\<close>

section \<open>Steps on several tickets\<close>

definition tree_frame :: "string \<Rightarrow> string set \<Rightarrow> 'z ticket_db_scheme \<Rightarrow> 'z ticket_db_scheme \<Rightarrow> bool" where
  "tree_frame repo ids db db' \<longleftrightarrow> ticket_only db db' \<and> ticket_more db db' \<and>
     (\<forall>r \<in> set (projection_inputs db'). r \<in> set (projection_inputs db) \<or> (\<exists>t \<in> ids. own_input t r)) \<and>
     (\<forall>q u. q \<noteq> repo \<or> u \<notin> ids \<longrightarrow> find_ticket q u db' = find_ticket q u db) \<and>
     {d \<in> set (dep_rows db'). \<not> (dep_repository d = repo \<and> dep_ticket d \<in> ids)} = {d \<in> set (dep_rows db). \<not> (dep_repository d = repo \<and> dep_ticket d \<in> ids)} \<and>
     {i \<in> set (checklist_rows db'). \<not> (item_repository i = repo \<and> item_ticket i \<in> ids)} =
       {i \<in> set (checklist_rows db). \<not> (item_repository i = repo \<and> item_ticket i \<in> ids)}"

lemma tree_frame_refl [simp]: "tree_frame repo ids db db"
  by (simp add: tree_frame_def ticket_more_def)

lemma tree_frame_mono: "tree_frame repo ids db db' \<Longrightarrow> ids \<subseteq> ids' \<Longrightarrow> tree_frame repo ids' db db'"
  unfolding tree_frame_def by blast

lemma tree_frame_trans: "tree_frame repo ids a b \<Longrightarrow> tree_frame repo ids b c \<Longrightarrow> tree_frame repo ids a c"
  unfolding tree_frame_def
  by (elim conjE, intro conjI, erule (1) ticket_only_trans, erule (1) ticket_more_trans, blast, simp,
      rule trans, assumption, assumption, rule trans, assumption, assumption)

lemma tree_frame_find: "tree_frame repo ids db db' \<Longrightarrow> q \<noteq> repo \<or> t \<notin> ids \<Longrightarrow> find_ticket q t db' = find_ticket q t db"
  by (simp add: tree_frame_def)

lemma tree_frame_inv: "tree_frame repo ids db db' \<Longrightarrow> ticket_inv db \<Longrightarrow> ticket_inv db'"
  by (simp add: tree_frame_def ticket_more_def)

lemma tree_frame_only: "tree_frame repo ids db db' \<Longrightarrow> ticket_only db db'"
  by (simp add: tree_frame_def)

lemma one_ticket_tree: "one_ticket repo t db db' \<Longrightarrow> tree_frame repo {t} db db'"
  unfolding one_ticket_def tree_frame_def writes_for_def items_of_def by simp

lemma stage_stored_frame:
  assumes "tree_frame repo ids db db'" and "ticket_of tickets (stage_id s) \<notin> ids"
  shows "stage_stored load dump repo args run_ticket tickets db' s = stage_stored load dump repo args run_ticket tickets db s"
proof -
  let ?t = "ticket_of tickets (stage_id s)"
  have "depends repo db' ?t u \<longleftrightarrow> depends repo db ?t u" for u
  proof -
    let ?r = "\<lparr>dep_repository = repo, dep_ticket = ?t, dep_on = u\<rparr>"
    have "?r \<in> {d \<in> set (dep_rows db'). \<not> (dep_repository d = repo \<and> dep_ticket d \<in> ids)} \<longleftrightarrow>
        ?r \<in> {d \<in> set (dep_rows db). \<not> (dep_repository d = repo \<and> dep_ticket d \<in> ids)}"
      using assms(1) unfolding tree_frame_def by (simp only:)
    with assms(2) show ?thesis by (simp add: depends_def)
  qed
  then have "depends repo db' ?t = depends repo db ?t" by (rule ext)
  moreover have "find_ticket repo ?t db' = find_ticket repo ?t db" using assms by (simp add: tree_frame_def)
  ultimately show ?thesis by (simp add: stage_stored_def Let_def)
qed

text \<open>The stages placed before the loop ended, and the one it may have failed on.\<close>

lemma place_stagesE:
  fixes db db' :: "'z ticket_db_scheme"
  assumes "place_stages load dump sha validate repo now args run_ticket tickets ss created (files, db) = (r, created', files', db')"
    and "\<forall>s \<in> set ss. mapped tickets s \<and> ticket_id_ok (ticket_of tickets (stage_id s)) \<and> find_ticket repo (ticket_of tickets (stage_id s)) db = None"
    and "distinct (map (\<lambda>s. ticket_of tickets (stage_id s)) ss)" and "ticket_inv db"
  obtains placed rest where "ss = placed @ rest" "created' = created @ map (\<lambda>s. ticket_of tickets (stage_id s)) placed"
    "tree_frame repo ((\<lambda>s. ticket_of tickets (stage_id s)) ` set (placed @ take 1 rest)) db db'"
    "\<And>t. t \<notin> (\<lambda>s. ticket_of tickets (stage_id s)) ` set (placed @ take 1 rest) \<Longrightarrow> map_of files' t = map_of files t"
    "\<And>s. s \<in> set (placed @ take 1 rest) \<Longrightarrow> map_of files' (ticket_of tickets (stage_id s)) \<noteq> None"
    "\<And>s. s \<in> set placed \<Longrightarrow> stage_stored load dump repo args run_ticket tickets db' s"
    "case r of Inr _ \<Rightarrow> rest = []
     | Inl e \<Rightarrow> rest \<noteq> [] \<and> (find_ticket repo (ticket_of tickets (stage_id (hd rest))) db' = None \<or> (\<exists>x. e = FactIdentityConflictError x)) \<and>
         (\<forall>k. e = KeyError k \<longrightarrow> k = ticket_of tickets (stage_id (hd rest)))"
  using assms
proof (induction ss arbitrary: created files db thesis)
  case Nil
  from Nil.prems(2) show ?case by (intro Nil.prems(1) [of "[]" "[]"]) auto
next
  case (Cons s ss)
  let ?tk = "\<lambda>s. ticket_of tickets (stage_id s)"
  obtain r1 files1 db1 where step: "place_stage load dump sha validate repo now args run_ticket tickets s (files, db) = (r1, files1, db1)"
    by (metis prod.exhaust)
  from Cons.prems(3) have m: "mapped tickets s" and new: "ticket_id_ok (?tk s)" "find_ticket repo (?tk s) db = None" by simp_all
  note S = place_stageE [OF step m refl new Cons.prems(5)]
  have one: "tree_frame repo {?tk s} db db1" using S one_ticket_tree by blast
  show ?case
  proof (cases r1)
    case (Inl e)
    with step Cons.prems(2) have res: "r = Inl e" "created' = created" "files' = files1" "db' = db1" by simp_all
    show ?thesis
      by (rule Cons.prems(1) [of "[]" "s # ss"]) (use res S Inl one in \<open>simp_all add: update_conv\<close>)
  next
    case (Inr t)
    with S have t: "t = ?tk s" and stored: "stage_stored load dump repo args run_ticket tickets db1 s" by simp_all
    from step Cons.prems(2) Inr have run: "place_stages load dump sha validate repo now args run_ticket tickets ss (created @ [t]) (files1, db1) = (r, created', files', db')"
      by simp
    have inv: "ticket_inv db1" using one Cons.prems(5) by (simp add: tree_frame_def ticket_more_def)
    have dist: "distinct (map ?tk ss)" "?tk s \<notin> ?tk ` set ss" using Cons.prems(4) by simp_all
    have free: "\<forall>s \<in> set ss. mapped tickets s \<and> ticket_id_ok (?tk s) \<and> find_ticket repo (?tk s) db1 = None"
    proof
      fix s' assume s': "s' \<in> set ss"
      with dist(2) have "?tk s' \<noteq> ?tk s" by (metis imageI)
      with one have "find_ticket repo (?tk s') db1 = find_ticket repo (?tk s') db" by (simp add: tree_frame_def)
      with Cons.prems(3) s' show "mapped tickets s' \<and> ticket_id_ok (?tk s') \<and> find_ticket repo (?tk s') db1 = None" by simp
    qed
    obtain placed rest where IH: "ss = placed @ rest" "created' = (created @ [t]) @ map ?tk placed"
      "tree_frame repo (?tk ` set (placed @ take 1 rest)) db1 db'"
      "\<And>t. t \<notin> ?tk ` set (placed @ take 1 rest) \<Longrightarrow> map_of files' t = map_of files1 t"
      "\<And>s. s \<in> set (placed @ take 1 rest) \<Longrightarrow> map_of files' (?tk s) \<noteq> None"
      "\<And>s. s \<in> set placed \<Longrightarrow> stage_stored load dump repo args run_ticket tickets db' s"
      "case r of Inr _ \<Rightarrow> rest = [] | Inl e \<Rightarrow> rest \<noteq> [] \<and> (find_ticket repo (?tk (hd rest)) db' = None \<or> (\<exists>x. e = FactIdentityConflictError x)) \<and>
        (\<forall>k. e = KeyError k \<longrightarrow> k = ?tk (hd rest))"
      by (rule Cons.IH [OF _ run free dist(1) inv]) blast
    have sub: "set (placed @ take 1 rest) \<subseteq> set ss" unfolding IH(1) by (auto dest: in_set_takeD)
    then have out: "?tk s \<notin> ?tk ` set (placed @ take 1 rest)" using dist(2) by blast
    have frame: "tree_frame repo (?tk ` set ((s # placed) @ take 1 rest)) db db'"
      by (rule tree_frame_trans [OF tree_frame_mono [OF one] tree_frame_mono [OF IH(3)]]) auto
    have texts: "map_of files1 u = (if u = ?tk s then Some (launch_document dump args run_ticket tickets s) else map_of files u)" for u
      using S by (simp add: update_conv)
    have stored': "stage_stored load dump repo args run_ticket tickets db' s"
      using stored stage_stored_frame [OF IH(3) out] by simp
    show ?thesis
    proof (rule Cons.prems(1) [of "s # placed" rest])
      show "tree_frame repo (?tk ` set ((s # placed) @ take 1 rest)) db db'" by (rule frame)
      show "map_of files' u = map_of files u" if "u \<notin> ?tk ` set ((s # placed) @ take 1 rest)" for u
        using that IH(4) [of u] texts by auto
      show "map_of files' (?tk s') \<noteq> None" if "s' \<in> set ((s # placed) @ take 1 rest)" for s'
        using that IH(5) IH(4) [OF out] texts by auto
      show "stage_stored load dump repo args run_ticket tickets db' s'" if "s' \<in> set (s # placed)" for s'
        using that stored' IH(6) by auto
    qed (use IH(1,2,7) t in simp_all)
  qed
qed

section \<open>The document of the run\<close>

lemma read_no_frontmatter:
  assumes "\<not> starts_with (''---'' @ newline) md"
  shows "parse_ticket load md default_title = \<lparr>pt_title = ticket_title_of [] False md default_title, pt_deps = [], pt_harness = None,
    pt_model = None, pt_worktree = None, pt_parent = None, pt_body = md, pt_checklist = parse_checklist md, pt_extras = [], pt_error = None\<rparr>"
proof -
  have "split_frontmatter md = (None, md, False)"
    using assms by (simp only: split_frontmatter_def not_False_eq_True if_True)
  moreover have "read_frontmatter load None False = Inr ([], [])" by (simp add: read_frontmatter_def)
  ultimately show ?thesis
    by (simp add: parse_ticket_def normalize_aliases_def yaml_get_def coerce_str_list_def optional_string_field_def blank_to_none_def)
qed

lemma name_chars: "(in_word cs \<longrightarrow> (\<forall>c \<in> set cs. \<not> line_break c)) \<and> (at_word cs \<longrightarrow> cs \<noteq> [] \<and> (\<forall>c \<in> set cs. \<not> line_break c))"
proof (induction cs)
  case (Cons c cs)
  have "ident_char c \<Longrightarrow> \<not> line_break c" by (auto simp: ident_char_def line_break_def less_eq_char_def)
  then show ?case using Cons by (auto simp: line_break_def)
qed simp

lemma name_line:
  assumes "name_re name"
  obtains b where "b \<noteq> []" "\<forall>c \<in> set b. \<not> line_break c" "name = b \<or> name = b @ newline"
proof -
  from assms consider "at_word name" | "name \<noteq> []" "last name = CHR 0x0A" "at_word (butlast name)"
    by (auto simp: name_re_def dollar_def)
  then show thesis
  proof cases
    case 1
    with that name_chars show ?thesis by blast
  next
    case 2
    from 2(1,2) have "name = butlast name @ newline" by (metis append_butlast_last_id newline_def)
    with 2 that name_chars show ?thesis by blast
  qed
qed

lemma run_document_parsed:
  assumes "name_re (wf_name defn)"
  shows "parse_ticket load (run_document defn args) t = \<lparr>pt_title = Some (strip (''Workflow: '' @ wf_name defn)), pt_deps = [],
    pt_harness = None, pt_model = None, pt_worktree = None, pt_parent = None, pt_body = run_document defn args,
    pt_checklist = parse_checklist (run_document defn args), pt_extras = [], pt_error = None\<rparr>"
proof -
  obtain b where b: "b \<noteq> []" "\<forall>c \<in> set b. \<not> line_break c" "wf_name defn = b \<or> wf_name defn = b @ newline"
    using name_line [OF assms] .
  let ?l = "''# Workflow: '' @ b"
  have clean: "\<forall>c \<in> set ?l. \<not> line_break c" using b(2) by (simp add: line_break_def)
  obtain rest where "run_document defn args = ?l @ newline @ rest" using b(3) by (auto simp: run_document_def)
  then have lines: "split_lines (run_document defn args) = ?l # split_lines rest" using split_lines_line [OF clean] by simp
  have header: "level_one_header ?l" "\<not> checklist_header ?l"
    by (simp_all add: level_one_header_def checklist_header_def starts_with_def)
  have nonblank: "strip (''Workflow: '' @ u) \<noteq> []" for u
  proof -
    have "CHR ''W'' \<in> set (dropWhile is_space (''Workflow: '' @ u))" by (simp add: is_space_def)
    moreover have "\<not> is_space (CHR ''W'')" by (simp add: is_space_def)
    ultimately show ?thesis by (auto simp: strip_def dropWhile_eq_Nil_conv)
  qed
  have "strip (drop 1 ?l) = strip (''Workflow: '' @ b)" by (simp add: strip_def is_space_def)
  moreover have "strip (''Workflow: '' @ wf_name defn) = strip (''Workflow: '' @ b)"
    using b(3) rstrip_spaces [of newline "''Workflow: '' @ b"] by (auto simp: strip_eq is_space_def)
  ultimately have "heading_title (run_document defn args) = Some (strip (''Workflow: '' @ wf_name defn))"
    using nonblank [of b] header by (simp add: heading_title_def lines optional_non_empty_def blank_to_none_def)
  then have "ticket_title_of [] False (run_document defn args) t = Some (strip (''Workflow: '' @ wf_name defn))"
    by (simp add: ticket_title_of_def yaml_get_def optional_non_empty_def)
  moreover have "\<not> starts_with (''---'' @ newline) (run_document defn args)" by (simp add: run_document_def starts_with_def)
  ultimately show ?thesis using read_no_frontmatter by simp
qed

section \<open>Cleaning up\<close>

definition named_in :: "string \<Rightarrow> string set \<Rightarrow> ticket_row \<Rightarrow> bool" where
  "named_in repo ts r \<longleftrightarrow> ticket_repository r = repo \<and> ticket_key_id r \<in> ts"

definition wipe :: "string \<Rightarrow> string set \<Rightarrow> 'z ticket_db_scheme \<Rightarrow> 'z ticket_db_scheme" where
  "wipe repo ts db = db\<lparr>ticket_rows := filter (\<lambda>r. \<not> named_in repo ts r) (ticket_rows db),
     dep_rows := filter (\<lambda>d. \<not> (dep_repository d = repo \<and> (dep_ticket d \<in> ts \<or> dep_on d \<in> ts))) (dep_rows db),
     checklist_rows := filter (\<lambda>i. \<not> (item_repository i = repo \<and> item_ticket i \<in> ts)) (checklist_rows db)\<rparr>"

lemma wipe_wipe: "wipe repo us (wipe repo ts db) = wipe repo (us \<union> ts) db"
  by (simp add: wipe_def named_in_def conj_disj_distribL de_Morgan_disj conj_ac cong: filter_cong)

lemma wipe_sel [simp]: "workflow_runs (wipe repo ts db) = workflow_runs db" "escalation_rows (wipe repo ts db) = escalation_rows db"
  by (simp_all add: wipe_def)

lemma delete_runs_none:
  assumes "\<forall>r \<in> set (workflow_runs db). run_repository r = repo \<longrightarrow> parent_ticket_id r \<noteq> Some t"
  shows "delete_runs repo t db = db"
proof -
  have none: "filter (\<lambda>r. run_repository r = repo \<and> parent_ticket_id r = Some t) (workflow_runs db) = []"
    using assms by (auto simp: filter_empty_conv)
  have keep: "delete_where (\<lambda>r. run_repository r = repo \<and> parent_ticket_id r = Some t) (workflow_runs db) = workflow_runs db"
    using assms by (auto simp: delete_where_def intro: filter_True)
  show ?thesis unfolding delete_runs_def Let_def none keep by (simp add: delete_where_def)
qed

lemma cleanup_ticket_wipes:
  assumes "\<forall>r \<in> set (ticket_rows db). ticket_repository r = repo \<and> ticket_key_id r \<noteq> t \<longrightarrow> ticket_parent r \<noteq> Some t"
    and "\<forall>e \<in> set (escalation_rows db). esc_repository e = repo \<longrightarrow> esc_ticket e \<noteq> Some t"
    and "\<forall>r \<in> set (workflow_runs db). run_repository r = repo \<longrightarrow> parent_ticket_id r \<noteq> Some t"
  shows "cleanup_ticket repo t (files, db) = (AList.delete t files, wipe repo {t} db)"
proof -
  let ?P = "\<lambda>d. dep_repository d = repo \<and> (dep_ticket d = t \<or> dep_on d = t)"
  let ?db = "db\<lparr>dep_rows := delete_where ?P (dep_rows db)\<rparr>"
  have "delete_runs repo t ?db = ?db" by (rule delete_runs_none) (use assms(3) in simp)
  moreover have "delete_ticket repo t ?db = Inr (wipe repo {t} db)"
    using assms(1,2) by (auto simp: delete_ticket_def list_ex_iff wipe_def named_in_def delete_where_def this_ticket_def items_of_def
        conj_disj_distribL)
  ultimately show ?thesis by (simp add: cleanup_ticket_def Let_def)
qed

text \<open>Tickets that nothing else hangs on go one after the other, and the one they all have as their parent last.\<close>

lemma cleanup_fold:
  assumes "\<forall>r \<in> set (ticket_rows db). ticket_repository r = repo \<longrightarrow> (\<forall>t \<in> set us. ticket_parent r \<noteq> Some t)"
    and "\<forall>e \<in> set (escalation_rows db). esc_repository e = repo \<longrightarrow> (\<forall>t \<in> set us. esc_ticket e \<noteq> Some t)"
    and "\<forall>r \<in> set (workflow_runs db). run_repository r = repo \<longrightarrow> (\<forall>t \<in> set us. parent_ticket_id r \<noteq> Some t)"
  shows "fold (cleanup_ticket repo) us (files, db) = (fold AList.delete us files, wipe repo (set us) db)"
  using assms
proof (induction us arbitrary: files db)
  case Nil
  show ?case by (simp add: wipe_def named_in_def)
next
  case (Cons t us)
  have one: "cleanup_ticket repo t (files, db) = (AList.delete t files, wipe repo {t} db)"
    by (rule cleanup_ticket_wipes) (use Cons.prems in auto)
  have "fold (cleanup_ticket repo) us (AList.delete t files, wipe repo {t} db) =
      (fold AList.delete us (AList.delete t files), wipe repo (set us) (wipe repo {t} db))"
    by (rule Cons.IH) (use Cons.prems in \<open>auto simp: wipe_def\<close>)
  with one show ?case by (simp add: wipe_wipe)
qed

section \<open>The tickets of a launch\<close>

definition run_ticket_of :: "string \<Rightarrow> stage_def list \<Rightarrow> files \<times> 'z ticket_db_scheme \<Rightarrow> string" where
  "run_ticket_of repo stages w = hd (allocate_ids repo (1 + length stages) w)"

definition stage_tickets_of :: "string \<Rightarrow> stage_def list \<Rightarrow> files \<times> 'z ticket_db_scheme \<Rightarrow> (string \<times> string) list" where
  "stage_tickets_of repo stages w = zip (map stage_id stages) (tl (allocate_ids repo (1 + length stages) w))"

lemma materialize_unfold:
  assumes "validate_workflow (defn\<lparr>builtin := False\<rparr>) = []" and "topo_sorted (wf_stages defn) = Inr stages"
  shows "materialize_workflow load dump sha validate repo now at defn args w =
    (let run_ticket = run_ticket_of repo stages w; tickets = stage_tickets_of repo stages w in
     (case build_tree load dump sha validate repo now defn args run_ticket tickets stages w of
              (Inl e, created, w) \<Rightarrow> (Inl e, cleanup_partial repo created w)
            | (Inr _, created, files, db) \<Rightarrow>
                (case store_run repo (launch_time at now) defn args run_ticket tickets db of
                   (Inl e, db) \<Rightarrow> (Inl e, cleanup_partial repo created (files, db))
                 | (Inr wid, db) \<Rightarrow>
                     (Inr \<lparr>result_workflow = wid, result_run_ticket = run_ticket, result_stage_tickets = tickets,
                        result_created = created\<rparr>, files, db))))"
  using assms by (simp add: materialize_workflow_def run_ticket_of_def stage_tickets_of_def Let_def)

lemma validated_topo:
  assumes "validate_workflow (defn\<lparr>builtin := False\<rparr>) = []"
  obtains stages where "topo_sorted (wf_stages defn) = Inr stages" "distinct (map stage_id stages)" "set stages = set (wf_stages defn)"
    "length stages = length (wf_stages defn)" "\<And>i. i < length stages \<Longrightarrow> set (depends_on (stages ! i)) \<subseteq> stage_id ` set (take i stages)"
    "well_formed_stages (wf_stages defn)"
proof -
  from validate_well_formed [OF assms] have "well_formed_stages (wf_stages defn)" by simp
  with topo_sortedE [OF this] that show thesis by blast
qed

lemma map_of_zip_keys:
  assumes "distinct ks" and "length vs = length ks"
  shows "map (\<lambda>k. the (map_of (zip ks vs) k)) ks = vs"
proof (rule nth_equalityI)
  fix i assume i: "i < length (map (\<lambda>k. the (map_of (zip ks vs) k)) ks)"
  then have "map_of (zip ks vs) (ks ! i) = Some (vs ! i)"
    by (intro map_of_is_SomeI) (use assms in \<open>auto simp: set_zip\<close>)
  with i show "map (\<lambda>k. the (map_of (zip ks vs) k)) ks ! i = vs ! i" by simp
qed (use assms(2) in simp)

lemma launch_tickets:
  fixes db :: "'z ticket_db_scheme"
  assumes "distinct (map stage_id stages)" and "\<forall>s \<in> set stages. set (depends_on s) \<subseteq> stage_id ` set stages"
    and "run_ticket = run_ticket_of repo stages (files, db)" and "tickets = stage_tickets_of repo stages (files, db)"
  shows "distinct (run_ticket # map (\<lambda>s. ticket_of tickets (stage_id s)) stages)"
    and "\<forall>t \<in> set (run_ticket # map (\<lambda>s. ticket_of tickets (stage_id s)) stages). ticket_id_ok t \<and> find_ticket repo t db = None \<and> map_of files t = None"
    and "\<forall>s \<in> set stages. mapped tickets s"
proof -
  let ?ids = "allocate_ids repo (1 + length stages) (files, db)"
  note A = allocate_ids_fresh [where repo = repo and count = "1 + length stages" and files = files and db = db]
  then obtain x xs where ids: "?ids = x # xs" by (cases ?ids) auto
  have len: "length xs = length (map stage_id stages)" using A(2) ids by simp
  have tk: "map (\<lambda>s. ticket_of tickets (stage_id s)) stages = xs"
    using map_of_zip_keys [OF assms(1) len] ids by (simp add: assms(4) stage_tickets_of_def ticket_of_def comp_def)
  have run: "run_ticket = x" using ids by (simp add: assms(3) run_ticket_of_def)
  have "ticket_id_ok t" if "t \<in> set ?ids" for t using that numbered_id_ok by (auto simp: allocate_ids_def)
  then show "distinct (run_ticket # map (\<lambda>s. ticket_of tickets (stage_id s)) stages)"
    "\<forall>t \<in> set (run_ticket # map (\<lambda>s. ticket_of tickets (stage_id s)) stages). ticket_id_ok t \<and> find_ticket repo t db = None \<and> map_of files t = None"
    using A(1,3) unfolding tk run ids by auto
  have "dom (map_of tickets) = stage_id ` set stages"
    using ids dom_map_of_zip [OF len [symmetric]] by (simp add: assms(4) stage_tickets_of_def)
  then show "\<forall>s \<in> set stages. mapped tickets s" using assms(2) unfolding mapped_def by blast
qed

text \<open>What YAML guarantees for the documents of a launch.\<close>

definition launch_faithful :: "(string \<Rightarrow> yaml_result) \<Rightarrow> (yaml \<Rightarrow> string) \<Rightarrow> (string \<times> string) list \<Rightarrow> string \<Rightarrow> (string \<times> string) list \<Rightarrow>
    stage_def list \<Rightarrow> bool" where
  "launch_faithful load dump args run_ticket tickets stages \<longleftrightarrow> (\<forall>s \<in> set stages. yaml_faithful load dump
     (frontmatter_yaml (stage_frontmatter args run_ticket (map (ticket_of tickets) (depends_on s)) s)))"

lemma id_trimmed: "ticket_id_ok t \<Longrightarrow> trimmed t \<and> t \<noteq> []"
proof -
  assume ok: "ticket_id_ok t"
  have "is_upper_lower_digit c \<or> c = CHR ''_'' \<or> c = CHR ''-'' \<Longrightarrow> \<not> is_space c" for c
    by (auto simp: is_upper_lower_digit_def is_space_def Let_def)
  with ok show ?thesis by (auto simp: ticket_id_ok_def trimmed_def list_all_iff)
qed

lemma rendered_parent:
  assumes "yaml_faithful load dump (frontmatter_yaml f)" and "field_ok (fm_parent f)"
  shows "pt_parent (parse_ticket load (render_frontmatter dump f @ body) default_title) = fm_parent f"
proof -
  note front = render_frontmatter_split [of dump f, OF conjunct2 [OF assms(1) [unfolded yaml_faithful_def]], of body]
  note loads = conjunct1 [OF assms(1) [unfolded yaml_faithful_def]]
  define fs where "fs = normalize_aliases (yaml_dict [(''title'', yaml_opt (fm_title f)), (''deps'', YSeq (map YText (fm_deps f))),
     (''harness'', yaml_opt (fm_harness f)), (''model'', yaml_opt (fm_model f)), (''worktree'', yaml_opt (fm_worktree f)),
     (''parent'', yaml_opt (fm_parent f))])"
  note got = frontmatter_fields [OF fs_def]
  have read: "read_frontmatter load (Some (strip (dump (frontmatter_yaml f)))) False =
      Inr (yaml_dict [(''title'', yaml_opt (fm_title f)), (''deps'', YSeq (map YText (fm_deps f))), (''harness'', yaml_opt (fm_harness f)),
        (''model'', yaml_opt (fm_model f)), (''worktree'', yaml_opt (fm_worktree f)), (''parent'', yaml_opt (fm_parent f))], [])"
    by (simp add: read_frontmatter_def loads) (simp add: frontmatter_yaml_def yaml_true_def)
  show ?thesis
    unfolding parse_ticket_def front prod.case read sum.case Let_def fs_def [symmetric] got optional_string_field_opt [OF assms(2)]
    by (simp split: prod.splits)
qed

lemma launch_parent:
  assumes "launch_faithful load dump args run_ticket tickets stages" and "s \<in> set stages" and "ticket_id_ok run_ticket"
  shows "pt_parent (launch_parsed load dump args run_ticket tickets s) = Some run_ticket"
  unfolding launch_parsed_def launch_document_def stage_document_def
  by (subst rendered_parent) (use assms id_trimmed in \<open>auto simp: launch_faithful_def stage_frontmatter_def field_ok_def\<close>)

section \<open>Building the tree\<close>

text \<open>The container ticket of the run: planned, without dependencies and without a parent.\<close>

definition run_stored :: "string \<Rightarrow> workflow_def \<Rightarrow> string \<Rightarrow> 'z ticket_db_scheme \<Rightarrow> bool" where
  "run_stored repo defn run_ticket db \<longleftrightarrow> (\<exists>r. find_ticket repo run_ticket db = Some r \<and> ticket_state r = TkPlanned \<and>
     ticket_title r = strip (''Workflow: '' @ wf_name defn) \<and> ticket_harness r = None \<and> ticket_model r = None \<and> ticket_parent r = None) \<and>
     (\<forall>u. \<not> depends repo db run_ticket u)"

lemma depends_frame: "tree_frame repo ids db db' \<Longrightarrow> t \<notin> ids \<Longrightarrow> depends repo db' t u = depends repo db t u"
proof -
  assume f: "tree_frame repo ids db db'" and t: "t \<notin> ids"
  let ?r = "\<lparr>dep_repository = repo, dep_ticket = t, dep_on = u\<rparr>"
  have "?r \<in> {d \<in> set (dep_rows db'). \<not> (dep_repository d = repo \<and> dep_ticket d \<in> ids)} \<longleftrightarrow>
      ?r \<in> {d \<in> set (dep_rows db). \<not> (dep_repository d = repo \<and> dep_ticket d \<in> ids)}"
    using f unfolding tree_frame_def by (simp only:)
  with t show ?thesis by (simp add: depends_def)
qed

lemma run_stored_frame:
  "tree_frame repo ids db db' \<Longrightarrow> run_ticket \<notin> ids \<Longrightarrow> run_stored repo defn run_ticket db' = run_stored repo defn run_ticket db"
  by (simp add: run_stored_def depends_frame) (simp add: tree_frame_def)

lemma strip_title: "strip (''Workflow: '' @ u) \<noteq> []"
proof -
  have "CHR ''W'' \<in> set (dropWhile is_space (''Workflow: '' @ u))" by (simp add: is_space_def)
  moreover have "\<not> is_space (CHR ''W'')" by (simp add: is_space_def)
  ultimately show ?thesis by (auto simp: strip_def dropWhile_eq_Nil_conv)
qed

lemma build_treeE:
  fixes db db' :: "'z ticket_db_scheme"
  assumes "build_tree load dump sha validate repo now defn args run_ticket tickets stages (files, db) = (r, created, files', db')"
    and "name_re (wf_name defn)" and inv: "ticket_inv db"
    and ids: "distinct (run_ticket # map (\<lambda>s. ticket_of tickets (stage_id s)) stages)"
      "\<forall>t \<in> set (run_ticket # map (\<lambda>s. ticket_of tickets (stage_id s)) stages). ticket_id_ok t \<and> find_ticket repo t db = None"
    and m: "\<forall>s \<in> set stages. mapped tickets s"
  obtains (run_failed) e where "r = Inl e" "created = []" "db' = db" "\<And>k. e \<noteq> KeyError k" "\<And>t. t \<noteq> run_ticket \<Longrightarrow> map_of files' t = map_of files t"
  | (placed) placed rest where "stages = placed @ rest" "created = run_ticket # map (\<lambda>s. ticket_of tickets (stage_id s)) placed"
    "tree_frame repo (insert run_ticket ((\<lambda>s. ticket_of tickets (stage_id s)) ` set (placed @ take 1 rest))) db db'"
    "\<And>t. t \<notin> insert run_ticket ((\<lambda>s. ticket_of tickets (stage_id s)) ` set (placed @ take 1 rest)) \<Longrightarrow> map_of files' t = map_of files t"
    "\<And>s. s \<in> set (placed @ take 1 rest) \<Longrightarrow> map_of files' (ticket_of tickets (stage_id s)) \<noteq> None" "map_of files' run_ticket \<noteq> None"
    "\<And>s. s \<in> set placed \<Longrightarrow> stage_stored load dump repo args run_ticket tickets db' s" "run_stored repo defn run_ticket db'"
    "case r of Inr _ \<Rightarrow> rest = []
     | Inl e \<Rightarrow> rest \<noteq> [] \<and> (find_ticket repo (ticket_of tickets (stage_id (hd rest))) db' = None \<or> (\<exists>x. e = FactIdentityConflictError x)) \<and>
         (\<forall>k. e = KeyError k \<longrightarrow> k = ticket_of tickets (stage_id (hd rest)))"
proof -
  let ?tk = "\<lambda>s. ticket_of tickets (stage_id s)" and ?doc = "run_document defn args"
  obtain r1 files1 db1 where p: "place_ticket load dump sha repo now run_ticket ?doc (files, db) = (r1, files1, db1)" by (metis prod.exhaust)
  have new: "ticket_id_ok run_ticket" "find_ticket repo run_ticket db = None" using ids(2) by simp_all
  note P = place_ticketE [OF p new inv refl]
  have texts: "map_of files1 t = (if t = run_ticket then Some ?doc else map_of files t)" for t by (simp add: P(1) update_conv)
  show thesis
  proof (cases r1)
    case (Inl e)
    with assms(1) p have "r = Inl e" "created = []" "files' = files1" "db' = db1" by (simp_all add: build_tree_def)
    with run_failed P(3) Inl texts show thesis by auto
  next
    case (Inr u)
    with assms(1) p have run: "place_stages load dump sha validate repo now args run_ticket tickets stages [run_ticket] (files1, db1) = (r, created, files', db')"
      by (simp add: build_tree_def)
    note parsed = run_document_parsed [OF assms(2), of load args "Some run_ticket"]
    from P(3) Inr obtain c where row: "find_ticket repo run_ticket db1 = Some ((parsed_fields run_ticket (parse_ticket load ?doc (Some run_ticket))
        (read_into repo run_ticket now db))\<lparr>ticket_sync := c, ticket_updated_at := iso_seconds now\<rparr>)"
      and deps: "{u. depends repo db1 run_ticket u} = {}" by (auto simp: parsed)
    have stored: "run_stored repo defn run_ticket db1"
      using row deps strip_title [of "wf_name defn"] new(2) by (auto simp: run_stored_def parsed parsed_fields_def read_into_def)
    have one: "tree_frame repo {run_ticket} db db1" using P(2) by (rule one_ticket_tree)
    have inv1: "ticket_inv db1" using one inv by (simp add: tree_frame_def ticket_more_def)
    have free: "\<forall>s \<in> set stages. mapped tickets s \<and> ticket_id_ok (?tk s) \<and> find_ticket repo (?tk s) db1 = None"
    proof
      fix s assume s: "s \<in> set stages"
      with ids(1) have "?tk s \<noteq> run_ticket" by auto
      with tree_frame_find [OF one, of repo "?tk s"] m ids(2) s
      show "mapped tickets s \<and> ticket_id_ok (?tk s) \<and> find_ticket repo (?tk s) db1 = None" by simp
    qed
    have dist: "distinct (map ?tk stages)" using ids(1) by simp
    from place_stagesE [OF run free dist inv1] obtain placed rest where S: "stages = placed @ rest" "created = [run_ticket] @ map ?tk placed"
      "tree_frame repo (?tk ` set (placed @ take 1 rest)) db1 db'"
      "\<And>t. t \<notin> ?tk ` set (placed @ take 1 rest) \<Longrightarrow> map_of files' t = map_of files1 t"
      "\<And>s. s \<in> set (placed @ take 1 rest) \<Longrightarrow> map_of files' (?tk s) \<noteq> None"
      "\<And>s. s \<in> set placed \<Longrightarrow> stage_stored load dump repo args run_ticket tickets db' s"
      "case r of Inr _ \<Rightarrow> rest = [] | Inl e \<Rightarrow> rest \<noteq> [] \<and> (find_ticket repo (?tk (hd rest)) db' = None \<or> (\<exists>x. e = FactIdentityConflictError x)) \<and>
        (\<forall>k. e = KeyError k \<longrightarrow> k = ?tk (hd rest))"
      by (rule place_stagesE [OF run free dist inv1]) blast
    have out: "run_ticket \<notin> ?tk ` set (placed @ take 1 rest)" using ids(1) S(1) by (auto dest: in_set_takeD)
    show thesis
    proof (rule placed [OF S(1)])
      show "tree_frame repo (insert run_ticket (?tk ` set (placed @ take 1 rest))) db db'"
        by (rule tree_frame_trans [OF tree_frame_mono [OF one] tree_frame_mono [OF S(3)]]) auto
      show "map_of files' t = map_of files t" if "t \<notin> insert run_ticket (?tk ` set (placed @ take 1 rest))" for t
        using that S(4) [of t] texts by simp
      show "map_of files' run_ticket \<noteq> None" using S(4) [OF out] texts by simp
      show "run_stored repo defn run_ticket db'" using stored run_stored_frame [OF S(3) out] by simp
    qed (use S in simp_all)
  qed
qed

section \<open>What the clean-up restores\<close>

lemma find_filter: "(\<And>r. P r \<Longrightarrow> Q r) \<Longrightarrow> find P (filter Q rs) = find P rs"
  by (induction rs) auto

lemma find_wipe: "find_ticket q t (wipe repo ts db) = (if q = repo \<and> t \<in> ts then None else find_ticket q t db)"
proof (cases "q = repo \<and> t \<in> ts")
  case True
  then show ?thesis by (auto simp: find_ticket_def wipe_def find_eq_None this_ticket_def named_in_def)
next
  case False
  then have "find (this_ticket q t) (filter (\<lambda>r. \<not> named_in repo ts r) (ticket_rows db)) = find (this_ticket q t) (ticket_rows db)"
    by (intro find_filter) (auto simp: this_ticket_def named_in_def)
  with False show ?thesis by (auto simp: find_ticket_def wipe_def)
qed

lemma wipe_restores:
  assumes frame: "tree_frame repo ids db db1" and inv: "ticket_inv db" and new: "\<forall>t \<in> ids. find_ticket repo t db = None"
    and ts: "ts \<subseteq> ids" "\<forall>t \<in> ids - ts. find_ticket repo t db1 = None"
  shows "find_ticket q t (wipe repo ts db1) = find_ticket q t db" and "set (dep_rows (wipe repo ts db1)) = set (dep_rows db)"
    and "set (checklist_rows (wipe repo ts db1)) = set (checklist_rows db)"
proof -
  have inv1: "ticket_inv db1" using frame inv by (simp add: tree_frame_def ticket_more_def)
  have missing: "(repo, t) \<notin> ticket_keys db1" if "t \<in> ids" "t \<notin> ts" for t
    using ts(2) that unfolding find_ticket_None [symmetric] by simp
  have fresh: "(repo, t) \<notin> ticket_keys db" if "t \<in> ids" for t
    using new that unfolding find_ticket_None [symmetric] by simp
  show "find_ticket q t (wipe repo ts db1) = find_ticket q t db"
    using tree_frame_find [OF frame, of q t] new ts by (cases "q = repo \<and> t \<in> ids") (auto simp: find_wipe)
  have D: "dep_ok (ticket_keys db) d" if "d \<in> set (dep_rows db)" for d using inv that by (simp add: ticket_inv_def)
  have D1: "dep_ok (ticket_keys db1) d" if "d \<in> set (dep_rows db1)" for d using inv1 that by (simp add: ticket_inv_def)
  have deps: "{d \<in> set (dep_rows db1). \<not> (dep_repository d = repo \<and> dep_ticket d \<in> ids)} =
      {d \<in> set (dep_rows db). \<not> (dep_repository d = repo \<and> dep_ticket d \<in> ids)}" using frame by (simp add: tree_frame_def)
  have "d \<in> set (dep_rows (wipe repo ts db1)) \<longleftrightarrow> d \<in> set (dep_rows db)" for d
  proof -
    have "d \<in> set (dep_rows (wipe repo ts db1)) \<longleftrightarrow> d \<in> set (dep_rows db1) \<and> \<not> (dep_repository d = repo \<and> (dep_ticket d \<in> ts \<or> dep_on d \<in> ts))"
      by (simp add: wipe_def)
    also have "\<dots> \<longleftrightarrow> d \<in> {d \<in> set (dep_rows db1). \<not> (dep_repository d = repo \<and> dep_ticket d \<in> ids)} \<and> \<not> (dep_repository d = repo \<and> dep_on d \<in> ts)"
      using D1 [of d] missing ts(1) by (auto simp: dep_ok_def)
    also have "\<dots> \<longleftrightarrow> d \<in> set (dep_rows db)"
      unfolding deps using D [of d] fresh ts(1) by (auto simp: dep_ok_def)
    finally show ?thesis .
  qed
  then show "set (dep_rows (wipe repo ts db1)) = set (dep_rows db)" by blast
  have I: "(item_repository i, item_ticket i) \<in> ticket_keys db" if "i \<in> set (checklist_rows db)" for i
    using inv that by (auto simp: ticket_inv_def item_ok_def)
  have I1: "(item_repository i, item_ticket i) \<in> ticket_keys db1" if "i \<in> set (checklist_rows db1)" for i
    using inv1 that by (auto simp: ticket_inv_def item_ok_def)
  have items: "{i \<in> set (checklist_rows db1). \<not> (item_repository i = repo \<and> item_ticket i \<in> ids)} =
      {i \<in> set (checklist_rows db). \<not> (item_repository i = repo \<and> item_ticket i \<in> ids)}" using frame by (simp add: tree_frame_def)
  have "i \<in> set (checklist_rows (wipe repo ts db1)) \<longleftrightarrow> i \<in> set (checklist_rows db)" for i
  proof -
    have "i \<in> set (checklist_rows (wipe repo ts db1)) \<longleftrightarrow> i \<in> set (checklist_rows db1) \<and> \<not> (item_repository i = repo \<and> item_ticket i \<in> ts)"
      by (simp add: wipe_def)
    also have "\<dots> \<longleftrightarrow> i \<in> {i \<in> set (checklist_rows db1). \<not> (item_repository i = repo \<and> item_ticket i \<in> ids)}"
      using I1 [of i] missing ts(1) by auto
    also have "\<dots> \<longleftrightarrow> i \<in> set (checklist_rows db)" unfolding items using I [of i] fresh by auto
    finally show ?thesis .
  qed
  then show "set (checklist_rows (wipe repo ts db1)) = set (checklist_rows db)" by blast
qed

section \<open>What a failed launch leaves\<close>

lemma store_run_error:
  fixes db db' :: "'z ticket_db_scheme"
  assumes "store_run repo t defn args run_ticket tickets db = (Inl e, db')" and "\<forall>s \<in> set (wf_stages defn). map_of tickets (stage_id s) \<noteq> None"
  shows "\<exists>n. db' = db\<lparr>uuid_draws := n\<rparr>" and "e \<noteq> KeyError k"
proof -
  have "get_items (map_of tickets) id (map stage_id (wf_stages defn)) = Inr (map (ticket_of tickets) (map stage_id (wf_stages defn)))"
    using get_items_eq [of "map stage_id (wf_stages defn)" "map_of tickets" id] assms(2) by (simp add: ticket_of_def)
  with assms(1) obtain wid cid specs and b :: "'z ticket_db_scheme" where c: "create_workflow_run repo (launched_run wid cid defn args run_ticket tickets t) specs b = Inl e"
    "db' = db\<lparr>uuid_draws := Suc (Suc (uuid_draws db))\<rparr>"
    by (auto simp: store_run_def uuid4_def Let_def split: sum.splits)
  then show "\<exists>n. db' = db\<lparr>uuid_draws := n\<rparr>" by blast
  from c(1) show "e \<noteq> KeyError k"
    by (auto simp: create_workflow_run_def insert_run_def append_workflow_fact_def append_fact_db_def append_fact_def insert_fact_def
        bindE_eq_Inl Let_def split: if_splits option.splits prod.splits)
qed

lemma cleanup_tree:
  fixes db db1 dbx :: "'z ticket_db_scheme"
  assumes frame: "tree_frame repo (insert run_ticket ids) db db1" and inv: "ticket_inv db"
    and new: "\<forall>t \<in> insert run_ticket ids. find_ticket repo t db = None" and "run_ticket \<notin> ids"
    and parents: "\<And>t r. t \<in> ids \<Longrightarrow> find_ticket repo t db1 = Some r \<Longrightarrow> ticket_parent r = Some run_ticket"
    and container: "\<And>r. find_ticket repo run_ticket db1 = Some r \<Longrightarrow> ticket_parent r = None"
    and ts: "set ts \<subseteq> ids" "\<forall>t \<in> ids - set ts. find_ticket repo t db1 = None"
    and runs: "\<forall>r \<in> set (workflow_runs db). run_repository r = repo \<longrightarrow> (\<forall>t. parent_ticket_id r = Some t \<longrightarrow> find_ticket repo t db \<noteq> None)"
    and same: "ticket_rows dbx = ticket_rows db1" "escalation_rows dbx = escalation_rows db1" "workflow_runs dbx = workflow_runs db1"
  shows "cleanup_partial repo (run_ticket # ts) (files, dbx) =
    (fold AList.delete (rev (run_ticket # ts)) files, wipe repo (insert run_ticket (set ts)) dbx)"
proof -
  have inv1: "ticket_inv db1" using tree_frame_inv [OF frame inv] .
  have fresh: "(repo, t) \<notin> ticket_keys db" if "t \<in> insert run_ticket ids" for t
    unfolding find_ticket_None [symmetric] using that by (rule bspec [OF new])
  have parent: "t = run_ticket \<and> ticket_key_id r \<in> set ts"
    if r: "r \<in> set (ticket_rows db1)" "ticket_repository r = repo" "ticket_parent r = Some t" "t \<in> insert run_ticket ids" for r t
  proof -
    have found: "find_ticket repo (ticket_key_id r) db1 = Some r" using find_ticket_unique [OF inv1 r(1)] r(2) by simp
    show ?thesis
    proof (cases "ticket_key_id r \<in> insert run_ticket ids")
      case False
      then have "find_ticket repo (ticket_key_id r) db = Some r" using tree_frame_find [OF frame, of repo] found by simp
      then have "r \<in> set (ticket_rows db)" using find_ticket_mem by blast
      with inv have "parent_ok (ticket_keys db) r" by (simp add: ticket_inv_def)
      with r fresh show ?thesis by (auto simp: parent_ok_def)
    next
      case True
      with container [of r] found r(3) have stage: "ticket_key_id r \<in> ids" by auto
      with parents [OF this found] r(3) have "t = run_ticket" by simp
      moreover have "ticket_key_id r \<in> set ts"
      proof (rule ccontr)
        assume "ticket_key_id r \<notin> set ts"
        with stage ts(2) have "find_ticket repo (ticket_key_id r) db1 = None" by blast
        with found show False by simp
      qed
      ultimately show ?thesis by blast
    qed
  qed
  have esc: "esc_ticket e \<noteq> Some t" if "e \<in> set (escalation_rows dbx)" "esc_repository e = repo" "t \<in> insert run_ticket ids" for e t
  proof -
    have "escalation_rows dbx = escalation_rows db" using ticket_only_sel(11) [OF tree_frame_only [OF frame]] same(2) by simp
    with that(1) inv have "escalation_ok (ticket_keys db) (next_escalation db) e" by (simp add: ticket_inv_def)
    with that(2) fresh [OF that(3)] show ?thesis by (auto simp: escalation_ok_def)
  qed
  have run: "parent_ticket_id r \<noteq> Some t" if "r \<in> set (workflow_runs dbx)" "run_repository r = repo" "t \<in> insert run_ticket ids" for r t
  proof -
    have "workflow_runs dbx = workflow_runs db" using ticket_only_sel(1) [OF tree_frame_only [OF frame]] same(3) by simp
    with that runs new show ?thesis by auto
  qed
  have "fold (cleanup_ticket repo) (rev ts) (files, dbx) = (fold AList.delete (rev ts) files, wipe repo (set (rev ts)) dbx)"
  proof (rule cleanup_fold)
    show "\<forall>r \<in> set (ticket_rows dbx). ticket_repository r = repo \<longrightarrow> (\<forall>t \<in> set (rev ts). ticket_parent r \<noteq> Some t)"
    proof (intro ballI impI notI)
      fix r t assume r: "r \<in> set (ticket_rows dbx)" "ticket_repository r = repo" "t \<in> set (rev ts)" "ticket_parent r = Some t"
      with ts(1) have t: "t \<in> ids" by auto
      from parent [of r t] r same(1) t have "t = run_ticket" by simp
      with t assms(4) show False by simp
    qed
    show "\<forall>e \<in> set (escalation_rows dbx). esc_repository e = repo \<longrightarrow> (\<forall>t \<in> set (rev ts). esc_ticket e \<noteq> Some t)"
      using esc ts(1) by (simp add: subset_iff)
    show "\<forall>r \<in> set (workflow_runs dbx). run_repository r = repo \<longrightarrow> (\<forall>t \<in> set (rev ts). parent_ticket_id r \<noteq> Some t)"
      using run ts(1) by (simp add: subset_iff)
  qed
  moreover have "cleanup_ticket repo run_ticket (fold AList.delete (rev ts) files, wipe repo (set (rev ts)) dbx) =
      (AList.delete run_ticket (fold AList.delete (rev ts) files), wipe repo {run_ticket} (wipe repo (set (rev ts)) dbx))"
  proof (rule cleanup_ticket_wipes)
    show "\<forall>r \<in> set (ticket_rows (wipe repo (set (rev ts)) dbx)). ticket_repository r = repo \<and> ticket_key_id r \<noteq> run_ticket \<longrightarrow>
        ticket_parent r \<noteq> Some run_ticket"
      using parent same(1) by (auto simp: wipe_def named_in_def)
  qed (use esc run in auto)
  ultimately show ?thesis by (simp add: cleanup_partial_def wipe_wipe)
qed

lemma map_of_deletes: "map_of (fold AList.delete ts al) t = (if t \<in> set ts then None else map_of al t)"
  by (induction ts arbitrary: al) (auto simp: delete_conv)

lemma validated_name:
  assumes "validate_workflow defn = []"
  shows "name_re (wf_name defn)"
proof -
  have "\<forall>i \<in> set (workflow_issues defn). issue_severity i \<noteq> SevError" using error_in_validate assms by blast
  then have "\<forall>i \<in> set (name_issues defn). issue_severity i \<noteq> SevError" by (auto simp: workflow_issues_def split: if_splits)
  then show ?thesis by (simp add: name_issues_def split: if_splits)
qed

lemma failed_tree_clean:
  fixes db db1 dbx :: "'z ticket_db_scheme"
  assumes stages: "stages = placed @ rest" and L: "distinct (run_ticket # map (\<lambda>s. ticket_of tickets (stage_id s)) stages)"
      "\<forall>t \<in> set (run_ticket # map (\<lambda>s. ticket_of tickets (stage_id s)) stages). ticket_id_ok t \<and> find_ticket repo t db = None \<and> map_of files t = None"
    and frame: "tree_frame repo (insert run_ticket ((\<lambda>s. ticket_of tickets (stage_id s)) ` set (placed @ take 1 rest))) db db1"
    and texts: "\<And>t. t \<notin> insert run_ticket ((\<lambda>s. ticket_of tickets (stage_id s)) ` set (placed @ take 1 rest)) \<Longrightarrow> map_of files1 t = map_of files t"
    and stored: "\<And>s. s \<in> set placed \<Longrightarrow> stage_stored load dump repo args run_ticket tickets db1 s" "run_stored repo defn run_ticket db1"
    and failed: "\<forall>s \<in> set (take 1 rest). find_ticket repo (ticket_of tickets (stage_id s)) db1 = None"
    and faithful: "launch_faithful load dump args run_ticket tickets stages" and inv: "ticket_inv db"
    and runs: "\<forall>r \<in> set (workflow_runs db). run_repository r = repo \<longrightarrow> (\<forall>t. parent_ticket_id r = Some t \<longrightarrow> find_ticket repo t db \<noteq> None)"
    and same: "ticket_rows dbx = ticket_rows db1" "dep_rows dbx = dep_rows db1" "checklist_rows dbx = checklist_rows db1"
      "escalation_rows dbx = escalation_rows db1" "workflow_runs dbx = workflow_runs db1"
    and clean: "cleanup_partial repo (run_ticket # map (\<lambda>s. ticket_of tickets (stage_id s)) placed) (files1, dbx) = (files', db')"
  shows "(\<forall>q t. find_ticket q t db' = find_ticket q t db) \<and> set (dep_rows db') = set (dep_rows db) \<and>
    set (checklist_rows db') = set (checklist_rows db) \<and> workflow_runs db' = workflow_runs db"
    and "t \<notin> (\<lambda>s. ticket_of tickets (stage_id s)) ` set (take 1 rest) \<Longrightarrow> map_of files' t = map_of files t"
    and "s \<in> set (take 1 rest) \<Longrightarrow> map_of files' (ticket_of tickets (stage_id s)) = map_of files1 (ticket_of tickets (stage_id s))"
proof -
  let ?tk = "\<lambda>s. ticket_of tickets (stage_id s)"
  let ?ids = "?tk ` set (placed @ take 1 rest)" and ?ts = "map ?tk placed"
  have sub: "set (placed @ take 1 rest) \<subseteq> set stages" unfolding stages by (auto dest: in_set_takeD)
  have out: "run_ticket \<notin> ?ids" using L(1) sub by auto
  have new: "\<forall>t \<in> insert run_ticket ?ids. find_ticket repo t db = None" "\<forall>t \<in> insert run_ticket ?ids. map_of files t = None"
    using L(2) sub by auto
  have parents: "ticket_parent r = Some run_ticket" if t: "t \<in> ?ids" and r: "find_ticket repo t db1 = Some r" for t r
  proof -
    from t obtain s where s: "t = ?tk s" "s \<in> set placed \<or> s \<in> set (take 1 rest)" by auto
    with failed r have p: "s \<in> set placed" by auto
    with stored(1) [OF p] r s(1) launch_parent [OF faithful, of s] L(2) stages show ?thesis by (auto simp: stage_stored_def Let_def)
  qed
  have container: "ticket_parent r = None" if "find_ticket repo run_ticket db1 = Some r" for r
    using stored(2) that by (auto simp: run_stored_def)
  have gone: "set ?ts \<subseteq> ?ids" "\<forall>t \<in> ?ids - set ?ts. find_ticket repo t db1 = None" using failed by auto
  have "cleanup_partial repo (run_ticket # ?ts) (files1, dbx) =
      (fold AList.delete (rev (run_ticket # ?ts)) files1, wipe repo (insert run_ticket (set ?ts)) dbx)"
    by (rule cleanup_tree [OF frame inv new(1) out parents container gone runs same(1,4,5)])
  with clean have res: "files' = fold AList.delete (rev (run_ticket # ?ts)) files1" "db' = wipe repo (insert run_ticket (set ?ts)) dbx"
    by simp_all
  have ts: "insert run_ticket (set ?ts) \<subseteq> insert run_ticket ?ids" "\<forall>t \<in> insert run_ticket ?ids - insert run_ticket (set ?ts). find_ticket repo t db1 = None"
  proof -
    show "insert run_ticket (set ?ts) \<subseteq> insert run_ticket ?ids" using gone(1) by (rule insert_mono)
    show "\<forall>t \<in> insert run_ticket ?ids - insert run_ticket (set ?ts). find_ticket repo t db1 = None"
    proof
      fix t assume "t \<in> insert run_ticket ?ids - insert run_ticket (set ?ts)"
      then have "t \<in> ?ids - set ?ts" by blast
      with gone(2) show "find_ticket repo t db1 = None" by (rule bspec)
    qed
  qed
  note W = wipe_restores [OF frame inv new(1) ts]
  have "find_ticket q t db' = find_ticket q t db" for q t
    using W(1) [of q t] unfolding res(2) find_wipe find_ticket_rows [OF same(1)] .
  moreover have "set (dep_rows db') = set (dep_rows db)" "set (checklist_rows db') = set (checklist_rows db)"
    using W(2,3) same(2,3) by (simp_all add: res(2) wipe_def)
  moreover have "workflow_runs db' = workflow_runs db" using same(5) ticket_only_sel(1) [OF tree_frame_only [OF frame]] by (simp add: res(2))
  ultimately show "(\<forall>q t. find_ticket q t db' = find_ticket q t db) \<and> set (dep_rows db') = set (dep_rows db) \<and>
    set (checklist_rows db') = set (checklist_rows db) \<and> workflow_runs db' = workflow_runs db" by blast
  have got: "map_of files' t = (if t = run_ticket \<or> t \<in> set ?ts then None else map_of files1 t)" for t
    unfolding res(1) map_of_deletes by simp
  show "map_of files' t = map_of files t" if "t \<notin> ?tk ` set (take 1 rest)"
    using that texts [of t] new(2) unfolding got by auto
  have "?tk s \<notin> insert run_ticket (set ?ts)" if "s \<in> set (take 1 rest)"
  proof -
    have "?tk s \<in> ?tk ` set rest" using that in_set_takeD by fast
    moreover have "?tk ` set placed \<inter> ?tk ` set rest = {}" "run_ticket \<notin> ?tk ` set rest" using L(1) stages by simp_all
    ultimately show ?thesis by auto
  qed
  then show "map_of files' (?tk s) = map_of files1 (?tk s)" if "s \<in> set (take 1 rest)" using that unfolding got by simp
qed

text \<open>
  C29: a failed launch leaves no trace in the tables. Whatever step of it fails, afterwards every ticket, dependency,
  checklist item and run is as before, unless the identity of an invalidation is taken. Of the files at
  most one differs: the document of the stage the launch failed on stays in the directory, and it is always
  there when the stage's document could not be read (the launch then fails with the missing ticket).
\<close>

theorem failed_launch_cleans_up:
  fixes db db' :: "'z ticket_db_scheme"
  assumes "materialize_workflow load dump sha validate repo now at defn args (files, db) = (Inl e, files', db')" and inv: "ticket_inv db"
    and runs: "\<forall>r \<in> set (workflow_runs db). run_repository r = repo \<longrightarrow> (\<forall>t. parent_ticket_id r = Some t \<longrightarrow> find_ticket repo t db \<noteq> None)"
    and faithful: "\<And>stages. topo_sorted (wf_stages defn) = Inr stages \<Longrightarrow>
      launch_faithful load dump args (run_ticket_of repo stages (files, db)) (stage_tickets_of repo stages (files, db)) stages"
    and "\<forall>x. e \<noteq> FactIdentityConflictError x"
  shows "(\<forall>q t. find_ticket q t db' = find_ticket q t db) \<and> set (dep_rows db') = set (dep_rows db) \<and>
    set (checklist_rows db') = set (checklist_rows db) \<and> workflow_runs db' = workflow_runs db \<and>
    (\<exists>left. \<forall>t. t \<noteq> left \<longrightarrow> map_of files' t = map_of files t) \<and>
    (\<forall>t. e = KeyError t \<longrightarrow> map_of files t = None \<and> map_of files' t \<noteq> None)"
proof (cases "validate_workflow (defn\<lparr>builtin := False\<rparr>) = []")
  case False
  with assms(1) have "e = ValueError ''invalid workflow''" "files' = files" "db' = db" by (simp_all add: materialize_workflow_def)
  then show ?thesis by simp
next
  case valid: True
  obtain stages where topo: "topo_sorted (wf_stages defn) = Inr stages" "distinct (map stage_id stages)"
    "set stages = set (wf_stages defn)" "\<And>i. i < length stages \<Longrightarrow> set (depends_on (stages ! i)) \<subseteq> stage_id ` set (take i stages)"
    "well_formed_stages (wf_stages defn)" by (rule validated_topo [OF valid]) blast
  let ?run = "run_ticket_of repo stages (files, db)" and ?tickets = "stage_tickets_of repo stages (files, db)"
  let ?tk = "\<lambda>s. ticket_of ?tickets (stage_id s)"
  have closed: "\<forall>s \<in> set stages. set (depends_on s) \<subseteq> stage_id ` set stages"
    using topo(5) unfolding well_formed_stages_def topo(3) by blast
  note L = launch_tickets [OF topo(2) closed refl refl, of repo files db]
  have ids: "distinct (?run # map ?tk stages)" "\<forall>t \<in> set (?run # map ?tk stages). ticket_id_ok t \<and> find_ticket repo t db = None"
    using L(1,2) by blast+
  have name: "name_re (wf_name defn)" using validated_name [OF valid] by simp
  obtain r created files1 db1 where tree: "build_tree load dump sha validate repo now defn args ?run ?tickets stages (files, db) = (r, created, files1, db1)"
    by (metis prod.exhaust)
  note run = assms(1) [unfolded materialize_unfold [OF valid topo(1)] Let_def tree]
  from tree name inv ids L(3) show ?thesis
  proof (cases rule: build_treeE)
    case (run_failed e')
    with run have "e = e'" "files' = files1" "db' = db" by (auto simp: cleanup_partial_def)
    with run_failed show ?thesis by blast
  next
    case (placed before rest)
    note clean = failed_tree_clean [OF placed(1) L(1,2) placed(3,4,7,8) _ faithful [OF topo(1)] inv runs]
    show ?thesis
    proof (cases r)
      case (Inl e')
      with run placed(2) have res: "e = e'" "cleanup_partial repo (?run # map ?tk before) (files1, db1) = (files', db')" by simp_all
      from placed(9) Inl res(1) assms(5) have failed: "rest \<noteq> []" "find_ticket repo (?tk (hd rest)) db1 = None"
        "\<forall>k. e = KeyError k \<longrightarrow> k = ?tk (hd rest)" by auto
      have one: "set (take 1 rest) = {hd rest}" using failed(1) by (cases rest) simp_all
      with failed(2) have gone: "\<forall>s \<in> set (take 1 rest). find_ticket repo (?tk s) db1 = None" by simp
      note C = clean [OF _ _ gone refl refl refl refl refl res(2)]
      have "hd rest \<in> set stages" using placed(1) failed(1) by simp
      with L(2) have "map_of files (?tk (hd rest)) = None" by simp
      moreover have "map_of files' (?tk (hd rest)) \<noteq> None" using C(3) [of "hd rest"] placed(5) [of "hd rest"] one by simp
      moreover have "map_of files' t = map_of files t" if "t \<noteq> ?tk (hd rest)" for t using C(2) [of t] that one by simp
      ultimately show ?thesis using C(1) failed(3) by blast
    next
      case (Inr u)
      with placed(9) have rest: "rest = []" by simp
      from run Inr obtain dbx where s: "store_run repo (launch_time at now) defn args ?run ?tickets db1 = (Inl e, dbx)"
        and res: "cleanup_partial repo (?run # map ?tk before) (files1, dbx) = (files', db')"
        unfolding placed(2) by (auto split: prod.splits sum.splits)
      have keys: "\<forall>s \<in> set (wf_stages defn). map_of ?tickets (stage_id s) \<noteq> None" using L(3) topo(3) by (simp add: mapped_def)
      obtain n where "dbx = db1\<lparr>uuid_draws := n\<rparr>" using store_run_error(1) [OF s keys] by blast
      then have same: "ticket_rows dbx = ticket_rows db1" "dep_rows dbx = dep_rows db1" "checklist_rows dbx = checklist_rows db1"
        "escalation_rows dbx = escalation_rows db1" "workflow_runs dbx = workflow_runs db1" by simp_all
      have gone: "\<forall>s \<in> set (take 1 rest). find_ticket repo (?tk s) db1 = None" by (simp add: rest)
      note C = clean [OF _ _ gone same res]
      have "map_of files' t = map_of files t" for t using C(2) [of t] by (simp add: rest)
      with C(1) store_run_error(2) [OF s keys] show ?thesis by blast
    qed
  qed
qed

section \<open>Steps that return, and a stage that cannot be read\<close>

lemma run_placed:
  fixes db :: "'z ticket_db_scheme"
  assumes "name_re (wf_name defn)" and "ticket_id_ok t" and "find_ticket repo t db = None" and "unused_invalidation repo t db"
  shows "\<exists>db'. place_ticket load dump sha repo now t (run_document defn args) (files, db) = (Inr (), AList.update t (run_document defn args) files, db')"
proof -
  note parsed = run_document_parsed [OF assms(1), of load args "Some t"]
  have "\<exists>db'. ingest dump sha repo t (parse_ticket load (run_document defn args) (Some t)) (sha (run_document defn args)) now db = Inr db'"
    by (rule ingest_returns) (use assms(4) in \<open>simp_all add: parsed\<close>)
  then obtain db' where i: "ingest dump sha repo t (parse_ticket load (run_document defn args) (Some t)) (sha (run_document defn args)) now db = Inr db'" by blast
  have err: "pt_error (parse_ticket load (run_document defn args) (Some t)) = None" by (simp add: parsed)
  have "\<not> already_synced repo t h db" for h using assms(3) by (simp add: already_synced_def)
  then show ?thesis using assms(2) i err by (simp add: place_ticket_def reconcile_path_def update_conv Let_def)
qed

lemma unreadable_stage:
  assumes "mapped tickets s" and "t = ticket_of tickets (stage_id s)" and "ticket_id_ok t" and "find_ticket repo t db = None"
    and "pt_error (launch_parsed load dump args run_ticket tickets s) \<noteq> None"
  shows "place_stage load dump sha validate repo now args run_ticket tickets s (files, db) =
    (Inl (KeyError t), AList.update t (launch_document dump args run_ticket tickets s) files, db)"
proof -
  let ?doc = "launch_document dump args run_ticket tickets s"
  have "get_items (map_of tickets) id (depends_on s) = Inr (map (ticket_of tickets) (depends_on s))"
    using get_items_eq [of "depends_on s" "map_of tickets" id] assms(1) unfolding mapped_def ticket_of_def by simp
  moreover have "get_item (map_of tickets) (stage_id s) (stage_id s) = Inr t"
    using assms(1,2) by (auto simp: get_item_def mapped_def ticket_of_def)
  moreover obtain why where "pt_error (parse_ticket load ?doc (Some t)) = Some why" using assms(2,5) by (auto simp: launch_parsed_def)
  moreover have "\<not> already_synced repo t h db" for h using assms(4) by (simp add: already_synced_def)
  moreover have "transition validate repo t TkReady now db = Inl (KeyError t)"
    using assms(4) by (simp add: transition_def get_ticket_status_def)
  ultimately show ?thesis
    using assms(3,4) by (simp add: place_stage_def launch_document_def place_ticket_def reconcile_path_def update_conv Let_def)
qed

section \<open>A sample\<close>

text \<open>The harness of the only stage is a blank, which the validation accepts and the parser of the document does not.\<close>

definition blank_stage :: stage_def where
  "blank_stage = (sample_stage ''a'' [])\<lparr>stage_harness := Some '' ''\<rparr>"

definition blank_yaml :: yaml where
  "blank_yaml = frontmatter_yaml (stage_frontmatter [] ''t005'' [] blank_stage)"

definition blank_load :: "string \<Rightarrow> yaml_result" where
  "blank_load s = (if s = ''Y'' then YValue blank_yaml else YError ''bad'')"

lemma sample_numbers:
  "run_ticket_of ''r'' [blank_stage] ([], sample_ticket_store) = ''t005''"
  "stage_tickets_of ''r'' [blank_stage] ([], sample_ticket_store) = [(''a'', ''t006'')]"
proof -
  have k: "known_ids ''r'' ([], sample_ticket_store) = [''t1'', ''t2'', ''t3'', ''t4'']" by (simp add: known_ids_def sample_ticket_def)
  have "highest_number [''t1'', ''t2'', ''t3'', ''t4''] = 4" by code_simp
  moreover have "numbered_id 5 = ''t005''" "numbered_id 6 = ''t006''" by code_simp+
  ultimately have "allocate_ids ''r'' 2 ([], sample_ticket_store) = [''t005'', ''t006'']"
    by (simp add: allocate_ids_def k upt_rec numeral_2_eq_2)
  then show "run_ticket_of ''r'' [blank_stage] ([], sample_ticket_store) = ''t005''"
    "stage_tickets_of ''r'' [blank_stage] ([], sample_ticket_store) = [(''a'', ''t006'')]"
    by (simp_all add: run_ticket_of_def stage_tickets_of_def blank_stage_def sample_stage_def numeral_2_eq_2)
qed

lemma blank_topo: "topo_sorted [blank_stage] = Inr [blank_stage]"
  by code_simp

lemma blank_valid: "validate_workflow ((sample_workflow [blank_stage])\<lparr>builtin := False\<rparr>) = []"
  by code_simp

lemma blank_faithful: "launch_faithful blank_load (\<lambda>_. ''Y'') [] ''t005'' [(''a'', ''t006'')] [blank_stage]"
  by code_simp

lemma blank_unreadable: "pt_error (launch_parsed blank_load (\<lambda>_. ''Y'') [] ''t005'' [(''a'', ''t006'')] blank_stage) \<noteq> None"
  by code_simp

lemma blank_launch_fails:
  "\<exists>files' db'. materialize_workflow blank_load (\<lambda>_. ''Y'') id (\<lambda>_. Inl ValidationError) ''r'' 0 None (sample_workflow [blank_stage]) []
     ([], sample_ticket_store) = (Inl (KeyError ''t006''), files', db')"
proof -
  let ?defn = "sample_workflow [blank_stage]" and ?tickets = "[(''a'', ''t006'')]" and ?w = "([], sample_ticket_store) :: files \<times> ticket_db"
  have valid: "validate_workflow (?defn\<lparr>builtin := False\<rparr>) = []" by (rule blank_valid)
  have topo: "topo_sorted (wf_stages ?defn) = Inr [blank_stage]" using blank_topo by (simp add: sample_workflow_def)
  have ok: "ticket_id_ok ''t005''" "ticket_id_ok ''t006''" by code_simp+
  have name: "name_re (wf_name ?defn)" using validated_name [OF blank_valid] by simp
  have new: "find_ticket ''r'' ''t005'' sample_ticket_store = None" "find_ticket ''r'' ''t006'' sample_ticket_store = None"
    by (simp_all add: sample_found)
  have "unused_invalidation ''r'' ''t005'' sample_ticket_store" by (simp add: unused_invalidation_def sample_inputs)
  from run_placed [OF name ok(1) new(1) this] obtain db1 where
    p: "place_ticket blank_load (\<lambda>_. ''Y'') id ''r'' 0 ''t005'' (run_document ?defn []) ?w =
      (Inr (), AList.update ''t005'' (run_document ?defn []) [], db1)" by blast
  have "one_ticket ''r'' ''t005'' sample_ticket_store db1" using place_ticketE(2) [OF p ok(1) new(1) sample_ticket_store_inv refl] .
  then have free: "find_ticket ''r'' ''t006'' db1 = None" using new(2) by (simp add: one_ticket_def)
  have m: "mapped ?tickets blank_stage" "''t006'' = ticket_of ?tickets (stage_id blank_stage)"
    by (simp_all add: mapped_def blank_stage_def sample_stage_def ticket_of_def)
  note s = unreadable_stage [OF m ok(2) free blank_unreadable]
  show ?thesis
    using p s by (simp add: materialize_unfold [OF valid topo] sample_numbers build_tree_def Let_def)
qed

theorem failed_launch_cleans_up_witness:
  "\<exists>files' db'. materialize_workflow blank_load (\<lambda>_. ''Y'') id (\<lambda>_. Inl ValidationError) ''r'' 0 None (sample_workflow [blank_stage]) []
     ([], sample_ticket_store) = (Inl (KeyError ''t006''), files', db') \<and> map_of files' ''t006'' \<noteq> None \<and>
     (\<forall>q t. find_ticket q t db' = find_ticket q t sample_ticket_store)"
proof -
  obtain files' db' where run: "materialize_workflow blank_load (\<lambda>_. ''Y'') id (\<lambda>_. Inl ValidationError) ''r'' 0 None (sample_workflow [blank_stage]) []
     ([], sample_ticket_store) = (Inl (KeyError ''t006''), files', db')" using blank_launch_fails by blast
  have runs: "\<forall>r \<in> set (workflow_runs sample_ticket_store). run_repository r = ''r'' \<longrightarrow>
      (\<forall>t. parent_ticket_id r = Some t \<longrightarrow> find_ticket ''r'' t sample_ticket_store \<noteq> None)"
    by (simp add: sample_ticket_store_def activity_db.defs sample_dag_store_def)
  have faithful: "launch_faithful blank_load (\<lambda>_. ''Y'') [] (run_ticket_of ''r'' stages ([], sample_ticket_store))
      (stage_tickets_of ''r'' stages ([], sample_ticket_store)) stages" if "topo_sorted (wf_stages (sample_workflow [blank_stage])) = Inr stages" for stages
  proof -
    have "stages = [blank_stage]" using that blank_topo by (simp add: sample_workflow_def)
    then show ?thesis using blank_faithful by (simp add: sample_numbers)
  qed
  from failed_launch_cleans_up [OF run sample_ticket_store_inv runs faithful] run show ?thesis by simp
qed

end
