(* ===== verification/LaunchReturns.thy ===== *)
theory LaunchReturns
  imports Launch
begin

text \<open>
  When the launch of a template (\<open>murder/work/workflows/materialize.py\<close>) returns, and the tree of tickets and the run it
  then leaves. What a step of it can fail on besides an unreadable document is an invalidation whose identity
  is taken; it never is when the inputs are named as the code names them (\<open>inputs_named\<close>).
\<close>

section \<open>Steps that return\<close>

lemma id_colon: "ticket_id_ok t \<Longrightarrow> CHR '':'' \<notin> set t"
proof
  assume ok: "ticket_id_ok t" and "CHR '':'' \<in> set t"
  moreover have "\<not> is_upper_lower_digit (CHR '':'')" by (simp add: is_upper_lower_digit_def)
  ultimately show False by (auto simp: ticket_id_ok_def list_all_iff)
qed

lemma ready_returns:
  assumes "inputs_named ts db" and "plain_ids ts" and "t \<in> ts"
  obtains db' where "update_ticket_status validate repo t TkReady now db = Inr db'" "inputs_named ts db'"
  by (rule status_returns [OF assms, of TkReady validate repo now]) (use that in auto)

lemma none_written: "writes_for (\<lambda>_. False) db db' \<Longrightarrow> inputs_named ts db \<Longrightarrow> inputs_named ts db'"
  by (rule inputs_named_subset) (auto simp: writes_for_def)

lemma ingest_named:
  assumes "ingest dump sha repo t p h now db = Inr db'" and named: "inputs_named ts db" "plain_ids ts" "t \<in> ts"
  shows "inputs_named ts db'"
proof -
  from assms(1) obtain a b c d where steps: "store_parsed repo t p now db = Inr a" "replace_deps repo t (pt_deps p) a = Inr b"
    "sync_checklist repo t (pt_checklist p) now b = Inr c" "invalidate_ticket_schedule repo t ''markdown'' now c = Inr d"
    "db' = mark_sync_state repo t ''synced'' (Some h) (Some (sha (render_frontmatter dump (frontmatter_of p) @ pt_body p))) (Some (md_path t)) None now d"
    unfolding ingest_def store_parsed_def [symmetric] by (auto simp: bindE_eq_Inr)
  have "writes_for (\<lambda>_. False) db a"
    using steps(1) by (auto simp: store_parsed_def update_ticket_from_parsed_def insert_ticket_from_parsed_def insert_ticket_row_def split: if_splits)
  then have b: "writes_for (\<lambda>_. False) db b"
    using steps(2) fold_deps_writes writes_for_trans writes_for_upd(2) unfolding replace_deps_def by metis
  from steps(3) obtain kept e where e: "sync_items repo t now 0 (pt_checklist p) (stored_items repo t b) [] b = Inr (kept, e)"
    "c = e\<lparr>checklist_rows := delete_where (\<lambda>i. items_of repo t i \<and> \<not> List.member kept (item_id i)) (checklist_rows e)\<rparr>"
    by (auto simp: sync_checklist_def bindE_eq_Inr)
  have "writes_for (\<lambda>_. False) b c" unfolding e(2) by (rule writes_for_trans [OF sync_items_writes [OF e(1)] writes_for_upd(3)])
  from none_written [OF writes_for_trans [OF b this] named(1)] have "inputs_named ts c" .
  from schedule_returns [OF this named(2,3)] steps(4) have "inputs_named ts d" by (metis sum.inject(2))
  then show ?thesis unfolding steps(5) by (rule none_written [OF writes_for_upd(6)])
qed

lemma place_ticket_returns:
  assumes "ticket_id_ok t" and "find_ticket repo t db = None" and p: "p = parse_ticket load doc (Some t)" "pt_error p = None"
    and "\<And>u. pt_parent p = Some u \<Longrightarrow> find_ticket repo u db \<noteq> None" and "\<forall>u \<in> set (pt_deps p) - {t}. find_ticket repo u db \<noteq> None"
    and named: "inputs_named ts db" "plain_ids ts" "t \<in> ts"
  obtains db' where "place_ticket load dump sha repo now t doc (files, db) = (Inr (), AList.update t doc files, db')" "inputs_named ts db'"
proof -
  have "unused_invalidation repo t db"
    unfolding unused_invalidation_def
  proof (intro ballI impI notI)
    let ?n = "next_generation repo ''schedule'' t db"
    fix r assume r: "r \<in> set (projection_inputs db)" "input_repository r = repo"
      "input_id r = UUID5 schedule_namespace (t @ '':'' @ int_text ?n @ '':'' @ ''markdown'')"
    with named(1,3) have "projection r = ''schedule'' \<and> subject_key r = t \<and> generation r = ?n" unfolding inputs_named_def input_named_def by blast
    with next_generation_new [OF r(1,2)] show False by auto
  qed
  from ingest_returns [OF assms(5,6) this] obtain db' where i: "ingest dump sha repo t p (sha doc) now db = Inr db'" by blast
  have "\<not> already_synced repo t h db" for h using assms(2) by (simp add: already_synced_def)
  then have "place_ticket load dump sha repo now t doc (files, db) = (Inr (), AList.update t doc files, db')"
    using assms(1) i p by (simp add: place_ticket_def reconcile_path_def update_conv Let_def)
  from this ingest_named [OF i named] show thesis by (rule that)
qed

text \<open>The document of a stage reads back as the stage says when its fields can be written.\<close>

definition launchable :: "(string \<times> string) list \<Rightarrow> stage_def \<Rightarrow> bool" where
  "launchable args s \<longleftrightarrow> field_ok (Some (fill args (stage_title s))) \<and> stage_harness s \<noteq> None \<and> stage_model s \<noteq> None \<and>
     field_ok (stage_harness s) \<and> field_ok (stage_model s) \<and> field_ok (stage_worktree s)"

lemma launch_read:
  assumes "launch_faithful load dump args run_ticket tickets stages" and "s \<in> set stages" and "launchable args s"
    and "ticket_id_ok run_ticket" and "\<forall>d \<in> set (depends_on s). ticket_id_ok (ticket_of tickets d)"
    and "p = launch_parsed load dump args run_ticket tickets s"
  shows "pt_error p = None \<and> pt_title p = Some (fill args (stage_title s)) \<and> pt_harness p = stage_harness s \<and> pt_model p = stage_model s \<and>
    pt_worktree p = stage_worktree s \<and> pt_parent p = Some run_ticket \<and> pt_deps p = map (ticket_of tickets) (depends_on s)"
proof -
  let ?f = "stage_frontmatter args run_ticket (map (ticket_of tickets) (depends_on s)) s"
  have "complete_frontmatter ?f"
    using assms(3-5) id_trimmed by (auto simp: complete_frontmatter_def stage_frontmatter_def launchable_def field_ok_def list_all_iff)
  moreover have "yaml_faithful load dump (frontmatter_yaml ?f)" using assms(1,2) by (simp add: launch_faithful_def)
  ultimately show ?thesis
    unfolding assms(6) launch_parsed_def launch_document_def stage_document_def by (simp add: parse_rendered_ticket stage_frontmatter_def)
qed

lemma place_stage_returns:
  fixes db :: "'z ticket_db_scheme"
  assumes m: "mapped tickets s" and t: "t = ticket_of tickets (stage_id s)" "ticket_id_ok t" "find_ticket repo t db = None" and inv: "ticket_inv db"
    and read: "pt_error (launch_parsed load dump args run_ticket tickets s) = None" "pt_parent (launch_parsed load dump args run_ticket tickets s) = Some run_ticket"
      "pt_deps (launch_parsed load dump args run_ticket tickets s) = map (ticket_of tickets) (depends_on s)"
    and found: "find_ticket repo run_ticket db \<noteq> None" "\<forall>d \<in> set (depends_on s). find_ticket repo (ticket_of tickets d) db \<noteq> None"
    and named: "inputs_named ts db" "plain_ids ts" "t \<in> ts"
  obtains db' where "place_stage load dump sha validate repo now args run_ticket tickets s (files, db) =
    (Inr t, AList.update t (launch_document dump args run_ticket tickets s) files, db')" "inputs_named ts db'"
proof -
  let ?doc = "launch_document dump args run_ticket tickets s" and ?p = "launch_parsed load dump args run_ticket tickets s"
  have parsed: "?p = parse_ticket load ?doc (Some t)" by (simp add: launch_parsed_def t(1))
  have "find_ticket repo u db \<noteq> None" if "pt_parent ?p = Some u" for u using that read(2) found(1) by simp
  moreover have "\<forall>u \<in> set (pt_deps ?p) - {t}. find_ticket repo u db \<noteq> None" using read(3) found(2) by auto
  ultimately obtain db1 where p: "place_ticket load dump sha repo now t ?doc (files, db) = (Inr (), AList.update t ?doc files, db1)" "inputs_named ts db1"
    using place_ticket_returns [OF t(2,3) parsed read(1) _ _ named] by metis
  from place_ticketE(3) [OF p(1) t(2,3) inv parsed] read(1) obtain c where
    "find_ticket repo t db1 = Some ((parsed_fields t ?p (read_into repo t now db))\<lparr>ticket_sync := c, ticket_updated_at := iso_seconds now\<rparr>)" by auto
  then have "get_ticket_status repo t db1 = Some TkPlanned" using t(3) by (simp add: get_ticket_status_def read_into_def parsed_fields_def)
  then have trans: "transition validate repo t TkReady now db1 = bindE (update_ticket_status validate repo t TkReady now db1) (\<lambda>db. Inr (TkPlanned, db))"
    by (simp add: transition_def valid_transitions_def)
  from ready_returns [OF p(2) named(2,3)] obtain db2 where r: "update_ticket_status validate repo t TkReady now db1 = Inr db2" "inputs_named ts db2" by blast
  have "get_items (map_of tickets) id (depends_on s) = Inr (map (ticket_of tickets) (depends_on s))"
    using get_items_eq [of "depends_on s" "map_of tickets" id] m unfolding mapped_def ticket_of_def by simp
  moreover have "get_item (map_of tickets) (stage_id s) (stage_id s) = Inr t"
    using m by (auto simp: get_item_def mapped_def t(1) ticket_of_def)
  ultimately have "place_stage load dump sha validate repo now args run_ticket tickets s (files, db) = (Inr t, AList.update t ?doc files, db2)"
    using p(1) trans r(1) by (simp add: place_stage_def launch_document_def)
  from this r(2) show thesis by (rule that)
qed

text \<open>Stages whose dependencies were placed before them are all placed.\<close>

lemma place_stages_return:
  fixes db :: "'z ticket_db_scheme"
  assumes "\<And>a s b. ss = a @ s # b \<Longrightarrow> \<forall>d \<in> set (depends_on s). d \<in> stage_id ` set a \<or> find_ticket repo (ticket_of tickets d) db \<noteq> None"
    and "\<forall>s \<in> set ss. mapped tickets s \<and> ticket_id_ok (ticket_of tickets (stage_id s)) \<and> find_ticket repo (ticket_of tickets (stage_id s)) db = None \<and>
      ticket_of tickets (stage_id s) \<in> ts"
    and read: "\<forall>s \<in> set ss. pt_error (launch_parsed load dump args run_ticket tickets s) = None \<and>
      pt_parent (launch_parsed load dump args run_ticket tickets s) = Some run_ticket \<and>
      pt_deps (launch_parsed load dump args run_ticket tickets s) = map (ticket_of tickets) (depends_on s)"
    and "distinct (map (\<lambda>s. ticket_of tickets (stage_id s)) ss)" and "ticket_inv db"
    and "find_ticket repo run_ticket db \<noteq> None" and "inputs_named ts db" and plain: "plain_ids ts"
  shows "\<exists>files' db'. place_stages load dump sha validate repo now args run_ticket tickets ss created (files, db) =
    (Inr (), created @ map (\<lambda>s. ticket_of tickets (stage_id s)) ss, files', db')"
  using assms
proof (induction ss arbitrary: created files db)
  case (Cons s ss)
  let ?tk = "\<lambda>s. ticket_of tickets (stage_id s)"
  have here: "mapped tickets s" "ticket_id_ok (?tk s)" "find_ticket repo (?tk s) db = None" "?tk s \<in> ts"
    "pt_error (launch_parsed load dump args run_ticket tickets s) = None" "pt_parent (launch_parsed load dump args run_ticket tickets s) = Some run_ticket"
    "pt_deps (launch_parsed load dump args run_ticket tickets s) = map (ticket_of tickets) (depends_on s)"
    using Cons.prems(2,3) by simp_all
  have deps: "\<forall>d \<in> set (depends_on s). find_ticket repo (ticket_of tickets d) db \<noteq> None" using Cons.prems(1) [of "[]" s ss] by simp
  obtain db1 where step: "place_stage load dump sha validate repo now args run_ticket tickets s (files, db) =
      (Inr (?tk s), AList.update (?tk s) (launch_document dump args run_ticket tickets s) files, db1)" "inputs_named ts db1"
    by (rule place_stage_returns [OF here(1) refl here(2,3) Cons.prems(5) here(5-7) Cons.prems(6) deps Cons.prems(7) plain here(4)])
  from place_stageE [OF step(1) here(1) refl here(2,3) Cons.prems(5)] have one: "one_ticket repo (?tk s) db db1"
    and got: "find_ticket repo (?tk s) db1 \<noteq> None" by (auto simp: stage_stored_def Let_def)
  have stay: "find_ticket repo u db1 = find_ticket repo u db" if "u \<noteq> ?tk s" for u using one that by (simp add: one_ticket_def)
  then have keep: "find_ticket repo u db1 \<noteq> None" if "find_ticket repo u db \<noteq> None" for u using that got by (cases "u = ?tk s") auto
  have "\<exists>files' db'. place_stages load dump sha validate repo now args run_ticket tickets ss (created @ [?tk s])
      (AList.update (?tk s) (launch_document dump args run_ticket tickets s) files, db1) = (Inr (), (created @ [?tk s]) @ map ?tk ss, files', db')"
  proof (rule Cons.IH)
    show "\<forall>d \<in> set (depends_on x). d \<in> stage_id ` set a \<or> find_ticket repo (ticket_of tickets d) db1 \<noteq> None" if "ss = a @ x # b" for a x b
      using Cons.prems(1) [of "s # a" x b] that keep got by auto
    show "\<forall>s \<in> set ss. mapped tickets s \<and> ticket_id_ok (?tk s) \<and> find_ticket repo (?tk s) db1 = None \<and> ?tk s \<in> ts"
    proof
      fix x assume x: "x \<in> set ss"
      have "?tk s \<notin> ?tk ` set ss" using Cons.prems(4) by simp
      with x have "?tk x \<noteq> ?tk s" by (metis (mono_tags, lifting) image_eqI)
      with Cons.prems(2) x stay show "mapped tickets x \<and> ticket_id_ok (?tk x) \<and> find_ticket repo (?tk x) db1 = None \<and> ?tk x \<in> ts" by simp
    qed
    show "ticket_inv db1" using one Cons.prems(5) by (simp add: one_ticket_def ticket_more_def)
  qed (use Cons.prems(3,4) keep [OF Cons.prems(6)] step(2) plain in simp_all)
  with step(1) show ?case by simp
qed simp

section \<open>The run\<close>

text \<open>The next random identifier is not in use.\<close>

definition next_draw_free :: "'z workflow_db_scheme \<Rightarrow> bool" where
  "next_draw_free db \<longleftrightarrow> (\<forall>r \<in> set (workflow_runs db). workflow_id r \<noteq> UUID4 (uuid_draws db)) \<and>
     (\<forall>f \<in> set (retained_facts db). fact_id f \<noteq> workflow_fact_id (UUID4 (uuid_draws db)) 0 ''started'')"

lemma workflow_fact_returns:
  "\<forall>f \<in> set (retained_facts db). fact_id f \<noteq> fid \<Longrightarrow> \<exists>db'. append_workflow_fact repo run rn fid body ts agg flag db = Inr db'"
  by (simp add: append_workflow_fact_def Let_def uuid4_def append_fact_dbI_new)

lemma create_run_returns:
  fixes db :: "'z workflow_db_scheme"
  assumes "run_status run = WfWaiting" and "waits \<noteq> []"
    and "\<forall>r \<in> set (workflow_runs db). workflow_id r \<noteq> workflow_id run \<and>
      \<not> (parent_ticket_id run \<noteq> None \<and> run_repository r = repo \<and> parent_ticket_id r = parent_ticket_id run)"
    and "\<forall>f \<in> set (retained_facts db). fact_id f \<noteq> workflow_fact_id (workflow_id run) (revision run) ''started''"
  obtains db' where "create_workflow_run repo run waits db = Inr db'"
proof -
  let ?a = "db\<lparr>workflow_runs := workflow_runs db @ [run_row_of repo run]\<rparr>"
  let ?b = "insert_waits repo (workflow_id run) waits (run_created_at run) ?a"
  have "insert_run repo run db = Inr ?a" using assms(3) by (auto simp: insert_run_def list_ex_iff)
  moreover have "\<forall>f \<in> set (retained_facts ?b). fact_id f \<noteq> workflow_fact_id (workflow_id run) (revision run) ''started''"
    using assms(4) by (simp add: insert_waits_tables)
  from workflow_fact_returns [OF this] obtain db' where "append_workflow_fact repo run (revision run) (workflow_fact_id (workflow_id run) (revision run) ''started'')
      (WorkflowStartedPayload (workflow_id run) (definition_name run) (run_definition_version run) (workflow_status_value (run_status run)))
      (run_created_at run) None True ?b = Inr db'" by blast
  ultimately show thesis using assms(1,2) by (intro that [of db']) (simp add: create_workflow_run_def terminal_workflow_def)
qed

lemma store_run_returns:
  fixes db :: "'z ticket_db_scheme"
  assumes keys: "\<forall>s \<in> set (wf_stages defn). map_of tickets (stage_id s) \<noteq> None" and "wf_stages defn \<noteq> []" and "next_draw_free db"
    and parent: "\<forall>r \<in> set (workflow_runs db). \<not> (run_repository r = repo \<and> parent_ticket_id r = Some run_ticket)"
  obtains cid db' where "store_run repo t defn args run_ticket tickets db = (Inr (UUID4 (uuid_draws db)), db')"
    "workflow_runs db' = workflow_runs db @ [run_row_of repo (launched_run (UUID4 (uuid_draws db)) cid defn args run_ticket tickets t)]"
    "ticket_rows db' = ticket_rows db" "dep_rows db' = dep_rows db" "checklist_rows db' = checklist_rows db" "ticket_inv db' = ticket_inv db"
    "\<exists>rows. workflow_waits db' = workflow_waits db @ rows \<and>
       map wait_spec rows = map (\<lambda>s. ExternalSignalWait ''ticket.finished'' (Some (ticket_of tickets (stage_id s)))) (wf_stages defn)"
proof -
  let ?wid = "UUID4 (uuid_draws db)" and ?cid = "UUID4 (Suc (uuid_draws db))" and ?b = "db\<lparr>uuid_draws := Suc (Suc (uuid_draws db))\<rparr>"
  let ?run = "launched_run ?wid ?cid defn args run_ticket tickets t"
  let ?specs = "map (\<lambda>k. ExternalSignalWait ''ticket.finished'' (Some k)) (map (ticket_of tickets) (map stage_id (wf_stages defn)))"
  have "get_items (map_of tickets) id (map stage_id (wf_stages defn)) = Inr (map (ticket_of tickets) (map stage_id (wf_stages defn)))"
    using get_items_eq [of "map stage_id (wf_stages defn)" "map_of tickets" id] keys by (simp add: ticket_of_def)
  moreover obtain db' where c: "create_workflow_run repo ?run ?specs ?b = Inr db'"
    by (rule create_run_returns [of ?run ?specs ?b repo])
      (use assms(2-4) in \<open>auto simp: launched_run_def next_draw_free_def\<close>)
  ultimately have s: "store_run repo t defn args run_ticket tickets db = (Inr ?wid, db')" by (simp add: store_run_def uuid4_def Let_def)
  obtain rows where R: "workflow_runs db' = workflow_runs ?b @ [run_row_of repo ?run]" "workflow_waits db' = workflow_waits ?b @ rows"
    "map wait_spec rows = ?specs" "workflow_db.more db' = workflow_db.more ?b" by (rule create_workflow_runE [OF c]) blast
  note T = ticket_tables_cong [OF activity_tables_cong(5) [OF R(4)]]
  show thesis
    by (rule that [OF s]) (use R(1-3) T in \<open>simp_all add: ticket_inv_def ticket_keys_def comp_def\<close>)
qed

lemma launched_run_ok:
  assumes "well_formed_stages (wf_stages defn)" and "\<forall>s \<in> set (wf_stages defn). map_of tickets (stage_id s) \<noteq> None"
  shows "static_run_ok (run_row_of repo (launched_run wid cid defn args run_ticket tickets t))"
proof -
  let ?run = "launched_run wid cid defn args run_ticket tickets t"
  let ?m = "\<lparr>machine_definition = defn, ticket_map = tickets\<rparr>"
  have "machine_ok ?m" using assms by (auto simp: machine_ok_def)
  moreover from initialize_ok [OF this, of "map (\<lambda>(k, v). (k, JStr v)) args"] have "state_ok ?m (launched_state defn args)"
    by (simp add: launched_state_def initialize_def initial_stage_def [abs_def])
  moreover have "static_machine_of (run_record (run_row_of repo ?run)) defn = ?m"
    by (simp add: static_machine_of_def run_record_def run_row_of_def workflow_run.defs run_row.defs launched_run_def)
  ultimately show ?thesis
    by (simp add: static_run_ok_def run_row_of_def workflow_run.defs run_row.defs launched_run_def make_versioned_state_def)
qed

section \<open>What a launch leaves\<close>

definition launched_ticket :: "string \<Rightarrow> (string \<times> string) list \<Rightarrow> string \<Rightarrow> (string \<times> string) list \<Rightarrow> 'z ticket_db_scheme \<Rightarrow> stage_def \<Rightarrow> bool" where
  "launched_ticket repo args run_ticket tickets db s \<longleftrightarrow>
     (\<exists>r. find_ticket repo (ticket_of tickets (stage_id s)) db = Some r \<and> ticket_state r = TkReady \<and> ticket_title r = fill args (stage_title s) \<and>
        ticket_harness r = stage_harness s \<and> ticket_model r = stage_model s \<and> ticket_worktree r = stage_worktree s \<and> ticket_parent r = Some run_ticket) \<and>
     {u. depends repo db (ticket_of tickets (stage_id s)) u} = ticket_of tickets ` set (depends_on s)"

text \<open>New tickets that wait for each other do not change what else is ready; of themselves, those without a dependency are.\<close>

lemma ready_with_tree:
  assumes frame: "tree_frame repo (insert run_ticket ts) db db1" and inv: "ticket_inv db" "ticket_inv db1"
    and new: "\<forall>t \<in> insert run_ticket ts. find_ticket repo t db = None"
    and container: "get_ticket_status repo run_ticket db1 = Some TkPlanned"
    and tree: "\<forall>t \<in> ts. get_ticket_status repo t db1 = Some TkReady \<and> (\<forall>u. depends repo db1 t u \<longrightarrow> u \<in> ts)"
  shows "set (compute_ready repo db1) = set (compute_ready repo db) \<union> {t \<in> ts. \<forall>u. \<not> depends repo db1 t u}"
proof -
  have gone: "get_ticket_status repo t db = None" if "t \<in> insert run_ticket ts" for t
    using bspec [OF new that] by (simp add: get_ticket_status_def)
  have same: "get_ticket_status repo t db1 = get_ticket_status repo t db" if "t \<notin> insert run_ticket ts" for t
    using tree_frame_find [OF frame, of repo t] that by (simp add: get_ticket_status_def)
  have "t \<in> set (compute_ready repo db1) \<longleftrightarrow> t \<in> set (compute_ready repo db) \<or> t \<in> ts \<and> (\<forall>u. \<not> depends repo db1 t u)" for t
  proof (cases "t \<in> insert run_ticket ts")
    case False
    have "get_ticket_status repo u db1 = get_ticket_status repo u db" if "depends repo db t u" for u
      using dependency_exists [OF inv(1) that] gone [of u] same [of u] by fastforce
    with False same [OF False] depends_frame [OF frame False] show ?thesis
      unfolding compute_ready_mem [OF inv(1)] compute_ready_mem [OF inv(2)] by auto
  next
    case True
    note mem = compute_ready_mem [OF inv(1)] compute_ready_mem [OF inv(2)] gone [OF True]
    show ?thesis
    proof (cases "t \<in> ts")
      case ts: True
      have ready: "get_ticket_status repo t db1 = Some TkReady" using tree ts by blast
      have "\<not> (\<exists>s. get_ticket_status repo u db1 = Some s \<and> finished_status s)" if "depends repo db1 t u" for u
      proof -
        have "get_ticket_status repo u db1 = Some TkReady" using tree ts that by blast
        then show ?thesis by (simp add: finished_status_def)
      qed
      then show ?thesis unfolding mem ready using ts by blast
    next
      case False
      with True container show ?thesis unfolding mem by auto
    qed
  qed
  then show ?thesis by blast
qed

lemma stored_launched:
  assumes stored: "stage_stored load dump repo args run_ticket tickets db s" and p: "p = launch_parsed load dump args run_ticket tickets s"
    "pt_title p = Some (fill args (stage_title s))" "pt_harness p = stage_harness s" "pt_model p = stage_model s" "pt_worktree p = stage_worktree s"
    "pt_parent p = Some run_ticket" "pt_deps p = map (ticket_of tickets) (depends_on s)"
    and "launchable args s" and "ticket_of tickets (stage_id s) \<notin> ticket_of tickets ` set (depends_on s)"
  shows "launched_ticket repo args run_ticket tickets db s"
proof -
  let ?t = "ticket_of tickets (stage_id s)"
  have title: "fill args (stage_title s) \<noteq> []" using assms(9) by (simp add: launchable_def field_ok_def)
  from stored obtain r where r: "find_ticket repo ?t db = Some r" "ticket_state r = TkReady"
    "ticket_title r = (case pt_title p of None \<Rightarrow> ?t | Some w \<Rightarrow> if w = [] then ?t else w)"
    "ticket_harness r = pt_harness p" "ticket_model r = pt_model p" "ticket_worktree r = pt_worktree p" "ticket_parent r = pt_parent p"
    and deps: "{u. depends repo db ?t u} = set (pt_deps p) - {?t}"
    unfolding stage_stored_def Let_def p(1) [symmetric] by blast
  have "set (pt_deps p) - {?t} = ticket_of tickets ` set (depends_on s)" using assms(10) by (simp add: p(7))
  with r deps title show ?thesis unfolding launched_ticket_def p(2-6) by simp
qed

lemma run_readable: "name_re (wf_name defn) \<Longrightarrow> ticket_id_ok t \<Longrightarrow> find_ticket repo t db = None \<Longrightarrow> inputs_named {t. ticket_id_ok t} db \<Longrightarrow>
    \<exists>db'. place_ticket load dump sha repo now t (run_document defn args) (files, db) = (Inr (), AList.update t (run_document defn args) files, db') \<and>
      inputs_named {t. ticket_id_ok t} db'"
  by (rule place_ticket_returns [of t repo db _ load "run_document defn args" "{t. ticket_id_ok t}" dump sha now files, OF _ _ refl])
    (auto simp: run_document_parsed plain_ids_def dest: id_colon)

text \<open>The tree is built: what \<open>build_treeE\<close> says of a tree that is complete, from what its documents say.\<close>

lemma tree_returns:
  fixes db :: "'z ticket_db_scheme"
  assumes name: "name_re (wf_name defn)" and inv: "ticket_inv db" "inputs_named {t. ticket_id_ok t} db"
    and ids: "distinct (run_ticket # map (\<lambda>s. ticket_of tickets (stage_id s)) stages)"
      "\<forall>t \<in> set (run_ticket # map (\<lambda>s. ticket_of tickets (stage_id s)) stages). ticket_id_ok t \<and> find_ticket repo t db = None"
    and m: "\<forall>s \<in> set stages. mapped tickets s"
    and order: "\<And>a s b. stages = a @ s # b \<Longrightarrow> set (depends_on s) \<subseteq> stage_id ` set a"
    and faithful: "launch_faithful load dump args run_ticket tickets stages" and writable: "\<forall>s \<in> set stages. launchable args s"
  obtains files' db' where "build_tree load dump sha validate repo now defn args run_ticket tickets stages (files, db) =
      (Inr (), run_ticket # map (\<lambda>s. ticket_of tickets (stage_id s)) stages, files', db')"
    "tree_frame repo (insert run_ticket ((\<lambda>s. ticket_of tickets (stage_id s)) ` set stages)) db db'"
    "\<forall>t. t \<notin> insert run_ticket ((\<lambda>s. ticket_of tickets (stage_id s)) ` set stages) \<longrightarrow> map_of files' t = map_of files t"
    "run_stored repo defn run_ticket db'" "\<forall>s \<in> set stages. launched_ticket repo args run_ticket tickets db' s"
proof -
  let ?tk = "\<lambda>s. ticket_of tickets (stage_id s)" and ?P = "launch_parsed load dump args run_ticket tickets"
  have run: "ticket_id_ok run_ticket" "find_ticket repo run_ticket db = None" using ids(2) by simp_all
  have dep_ids: "ticket_of tickets d \<in> ?tk ` set a" if "stages = a @ s # b" "d \<in> set (depends_on s)" for a s b d
    using order [OF that(1)] that(2) by auto
  have read: "pt_error (?P s) = None \<and> pt_title (?P s) = Some (fill args (stage_title s)) \<and> pt_harness (?P s) = stage_harness s \<and>
      pt_model (?P s) = stage_model s \<and> pt_worktree (?P s) = stage_worktree s \<and> pt_parent (?P s) = Some run_ticket \<and>
      pt_deps (?P s) = map (ticket_of tickets) (depends_on s)" if s: "s \<in> set stages" for s
  proof (rule launch_read [OF faithful s _ run(1) _ refl])
    from split_list [OF s] obtain a b where "stages = a @ s # b" by blast
    with dep_ids ids(2) show "\<forall>d \<in> set (depends_on s). ticket_id_ok (ticket_of tickets d)" by fastforce
  qed (use writable s in simp)
  obtain db1 where p: "place_ticket load dump sha repo now run_ticket (run_document defn args) (files, db) =
      (Inr (), AList.update run_ticket (run_document defn args) files, db1)" "inputs_named {t. ticket_id_ok t} db1"
    using run_readable [OF name run inv(2)] by blast
  have one: "one_ticket repo run_ticket db db1" by (rule place_ticketE(2) [OF p(1) run inv(1) refl])
  from place_ticketE(3) [OF p(1) run inv(1) refl] have found: "find_ticket repo run_ticket db1 \<noteq> None"
    using run_document_parsed [OF name] by (auto split: if_splits)
  have "\<exists>files' db'. place_stages load dump sha validate repo now args run_ticket tickets stages [run_ticket]
      (AList.update run_ticket (run_document defn args) files, db1) = (Inr (), [run_ticket] @ map ?tk stages, files', db')"
  proof (rule place_stages_return [where ts = "{t. ticket_id_ok t}"])
    show "\<forall>d \<in> set (depends_on s). d \<in> stage_id ` set a \<or> find_ticket repo (ticket_of tickets d) db1 \<noteq> None" if "stages = a @ s # b" for a s b
      using order [OF that] by blast
    show "\<forall>s \<in> set stages. mapped tickets s \<and> ticket_id_ok (?tk s) \<and> find_ticket repo (?tk s) db1 = None \<and> ?tk s \<in> {t. ticket_id_ok t}"
    proof
      fix s assume s: "s \<in> set stages"
      then have "?tk s \<noteq> run_ticket" using ids(1) by auto
      with one have "find_ticket repo (?tk s) db1 = find_ticket repo (?tk s) db" by (simp add: one_ticket_def)
      with m ids(2) s show "mapped tickets s \<and> ticket_id_ok (?tk s) \<and> find_ticket repo (?tk s) db1 = None \<and> ?tk s \<in> {t. ticket_id_ok t}" by simp
    qed
    show "ticket_inv db1" using one inv(1) by (simp add: one_ticket_def ticket_more_def)
  qed (use read ids(1) found p(2) in \<open>auto simp: plain_ids_def dest: id_colon\<close>)
  with p(1) obtain files' db' where tree: "build_tree load dump sha validate repo now defn args run_ticket tickets stages (files, db) =
      (Inr (), run_ticket # map ?tk stages, files', db')" by (auto simp: build_tree_def)
  from tree name inv(1) ids m show thesis
  proof (cases rule: build_treeE)
    case (placed before rest)
    then have b: "before = stages" "rest = []" by simp_all
    have "launched_ticket repo args run_ticket tickets db' s" if s: "s \<in> set stages" for s
    proof -
      from split_list [OF s] obtain a c where st: "stages = a @ s # c" by blast
      have "?tk s \<notin> ?tk ` set a" using ids(1) st by auto
      moreover have "ticket_of tickets ` set (depends_on s) \<subseteq> ?tk ` set a" by (rule image_subsetI) (rule dep_ids [OF st])
      ultimately have out: "?tk s \<notin> ticket_of tickets ` set (depends_on s)" by (rule contra_subsetD [rotated])
      have stored: "stage_stored load dump repo args run_ticket tickets db' s" by (rule placed(7)) (simp add: b s)
      show ?thesis by (rule stored_launched [OF stored refl _ _ _ _ _ _ _ out]) (use read [OF s] writable s in simp_all)
    qed
    then have "\<forall>s \<in> set stages. launched_ticket repo args run_ticket tickets db' s" by blast
    with placed(3,4,8) show thesis by (intro that [OF tree]) (simp_all add: b)
  qed simp
qed

lemma order_prefixes:
  assumes "\<And>i. i < length stages \<Longrightarrow> set (depends_on (stages ! i)) \<subseteq> stage_id ` set (take i stages)" and "stages = a @ s # b"
  shows "set (depends_on s) \<subseteq> stage_id ` set a"
  using assms(1) [of "length a"] assms(2) by simp

lemma same_tickets:
  assumes "ticket_rows db' = ticket_rows db" and "dep_rows db' = dep_rows db"
  shows "find_ticket q t db' = find_ticket q t db" "run_stored repo defn run_ticket db' = run_stored repo defn run_ticket db"
    "launched_ticket repo args run_ticket tickets db' s = launched_ticket repo args run_ticket tickets db s"
    "compute_ready repo db' = compute_ready repo db"
  using assms by (simp_all add: find_ticket_def run_stored_def depends_def launched_ticket_def compute_ready_def open_dependency_def [abs_def])

lemma tree_ready:
  assumes frame: "tree_frame repo (insert run_ticket ((\<lambda>s. ticket_of tickets (stage_id s)) ` set stages)) db db1" and inv: "ticket_inv db"
    and ids: "\<forall>t \<in> set (run_ticket # map (\<lambda>s. ticket_of tickets (stage_id s)) stages). ticket_id_ok t \<and> find_ticket repo t db = None"
    and stored: "run_stored repo defn run_ticket db1" "\<forall>s \<in> set stages. launched_ticket repo args run_ticket tickets db1 s"
    and closed: "\<forall>s \<in> set stages. set (depends_on s) \<subseteq> stage_id ` set stages"
  shows "set (compute_ready repo db1) = set (compute_ready repo db) \<union> {ticket_of tickets (stage_id s) | s. s \<in> set stages \<and> depends_on s = []}"
proof -
  let ?tk = "\<lambda>s. ticket_of tickets (stage_id s)"
  have deps: "depends repo db1 (?tk s) u \<longleftrightarrow> u \<in> ticket_of tickets ` set (depends_on s)" if "s \<in> set stages" for s u
    using stored(2) that unfolding launched_ticket_def by blast
  have "set (compute_ready repo db1) = set (compute_ready repo db) \<union> {t \<in> ?tk ` set stages. \<forall>u. \<not> depends repo db1 t u}"
  proof (rule ready_with_tree [OF frame inv tree_frame_inv [OF frame inv]])
    show "\<forall>t \<in> ?tk ` set stages. get_ticket_status repo t db1 = Some TkReady \<and> (\<forall>u. depends repo db1 t u \<longrightarrow> u \<in> ?tk ` set stages)"
    proof (rule ballI)
      fix t assume "t \<in> ?tk ` set stages"
      then obtain s where s: "s \<in> set stages" "t = ?tk s" by blast
      have "ticket_of tickets ` set (depends_on s) \<subseteq> ?tk ` set stages"
        using image_mono [of "set (depends_on s)" "stage_id ` set stages" "ticket_of tickets"] closed s(1) by (simp add: image_image)
      then have "\<forall>u. depends repo db1 t u \<longrightarrow> u \<in> ?tk ` set stages" unfolding s(2) deps [OF s(1)] by blast
      moreover have "get_ticket_status repo t db1 = Some TkReady"
        using stored(2) s by (auto simp: launched_ticket_def get_ticket_status_def)
      ultimately show "get_ticket_status repo t db1 = Some TkReady \<and> (\<forall>u. depends repo db1 t u \<longrightarrow> u \<in> ?tk ` set stages)" by blast
    qed
  qed (use ids stored(1) in \<open>auto simp: run_stored_def get_ticket_status_def\<close>)
  moreover have "{t \<in> ?tk ` set stages. \<forall>u. \<not> depends repo db1 t u} = {?tk s | s. s \<in> set stages \<and> depends_on s = []}"
    using deps by auto
  ultimately show ?thesis by simp
qed

text \<open>Storing the run after the tree.\<close>

lemma tree_run_stored:
  fixes db db1 :: "'z ticket_db_scheme"
  assumes frame: "tree_frame repo (insert run_ticket ((\<lambda>s. ticket_of tickets (stage_id s)) ` set stages)) db db1" and inv: "ticket_inv db" "next_draw_free db"
    and "distinct (run_ticket # map (\<lambda>s. ticket_of tickets (stage_id s)) stages)"
    and ids: "\<forall>t \<in> set (run_ticket # map (\<lambda>s. ticket_of tickets (stage_id s)) stages). ticket_id_ok t \<and> find_ticket repo t db = None"
    and m: "\<forall>s \<in> set stages. mapped tickets s" and S: "set stages = set (wf_stages defn)" "well_formed_stages (wf_stages defn)"
    and runs: "\<forall>r \<in> set (workflow_runs db). run_repository r = repo \<longrightarrow> (\<forall>t. parent_ticket_id r = Some t \<longrightarrow> find_ticket repo t db \<noteq> None)"
  obtains cid db2 where "store_run repo t defn args run_ticket tickets db1 = (Inr (UUID4 (uuid_draws db)), db2)"
    "workflow_runs db2 = workflow_runs db @ [run_row_of repo (launched_run (UUID4 (uuid_draws db)) cid defn args run_ticket tickets t)]"
    "ticket_rows db2 = ticket_rows db1" "dep_rows db2 = dep_rows db1" "ticket_inv db2"
    "\<exists>rows. workflow_waits db2 = workflow_waits db @ rows \<and>
       map wait_spec rows = map (\<lambda>s. ExternalSignalWait ''ticket.finished'' (Some (ticket_of tickets (stage_id s)))) (wf_stages defn)"
proof -
  note same = ticket_only_sel [OF tree_frame_only [OF frame]]
  have keys: "\<forall>s \<in> set (wf_stages defn). map_of tickets (stage_id s) \<noteq> None" using m S(1) by (simp add: mapped_def)
  have some: "wf_stages defn \<noteq> []" using S(2) by (simp add: well_formed_stages_def)
  have free: "next_draw_free db1" using inv(2) by (simp add: next_draw_free_def same)
  have parent: "\<forall>r \<in> set (workflow_runs db1). \<not> (run_repository r = repo \<and> parent_ticket_id r = Some run_ticket)"
    using runs ids by (auto simp: same)
  obtain cid db2 where "store_run repo t defn args run_ticket tickets db1 = (Inr (UUID4 (uuid_draws db1)), db2)"
    "workflow_runs db2 = workflow_runs db1 @ [run_row_of repo (launched_run (UUID4 (uuid_draws db1)) cid defn args run_ticket tickets t)]"
    "ticket_rows db2 = ticket_rows db1" "dep_rows db2 = dep_rows db1" "ticket_inv db2 = ticket_inv db1"
    "\<exists>rows. workflow_waits db2 = workflow_waits db1 @ rows \<and>
       map wait_spec rows = map (\<lambda>s. ExternalSignalWait ''ticket.finished'' (Some (ticket_of tickets (stage_id s)))) (wf_stages defn)"
    by (rule store_run_returns [OF keys some free parent])
  with that tree_frame_inv [OF frame inv(1)] show thesis by (simp add: same)
qed

text \<open>
  C14: a launch that can be written returns, with exactly the tree of its template. If the template passes the validation, the
  fields of its stages can be written and YAML loads what it dumps, the launch returns the ids it numbered. Then the
  run's ticket is planned; every stage has a ready ticket with its title, harness, model and worktree, below the
  run's ticket, that depends on exactly the tickets of the stage's dependencies; of these the scheduler sees those without a
  dependency, besides what it saw before; the run is stored in a form every later round accepts, waiting for the
  tickets of all its stages; and no other ticket or file changes.
\<close>

theorem launch_returns_exactly:
  fixes db :: "'z ticket_db_scheme"
  assumes valid: "validate_workflow (defn\<lparr>builtin := False\<rparr>) = []" and topo: "topo_sorted (wf_stages defn) = Inr stages"
    and names: "run_ticket = run_ticket_of repo stages (files, db)" "tickets = stage_tickets_of repo stages (files, db)"
    and writable: "\<forall>s \<in> set stages. launchable args s" and faithful: "launch_faithful load dump args run_ticket tickets stages"
    and inv: "ticket_inv db" "inputs_named {t. ticket_id_ok t} db" "next_draw_free db"
    and runs: "\<forall>r \<in> set (workflow_runs db). run_repository r = repo \<longrightarrow> (\<forall>t. parent_ticket_id r = Some t \<longrightarrow> find_ticket repo t db \<noteq> None)"
  shows "\<exists>files' db' run. materialize_workflow load dump sha validate repo now at defn args (files, db) =
      (Inr \<lparr>result_workflow = UUID4 (uuid_draws db), result_run_ticket = run_ticket, result_stage_tickets = tickets,
         result_created = run_ticket # map (\<lambda>s. ticket_of tickets (stage_id s)) stages\<rparr>, files', db') \<and>
    ticket_inv db' \<and> run_stored repo defn run_ticket db' \<and> (\<forall>s \<in> set stages. launched_ticket repo args run_ticket tickets db' s) \<and>
    set (compute_ready repo db') = set (compute_ready repo db) \<union> {ticket_of tickets (stage_id s) | s. s \<in> set stages \<and> depends_on s = []} \<and>
    workflow_runs db' = workflow_runs db @ [run] \<and> this_run repo (UUID4 (uuid_draws db)) run \<and> static_run_ok run \<and>
    (\<exists>rows. workflow_waits db' = workflow_waits db @ rows \<and>
       map wait_spec rows = map (\<lambda>s. ExternalSignalWait ''ticket.finished'' (Some (ticket_of tickets (stage_id s)))) (wf_stages defn)) \<and>
    (\<forall>q t. q \<noteq> repo \<or> t \<notin> insert run_ticket ((\<lambda>s. ticket_of tickets (stage_id s)) ` set stages) \<longrightarrow> find_ticket q t db' = find_ticket q t db) \<and>
    (\<forall>t. t \<notin> insert run_ticket ((\<lambda>s. ticket_of tickets (stage_id s)) ` set stages) \<longrightarrow> map_of files' t = map_of files t)"
proof -
  let ?tk = "\<lambda>s. ticket_of tickets (stage_id s)" and ?t = "launch_time at now"
  obtain stages' where "topo_sorted (wf_stages defn) = Inr stages'" "distinct (map stage_id stages')" "set stages' = set (wf_stages defn)"
    "\<And>i. i < length stages' \<Longrightarrow> set (depends_on (stages' ! i)) \<subseteq> stage_id ` set (take i stages')"
    "well_formed_stages (wf_stages defn)" by (rule validated_topo [OF valid]) blast
  with topo have S: "distinct (map stage_id stages)" "set stages = set (wf_stages defn)" "well_formed_stages (wf_stages defn)"
    "\<And>i. i < length stages \<Longrightarrow> set (depends_on (stages ! i)) \<subseteq> stage_id ` set (take i stages)" by simp_all
  have closed: "\<forall>s \<in> set stages. set (depends_on s) \<subseteq> stage_id ` set stages" using S(3) unfolding well_formed_stages_def S(2) by blast
  note L = launch_tickets [OF S(1) closed names]
  have ids: "\<forall>t \<in> set (run_ticket # map ?tk stages). ticket_id_ok t \<and> find_ticket repo t db = None" using L(2) by blast
  have name: "name_re (wf_name defn)" using validated_name [OF valid] by simp
  obtain files1 db1 where tree: "build_tree load dump sha validate repo now defn args run_ticket tickets stages (files, db) =
      (Inr (), run_ticket # map ?tk stages, files1, db1)" "tree_frame repo (insert run_ticket (?tk ` set stages)) db db1"
    "\<forall>t. t \<notin> insert run_ticket (?tk ` set stages) \<longrightarrow> map_of files1 t = map_of files t"
    "run_stored repo defn run_ticket db1" "\<forall>s \<in> set stages. launched_ticket repo args run_ticket tickets db1 s"
    by (rule tree_returns [where sha = sha and validate = validate and now = now and files = files,
        OF name inv(1,2) L(1) ids L(3) order_prefixes [OF S(4)] faithful writable])
  note T = tree_run_stored [where t = ?t and args = args, OF tree(2) inv(1,3) L(1) ids L(3) S(2,3) runs]
  obtain cid db2 where run: "store_run repo ?t defn args run_ticket tickets db1 = (Inr (UUID4 (uuid_draws db)), db2)"
    "workflow_runs db2 = workflow_runs db @ [run_row_of repo (launched_run (UUID4 (uuid_draws db)) cid defn args run_ticket tickets ?t)]"
    and same: "ticket_rows db2 = ticket_rows db1" "dep_rows db2 = dep_rows db1" and inv2: "ticket_inv db2"
    and waits: "\<exists>rows. workflow_waits db2 = workflow_waits db @ rows \<and>
       map wait_spec rows = map (\<lambda>s. ExternalSignalWait ''ticket.finished'' (Some (?tk s))) (wf_stages defn)" by (rule T)
  have "materialize_workflow load dump sha validate repo now at defn args (files, db) =
      (Inr \<lparr>result_workflow = UUID4 (uuid_draws db), result_run_ticket = run_ticket, result_stage_tickets = tickets,
         result_created = run_ticket # map ?tk stages\<rparr>, files1, db2)"
    using tree(1) run(1) by (simp add: materialize_unfold [OF valid topo] names Let_def)
  moreover have "static_run_ok (run_row_of repo (launched_run (UUID4 (uuid_draws db)) cid defn args run_ticket tickets ?t))"
    by (rule launched_run_ok [OF S(3)]) (use L(3) S(2) in \<open>simp add: mapped_def\<close>)
  moreover have "this_run repo (UUID4 (uuid_draws db)) (run_row_of repo (launched_run (UUID4 (uuid_draws db)) cid defn args run_ticket tickets ?t))"
    by (simp add: this_run_def launched_run_def)
  moreover have "set (compute_ready repo db1) = set (compute_ready repo db) \<union> {?tk s | s. s \<in> set stages \<and> depends_on s = []}"
    by (rule tree_ready [OF tree(2) inv(1) ids tree(4,5) closed])
  moreover have "\<forall>q t. q \<noteq> repo \<or> t \<notin> insert run_ticket (?tk ` set stages) \<longrightarrow> find_ticket q t db2 = find_ticket q t db"
    using tree_frame_find [OF tree(2)] by (simp add: same_tickets [OF same])
  ultimately show ?thesis
    using run(2) waits inv2 tree(3-5)
    by (intro exI [of _ files1] exI [of _ db2] exI [of _ "run_row_of repo (launched_run (UUID4 (uuid_draws db)) cid defn args run_ticket tickets ?t)"] conjI)
      (simp_all add: same_tickets [OF same])
qed

section \<open>A sample\<close>

definition launch_workflow :: workflow_def where
  "launch_workflow = sample_workflow [sample_stage ''b'' [''a''], sample_stage ''a'' []]"

definition launch_yaml :: "stage_def \<Rightarrow> string list \<Rightarrow> yaml" where
  "launch_yaml s deps = frontmatter_yaml (stage_frontmatter [] ''t005'' deps s)"

definition launch_dump :: "yaml \<Rightarrow> string" where
  "launch_dump v = (if v = launch_yaml (sample_stage ''a'' []) [] then ''A'' else ''B'')"

definition launch_load :: "string \<Rightarrow> yaml_result" where
  "launch_load s = (if s = ''A'' then YValue (launch_yaml (sample_stage ''a'' []) []) else
     if s = ''B'' then YValue (launch_yaml (sample_stage ''b'' [''a'']) [''t006'']) else YError ''bad'')"

lemma launch_topo: "topo_sorted (wf_stages launch_workflow) = Inr [sample_stage ''a'' [], sample_stage ''b'' [''a'']]"
  by code_simp

lemma launch_valid: "validate_workflow (launch_workflow\<lparr>builtin := False\<rparr>) = []"
  by code_simp

lemma launch_numbers:
  "run_ticket_of ''r'' [sample_stage ''a'' [], sample_stage ''b'' [''a'']] ([], sample_ticket_store) = ''t005''"
  "stage_tickets_of ''r'' [sample_stage ''a'' [], sample_stage ''b'' [''a'']] ([], sample_ticket_store) = [(''a'', ''t006''), (''b'', ''t007'')]"
proof -
  have k: "known_ids ''r'' ([], sample_ticket_store) = [''t1'', ''t2'', ''t3'', ''t4'']" by (simp add: known_ids_def sample_ticket_def)
  have "highest_number [''t1'', ''t2'', ''t3'', ''t4''] = 4" by code_simp
  moreover have "numbered_id 5 = ''t005''" "numbered_id 6 = ''t006''" "numbered_id 7 = ''t007''" by code_simp+
  ultimately have "allocate_ids ''r'' 3 ([], sample_ticket_store) = [''t005'', ''t006'', ''t007'']"
    by (simp add: allocate_ids_def k upt_rec numeral_3_eq_3)
  then show "run_ticket_of ''r'' [sample_stage ''a'' [], sample_stage ''b'' [''a'']] ([], sample_ticket_store) = ''t005''"
    "stage_tickets_of ''r'' [sample_stage ''a'' [], sample_stage ''b'' [''a'']] ([], sample_ticket_store) = [(''a'', ''t006''), (''b'', ''t007'')]"
    by (simp_all add: run_ticket_of_def stage_tickets_of_def sample_stage_def numeral_3_eq_3)
qed

lemma launch_sample_faithful: "launch_faithful launch_load launch_dump [] ''t005'' [(''a'', ''t006''), (''b'', ''t007'')]
    [sample_stage ''a'' [], sample_stage ''b'' [''a'']]"
  by code_simp

lemma launch_sample_writable: "\<forall>s \<in> set [sample_stage ''a'' [], sample_stage ''b'' [''a'']]. launchable [] s"
  by code_simp

lemma sample_draw_free: "next_draw_free sample_ticket_store" "inputs_named {t. ticket_id_ok t} sample_ticket_store"
proof -
  have "workflow_runs sample_ticket_store = workflow_runs sample_dag_store" "uuid_draws sample_ticket_store = uuid_draws sample_dag_store"
    "retained_facts sample_ticket_store = retained_facts sample_dag_store" by (simp_all add: sample_ticket_store_def activity_db.defs)
  then show "next_draw_free sample_ticket_store"
    by (simp add: next_draw_free_def sample_dag_store_def sample_signal_store_def sample_activity_store_def workflow_db.defs sample_store_def
        permission_db.defs sample_permission_simps)
qed (simp add: inputs_named_def sample_inputs)

theorem launch_returns_exactly_witness:
  "\<exists>files' db' run. materialize_workflow launch_load launch_dump id (\<lambda>_. Inl ValidationError) ''r'' 0 None launch_workflow [] ([], sample_ticket_store) =
      (Inr \<lparr>result_workflow = UUID4 (uuid_draws sample_ticket_store), result_run_ticket = ''t005'',
         result_stage_tickets = [(''a'', ''t006''), (''b'', ''t007'')], result_created = [''t005'', ''t006'', ''t007'']\<rparr>, files', db') \<and>
    ''t006'' \<in> set (compute_ready ''r'' db') \<and> ''t007'' \<notin> set (compute_ready ''r'' db') \<and> depends ''r'' db' ''t007'' ''t006'' \<and> static_run_ok run"
proof -
  let ?stages = "[sample_stage ''a'' [], sample_stage ''b'' [''a'']]" and ?tickets = "[(''a'', ''t006''), (''b'', ''t007'')]"
  have runs: "\<forall>r \<in> set (workflow_runs sample_ticket_store). run_repository r = ''r'' \<longrightarrow>
      (\<forall>t. parent_ticket_id r = Some t \<longrightarrow> find_ticket ''r'' t sample_ticket_store \<noteq> None)"
    by (simp add: sample_ticket_store_def activity_db.defs sample_dag_store_def)
  have tk: "ticket_of ?tickets (stage_id (sample_stage ''a'' [])) = ''t006''" "ticket_of ?tickets (stage_id (sample_stage ''b'' [''a''])) = ''t007''"
    "ticket_of ?tickets ''a'' = ''t006''" by (simp_all add: ticket_of_def sample_stage_def)
  obtain files' db' run where R: "materialize_workflow launch_load launch_dump id (\<lambda>_. Inl ValidationError) ''r'' 0 None launch_workflow []
      ([], sample_ticket_store) = (Inr \<lparr>result_workflow = UUID4 (uuid_draws sample_ticket_store), result_run_ticket = ''t005'',
         result_stage_tickets = ?tickets, result_created = ''t005'' # map (\<lambda>s. ticket_of ?tickets (stage_id s)) ?stages\<rparr>, files', db')"
    "\<forall>s \<in> set ?stages. launched_ticket ''r'' [] ''t005'' ?tickets db' s"
    "set (compute_ready ''r'' db') = set (compute_ready ''r'' sample_ticket_store) \<union> {ticket_of ?tickets (stage_id s) | s. s \<in> set ?stages \<and> depends_on s = []}"
    "static_run_ok run"
    using launch_returns_exactly [OF launch_valid launch_topo launch_numbers(1) [symmetric] launch_numbers(2) [symmetric] launch_sample_writable
        launch_sample_faithful sample_ticket_store_inv sample_draw_free(2,1) runs, of id "\<lambda>_. Inl ValidationError" 0 None]
    by (elim exE conjE) (rule that; assumption)
  have deps: "depends_on (sample_stage i d) = d" for i d by (simp add: sample_stage_def)
  have roots: "{ticket_of ?tickets (stage_id s) | s. s \<in> set ?stages \<and> depends_on s = []} = {''t006''}" using deps tk(1)
    by (auto intro!: exI [of _ "sample_stage ''a'' []"])
  have "\<not> ''t007'' \<in> set (compute_ready ''r'' sample_ticket_store)" by (auto simp: compute_ready_def sample_ticket_def)
  then have "''t006'' \<in> set (compute_ready ''r'' db')" "''t007'' \<notin> set (compute_ready ''r'' db')"
    unfolding R(3) roots by simp_all
  moreover have "depends ''r'' db' ''t007'' ''t006''"
  proof -
    have "{u. depends ''r'' db' ''t007'' u} = ticket_of ?tickets ` {''a''}" using R(2) deps by (simp add: launched_ticket_def tk(2))
    then show ?thesis by (auto simp: tk(3))
  qed
  ultimately show ?thesis using R(1,4) by (simp add: tk) blast
qed

end
