(* ===== verification/Spec2Isabelle.thy ===== *)
theory Spec2Isabelle
  imports FactLog WorkflowDefinition StaticDag PermissionService Permissions ActivityLeases WorkflowRuns WorkflowRounds EvidenceLedger LaunchReturns
begin

text \<open>
  A verification development for Murder, a supervisor that plans tickets, runs coding agents on them and
  keeps everything durable in SQLite and in Markdown files. Modelled is the durable core under
  \<open>src/murder/\<close>: the stores, the deciders that are pure, and the services that compose them. Each
  operation is one definition with the guards, early returns and exceptions of the code, in its order.

  \<^bold>\<open>The program and its theories.\<close> The stores share one database, and every record of tables extends the one
  below it, so that an operation on an inner layer leaves the tables of the outer ones alone.

  \<^item> \<open>Prelude\<close>, \<open>Contracts\<close>: exceptions as values (\<open>exn + 'a\<close>), tables as lists of rows, UUIDs, JSON,
    instants, principals and correlations (\<open>contracts/common.py\<close>).
  \<^item> \<open>FactLog\<close>: the append-only facts and the projection inputs (\<open>facts/\<close>): append, replay, cursors, tails,
    retention. Every other store appends its facts here in its own transaction.
  \<^item> \<open>WorkflowDefinition\<close>: templates and their validation with the cycle search (\<open>work/workflows/definition.py\<close>).
    \<open>WorkflowContracts\<close>: runs, waits, signals, decision inputs and transition plans (\<open>runtime.py\<close>).
    \<open>StaticDag\<close>: the machine that runs a template (\<open>static_dag.py\<close>).
  \<^item> \<open>WorkflowStore\<close>, \<open>WorkflowRuns\<close>: runs, inbox and waits at rest and the one write path for decisions
    (\<open>state/persistence/workflow_runs.py\<close>). \<open>WorkflowRuntime\<close>, \<open>WorkflowRounds\<close>: load, decide and apply
    with bounded retries, delivery, migration and recovery (\<open>work/workflows/service.py\<close>).
  \<^item> \<open>ActivityContracts\<close>: routing and admission, both pure (\<open>work/routing.py\<close>, \<open>runtime/admission.py\<close>).
    \<open>Activities\<close>, \<open>ActivityLeases\<close>: the queue with its reservations, locks and fenced claims
    (\<open>state/persistence/activities.py\<close>). A completed activity signals the workflow that asked for it.
  \<^item> \<open>PermissionContracts\<close>, \<open>Operations\<close>: operations, approvals, grants and proofs, and their validators
    (\<open>permissions/contracts.py\<close>). \<open>Permissions\<close>: their tables (\<open>permissions/persistence.py\<close>). \<open>Approvals\<close>:
    reviews that issue a grant and signal a workflow (\<open>state/persistence/approvals.py\<close>).
    \<open>PermissionService\<close>: request, approve, enforce, revoke, and the executor behind enforcement
    (\<open>service.py\<close>, \<open>policy.py\<close>, \<open>enforcement.py\<close>).
  \<^item> \<open>LineRanges\<close>, \<open>SourceText\<close>, \<open>Evidence\<close>, \<open>EvidenceLedger\<close>: what a recipient is sent of the source
    files and what it is known to have (\<open>context_compiler/\<close>: \<open>ranges.py\<close>, \<open>source.py\<close>, \<open>rendering.py\<close>, \<open>evidence.py\<close>,
    \<open>ledger/\<close>, \<open>persistence/evidence_ledger.py\<close>).
  \<^item> \<open>Tickets\<close>: the tables and the status machine with its cascades and outcomes (\<open>state/persistence/tickets.py\<close>,
    \<open>escalations.py\<close>, \<open>work/tickets/lifecycle.py\<close>, \<open>carve.py\<close>, \<open>runtime/orchestration/outcome.py\<close>,
    \<open>ticket_ops.py\<close>). A ticket that ends signals the runs that wait for it. \<open>TicketDocs\<close>, \<open>TicketSync\<close>: the
    Markdown of tickets and its exchange with the tables (\<open>work/tickets/parser.py\<close>, \<open>render.py\<close>, \<open>sync.py\<close>).
  \<^item> \<open>StageOrder\<close>, \<open>Materialize\<close>, \<open>Launch\<close>, \<open>LaunchReturns\<close>: the launch of a template, which puts its stages in order, writes and reads
    a document for each, stores the run and cleans up after a failure (\<open>work/workflows/materialize.py\<close>).
\<close>

text \<open>
  \<^bold>\<open>What the lemmas show.\<close>

  \<^item> Workflows: templates that pass the validation are acyclic and closed; a decision of the static machine
    starts only stages whose dependencies succeeded, a waiting run is never stuck, and successful tickets
    complete it. The store applies a plan only to the revision it was computed from, once, with every
    effect of it or none, whatever others write in between; a round on a well-formed run that nobody interferes with returns, and
    recovery ends.
  \<^item> Activities: any interleaving of the operations keeps the fences growing, so that a claim that was superseded
    stays dead; a completion is recorded once, and locks are exclusive.
  \<^item> Permissions: an effect happens only behind a proof for exactly that operation, a proof works once, a
    grant is not used more often than its scope allows, and a grant of an approval has reviews that satisfy the policy.
  \<^item> Context: the range algebra is that of sets of lines; a plan covers what was asked for, and what was
    confirmed as delivered is loaded again as it was.
  \<^item> Tickets: the tables stay referentially intact over any sequence of operations; completion, reopening and readiness
    are exact; a document that is written reads back as the ticket; a pass over the directory that ends leaves every
    readable document in sync. A launch whose documents can be written returns with exactly the tree and run of its
    template, a failed one leaves the tables as they were.

  \<^bold>\<open>Interfaces.\<close> Three contracts are locales: \<open>fact_sink\<close> (what the writers of facts rely on, interpreted by the fact
  log), \<open>workflow_machine\<close> (what the runtime asks of a machine, interpreted by the static DAG), and
  \<open>fenced_lease\<close> (why a growing fence kills old holders, interpreted by the activity store).

  \<^bold>\<open>Loops.\<close> No fuel is used: the loops of the code are total functions. \<open>dfs_loop\<close>, \<open>kahn\<close>, \<open>settle\<close>, \<open>substitute\<close> and
  \<open>recover_loop\<close> end by measures (vertices and edges left, open degrees, blocked stages, text left, signals
  left). \<open>decide_attempts\<close> counts down \<open>max_conflict_retries\<close>, which is an argument in the code too.

  \<^bold>\<open>Parameters.\<close> Code that is not in the repository is an argument: \<open>validate\<close> is pydantic's construction of a payload
  from JSON, \<open>sha\<close> is SHA-256, \<open>udiff\<close> the body of \<open>difflib.unified_diff\<close>, \<open>load\<close> and \<open>dump\<close> are PyYAML. The
  clock (\<open>now\<close>, \<open>later\<close>), the file system behind the reader (\<open>worktree\<close>), and the writes of other processes between two
  transactions (\<open>env\<close>) are arguments too. Where a property needs a law of one of them (that loading what was dumped
  gives the value back, that a hash is not shared by two of the texts at hand) the law is a named premise and its witness satisfies it.

  \<^bold>\<open>Conventions.\<close> A transaction that raises is an error without a state. Where the connection
  commits by itself, or an operation has several transactions, the answer or error stands next to the state it
  leaves. Random identifiers are numbered draws of a counter in the state; name-based ones are symbolic. Instants are
  integers in microseconds, numbers of JSON documents are integers, text is ASCII. Directories of documents
  are association lists from the stem of a file to its text.
\<close>

text \<open>
  \<^bold>\<open>What is not modelled.\<close> The application shell and its sockets (\<open>app/\<close>); the indexing and ranking of source code
  (the rest of \<open>context_compiler/\<close>), which rests on parsers and models outside the repository; the control of agents,
  harnesses and terminals (\<open>llm/\<close>, the rest of \<open>runtime/\<close>), whose behaviour is that of other programs; logging
  and the event bus; completion checks over Git (\<open>verdict/\<close>); plans, notes, reports and triggers; schema migrations and
  the tables no modelled operation writes. Inside the modelled files the following is left out: the message of an issue, which
  its other fields determine; the second validation of persisted records other than proposed operations; rows
  of unmodelled tables that refer to a ticket; \<open>_append_transition_outbox\<close>, whose list of batches is empty, so that it
  writes nothing; the ticket commands that stop agents or edit documents by hand.

  Where the code departs from its own comments or intentions the definitions follow the code, and the
  properties say what it really does: a refused edit of metadata keeps the schedule it had already written, a
  document that names a missing ticket stops every later one from being read, reopening returns only the
  ready dependents, and the document of the stage a launch failed on stays behind.
\<close>

end
